(* ===== verification/Workshop_Prelude.thy ===== *)
theory Workshop_Prelude
  imports Main "HOL-Library.Word" "HOL-Library.Multiset"
begin

text \<open>
  The shared vocabulary of the development: the undefined behaviours a C++ operation can
  run into, bounds-checked array access, counting loops, and the facts on powers of two that
  the ring buffer and the hash tables use for their index masks.
\<close>

unbundle bit_operations_syntax

named_theorems cxx_simps \<open>rewriting of the C++ result type and of array access\<close>
named_theorems mask_simps \<open>index masks of power-of-two tables\<close>
named_theorems loop_simps \<open>counting loops\<close>

type_synonym i8 = "8 word"
type_synonym i32 = "32 word"
type_synonym i64 = "64 word"
type_synonym u64 = "64 word"

section \<open>Undefined behaviour as a value\<close>

text \<open>
  An operation whose C++ original has undefined behaviour on some inputs returns a value
  of the sum type \<open>ub + 'a\<close>: the left injection names what went wrong. The failure of an
  assertion, which ends the program, is a value of the same kind.
\<close>

datatype ub = OutOfBounds | SignedOverflow | NullDeref | DivByZero | Misaligned | RestrictViolation
  | Uninitialised | AssertionFailure | ShiftTooLarge | DataRace

type_synonym 'a result = "ub + 'a"

definition rbind :: "'a result \<Rightarrow> ('a \<Rightarrow> 'b result) \<Rightarrow> 'b result" where
  "rbind r f = (case r of Inl e \<Rightarrow> Inl e | Inr x \<Rightarrow> f x)"

lemma rbind_simps [simp, cxx_simps]:
  "rbind (Inl e) f = Inl e"
  "rbind (Inr x) f = f x"
  by (simp_all add: rbind_def)

lemma rbind_eq_Inr [cxx_simps]:
  "rbind r f = Inr y \<longleftrightarrow> (\<exists>x. r = Inr x \<and> f x = Inr y)"
  by (auto simp: rbind_def split: sum.splits)

lemma rbind_assoc: "rbind (rbind r f) g = rbind r (\<lambda>x. rbind (f x) g)"
  by (cases r) simp_all

text \<open>Array access: the subscript operator of \<open>std::array\<close>, \<open>std::vector\<close> and raw
  pointers is undefined outside the array.\<close>

definition array_get :: "'a list \<Rightarrow> nat \<Rightarrow> 'a result" where
  "array_get xs i = (if i < length xs then Inr (xs ! i) else Inl OutOfBounds)"

definition array_set :: "'a list \<Rightarrow> nat \<Rightarrow> 'a \<Rightarrow> 'a list result" where
  "array_set xs i v = (if i < length xs then Inr (xs[i := v]) else Inl OutOfBounds)"

lemma array_get_in [simp]: "i < length xs \<Longrightarrow> array_get xs i = Inr (xs ! i)"
  by (simp add: array_get_def)

lemma array_get_out [simp]: "length xs \<le> i \<Longrightarrow> array_get xs i = Inl OutOfBounds"
  by (simp add: array_get_def)

lemma array_set_in [simp]: "i < length xs \<Longrightarrow> array_set xs i v = Inr (xs[i := v])"
  by (simp add: array_set_def)

lemma array_set_out [simp]: "length xs \<le> i \<Longrightarrow> array_set xs i v = Inl OutOfBounds"
  by (simp add: array_set_def)

lemma nth_list_update_if: "i < length xs \<Longrightarrow> xs[j := v] ! i = (if j = i then v else xs ! i)"
  by simp

lemma nth_list_update_any: "xs[j := v] ! i = (if j = i \<and> j < length xs then v else xs ! i)"
  by (cases "j < length xs") (auto simp: list_update_beyond)

text \<open>Arithmetic of \<open>int\<close>: a result that does not fit into 32 bits is undefined.\<close>

definition int_range :: "int \<Rightarrow> bool" where
  "int_range x \<longleftrightarrow> - (2 ^ 31) \<le> x \<and> x < 2 ^ 31"

definition to_int :: "int \<Rightarrow> int result" where
  "to_int x = (if int_range x then Inr x else Inl SignedOverflow)"

definition to_long :: "int \<Rightarrow> int result" where
  "to_long x = (if - (2 ^ 63) \<le> x \<and> x < 2 ^ 63 then Inr x else Inl SignedOverflow)"

lemma to_long_ok [simp]: "- (2 ^ 63) \<le> x \<Longrightarrow> x < 2 ^ 63 \<Longrightarrow> to_long x = Inr x"
  by (simp add: to_long_def)

lemma to_int_ok [simp]: "- (2 ^ 31) \<le> x \<Longrightarrow> x < 2 ^ 31 \<Longrightarrow> to_int x = Inr x"
  by (simp add: to_int_def int_range_def)

text \<open>The number of set bits of a machine word.\<close>

definition bit_count :: "'a::len word \<Rightarrow> nat" where
  "bit_count w = length (filter (bit w) [0..<LENGTH('a)])"

section \<open>Counting loops\<close>

text \<open>\<open>for (i = lo; i < hi; i++) body\<close>, without and with undefined behaviour in the body.\<close>

definition for_range :: "nat \<Rightarrow> nat \<Rightarrow> (nat \<Rightarrow> 's \<Rightarrow> 's) \<Rightarrow> 's \<Rightarrow> 's" where
  "for_range lo hi body s = fold body [lo..<hi] s"

fun for_each :: "('x \<Rightarrow> 's \<Rightarrow> 's result) \<Rightarrow> 'x list \<Rightarrow> 's \<Rightarrow> 's result" where
  "for_each body [] s = Inr s"
| "for_each body (x # xs) s = rbind (body x s) (for_each body xs)"

lemma for_range_empty [loop_simps]: "hi \<le> lo \<Longrightarrow> for_range lo hi body s = s"
  by (simp add: for_range_def)

lemma for_range_Suc [loop_simps]:
  "lo \<le> hi \<Longrightarrow> for_range lo (Suc hi) body s = body hi (for_range lo hi body s)"
  by (simp add: for_range_def)

lemma for_range_rec:
  "for_range lo hi body s = (if lo < hi then for_range (Suc lo) hi body (body lo s) else s)"
  by (simp add: for_range_def upt_conv_Cons)

lemma for_each_append [loop_simps]:
  "for_each body (xs @ ys) s = rbind (for_each body xs s) (for_each body ys)"
proof (induction xs arbitrary: s)
  case (Cons x xs)
  then show ?case by (cases "body x s") simp_all
qed simp

lemma for_each_total [loop_simps]:
  assumes "\<And>x t. x \<in> set xs \<Longrightarrow> body x t = Inr (f x t)"
  shows "for_each body xs s = Inr (fold f xs s)"
  using assms by (induction xs arbitrary: s) simp_all

lemma for_each_concat:
  "for_each (\<lambda>x. for_each body (f x)) xs s = for_each body (concat (map f xs)) s"
proof (induction xs arbitrary: s)
  case (Cons x xs)
  then show ?case by (cases "for_each body (f x) s") (simp_all add: for_each_append)
qed simp

lemma for_each_filter:
  assumes "\<And>x s. body x s = (if P x then g x s else Inr s)"
  shows "for_each body xs s = for_each g (filter P xs) s"
proof (induction xs arbitrary: s)
  case (Cons x xs)
  then show ?case by (cases "g x s") (simp_all add: assms)
qed simp

lemma for_each_cong:
  assumes "\<And>x s. x \<in> set xs \<Longrightarrow> f x s = g x s"
  shows "for_each f xs s = for_each g xs s"
  using assms
proof (induction xs arbitrary: s)
  case (Cons x xs)
  then show ?case by (cases "g x s") simp_all
qed simp

text \<open>A loop whose body is defined as long as an invariant holds.\<close>

lemma for_each_invariant:
  assumes "I s" and "\<And>x t. x \<in> set xs \<Longrightarrow> I t \<Longrightarrow> body x t = Inr (f x t) \<and> I (f x t)"
  shows "for_each body xs s = Inr (fold f xs s) \<and> I (fold f xs s)"
  using assms
proof (induction xs arbitrary: s)
  case (Cons x xs)
  from Cons.prems have "body x s = Inr (f x s)" "I (f x s)" by auto
  with Cons.IH [of "f x s"] Cons.prems(2) show ?case by simp
qed simp

text \<open>Splitting one loop into two, when a later first half commutes with an earlier second half.\<close>

lemma fold_fission:
  assumes "\<And>i j s. i < j \<Longrightarrow> j < n \<Longrightarrow> f j (g i s) = g i (f j s)"
  shows "fold (\<lambda>i s. g i (f i s)) [0..<n] s = fold g [0..<n] (fold f [0..<n] s)"
  using assms
proof (induction n)
  case (Suc n)
  have "f n (fold g [0..<k] t) = fold g [0..<k] (f n t)" if "k \<le> n" for k t
    using that by (induction k) (simp_all add: Suc.prems)
  with Suc show ?case by simp
qed simp

text \<open>\<open>for (i = lo; i < hi; i += k)\<close>: the values of \<open>i\<close>.\<close>

function upto_by :: "nat \<Rightarrow> nat \<Rightarrow> nat \<Rightarrow> nat list" where
  "upto_by k i n = (if 0 < k \<and> i < n then i # upto_by k (i + k) n else [])"
  by pat_completeness auto
termination
  by (relation "measure (\<lambda>(k, i, n). n - i)") auto

declare upto_by.simps [simp del]

lemma upto_by_blocks: "0 < k \<Longrightarrow> upto_by k (j * k) ((j + m) * k) = map (\<lambda>i. i * k) [j..<j + m]"
proof (induction m arbitrary: j)
  case 0
  then show ?case by (simp add: upto_by.simps)
next
  case (Suc m)
  have "upto_by k (j * k) ((j + Suc m) * k) = j * k # upto_by k (Suc j * k) ((Suc j + m) * k)"
    using Suc.prems by (subst upto_by.simps) (simp add: algebra_simps)
  also have "\<dots> = j * k # map (\<lambda>i. i * k) [Suc j..<Suc j + m]" using Suc.IH [OF Suc.prems, of "Suc j"] by (simp only:)
  also have "\<dots> = map (\<lambda>i. i * k) [j..<j + Suc m]" by (simp add: upt_conv_Cons del: upt_Suc)
  finally show ?case .
qed

lemma upto_by_round:
  assumes "0 < k"
  shows "upto_by k 0 n = map (\<lambda>i. i * k) [0..<(n + k - 1) div k]"
proof -
  have "upto_by k i n = upto_by k i ((n + k - 1) div k * k)" if "k dvd i" for i
    using that
  proof (induction k i n rule: upto_by.induct)
    case (1 k i n)
    obtain q where q: "i = q * k" using "1.prems" by (metis dvd_div_mult_self)
    have iff: "i < n \<longleftrightarrow> i < (n + k - 1) div k * k" if "0 < k"
    proof -
      have "i < (n + k - 1) div k * k \<longleftrightarrow> q < (n + k - 1) div k" using that q by simp
      also have "\<dots> \<longleftrightarrow> Suc q * k \<le> n + k - 1" using that by (simp add: Suc_le_eq [symmetric] less_eq_div_iff_mult_less_eq)
      also have "\<dots> \<longleftrightarrow> i < n" using that q by (simp add: Suc_le_eq [symmetric]) linarith
      finally show ?thesis by simp
    qed
    show ?case
    proof (cases "0 < k \<and> i < n")
      case True
      then show ?thesis using "1.IH" "1.prems" iff by (simp add: upto_by.simps [of k i])
    next
      case False
      then show ?thesis using iff by (auto simp: upto_by.simps [of k i])
    qed
  qed
  from this [of 0] show ?thesis using upto_by_blocks [OF assms, of 0] by simp
qed

text \<open>Two loops that keep a relation between their states.\<close>

lemma for_range_rel:
  assumes "R s t" and "\<And>i s t. lo \<le> i \<Longrightarrow> i < hi \<Longrightarrow> R s t \<Longrightarrow> R (f i s) (g i t)"
  shows "R (for_range lo hi f s) (for_range lo hi g t)"
  using assms(2) assms(1)
proof (induction hi)
  case 0
  then show ?case by (simp add: for_range_def)
next
  case (Suc hi)
  show ?case
  proof (cases "lo \<le> hi")
    case True
    then show ?thesis using Suc by (simp add: for_range_Suc)
  next
    case False
    then show ?thesis using Suc.prems by (simp add: for_range_def)
  qed
qed

lemma for_range_invariant:
  assumes "P lo s" and "lo \<le> hi" and "\<And>i s. lo \<le> i \<Longrightarrow> i < hi \<Longrightarrow> P i s \<Longrightarrow> P (Suc i) (f i s)"
  shows "P hi (for_range lo hi f s)"
  using assms(2,3)
proof (induction hi rule: dec_induct)
  case base
  then show ?case using assms(1) by (simp add: for_range_def)
next
  case (step n)
  then show ?case by (simp add: for_range_Suc)
qed

section \<open>Powers of two and index masks\<close>

lemma nat_and_pred_zero_power2:
  assumes "0 < (n::nat)" and "n AND (n - 1) = 0"
  shows "\<exists>k. n = 2 ^ k"
  using assms
proof (induction n rule: less_induct)
  case (less n)
  show ?case
  proof (cases "even n")
    case True
    then obtain m where m: "n = 2 * m" by blast
    with less.prems have pos: "0 < m" by simp
    have half: "(2 * m - 1) div 2 = m - 1" using pos by arith
    have "(2 * m) AND (2 * m - 1) = 2 * (m AND (m - 1))"
      by (subst and_rec) (simp add: half del: One_nat_def)
    with less.prems m have "m AND (m - 1) = 0" by simp
    with less.IH [of m] pos m obtain k where "m = 2 ^ k" by auto
    with m have "n = 2 ^ Suc k" by simp
    then show ?thesis by blast
  next
    case False
    then obtain m where m: "n = 2 * m + 1" by (blast elim: oddE)
    have "n AND (n - 1) = 2 * (m AND m)"
      unfolding m by (subst and_rec) auto
    with less.prems have "m = 0" by simp
    with m have "n = 2 ^ 0" by simp
    then show ?thesis by blast
  qed
qed

lemma nat_and_power2_pred [mask_simps]: "(n::nat) AND (2 ^ k - 1) = n mod 2 ^ k"
  by (simp flip: take_bit_eq_mod mask_eq_exp_minus_1 take_bit_eq_mask del: One_nat_def)

lemma power2_and_pred [mask_simps]: "(2 ^ k :: nat) AND (2 ^ k - 1) = 0"
  by (simp add: mask_simps del: One_nat_def)

text \<open>The same condition on a machine word, as the static assertion of the ring buffer
  writes it.\<close>

lemma word_and_pred_zero_power2:
  fixes w :: "'a::len word"
  assumes "0 < w" and "w AND (w - 1) = 0"
  shows "\<exists>k < LENGTH('a). w = 2 ^ k"
proof -
  from assms(1) have pos: "0 < unat w" by (simp add: word_greater_zero_iff unat_gt_0)
  then have "unat (w - 1) = unat w - 1" by (simp add: unat_minus_one word_greater_zero_iff unat_gt_0)
  then have "unat (w AND (w - 1)) = unat w AND (unat w - 1)" by (simp add: unsigned_and_eq)
  with assms(2) have "unat w AND (unat w - 1) = 0" by simp
  with pos obtain k where k: "unat w = 2 ^ k" using nat_and_pred_zero_power2 by blast
  have "(2::nat) ^ k < 2 ^ LENGTH('a)" unfolding k [symmetric] by (rule unsigned_less)
  then have lt: "k < LENGTH('a)" by simp
  have "w = of_nat (2 ^ k)" unfolding k [symmetric] by simp
  with lt show ?thesis by auto
qed

lemma word_and_power2 [mask_simps]:
  fixes q :: "'a::len word"
  assumes "k < LENGTH('a)"
  shows "q AND 2 ^ k = (if bit q k then 2 ^ k else 0)"
  using assms by (auto intro!: bit_word_eqI simp: bit_and_iff bit_exp_iff)

lemma bit_below_power2: "n < 2 ^ k \<Longrightarrow> \<not> bit (n::nat) k"
  by (simp add: bit_iff_odd)

lemma unat_power2_u64:
  assumes "k < 64"
  shows "unat (2 ^ k :: u64) = 2 ^ k"
proof -
  have "(2 ^ k :: nat) < 2 ^ 64" using assms by (intro power_strict_increasing) simp_all
  then have "unat (of_nat (2 ^ k) :: u64) = 2 ^ k"
    by (subst unat_of_nat) (simp add: mod_less)
  then show ?thesis by simp
qed

text \<open>Signed values of small \<open>long\<close> counters.\<close>

lemma sint_of_nat_pred:
  assumes "n \<le> 2 ^ 63"
  shows "sint (of_nat n - 1 :: i64) = int n - 1"
proof -
  have "(of_nat n - 1 :: i64) = word_of_int (int n - 1)" by simp
  moreover have "sint (word_of_int (int n - 1) :: i64) = int n - 1"
    using assms by (subst sint_sbintrunc') (simp add: signed_take_bit_int_eq_self del: of_int_diff)
  ultimately show ?thesis by simp
qed

lemma sint_of_nat_small:
  assumes "n < 2 ^ 63"
  shows "sint (of_nat n :: i64) = int n"
  using sint_of_nat_pred [of "Suc n"] assms by simp

end
