(* ===== verification/Disruptor_Core.thy ===== *)
theory Disruptor_Core
  imports Workshop_Prelude
begin

text \<open>
  The classes of \<open>disruptor/\<close>: \<open>Event\<close>, \<open>RingBuffer<N>\<close>, \<open>Sequencer\<close>,
  \<open>Producer<N>\<close>, \<open>EventProcessor<N>\<close> and \<open>Disruptor<N, W>\<close>. The objects that the code
  shares through \<open>std::shared_ptr\<close> and raw pointers live in a \<open>world\<close>: an object is a
  cell of one of its lists and a pointer is the index of the cell, so replacing the sequencer
  of a processor is replacing an index. \<open>long\<close> is a 64-bit word read as two's complement, the
  template argument \<open>N\<close> is a parameter \<open>N :: u64\<close> of the operations.
\<close>

section \<open>Data\<close>

record event =
  event_value :: string

record sequencer =
  seq_cursor :: i64

record ring_buffer =
  buffer :: "event list"
  next_seq :: i64

record producer =
  prod_ring :: nat
  prod_seq :: nat

record event_processor =
  running :: bool
  next_sequence :: i64
  proc_ring :: nat
  proc_seq :: nat
  proc_id :: int

text \<open>The lines the classes write to \<open>std::cout\<close>.\<close>

datatype out_line =
    EventProcessorAddr nat
  | ProducerAddr nat
  | Published string i64
  | Consumed int string i64

record world =
  sequencers :: "sequencer list"
  rings :: "ring_buffer list"
  producers :: "producer list"
  processors :: "event_processor list"
  stdout :: "out_line list"

record disruptor =
  disr_sequencer :: nat
  disr_processors :: "nat list"
  disr_producers :: "nat list"
  disr_buffer :: nat
  disr_threads :: "nat list"

section \<open>Event, sequencer and ring buffer\<close>

definition Event :: event where
  "Event = \<lparr>event_value = []\<rparr>"

definition event_set :: "string \<Rightarrow> event \<Rightarrow> event" where
  "event_set v e = e\<lparr>event_value := v\<rparr>"

definition event_get :: "event \<Rightarrow> string" where
  "event_get e = event_value e"

definition Sequencer :: sequencer where
  "Sequencer = \<lparr>seq_cursor = -1\<rparr>"

text \<open>\<open>++cursor_\<close> on an \<open>std::atomic<long>\<close> wraps around; it returns the new value.\<close>

definition seq_next :: "sequencer \<Rightarrow> i64 \<times> sequencer" where
  "seq_next s = (let c = seq_cursor s + 1 in (c, s\<lparr>seq_cursor := c\<rparr>))"

definition seq_publish :: "i64 \<Rightarrow> sequencer \<Rightarrow> sequencer" where
  "seq_publish sequence s = s\<lparr>seq_cursor := sequence\<rparr>"

text \<open>The static assertion on \<open>N\<close>, and the constructor: \<open>N\<close> default events and a
  \<open>next_seq_\<close> that no initialiser sets, so its value \<open>garbage\<close> is arbitrary.\<close>

definition ring_size_ok :: "u64 \<Rightarrow> bool" where
  "ring_size_ok N \<longleftrightarrow> 0 < N \<and> N AND (N - 1) = 0"

definition RingBuffer :: "u64 \<Rightarrow> i64 \<Rightarrow> ring_buffer" where
  "RingBuffer N garbage = \<lparr>buffer = replicate (unat N) Event, next_seq = garbage\<rparr>"

text \<open>\<open>buffer_[sequence & N]\<close>: the slot a sequence number refers to.\<close>

definition ring_get :: "u64 \<Rightarrow> ring_buffer \<Rightarrow> i64 \<Rightarrow> nat result" where
  "ring_get N rb sequence =
     (let i = unat (sequence AND N) in if i < length (buffer rb) then Inr i else Inl OutOfBounds)"

definition ring_next :: "ring_buffer \<Rightarrow> (i64 \<times> ring_buffer) result" where
  "ring_next rb =
     (if sint (next_seq rb) = 2 ^ 63 - 1 then Inl SignedOverflow
      else Inr (next_seq rb, rb\<lparr>next_seq := next_seq rb + 1\<rparr>))"

section \<open>Producer\<close>

definition Producer :: "nat \<Rightarrow> nat \<Rightarrow> world \<Rightarrow> world" where
  "Producer ring_buffer sequencer w =
     w\<lparr>producers := producers w @ [\<lparr>prod_ring = ring_buffer, prod_seq = sequencer\<rparr>],
       stdout := stdout w @ [ProducerAddr sequencer]\<rparr>"

definition producer_set_sequencer :: "nat \<Rightarrow> nat \<Rightarrow> world \<Rightarrow> world" where
  "producer_set_sequencer sequencer p w =
     w\<lparr>producers := (producers w)[p := (producers w ! p)\<lparr>prod_seq := sequencer\<rparr>]\<rparr>"

text \<open>The four effects of \<open>on_data\<close> on shared objects, in the order the code has them.\<close>

definition claim_sequence :: "nat \<Rightarrow> world \<Rightarrow> i64 \<times> world" where
  "claim_sequence p w =
     (let a = prod_seq (producers w ! p); (sequence, s) = seq_next (sequencers w ! a)
      in (sequence, w\<lparr>sequencers := (sequencers w)[a := s]\<rparr>))"

definition write_event :: "u64 \<Rightarrow> nat \<Rightarrow> i64 \<Rightarrow> string \<Rightarrow> world \<Rightarrow> world result" where
  "write_event N p sequence data w =
     (let r = prod_ring (producers w ! p); rb = rings w ! r
      in rbind (ring_get N rb sequence)
           (\<lambda>i. Inr (w\<lparr>rings := (rings w)[r := rb\<lparr>buffer :=
                  (buffer rb)[i := event_set data (buffer rb ! i)]\<rparr>]\<rparr>)))"

definition publish_sequence :: "nat \<Rightarrow> i64 \<Rightarrow> world \<Rightarrow> world" where
  "publish_sequence p sequence w =
     (let a = prod_seq (producers w ! p)
      in w\<lparr>sequencers := (sequencers w)[a := seq_publish sequence (sequencers w ! a)]\<rparr>)"

definition print_line :: "out_line \<Rightarrow> world \<Rightarrow> world" where
  "print_line l w = w\<lparr>stdout := stdout w @ [l]\<rparr>"

definition on_data :: "u64 \<Rightarrow> nat \<Rightarrow> string \<Rightarrow> world \<Rightarrow> world result" where
  "on_data N p data w =
     (let (sequence, w1) = claim_sequence p w
      in rbind (write_event N p sequence data w1)
           (\<lambda>w2. Inr (print_line (Published data sequence) (publish_sequence p sequence w2))))"

section \<open>Event processor\<close>

definition EventProcessor :: "nat \<Rightarrow> nat \<Rightarrow> int \<Rightarrow> world \<Rightarrow> world" where
  "EventProcessor ring_buffer sequencer ident w =
     w\<lparr>processors := processors w @ [\<lparr>running = True, next_sequence = 0, proc_ring = ring_buffer,
         proc_seq = sequencer, proc_id = ident\<rparr>],
       stdout := stdout w @ [EventProcessorAddr sequencer]\<rparr>"

definition processor_set_sequencer :: "nat \<Rightarrow> nat \<Rightarrow> world \<Rightarrow> world" where
  "processor_set_sequencer sequencer c w =
     w\<lparr>processors := (processors w)[c := (processors w ! c)\<lparr>proc_seq := sequencer\<rparr>]\<rparr>"

definition processor_stop :: "nat \<Rightarrow> world \<Rightarrow> world" where
  "processor_stop c w = w"

definition processor_halt :: "nat \<Rightarrow> world \<Rightarrow> world" where
  "processor_halt c w =
     w\<lparr>processors := (processors w)[c := (processors w ! c)\<lparr>running := False\<rparr>]\<rparr>"

text \<open>The guard of the inner loop of \<open>run\<close>, \<open>next_sequence_ <= sequencer_->cursor()\<close>, and
  its body.\<close>

definition event_available :: "nat \<Rightarrow> world \<Rightarrow> bool" where
  "event_available c w =
     (let pr = processors w ! c
      in sint (next_sequence pr) \<le> sint (seq_cursor (sequencers w ! proc_seq pr)))"

definition consume_event :: "u64 \<Rightarrow> nat \<Rightarrow> world \<Rightarrow> world result" where
  "consume_event N c w =
     (let pr = processors w ! c; rb = rings w ! proc_ring pr
      in rbind (ring_get N rb (next_sequence pr))
           (\<lambda>i. let w1 = print_line
                    (Consumed (proc_id pr) (event_get (buffer rb ! i)) (next_sequence pr)) w
                in if sint (next_sequence pr) = 2 ^ 63 - 1 then Inl SignedOverflow
                   else Inr (w1\<lparr>processors := (processors w1)[c :=
                          pr\<lparr>next_sequence := next_sequence pr + 1\<rparr>]\<rparr>)))"

text \<open>The inner loop, run while no other thread moves. It may not end (another thread may
  always publish), so it carries fuel; \<open>drain_wired\<close> below gives the fuel it needs.\<close>

fun drain :: "nat \<Rightarrow> u64 \<Rightarrow> nat \<Rightarrow> world \<Rightarrow> world result option" where
  "drain 0 N c w = None"
| "drain (Suc fuel) N c w =
     (if event_available c w
      then (case consume_event N c w of
              Inl e \<Rightarrow> Some (Inl e)
            | Inr w' \<Rightarrow> drain fuel N c w')
      else Some (Inr w))"

section \<open>Disruptor\<close>

definition make_sequencer :: "world \<Rightarrow> nat \<times> world" where
  "make_sequencer w = (length (sequencers w), w\<lparr>sequencers := sequencers w @ [Sequencer]\<rparr>)"

definition make_ring :: "u64 \<Rightarrow> i64 \<Rightarrow> world \<Rightarrow> nat \<times> world" where
  "make_ring N garbage w =
     (length (rings w), w\<lparr>rings := rings w @ [RingBuffer N garbage]\<rparr>)"

definition Disruptor ::
    "u64 \<Rightarrow> i64 \<Rightarrow> nat list \<Rightarrow> nat list \<Rightarrow> world \<Rightarrow> disruptor \<times> world" where
  "Disruptor N garbage procs prods w =
     (let (s, w1) = make_sequencer w;
          (b, w2) = make_ring N garbage w1;
          w3 = fold (processor_set_sequencer s) procs w2;
          w4 = fold (producer_set_sequencer s) prods w3
      in (\<lparr>disr_sequencer = s, disr_processors = procs, disr_producers = prods,
           disr_buffer = b, disr_threads = []\<rparr>, w4))"

text \<open>\<open>start\<close> adds one thread per processor; \<open>halt\<close> first stops every processor, then joins
  the threads, then clears the array. Joining is a step of the concurrent model, where the
  threads run.\<close>

definition disruptor_start :: "disruptor \<Rightarrow> disruptor" where
  "disruptor_start d = d\<lparr>disr_threads := disr_threads d @ disr_processors d\<rparr>"

definition disruptor_halt_processors :: "disruptor \<Rightarrow> world \<Rightarrow> world" where
  "disruptor_halt_processors d w = fold processor_halt (disr_processors d) w"

definition disruptor_clear_threads :: "disruptor \<Rightarrow> disruptor" where
  "disruptor_clear_threads d = d\<lparr>disr_threads := []\<rparr>"

definition disruptor_cursor :: "disruptor \<Rightarrow> world \<Rightarrow> i64" where
  "disruptor_cursor d w = seq_cursor (sequencers w ! disr_sequencer d)"

text \<open>The set-up that \<open>main.cpp\<close> and the tests share: a ring buffer and a sequencer, \<open>np\<close>
  producers and \<open>nc\<close> processors with identifiers \<open>0, 1, \<dots>\<close> on them, and a disruptor over all
  of them.\<close>

definition empty_world :: world where
  "empty_world = \<lparr>sequencers = [], rings = [], producers = [], processors = [], stdout = []\<rparr>"

definition demo_objects :: "u64 \<Rightarrow> i64 \<Rightarrow> nat \<Rightarrow> nat \<Rightarrow> world" where
  "demo_objects N garbage np nc =
     (let (r, w1) = make_ring N garbage empty_world;
          (s, w2) = make_sequencer w1;
          w3 = fold (\<lambda>_. Producer r s) [0..<np] w2
      in fold (\<lambda>c. EventProcessor r s (int c)) [0..<nc] w3)"

definition demo_system :: "u64 \<Rightarrow> i64 \<Rightarrow> nat \<Rightarrow> nat \<Rightarrow> disruptor \<times> world" where
  "demo_system N garbage np nc = Disruptor N garbage [0..<nc] [0..<np] (demo_objects N garbage np nc)"

text \<open>A burst of \<open>on_data\<close> calls of one producer, with nothing in between; and the pattern of
  the tests, where the processor catches up after each call.\<close>

definition produce_all :: "u64 \<Rightarrow> nat \<Rightarrow> string list \<Rightarrow> world \<Rightarrow> world result" where
  "produce_all N p = for_each (on_data N p)"

definition on_data_then_drain :: "u64 \<Rightarrow> nat \<Rightarrow> nat \<Rightarrow> string \<Rightarrow> world \<Rightarrow> world result option" where
  "on_data_then_drain N p c data w =
     (case on_data N p data w of Inl e \<Rightarrow> Some (Inl e) | Inr w' \<Rightarrow> drain 2 N c w')"

fun lockstep :: "u64 \<Rightarrow> nat \<Rightarrow> nat \<Rightarrow> string list \<Rightarrow> world \<Rightarrow> world result option" where
  "lockstep N p c [] w = Some (Inr w)"
| "lockstep N p c (d # ds) w =
     (case on_data_then_drain N p c d w of
        None \<Rightarrow> None
      | Some (Inl e) \<Rightarrow> Some (Inl e)
      | Some (Inr w') \<Rightarrow> lockstep N p c ds w')"

section \<open>The shared slot\<close>

lemmas disruptor_defs =
  Event_def event_set_def event_get_def Sequencer_def seq_next_def seq_publish_def
  claim_sequence_def write_event_def publish_sequence_def print_line_def
  make_sequencer_def make_ring_def RingBuffer_def


text \<open>A legal \<open>N\<close> is a power of two, so \<open>sequence & N\<close> is either \<open>0\<close> or \<open>N\<close>.\<close>

lemma ring_size_ok_power2: "ring_size_ok N \<Longrightarrow> \<exists>k < 64. N = 2 ^ k"
  using word_and_pred_zero_power2 [of N] by (simp add: ring_size_ok_def)

lemma ring_get_eq:
  assumes "length (buffer rb) = unat N" and "N = 2 ^ k" and "k < 64"
  shows "ring_get N rb q = (if bit q k then Inl OutOfBounds else Inr 0)"
  using assms by (simp add: ring_get_def word_and_power2 unat_power2_u64)

lemma ring_get_below:
  assumes "length (buffer rb) = unat N" and "ring_size_ok N" and "n < unat N"
  shows "ring_get N rb (of_nat n) = Inr 0"
proof -
  from ring_size_ok_power2 [OF assms(2)] obtain k where k: "k < 64" "N = 2 ^ k" by blast
  with assms(3) have "\<not> bit n k" by (simp add: unat_power2_u64 bit_below_power2)
  with k show ?thesis using assms(1) by (simp add: ring_get_eq bit_of_nat_iff)
qed

lemma ring_get_at_size:
  assumes "length (buffer rb) = unat N" and "ring_size_ok N"
  shows "ring_get N rb N = Inl OutOfBounds"
proof -
  from ring_size_ok_power2 [OF assms(2)] obtain k where k: "k < 64" "N = 2 ^ k" by blast
  then have "bit (2 ^ k :: u64) k" by (simp add: bit_exp_iff)
  with k ring_get_eq [OF assms(1) k(2,1)] show ?thesis by simp
qed


section \<open>A wired world\<close>

text \<open>Everything refers to one sequencer \<open>a\<close> and one ring buffer \<open>r\<close> of \<open>N\<close> events.\<close>

definition wired :: "u64 \<Rightarrow> nat \<Rightarrow> nat \<Rightarrow> world \<Rightarrow> bool" where
  "wired N a r w \<longleftrightarrow> ring_size_ok N \<and> a < length (sequencers w) \<and> r < length (rings w)
     \<and> length (buffer (rings w ! r)) = unat N
     \<and> (\<forall>p \<in> set (producers w). prod_seq p = a \<and> prod_ring p = r)
     \<and> (\<forall>c \<in> set (processors w). proc_seq c = a \<and> proc_ring c = r)"

definition cursor_of :: "nat \<Rightarrow> world \<Rightarrow> i64" where
  "cursor_of a w = seq_cursor (sequencers w ! a)"

definition slot_of :: "nat \<Rightarrow> world \<Rightarrow> string" where
  "slot_of r w = event_value (buffer (rings w ! r) ! 0)"

lemmas world_view_defs = wired_def cursor_of_def slot_of_def

lemma ring_size_pos: "ring_size_ok N \<Longrightarrow> 0 < unat N"
  by (simp add: ring_size_ok_def word_greater_zero_iff unat_gt_0)

lemma wired_prod: "wired N a r w \<Longrightarrow> p < length (producers w) \<Longrightarrow>
    prod_seq (producers w ! p) = a \<and> prod_ring (producers w ! p) = r"
  by (auto simp: wired_def)

lemma wired_proc: "wired N a r w \<Longrightarrow> c < length (processors w) \<Longrightarrow>
    proc_seq (processors w ! c) = a \<and> proc_ring (processors w ! c) = r"
  by (auto simp: wired_def)

text \<open>Each effect keeps the wiring and changes the view only where it should.\<close>

lemma claim_sequence_wired:
  assumes "wired N a r w" and "p < length (producers w)" and "claim_sequence p w = (q, w')"
  shows "wired N a r w'" "q = cursor_of a w + 1" "cursor_of a w' = q" "slot_of r w' = slot_of r w"
    "producers w' = producers w" "processors w' = processors w" "stdout w' = stdout w"
    "rings w' = rings w"
  using assms wired_prod [OF assms(1,2)]
  by (auto simp: claim_sequence_def seq_next_def world_view_defs Let_def)

lemma write_event_wired:
  assumes "wired N a r w" and "p < length (producers w)" and "n < unat N"
  obtains w' where "write_event N p (of_nat n) d w = Inr w'" "wired N a r w'"
    "cursor_of a w' = cursor_of a w" "slot_of r w' = d"
    "producers w' = producers w" "processors w' = processors w" "stdout w' = stdout w"
proof -
  let ?rb = "rings w ! r"
  let ?w = "w\<lparr>rings := (rings w)[r := ?rb\<lparr>buffer :=
              (buffer ?rb)[0 := event_set d (buffer ?rb ! 0)]\<rparr>]\<rparr>"
  have g: "ring_get N ?rb (of_nat n) = Inr 0"
    using assms by (intro ring_get_below) (simp_all add: wired_def)
  have e: "write_event N p (of_nat n) d w = Inr ?w"
    using wired_prod [OF assms(1,2)] g by (simp add: write_event_def Let_def)
  have pos: "0 < length (buffer ?rb)" and r: "r < length (rings w)"
    using assms(1) by (auto simp: wired_def ring_size_pos)
  show ?thesis
  proof (rule that [OF e])
    show "slot_of r ?w = d" using pos r by (simp add: slot_of_def event_set_def)
    show "wired N a r ?w" using assms(1) by (simp add: wired_def)
  qed (simp_all add: cursor_of_def)
qed

lemma publish_sequence_wired:
  assumes "wired N a r w" and "p < length (producers w)" and "w' = publish_sequence p q w"
  shows "wired N a r w'" "cursor_of a w' = q" "slot_of r w' = slot_of r w"
    "producers w' = producers w" "processors w' = processors w" "stdout w' = stdout w"
    "rings w' = rings w"
  using assms wired_prod [OF assms(1,2)]
  by (auto simp: publish_sequence_def seq_publish_def world_view_defs Let_def)

lemma print_line_view [simp]:
  "wired N a r (print_line l w) = wired N a r w" "cursor_of a (print_line l w) = cursor_of a w"
  "slot_of r (print_line l w) = slot_of r w" "producers (print_line l w) = producers w"
  "processors (print_line l w) = processors w" "stdout (print_line l w) = stdout w @ [l]"
  "sequencers (print_line l w) = sequencers w" "rings (print_line l w) = rings w"
  by (simp_all add: print_line_def world_view_defs)

lemma on_data_wired:
  assumes "wired N a r w" and "p < length (producers w)"
    and "cursor_of a w + 1 = of_nat n" and "n < unat N"
  obtains w' where "on_data N p d w = Inr w'" "wired N a r w'" "cursor_of a w' = of_nat n"
    "slot_of r w' = d" "producers w' = producers w" "processors w' = processors w"
    "stdout w' = stdout w @ [Published d (of_nat n)]"
proof -
  obtain q w1 where c: "claim_sequence p w = (q, w1)" by fastforce
  note c1 = claim_sequence_wired [OF assms(1,2) c]
  have p1: "p < length (producers w1)" using c1(5) assms(2) by simp
  obtain w2 where w2: "write_event N p (of_nat n) d w1 = Inr w2" "wired N a r w2" "slot_of r w2 = d"
      "producers w2 = producers w1" "processors w2 = processors w1" "stdout w2 = stdout w1"
    using write_event_wired [OF c1(1) p1 assms(4)] by metis
  have p2: "p < length (producers w2)" using w2 p1 by simp
  note c3 = publish_sequence_wired [OF w2(2) p2 refl, of "of_nat n"]
  show ?thesis
    by (rule that [of "print_line (Published d (of_nat n)) (publish_sequence p (of_nat n) w2)"])
      (use c c1 w2 c3 assms(3) in \<open>simp_all add: on_data_def\<close>)
qed

section \<open>The processor side\<close>

definition next_of :: "nat \<Rightarrow> world \<Rightarrow> i64" where
  "next_of c w = next_sequence (processors w ! c)"

lemma event_available_wired:
  assumes "wired N a r w" and "c < length (processors w)" and "next_of c w = of_nat n"
    and "cursor_of a w = of_nat m - 1" and "n < 2 ^ 63" and "m \<le> 2 ^ 63"
  shows "event_available c w \<longleftrightarrow> n < m"
proof -
  have "event_available c w \<longleftrightarrow> sint (of_nat n :: i64) \<le> sint (of_nat m - 1 :: i64)"
    using assms wired_proc [OF assms(1,2)]
    by (simp add: event_available_def next_of_def cursor_of_def Let_def)
  also have "\<dots> \<longleftrightarrow> n < m"
    unfolding sint_of_nat_small [OF assms(5)] sint_of_nat_pred [OF assms(6)] by linarith
  finally show ?thesis .
qed

lemma consume_event_wired:
  assumes "wired N a r w" and "c < length (processors w)" and "next_of c w = of_nat n"
    and "n < unat N" and "unat N < 2 ^ 63"
  obtains w' where "consume_event N c w = Inr w'" "wired N a r w'" "next_of c w' = of_nat (Suc n)"
    "cursor_of a w' = cursor_of a w" "slot_of r w' = slot_of r w" "producers w' = producers w"
    "processors w' = (processors w)[c := (processors w ! c)\<lparr>next_sequence := of_nat (Suc n)\<rparr>]"
    "stdout w' = stdout w @ [Consumed (proc_id (processors w ! c)) (slot_of r w) (of_nat n)]"
proof -
  let ?pr = "processors w ! c"
  let ?l = "Consumed (proc_id ?pr) (slot_of r w) (of_nat n)"
  let ?w = "(print_line ?l w)\<lparr>processors := (processors w)[c := ?pr\<lparr>next_sequence := of_nat (Suc n)\<rparr>]\<rparr>"
  have g: "ring_get N (rings w ! r) (of_nat n) = Inr 0"
    using assms by (intro ring_get_below) (simp_all add: wired_def)
  have "sint (of_nat n :: i64) = int n" using assms(4,5) by (intro sint_of_nat_small) simp
  then have ov: "sint (of_nat n :: i64) \<noteq> 2 ^ 63 - 1" using assms(4,5) by simp
  have ns: "next_sequence ?pr = of_nat n" using assms(3) by (simp add: next_of_def)
  have suc: "of_nat n + 1 = (of_nat (Suc n) :: i64)" by simp
  have pa: "proc_ring ?pr = r" using wired_proc [OF assms(1,2)] by simp
  have e: "consume_event N c w = Inr ?w"
    unfolding consume_event_def Let_def pa ns g suc rbind_simps if_not_P [OF ov]
    by (simp add: slot_of_def event_get_def)
  show ?thesis
  proof (rule that [OF e])
    have "proc_seq ?pr = a \<and> proc_ring ?pr = r" by (rule wired_proc [OF assms(1,2)])
    then show "wired N a r ?w"
      using assms(1)
      by (auto simp: wired_def dest!: set_update_subset_insert [THEN subsetD])
  qed (use assms(2) in \<open>simp_all add: next_of_def cursor_of_def slot_of_def\<close>)
qed

text \<open>The inner loop prints, for every sequence number up to the cursor, what the shared slot
  holds when it runs; \<open>m - n\<close> events are waiting and one more unit of fuel pays for the test
  that ends the loop.\<close>

lemma drain_wired:
  assumes "wired N a r w" and "c < length (processors w)" and "next_of c w = of_nat n"
    and "cursor_of a w = of_nat m - 1" and "n \<le> m" and "m \<le> unat N" and "unat N < 2 ^ 63"
    and "m - n < fuel"
  obtains w' where "drain fuel N c w = Some (Inr w')" "wired N a r w'"
    "next_of c w' = of_nat m" "cursor_of a w' = cursor_of a w" "slot_of r w' = slot_of r w"
    "producers w' = producers w"
    "processors w' = (processors w)[c := (processors w ! c)\<lparr>next_sequence := of_nat m\<rparr>]"
    "stdout w' = stdout w @
       map (\<lambda>i. Consumed (proc_id (processors w ! c)) (slot_of r w) (of_nat i)) [n..<m]"
  using assms
proof (induction fuel arbitrary: w n thesis)
  case 0
  then show ?case by simp
next
  case (Suc fuel)
  have lt: "n < 2 ^ 63" "m \<le> 2 ^ 63" using Suc.prems by simp_all
  have av: "event_available c w \<longleftrightarrow> n < m"
    using event_available_wired [OF Suc.prems(2-5) lt] .
  show ?case
  proof (cases "n < m")
    case False
    then have "n = m" using Suc.prems by simp
    then have "of_nat m = next_sequence (processors w ! c)"
      using Suc.prems(4) by (simp add: next_of_def)
    then have "(processors w)[c := (processors w ! c)\<lparr>next_sequence := of_nat m\<rparr>] = processors w"
      by (simp only:) simp
    then show ?thesis
      using Suc.prems av False \<open>n = m\<close> by (intro Suc.prems(1) [of w]) simp_all
  next
    case True
    then have nN: "n < unat N" using Suc.prems(7) by simp
    obtain w1 where w1: "consume_event N c w = Inr w1" "wired N a r w1" "next_of c w1 = of_nat (Suc n)"
      "cursor_of a w1 = cursor_of a w" "slot_of r w1 = slot_of r w" "producers w1 = producers w"
      "processors w1 = (processors w)[c := (processors w ! c)\<lparr>next_sequence := of_nat (Suc n)\<rparr>]"
      "stdout w1 = stdout w @ [Consumed (proc_id (processors w ! c)) (slot_of r w) (of_nat n)]"
      by (rule consume_event_wired [OF Suc.prems(2-4) nN Suc.prems(8)])
    have pid: "proc_id (processors w1 ! c) = proc_id (processors w ! c)"
      using w1(7) Suc.prems(3) by simp
    obtain w2 where w2: "drain fuel N c w1 = Some (Inr w2)" "wired N a r w2"
      "next_of c w2 = of_nat m" "cursor_of a w2 = cursor_of a w1" "slot_of r w2 = slot_of r w1"
      "producers w2 = producers w1"
      "processors w2 = (processors w1)[c := (processors w1 ! c)\<lparr>next_sequence := of_nat m\<rparr>]"
      "stdout w2 = stdout w1 @
         map (\<lambda>i. Consumed (proc_id (processors w1 ! c)) (slot_of r w1) (of_nat i)) [Suc n..<m]"
      by (rule Suc.IH [of w1 "Suc n"])
        (use w1 True Suc.prems(3,5-9) in \<open>simp_all\<close>)
    show ?thesis
      by (rule Suc.prems(1) [of w2])
        (use w1 w2 av True pid Suc.prems(3) in \<open>simp_all add: upt_conv_Cons\<close>)
  qed
qed

end
