(* ===== verification/Disruptor_Runs.thy ===== *)
theory Disruptor_Runs
  imports Disruptor_Core
begin

text \<open>
  What the disruptor does when one thread runs at a time: the constructor wires every
  processor and producer to one fresh sequencer; a burst of \<open>on_data\<close> calls; a processor that
  keeps up with the producer, as in the tests; and a processor that does not.
\<close>

text \<open>What processor \<open>i\<close> has printed: the sequence numbers with the values, in order.\<close>

definition consumed_by :: "int \<Rightarrow> out_line list \<Rightarrow> (i64 \<times> string) list" where
  "consumed_by i ls =
     concat (map (\<lambda>l. case l of Consumed j v q \<Rightarrow> (if j = i then [(q, v)] else []) | _ \<Rightarrow> []) ls)"

section \<open>Wiring\<close>

lemma fold_processor_set_sequencer:
  "fold (processor_set_sequencer s) cs w =
     w\<lparr>processors := map (\<lambda>(c, pr). if c \<in> set cs then pr\<lparr>proc_seq := s\<rparr> else pr)
                         (enumerate 0 (processors w))\<rparr>"
proof (induction cs arbitrary: w)
  case Nil
  have "map snd (enumerate 0 (processors w)) = processors w" by simp
  then show ?case by (simp add: case_prod_unfold)
next
  case (Cons c cs)
  show ?case
    unfolding fold.simps comp_apply Cons.IH
    by (rule world.equality)
      (auto simp: processor_set_sequencer_def nth_enumerate_eq nth_list_update_if intro!: nth_equalityI)
qed

lemma fold_producer_set_sequencer:
  "fold (producer_set_sequencer s) ps w =
     w\<lparr>producers := map (\<lambda>(p, pr). if p \<in> set ps then pr\<lparr>prod_seq := s\<rparr> else pr)
                        (enumerate 0 (producers w))\<rparr>"
proof (induction ps arbitrary: w)
  case Nil
  have "map snd (enumerate 0 (producers w)) = producers w" by simp
  then show ?case by (simp add: case_prod_unfold)
next
  case (Cons c cs)
  show ?case
    unfolding fold.simps comp_apply Cons.IH
    by (rule world.equality)
      (auto simp: producer_set_sequencer_def nth_enumerate_eq nth_list_update_if intro!: nth_equalityI)
qed

lemma Disruptor_eq:
  "Disruptor N g procs prods w =
     (\<lparr>disr_sequencer = length (sequencers w), disr_processors = procs, disr_producers = prods,
       disr_buffer = length (rings w), disr_threads = []\<rparr>,
      w\<lparr>sequencers := sequencers w @ [Sequencer], rings := rings w @ [RingBuffer N g],
        processors := map (\<lambda>(c, pr). if c \<in> set procs then pr\<lparr>proc_seq := length (sequencers w)\<rparr>
           else pr) (enumerate 0 (processors w)),
        producers := map (\<lambda>(p, pr). if p \<in> set prods then pr\<lparr>prod_seq := length (sequencers w)\<rparr>
           else pr) (enumerate 0 (producers w))\<rparr>)"
  by (simp add: Disruptor_def make_sequencer_def make_ring_def Let_def
      fold_processor_set_sequencer fold_producer_set_sequencer)

lemma fold_EventProcessor:
  "fold (\<lambda>c. EventProcessor r s (int c)) cs w =
     w\<lparr>processors := processors w @ map (\<lambda>c. \<lparr>running = True, next_sequence = 0, proc_ring = r,
         proc_seq = s, proc_id = int c\<rparr>) cs,
       stdout := stdout w @ map (\<lambda>_. EventProcessorAddr s) cs\<rparr>"
  by (induction cs arbitrary: w) (simp_all add: EventProcessor_def)

lemma fold_Producer:
  "fold (\<lambda>_. Producer r s) ps w =
     w\<lparr>producers := producers w @ map (\<lambda>_. \<lparr>prod_ring = r, prod_seq = s\<rparr>) ps,
       stdout := stdout w @ map (\<lambda>_. ProducerAddr s) ps\<rparr>"
  by (induction ps arbitrary: w) (simp_all add: Producer_def)

lemma demo_system_eq:
  "demo_system N g np nc =
     (\<lparr>disr_sequencer = 1, disr_processors = [0..<nc], disr_producers = [0..<np],
       disr_buffer = 1, disr_threads = []\<rparr>,
      \<lparr>sequencers = [Sequencer, Sequencer], rings = [RingBuffer N g, RingBuffer N g],
       producers = map (\<lambda>_. \<lparr>prod_ring = 0, prod_seq = 1\<rparr>) [0..<np],
       processors = map (\<lambda>c. \<lparr>running = True, next_sequence = 0, proc_ring = 0,
         proc_seq = 1, proc_id = int c\<rparr>) [0..<nc],
       stdout = replicate np (ProducerAddr 0) @ replicate nc (EventProcessorAddr 0)\<rparr>)"
  by (auto simp: demo_system_def demo_objects_def Disruptor_eq make_sequencer_def make_ring_def
      empty_world_def fold_EventProcessor fold_Producer nth_enumerate_eq map_replicate_const
      intro!: nth_equalityI)

lemma demo_system_wired:
  assumes "ring_size_ok N" and "demo_system N g np nc = (d, w)"
  shows "wired N 1 0 w" "cursor_of 1 w = -1" "length (producers w) = np"
    "length (processors w) = nc" "disr_sequencer d = 1" "slot_of 0 w = []"
    "\<And>c. c < nc \<Longrightarrow> next_of c w = 0 \<and> proc_id (processors w ! c) = int c \<and> running (processors w ! c)"
  using assms
  by (auto simp: demo_system_eq wired_def cursor_of_def slot_of_def next_of_def RingBuffer_def
      Sequencer_def Event_def ring_size_pos)

section \<open>Bursts\<close>

lemma produce_all_wired:
  assumes "wired N a r w" and "p < length (producers w)" and "cursor_of a w = of_nat n - 1"
    and "n + length ds \<le> unat N"
  obtains w' where "produce_all N p ds w = Inr w'" "wired N a r w'"
    "cursor_of a w' = of_nat (n + length ds) - 1"
    "slot_of r w' = (if ds = [] then slot_of r w else last ds)"
    "producers w' = producers w" "processors w' = processors w"
    "stdout w' = stdout w @ map (\<lambda>(i, d). Published d (of_nat i)) (enumerate n ds)"
  using assms
proof (induction ds arbitrary: w n thesis)
  case Nil
  then show ?case by (auto simp: produce_all_def)
next
  case (Cons d ds)
  obtain w1 where w1: "on_data N p d w = Inr w1" "wired N a r w1" "cursor_of a w1 = of_nat n"
    "slot_of r w1 = d" "producers w1 = producers w" "processors w1 = processors w"
    "stdout w1 = stdout w @ [Published d (of_nat n)]"
    by (rule on_data_wired [OF Cons.prems(2,3), of n d]) (use Cons.prems(4,5) in auto)
  obtain w2 where w2: "produce_all N p ds w1 = Inr w2" "wired N a r w2"
    "cursor_of a w2 = of_nat (Suc n + length ds) - 1"
    "slot_of r w2 = (if ds = [] then slot_of r w1 else last ds)"
    "producers w2 = producers w1" "processors w2 = processors w1"
    "stdout w2 = stdout w1 @ map (\<lambda>(i, d). Published d (of_nat i)) (enumerate (Suc n) ds)"
    by (rule Cons.IH [of w1 "Suc n"]) (use w1 Cons.prems in auto)
  show ?case
    by (rule Cons.prems(1) [of w2])
      (use w1 w2 in \<open>auto simp: produce_all_def\<close>)
qed

section \<open>Keeping up and lagging\<close>

lemma consumed_by_simps [simp]:
  "consumed_by i [] = []"
  "consumed_by i (ls @ ms) = consumed_by i ls @ consumed_by i ms"
  "consumed_by i [Published d q] = []"
  "consumed_by i [Consumed j v q] = (if j = i then [(q, v)] else [])"
  by (simp_all add: consumed_by_def)

lemma consumed_by_published [simp]: "consumed_by i (map (\<lambda>(k, d). Published d (f k)) xs) = []"
  by (induction xs) (simp_all add: consumed_by_def case_prod_unfold)

lemma consumed_by_consumed [simp]:
  "consumed_by i (map (\<lambda>k. Consumed j v (f k)) xs) = (if j = i then map (\<lambda>k. (f k, v)) xs else [])"
  by (induction xs) (simp_all add: consumed_by_def)

lemma consumed_by_addrs [simp]:
  "consumed_by i (replicate n (ProducerAddr s)) = []"
  "consumed_by i (replicate n (EventProcessorAddr s)) = []"
  by (simp_all add: consumed_by_def)

lemma demo_system_consumed:
  "demo_system N g np nc = (d, w) \<Longrightarrow> consumed_by i (stdout w) = []"
  by (auto simp: demo_system_eq)

lemma on_data_then_drain_wired:
  assumes "wired N a r w" and "p < length (producers w)" and "c < length (processors w)"
    and "cursor_of a w = of_nat n - 1" and "next_of c w = of_nat n" and "n < unat N"
    and "unat N < 2 ^ 63"
  obtains w' where "on_data_then_drain N p c d w = Some (Inr w')" "wired N a r w'"
    "cursor_of a w' = of_nat (Suc n) - 1" "next_of c w' = of_nat (Suc n)"
    "producers w' = producers w" "length (processors w') = length (processors w)"
    "proc_id (processors w' ! c) = proc_id (processors w ! c)"
    "stdout w' = stdout w @ [Published d (of_nat n),
       Consumed (proc_id (processors w ! c)) d (of_nat n)]"
proof -
  obtain w1 where w1: "on_data N p d w = Inr w1" "wired N a r w1" "cursor_of a w1 = of_nat n"
    "slot_of r w1 = d" "producers w1 = producers w" "processors w1 = processors w"
    "stdout w1 = stdout w @ [Published d (of_nat n)]"
    by (rule on_data_wired [OF assms(1,2), of n d]) (use assms(4,6) in auto)
  have c1: "c < length (processors w1)" and n1: "next_of c w1 = of_nat n"
    using w1 assms(3,5) by (simp_all add: next_of_def)
  have m1: "cursor_of a w1 = of_nat (Suc n) - 1" using w1(3) by simp
  obtain w2 where w2: "drain 2 N c w1 = Some (Inr w2)" "wired N a r w2"
    "next_of c w2 = of_nat (Suc n)" "cursor_of a w2 = cursor_of a w1" "slot_of r w2 = slot_of r w1"
    "producers w2 = producers w1"
    "processors w2 = (processors w1)[c := (processors w1 ! c)\<lparr>next_sequence := of_nat (Suc n)\<rparr>]"
    "stdout w2 = stdout w1 @
       map (\<lambda>i. Consumed (proc_id (processors w1 ! c)) (slot_of r w1) (of_nat i)) [n..<Suc n]"
    by (rule drain_wired [OF w1(2) c1 n1 m1, of 2]) (use assms(6,7) in auto)
  show ?thesis
    by (rule that [of w2])
      (use w1 w2 assms(3) in \<open>auto simp: on_data_then_drain_def\<close>)
qed

lemma lockstep_wired:
  assumes "wired N a r w" and "p < length (producers w)" and "c < length (processors w)"
    and "cursor_of a w = of_nat n - 1" and "next_of c w = of_nat n" and "n + length ds \<le> unat N"
    and "unat N < 2 ^ 63"
  shows "\<exists>w'. lockstep N p c ds w = Some (Inr w') \<and> cursor_of a w' = of_nat (n + length ds) - 1
    \<and> consumed_by (proc_id (processors w ! c)) (stdout w') =
        consumed_by (proc_id (processors w ! c)) (stdout w) @
          map (\<lambda>(i, d). (of_nat i, d)) (enumerate n ds)"
  using assms
proof (induction ds arbitrary: w n)
  case Nil
  then show ?case by simp
next
  case (Cons d ds)
  have nN: "n < unat N" using Cons.prems(6) by simp
  obtain w1 where w1: "on_data_then_drain N p c d w = Some (Inr w1)" "wired N a r w1"
    "cursor_of a w1 = of_nat (Suc n) - 1" "next_of c w1 = of_nat (Suc n)"
    "producers w1 = producers w" "length (processors w1) = length (processors w)"
    "proc_id (processors w1 ! c) = proc_id (processors w ! c)"
    "stdout w1 = stdout w @ [Published d (of_nat n),
       Consumed (proc_id (processors w ! c)) d (of_nat n)]"
    by (rule on_data_then_drain_wired [OF Cons.prems(1-5) nN Cons.prems(7)])
  have split: "consumed_by j [Published d q, Consumed j d q] = [(q, d)]" for j q
    by (simp add: consumed_by_def)
  from Cons.IH [of w1 "Suc n"] w1 Cons.prems split show ?case by simp
qed

section \<open>Properties\<close>

text \<open>C1. The slot a sequence number selects. The template argument is asserted to be a power of
  two, and then \<open>sequence & N\<close> is \<open>0\<close> or \<open>N\<close>: every sequence number either selects slot \<open>0\<close> or
  indexes one past the end of the array. The other \<open>N - 1\<close> slots are never used.\<close>

theorem ring_get_single_slot:
  assumes "ring_size_ok N" and "length (buffer rb) = unat N"
  shows "ring_get N rb q = (if q AND N = 0 then Inr 0 else Inl OutOfBounds)"
proof -
  from ring_size_ok_power2 [OF assms(1)] obtain k where k: "k < 64" "N = 2 ^ k" by blast
  have "q AND 2 ^ k = 0 \<longleftrightarrow> \<not> bit q k" using k(1) by (simp add: word_and_power2)
  with k ring_get_eq [OF assms(2) k(2,1)] show ?thesis by simp
qed

theorem ring_get_single_slot_witness:
  "ring_get 4 (RingBuffer 4 0) 3 = Inr 0 \<and> ring_get 4 (RingBuffer 4 0) 6 = Inl OutOfBounds"
proof -
  have N: "ring_size_ok 4" by (simp add: ring_size_ok_def)
  have L: "length (buffer (RingBuffer 4 0)) = unat (4 :: u64)" by (simp add: RingBuffer_def)
  show ?thesis using ring_get_single_slot [OF N L, of 3] ring_get_single_slot [OF N L, of 6] by simp
qed

text \<open>C2. Construction. The disruptor replaces the sequencer of exactly the processors and
  producers it is given by one fresh sequencer whose cursor is \<open>-1\<close>; the existing sequencers and
  ring buffers stay as they were, and the ring buffer it allocates itself is one that no
  processor or producer refers to.\<close>

theorem disruptor_rewires:
  assumes "Disruptor N g procs prods w = (d, w')"
    and "\<forall>x \<in> set (processors w). proc_ring x < length (rings w)"
    and "\<forall>x \<in> set (producers w). prod_ring x < length (rings w)"
  shows "disruptor_cursor d w' = -1
    \<and> disr_sequencer d = length (sequencers w)
    \<and> take (length (sequencers w)) (sequencers w') = sequencers w
    \<and> take (length (rings w)) (rings w') = rings w
    \<and> (\<forall>c < length (processors w). processors w' ! c =
         (if c \<in> set procs then (processors w ! c)\<lparr>proc_seq := disr_sequencer d\<rparr>
          else processors w ! c))
    \<and> (\<forall>p < length (producers w). producers w' ! p =
         (if p \<in> set prods then (producers w ! p)\<lparr>prod_seq := disr_sequencer d\<rparr>
          else producers w ! p))
    \<and> disr_buffer d \<notin> proc_ring ` set (processors w') \<union> prod_ring ` set (producers w')"
proof -
  have eq: "d = \<lparr>disr_sequencer = length (sequencers w), disr_processors = procs,
       disr_producers = prods, disr_buffer = length (rings w), disr_threads = []\<rparr>"
    "w' = w\<lparr>sequencers := sequencers w @ [Sequencer], rings := rings w @ [RingBuffer N g],
        processors := map (\<lambda>(c, pr). if c \<in> set procs then pr\<lparr>proc_seq := length (sequencers w)\<rparr>
           else pr) (enumerate 0 (processors w)),
        producers := map (\<lambda>(p, pr). if p \<in> set prods then pr\<lparr>prod_seq := length (sequencers w)\<rparr>
           else pr) (enumerate 0 (producers w))\<rparr>"
    using assms(1) by (simp_all add: Disruptor_eq)
  have "disr_buffer d \<notin> proc_ring ` set (processors w')"
    unfolding eq using assms(2) by (auto simp: in_set_enumerate_eq split: if_splits)
  moreover have "disr_buffer d \<notin> prod_ring ` set (producers w')"
    unfolding eq using assms(3) by (auto simp: in_set_enumerate_eq split: if_splits)
  ultimately show ?thesis
    by (simp add: eq disruptor_cursor_def Sequencer_def nth_enumerate_eq)
qed

theorem disruptor_rewires_witness:
  "disruptor_cursor (fst (Disruptor 4 0 [0] [0] (demo_objects 4 0 1 2)))
     (snd (Disruptor 4 0 [0] [0] (demo_objects 4 0 1 2))) = -1"
proof -
  let ?w = "demo_objects 4 0 1 2"
  have objs: "processors ?w = [\<lparr>running = True, next_sequence = 0, proc_ring = 0, proc_seq = 0,
      proc_id = 0\<rparr>, \<lparr>running = True, next_sequence = 0, proc_ring = 0, proc_seq = 0, proc_id = 1\<rparr>]"
    "producers ?w = [\<lparr>prod_ring = 0, prod_seq = 0\<rparr>]" "length (rings ?w) = 1"
    by (simp_all add: demo_objects_def make_ring_def make_sequencer_def empty_world_def
        Producer_def EventProcessor_def numeral_2_eq_2)
  show ?thesis
    using disruptor_rewires [of 4 0 "[0]" "[0]" ?w "fst (Disruptor 4 0 [0] [0] ?w)"
        "snd (Disruptor 4 0 [0] [0] ?w)"] objs
    by simp
qed

text \<open>A burst of at most \<open>N\<close> events from one producer succeeds; the cursor then is the number
  of events less one, as the tests expect after each call; every call prints its line; and the
  ring buffer remembers only the last event, in slot \<open>0\<close>.\<close>

theorem burst_within_size:
  assumes "ring_size_ok N" and "demo_system N g np nc = (d, w)" and "p < np"
    and "ds \<noteq> []" and "length ds \<le> unat N"
  shows "\<exists>w'. produce_all N p ds w = Inr w'
    \<and> disruptor_cursor d w' = of_nat (length ds - 1)
    \<and> event_value (buffer (rings w' ! 0) ! 0) = last ds
    \<and> stdout w' = stdout w @ map (\<lambda>(i, x). Published x (of_nat i)) (enumerate 0 ds)"
proof -
  note dw = demo_system_wired [OF assms(1,2)]
  have p: "p < length (producers w)" using dw(3) assms(3) by simp
  obtain w' where "produce_all N p ds w = Inr w'" "cursor_of 1 w' = of_nat (0 + length ds) - 1"
    "slot_of 0 w' = (if ds = [] then slot_of 0 w else last ds)"
    "stdout w' = stdout w @ map (\<lambda>(i, d). Published d (of_nat i)) (enumerate 0 ds)"
    by (rule produce_all_wired [OF dw(1) p, of 0 ds]) (use dw(2) assms(5) in auto)
  then show ?thesis
    using assms(4) dw(5) by (auto simp: disruptor_cursor_def cursor_of_def slot_of_def neq_Nil_conv)
qed

text \<open>C3. In a burst of more than \<open>N\<close> events the first \<open>N\<close> calls of \<open>on_data\<close> return, and call number \<open>N\<close>
  (counted from \<open>0\<close>) writes one past the end of the array, so that the burst as a whole is undefined.\<close>

theorem burst_overruns:
  assumes "ring_size_ok N" and "demo_system N g np nc = (d, w)" and "p < np"
    and "unat N < length ds"
  shows "(\<exists>w1. produce_all N p (take (unat N) ds) w = Inr w1 \<and> on_data N p (ds ! unat N) w1 = Inl OutOfBounds)
    \<and> produce_all N p ds w = Inl OutOfBounds"
proof -
  note dw = demo_system_wired [OF assms(1,2)]
  have p: "p < length (producers w)" using dw(3) assms(3) by simp
  let ?n = "unat N"
  have ds: "ds = take ?n ds @ ds ! ?n # drop (Suc ?n) ds"
    using assms(4) by (rule id_take_nth_drop)
  have len: "length (take ?n ds) = ?n" using assms(4) by simp
  obtain w1 where w1: "produce_all N p (take ?n ds) w = Inr w1" "wired N 1 0 w1"
    "cursor_of 1 w1 = of_nat (0 + length (take ?n ds)) - 1" "producers w1 = producers w"
    by (rule produce_all_wired [OF dw(1) p, of 0 "take ?n ds"]) (use dw(2) len in auto)
  have p1: "p < length (producers w1)" using w1(4) p by simp
  obtain q w2 where c: "claim_sequence p w1 = (q, w2)" by fastforce
  note c2 = claim_sequence_wired [OF w1(2) p1 c]
  have "q = N" using c2(2) w1(3) len by simp
  moreover have "ring_get N (rings w2 ! 0) N = Inl OutOfBounds"
    using c2(1) assms(1) by (intro ring_get_at_size) (simp_all add: wired_def)
  ultimately have oob: "on_data N p (ds ! ?n) w1 = Inl OutOfBounds"
    using c wired_prod [OF c2(1), of p] p1 c2(5)
    by (simp add: on_data_def write_event_def Let_def)
  then have "for_each (on_data N p) (take ?n ds @ ds ! ?n # drop (Suc ?n) ds) w = Inl OutOfBounds"
    using w1(1) unfolding produce_all_def by (simp add: for_each_append)
  then have "produce_all N p ds w = Inl OutOfBounds" unfolding produce_all_def using ds by simp
  with w1(1) oob show ?thesis by blast
qed

theorem burst_overruns_witness:
  "(\<exists>w1. produce_all 1 0 [''a''] (snd (demo_system 1 0 1 0)) = Inr w1 \<and> on_data 1 0 ''b'' w1 = Inl OutOfBounds)
    \<and> produce_all 1 0 [''a'', ''b''] (snd (demo_system 1 0 1 0)) = Inl OutOfBounds"
proof -
  have N: "ring_size_ok 1" by (simp add: ring_size_ok_def)
  show ?thesis using burst_overruns [OF N prod.collapse [symmetric], where np = 1 and p = 0 and nc = 0
        and g = 0 and ds = "[''a'', ''b'']"] by simp
qed

text \<open>C4. A processor that keeps up gets everything: when the inner loop of \<open>run\<close> empties the
  buffer after every call of \<open>on_data\<close>, as the sleeps in \<open>main.cpp\<close> and in the tests arrange, it
  prints every event exactly once, in order, with its sequence number, for up to \<open>N\<close> events.\<close>

theorem lockstep_delivers_in_order:
  assumes "ring_size_ok N" and "demo_system N g np nc = (d, w)" and "p < np" and "c < nc"
    and "length ds \<le> unat N" and "unat N < 2 ^ 63"
  shows "\<exists>w'. lockstep N p c ds w = Some (Inr w')
    \<and> consumed_by (int c) (stdout w') = map (\<lambda>(i, x). (of_nat i, x)) (enumerate 0 ds)"
proof -
  note dw = demo_system_wired [OF assms(1,2)]
  have "\<exists>w'. lockstep N p c ds w = Some (Inr w') \<and> cursor_of 1 w' = of_nat (0 + length ds) - 1
    \<and> consumed_by (proc_id (processors w ! c)) (stdout w') =
        consumed_by (proc_id (processors w ! c)) (stdout w) @
          map (\<lambda>(i, d). (of_nat i, d)) (enumerate 0 ds)"
    by (rule lockstep_wired [OF dw(1)]) (use dw assms in auto)
  then show ?thesis using dw(7) [OF assms(4)] demo_system_consumed [OF assms(2)] by auto
qed

theorem lockstep_delivers_in_order_witness:
  "\<exists>w'. lockstep 4 0 1 [''x'', ''y''] (snd (demo_system 4 0 1 2)) = Some (Inr w')
    \<and> consumed_by 1 (stdout w') = [(0, ''x''), (1, ''y'')]"
proof -
  have N: "ring_size_ok 4" by (simp add: ring_size_ok_def)
  show ?thesis
    using lockstep_delivers_in_order [OF N prod.collapse [symmetric], where np = 1 and p = 0
        and nc = 2 and c = 1 and g = 0 and ds = "[''x'', ''y'']"]
    by simp
qed

text \<open>C5. A processor that lags behind loses events: after a burst of \<open>n \<le> N\<close> events the inner
  loop ends within \<open>n + 1\<close> tests of its guard and prints \<open>n\<close> lines with the right sequence
  numbers, but each carries the last event of the burst.\<close>

theorem lagging_processor_repeats_last:
  assumes "ring_size_ok N" and "demo_system N g np nc = (d, w)" and "p < np" and "c < nc"
    and "ds \<noteq> []" and "length ds \<le> unat N" and "unat N < 2 ^ 63"
    and "produce_all N p ds w = Inr w1"
  shows "\<exists>w'. drain (length ds + 1) N c w1 = Some (Inr w')
    \<and> consumed_by (int c) (stdout w') = map (\<lambda>i. (of_nat i, last ds)) [0..<length ds]"
proof -
  note dw = demo_system_wired [OF assms(1,2)]
  have p: "p < length (producers w)" using dw(3) assms(3) by simp
  obtain w1' where w1: "produce_all N p ds w = Inr w1'" "wired N 1 0 w1'"
    "cursor_of 1 w1' = of_nat (0 + length ds) - 1"
    "slot_of 0 w1' = (if ds = [] then slot_of 0 w else last ds)"
    "processors w1' = processors w"
    "stdout w1' = stdout w @ map (\<lambda>(i, d). Published d (of_nat i)) (enumerate 0 ds)"
    by (rule produce_all_wired [OF dw(1) p, of 0 ds]) (use dw(2) assms(6) in auto)
  have "w1' = w1" using w1(1) assms(8) by simp
  note w1 = w1 [unfolded this]
  have c: "c < length (processors w1)" and n: "next_of c w1 = of_nat 0"
    using dw(4,7) w1(5) assms(4) by (simp_all add: next_of_def)
  obtain w2 where "drain (length ds + 1) N c w1 = Some (Inr w2)"
    "stdout w2 = stdout w1 @
       map (\<lambda>i. Consumed (proc_id (processors w1 ! c)) (slot_of 0 w1) (of_nat i)) [0..<length ds]"
    by (rule drain_wired [OF w1(2) c n, of "length ds" "length ds + 1"]) (use w1 assms in auto)
  then show ?thesis
    using w1 dw(7) [OF assms(4)] demo_system_consumed [OF assms(2)] assms(5) by simp
qed

theorem lagging_processor_repeats_last_witness:
  "\<exists>w1 w'. produce_all 4 0 [''x'', ''y''] (snd (demo_system 4 0 1 1)) = Inr w1
    \<and> drain 3 4 0 w1 = Some (Inr w') \<and> consumed_by 0 (stdout w') = [(0, ''y''), (1, ''y'')]"
proof -
  have N: "ring_size_ok 4" by (simp add: ring_size_ok_def)
  obtain w1 where w1: "produce_all 4 0 [''x'', ''y''] (snd (demo_system 4 0 1 1)) = Inr w1"
    by (cases "produce_all 4 0 [''x'', ''y''] (snd (demo_system 4 0 1 1))")
      (simp_all add: produce_all_def demo_system_eq on_data_def claim_sequence_def write_event_def
        seq_next_def ring_get_def RingBuffer_def Let_def publish_sequence_def print_line_def
        Sequencer_def seq_publish_def)
  show ?thesis
    using lagging_processor_repeats_last [OF N prod.collapse [symmetric], where np = 1 and p = 0
        and nc = 1 and c = 0 and g = 0 and ds = "[''x'', ''y'']" and ?w1.0 = w1] w1
    by (auto simp: numeral_3_eq_3)
qed

end
