(* ===== verification/Disruptor_Threads.thy ===== *)
theory Disruptor_Threads
  imports Disruptor_Runs
begin

text \<open>
  The disruptor with its threads: producers calling \<open>on_data\<close>, one thread per processor in
  \<open>run\<close>, and the main thread calling \<open>start\<close> and \<open>halt\<close>. The threads interleave at their
  accesses to shared objects (sequentially consistent): one step is one atomic operation on the
  cursor, one write or read of an event, one test of \<open>running_\<close>, or one line of output. A
  step whose C++ original is undefined is a \<open>fault\<close>, and so are two next steps that access the same
  plain object, one of them to write it: a data race.
\<close>

section \<open>Threads and steps\<close>

text \<open>Where a producer is inside \<open>on_data\<close>, with its argument and its sequence number; where a
  processor thread is inside \<open>run\<close>; where the main thread is.\<close>

datatype producer_pc =
    PIdle
  | PClaimed string i64
  | PWritten string i64
  | PPublished string i64

datatype processor_pc = CNew | CWhile | CInner | CBody | CExit

datatype main_pc = MInit | MRun | MHalt "nat list" | MJoin "nat list" | MDone

record sys =
  objs :: world
  disr :: disruptor
  prod_pc :: "producer_pc list"
  proc_pc :: "processor_pc list"
  main_at :: main_pc

definition init_sys :: "u64 \<Rightarrow> i64 \<Rightarrow> nat \<Rightarrow> nat \<Rightarrow> sys" where
  "init_sys N garbage np nc =
     (let (d, w) = demo_system N garbage np nc
      in \<lparr>objs = w, disr = d, prod_pc = replicate np PIdle, proc_pc = replicate nc CNew,
          main_at = MInit\<rparr>)"

inductive step :: "u64 \<Rightarrow> sys \<Rightarrow> sys \<Rightarrow> bool" for N :: u64 where
  \<comment> \<open>\<open>Producer::on_data\<close>\<close>
  claim: "p < length (prod_pc s) \<Longrightarrow> prod_pc s ! p = PIdle \<Longrightarrow> claim_sequence p (objs s) = (q, w) \<Longrightarrow>
    step N s (s\<lparr>objs := w, prod_pc := (prod_pc s)[p := PClaimed d q]\<rparr>)"
| write_slot: "p < length (prod_pc s) \<Longrightarrow> prod_pc s ! p = PClaimed d q \<Longrightarrow>
    write_event N p q d (objs s) = Inr w \<Longrightarrow>
    step N s (s\<lparr>objs := w, prod_pc := (prod_pc s)[p := PWritten d q]\<rparr>)"
| publish: "p < length (prod_pc s) \<Longrightarrow> prod_pc s ! p = PWritten d q \<Longrightarrow>
    step N s (s\<lparr>objs := publish_sequence p q (objs s), prod_pc := (prod_pc s)[p := PPublished d q]\<rparr>)"
| print_published: "p < length (prod_pc s) \<Longrightarrow> prod_pc s ! p = PPublished d q \<Longrightarrow>
    step N s (s\<lparr>objs := print_line (Published d q) (objs s), prod_pc := (prod_pc s)[p := PIdle]\<rparr>)"
  \<comment> \<open>\<open>EventProcessor::run\<close>\<close>
| while_true: "c < length (proc_pc s) \<Longrightarrow> proc_pc s ! c = CWhile \<Longrightarrow>
    running (processors (objs s) ! c) \<Longrightarrow> step N s (s\<lparr>proc_pc := (proc_pc s)[c := CInner]\<rparr>)"
| while_false: "c < length (proc_pc s) \<Longrightarrow> proc_pc s ! c = CWhile \<Longrightarrow>
    \<not> running (processors (objs s) ! c) \<Longrightarrow> step N s (s\<lparr>proc_pc := (proc_pc s)[c := CExit]\<rparr>)"
| inner_true: "c < length (proc_pc s) \<Longrightarrow> proc_pc s ! c = CInner \<Longrightarrow>
    event_available c (objs s) \<Longrightarrow> step N s (s\<lparr>proc_pc := (proc_pc s)[c := CBody]\<rparr>)"
| inner_false: "c < length (proc_pc s) \<Longrightarrow> proc_pc s ! c = CInner \<Longrightarrow>
    \<not> event_available c (objs s) \<Longrightarrow> step N s (s\<lparr>proc_pc := (proc_pc s)[c := CWhile]\<rparr>)"
| body: "c < length (proc_pc s) \<Longrightarrow> proc_pc s ! c = CBody \<Longrightarrow>
    consume_event N c (objs s) = Inr w \<Longrightarrow>
    step N s (s\<lparr>objs := w, proc_pc := (proc_pc s)[c := CInner]\<rparr>)"
  \<comment> \<open>\<open>Disruptor::start\<close> and \<open>Disruptor::halt\<close>, called by the main thread\<close>
| start: "main_at s = MInit \<Longrightarrow>
    step N s (s\<lparr>disr := disruptor_start (disr s),
      proc_pc := fold (\<lambda>c pcs. pcs[c := CWhile]) (disr_processors (disr s)) (proc_pc s),
      main_at := MRun\<rparr>)"
| halt: "main_at s = MRun \<Longrightarrow> step N s (s\<lparr>main_at := MHalt (disr_processors (disr s))\<rparr>)"
| halt_one: "main_at s = MHalt (c # cs) \<Longrightarrow>
    step N s (s\<lparr>objs := processor_halt c (objs s), main_at := MHalt cs\<rparr>)"
| halted: "main_at s = MHalt [] \<Longrightarrow> step N s (s\<lparr>main_at := MJoin (disr_threads (disr s))\<rparr>)"
| join_one: "main_at s = MJoin (c # cs) \<Longrightarrow> proc_pc s ! c = CExit \<Longrightarrow>
    step N s (s\<lparr>main_at := MJoin cs\<rparr>)"
| joined: "main_at s = MJoin [] \<Longrightarrow>
    step N s (s\<lparr>disr := disruptor_clear_threads (disr s), main_at := MDone\<rparr>)"

text \<open>Of the objects that several threads access, the cursor is atomic; the string of an event and the flag
  \<open>running_\<close> of a processor are not. The access to such an object that the next step of a thread makes, and
  whether it is a write: \<open>event.set\<close> in \<open>on_data\<close>, \<open>event.get\<close> and the test of \<open>running_\<close> in \<open>run\<close>, the assignment of
  \<open>running_\<close> in \<open>halt\<close>.\<close>

datatype thread_id = ProducerThread nat | ProcessorThread nat | MainThread

datatype location = EventValue nat nat | RunningFlag nat

fun plain_access :: "u64 \<Rightarrow> sys \<Rightarrow> thread_id \<Rightarrow> (location \<times> bool) option" where
  "plain_access N s (ProducerThread p) =
     (if p < length (prod_pc s)
      then (case prod_pc s ! p of
              PClaimed d q \<Rightarrow>
                (let r = prod_ring (producers (objs s) ! p)
                 in case ring_get N (rings (objs s) ! r) q of
                      Inl e \<Rightarrow> None
                    | Inr i \<Rightarrow> Some (EventValue r i, True))
            | _ \<Rightarrow> None)
      else None)"
| "plain_access N s (ProcessorThread c) =
     (if c < length (proc_pc s)
      then (case proc_pc s ! c of
              CWhile \<Rightarrow> Some (RunningFlag c, False)
            | CBody \<Rightarrow>
                (let r = proc_ring (processors (objs s) ! c)
                 in case ring_get N (rings (objs s) ! r) (next_sequence (processors (objs s) ! c)) of
                      Inl e \<Rightarrow> None
                    | Inr i \<Rightarrow> Some (EventValue r i, False))
            | _ \<Rightarrow> None)
      else None)"
| "plain_access N s MainThread =
     (case main_at s of MHalt (c # cs) \<Rightarrow> Some (RunningFlag c, True) | _ \<Rightarrow> None)"

definition data_race :: "u64 \<Rightarrow> sys \<Rightarrow> bool" where
  "data_race N s \<longleftrightarrow> (\<exists>t u l b. t \<noteq> u \<and> plain_access N s t = Some (l, True) \<and> plain_access N s u = Some (l, b))"

inductive fault :: "u64 \<Rightarrow> sys \<Rightarrow> ub \<Rightarrow> bool" for N :: u64 where
  fault_write: "p < length (prod_pc s) \<Longrightarrow> prod_pc s ! p = PClaimed d q \<Longrightarrow>
    write_event N p q d (objs s) = Inl e \<Longrightarrow> fault N s e"
| fault_read: "c < length (proc_pc s) \<Longrightarrow> proc_pc s ! c = CBody \<Longrightarrow>
    consume_event N c (objs s) = Inl e \<Longrightarrow> fault N s e"
| fault_race: "data_race N s \<Longrightarrow> fault N s DataRace"


inductive reachable :: "u64 \<Rightarrow> sys \<Rightarrow> sys \<Rightarrow> bool" for N :: u64 where
  here: "reachable N s s"
| after: "reachable N s t \<Longrightarrow> step N t u \<Longrightarrow> reachable N s u"

section \<open>One producer: the invariant\<close>

text \<open>With one producer, \<open>m\<close> sequence numbers have been claimed and the cursor is \<open>m - 1\<close>.
  Publishing writes the value the cursor already has. Number \<open>N\<close> can be claimed but not
  written.\<close>

fun prod_ok :: "u64 \<Rightarrow> nat \<Rightarrow> producer_pc \<Rightarrow> bool" where
  "prod_ok N m PIdle \<longleftrightarrow> m \<le> unat N"
| "prod_ok N m (PClaimed d q) \<longleftrightarrow> 0 < m \<and> m \<le> unat N + 1 \<and> q = of_nat (m - 1)"
| "prod_ok N m (PWritten d q) \<longleftrightarrow> 0 < m \<and> m \<le> unat N \<and> q = of_nat (m - 1)"
| "prod_ok N m (PPublished d q) \<longleftrightarrow> 0 < m \<and> m \<le> unat N \<and> q = of_nat (m - 1)"

text \<open>Processor \<open>c\<close> has printed the sequence numbers \<open>0 \<dots> n - 1\<close> for some \<open>n \<le> m\<close>, and has
  one to print when it is in the loop body.\<close>

definition proc_ok :: "nat \<Rightarrow> world \<Rightarrow> processor_pc \<Rightarrow> nat \<Rightarrow> bool" where
  "proc_ok m w pc c \<longleftrightarrow> proc_id (processors w ! c) = int c \<and>
     (\<exists>n \<le> m. next_of c w = of_nat n
        \<and> map fst (consumed_by (int c) (stdout w)) = map of_nat [0..<n]
        \<and> (pc = CBody \<longrightarrow> n < m))"

definition sp_inv :: "u64 \<Rightarrow> nat \<Rightarrow> sys \<Rightarrow> bool" where
  "sp_inv N m s \<longleftrightarrow> wired N 1 0 (objs s) \<and> cursor_of 1 (objs s) = of_nat m - 1
     \<and> length (producers (objs s)) = 1 \<and> length (prod_pc s) = 1
     \<and> length (proc_pc s) = length (processors (objs s))
     \<and> prod_ok N m (prod_pc s ! 0)
     \<and> (\<forall>c < length (proc_pc s). proc_ok m (objs s) (proc_pc s ! c) c)"

lemma prod_ok_bound: "prod_ok N m pc \<Longrightarrow> m \<le> unat N + 1"
  by (cases pc) auto

lemma proc_ok_same:
  assumes "proc_ok m w pc c" and "m \<le> m'" and "proc_id (processors w' ! c) = proc_id (processors w ! c)"
    and "next_of c w' = next_of c w"
    and "consumed_by (int c) (stdout w') = consumed_by (int c) (stdout w)"
    and "pc' = CBody \<Longrightarrow> pc = CBody"
  shows "proc_ok m' w' pc' c"
proof -
  from assms(1) obtain n where "n \<le> m" "next_of c w = of_nat n"
      "map fst (consumed_by (int c) (stdout w)) = map of_nat [0..<n]" "pc = CBody \<longrightarrow> n < m"
    unfolding proc_ok_def by blast
  with assms show ?thesis unfolding proc_ok_def by (intro conjI exI [of _ n]) auto
qed

text \<open>Every step of a producer keeps the invariant, with \<open>m\<close> one larger when it claims.\<close>

lemma sp_inv_claim:
  assumes "sp_inv N m s" and "prod_pc s ! 0 = PIdle" and "claim_sequence 0 (objs s) = (q, w)"
  shows "sp_inv N (Suc m) (s\<lparr>objs := w, prod_pc := (prod_pc s)[0 := PClaimed d q]\<rparr>)"
proof -
  have w: "wired N 1 0 (objs s)" and p: "0 < length (producers (objs s))"
    using assms(1) by (auto simp: sp_inv_def)
  note c = claim_sequence_wired [OF w p assms(3)]
  have "proc_ok (Suc m) w (proc_pc s ! c) c" if "c < length (proc_pc s)" for c
    by (rule proc_ok_same [of m "objs s" "proc_pc s ! c"])
      (use that assms(1) c in \<open>auto simp: sp_inv_def next_of_def\<close>)
  with assms c show ?thesis by (auto simp: sp_inv_def)
qed

lemma sp_inv_write:
  assumes "sp_inv N m s" and "prod_pc s ! 0 = PClaimed d q" and "write_event N 0 q d (objs s) = Inr w"
  shows "sp_inv N m (s\<lparr>objs := w, prod_pc := (prod_pc s)[0 := PWritten d q]\<rparr>)"
proof -
  have w: "wired N 1 0 (objs s)" and p: "0 < length (producers (objs s))"
    and q: "q = of_nat (m - 1)" "0 < m" "m \<le> unat N + 1"
    using assms(1,2) by (auto simp: sp_inv_def)
  have "m - 1 \<noteq> unat N"
  proof
    assume "m - 1 = unat N"
    then have "q = N" using q(1) by simp
    moreover have "ring_get N (rings (objs s) ! 0) N = Inl OutOfBounds"
      using w by (intro ring_get_at_size) (simp_all add: wired_def)
    ultimately show False
      using assms(3) wired_prod [OF w p] by (simp add: write_event_def Let_def)
  qed
  then have m: "m - 1 < unat N" using q by simp
  obtain w' where w': "write_event N 0 (of_nat (m - 1)) d (objs s) = Inr w'" "wired N 1 0 w'"
    "cursor_of 1 w' = cursor_of 1 (objs s)" "producers w' = producers (objs s)"
    "processors w' = processors (objs s)" "stdout w' = stdout (objs s)"
    using write_event_wired [OF w p m] by metis
  have "w' = w" using w'(1) assms(3) q(1) by simp
  note w' = w' [unfolded this]
  have "proc_ok m w (proc_pc s ! c) c" if "c < length (proc_pc s)" for c
    by (rule proc_ok_same [of m "objs s" "proc_pc s ! c"])
      (use that assms(1) w' in \<open>auto simp: sp_inv_def next_of_def\<close>)
  then show ?thesis using assms(1) w' q m by (auto simp: sp_inv_def)
qed

lemma sp_inv_publish:
  assumes "sp_inv N m s" and "prod_pc s ! 0 = PWritten d q"
  shows "sp_inv N m (s\<lparr>objs := publish_sequence 0 q (objs s), prod_pc := (prod_pc s)[0 := PPublished d q]\<rparr>)"
proof -
  have w: "wired N 1 0 (objs s)" and p: "0 < length (producers (objs s))"
    and pk: "prod_ok N m (PWritten d q)"
    using assms by (auto simp: sp_inv_def)
  then have q: "q = of_nat m - 1" by (simp add: of_nat_diff)
  note c = publish_sequence_wired [OF w p refl, of q]
  have "proc_ok m (publish_sequence 0 q (objs s)) (proc_pc s ! c) c" if "c < length (proc_pc s)" for c
    by (rule proc_ok_same [of m "objs s" "proc_pc s ! c"])
      (use that assms(1) c in \<open>auto simp: sp_inv_def next_of_def\<close>)
  moreover have "cursor_of 1 (publish_sequence 0 q (objs s)) = of_nat m - 1"
    using c(2) q by simp
  moreover have "prod_ok N m ((prod_pc s)[0 := PPublished d q] ! 0)"
    using pk assms(1) by (simp add: sp_inv_def)
  ultimately show ?thesis using assms(1) c(1,4,5) unfolding sp_inv_def by simp
qed

lemma sp_inv_print:
  assumes "sp_inv N m s" and "prod_pc s ! 0 = PPublished d q"
  shows "sp_inv N m (s\<lparr>objs := print_line (Published d q) (objs s), prod_pc := (prod_pc s)[0 := PIdle]\<rparr>)"
proof -
  have "proc_ok m (print_line (Published d q) (objs s)) (proc_pc s ! c) c" if "c < length (proc_pc s)" for c
    by (rule proc_ok_same [of m "objs s" "proc_pc s ! c"])
      (use that assms(1) in \<open>auto simp: sp_inv_def next_of_def\<close>)
  with assms show ?thesis by (auto simp: sp_inv_def)
qed

text \<open>Steps of a processor thread and of the main thread.\<close>

lemma ring_size_le:
  assumes "ring_size_ok N" and "unat N < 2 ^ 63"
  shows "unat N \<le> 2 ^ 62"
proof -
  from ring_size_ok_power2 [OF assms(1)] obtain k where k: "k < 64" "N = 2 ^ k" by blast
  then have u: "unat N = 2 ^ k" by (simp add: unat_power2_u64)
  with assms(2) have "(2::nat) ^ k < 2 ^ 63" by simp
  then have "k < 63" by (rule power_less_imp_less_exp [rotated]) simp
  then have "(2::nat) ^ k \<le> 2 ^ 62" by (intro power_increasing) simp_all
  with u show ?thesis by simp
qed

lemma sp_inv_pc:
  assumes "sp_inv N m s" and "c < length (proc_pc s)" and "pc = CBody \<Longrightarrow> event_available c (objs s)"
    and "unat N < 2 ^ 63"
  shows "sp_inv N m (s\<lparr>proc_pc := (proc_pc s)[c := pc]\<rparr>)"
proof -
  have w: "wired N 1 0 (objs s)" and c: "c < length (processors (objs s))"
    and ok: "proc_ok m (objs s) (proc_pc s ! c) c" and m: "m \<le> unat N + 1"
    and cur: "cursor_of 1 (objs s) = of_nat m - 1"
    using assms(1,2) prod_ok_bound by (auto simp: sp_inv_def)
  from ok obtain n where n: "n \<le> m" "next_of c (objs s) = of_nat n"
      "map fst (consumed_by (int c) (stdout (objs s))) = map of_nat [0..<n]"
      "proc_id (processors (objs s) ! c) = int c"
    unfolding proc_ok_def by blast
  have "unat N \<le> 2 ^ 62" using w assms(4) by (intro ring_size_le) (simp_all add: wired_def)
  then have "n < 2 ^ 63" "m \<le> 2 ^ 63" using m n(1) by simp_all
  then have "pc = CBody \<Longrightarrow> n < m" using event_available_wired [OF w c n(2) cur] assms(3) by simp
  then have "proc_ok m (objs s) pc c" using n unfolding proc_ok_def by blast
  with assms(1) show ?thesis by (auto simp: sp_inv_def nth_list_update_if)
qed

lemma sp_inv_body:
  assumes "sp_inv N m s" and "c < length (proc_pc s)" and "proc_pc s ! c = CBody"
    and "consume_event N c (objs s) = Inr w" and "unat N < 2 ^ 63"
  shows "sp_inv N m (s\<lparr>objs := w, proc_pc := (proc_pc s)[c := CInner]\<rparr>)"
proof -
  have w: "wired N 1 0 (objs s)" and c: "c < length (processors (objs s))"
    and ok: "proc_ok m (objs s) CBody c" and m: "m \<le> unat N + 1"
    using assms(1-3) prod_ok_bound by (force simp: sp_inv_def)+
  from ok obtain n where n: "n < m" "next_of c (objs s) = of_nat n"
      "map fst (consumed_by (int c) (stdout (objs s))) = map of_nat [0..<n]"
      "proc_id (processors (objs s) ! c) = int c"
    unfolding proc_ok_def by blast
  have "n \<noteq> unat N"
  proof
    assume "n = unat N"
    then have "next_sequence (processors (objs s) ! c) = N" using n(2) by (simp add: next_of_def)
    moreover have "ring_get N (rings (objs s) ! 0) N = Inl OutOfBounds"
      using w by (intro ring_get_at_size) (simp_all add: wired_def)
    ultimately show False
      using assms(4) wired_proc [OF w c] by (simp add: consume_event_def Let_def)
  qed
  then have nN: "n < unat N" using n(1) m by simp
  obtain w' where w': "consume_event N c (objs s) = Inr w'" "wired N 1 0 w'"
    "next_of c w' = of_nat (Suc n)" "cursor_of 1 w' = cursor_of 1 (objs s)"
    "producers w' = producers (objs s)"
    "processors w' = (processors (objs s))[c := (processors (objs s) ! c)\<lparr>next_sequence := of_nat (Suc n)\<rparr>]"
    "stdout w' = stdout (objs s) @ [Consumed (proc_id (processors (objs s) ! c)) (slot_of 0 (objs s)) (of_nat n)]"
    using consume_event_wired [OF w c n(2) nN assms(5)] by metis
  have "w' = w" using w'(1) assms(4) by simp
  note w' = w' [unfolded this]
  have mine: "proc_ok m w CInner c"
    unfolding proc_ok_def using w'(3,6,7) n c by (intro conjI exI [of _ "Suc n"]) simp_all
  have other: "proc_ok m w (proc_pc s ! i) i" if "i < length (proc_pc s)" "i \<noteq> c" for i
    by (rule proc_ok_same [of m "objs s" "proc_pc s ! i"])
      (use that assms(1) w' n(4) in \<open>auto simp: sp_inv_def next_of_def\<close>)
  show ?thesis
    using assms(1) w'(2,4,5,6) mine other by (auto simp: sp_inv_def nth_list_update_if)
qed

lemma sp_inv_halt_one:
  assumes "sp_inv N m s"
  shows "sp_inv N m (s\<lparr>objs := processor_halt c (objs s), main_at := pc\<rparr>)"
proof (cases "c < length (processors (objs s))")
  case True
  have "proc_ok m (processor_halt c (objs s)) (proc_pc s ! i) i" if "i < length (proc_pc s)" for i
    by (rule proc_ok_same [of m "objs s" "proc_pc s ! i"])
      (use that assms in \<open>auto simp: sp_inv_def next_of_def processor_halt_def nth_list_update_if\<close>)
  moreover have "wired N 1 0 (processor_halt c (objs s))"
    using assms wired_proc [of N 1 0 "objs s" c] True
    by (auto simp: sp_inv_def wired_def processor_halt_def dest!: set_update_subset_insert [THEN subsetD])
  ultimately show ?thesis
    using assms by (simp add: sp_inv_def processor_halt_def cursor_of_def)
next
  case False
  then have "processor_halt c (objs s) = objs s" by (simp add: processor_halt_def list_update_beyond)
  with assms show ?thesis by (simp add: sp_inv_def)
qed

lemma fold_set_CWhile:
  "length (fold (\<lambda>c pcs. pcs[c := CWhile]) cs pcs) = length pcs"
  "i < length pcs \<Longrightarrow> fold (\<lambda>c pcs. pcs[c := CWhile]) cs pcs ! i = (if i \<in> set cs then CWhile else pcs ! i)"
  by (induction cs arbitrary: pcs) (auto simp: nth_list_update_if)

lemma sp_inv_start:
  assumes "sp_inv N m s"
  shows "sp_inv N m (s\<lparr>disr := d,
      proc_pc := fold (\<lambda>c pcs. pcs[c := CWhile]) cs (proc_pc s), main_at := pc\<rparr>)"
proof -
  have "proc_ok m (objs s) (if i \<in> set cs then CWhile else proc_pc s ! i) i"
    if "i < length (proc_pc s)" for i
    by (rule proc_ok_same [of m "objs s" "proc_pc s ! i"])
      (use that assms in \<open>auto simp: sp_inv_def split: if_splits\<close>)
  with assms show ?thesis by (simp add: sp_inv_def fold_set_CWhile)
qed

text \<open>A step claims a sequence number exactly when it makes an idle producer busy.\<close>

definition claims :: "sys \<Rightarrow> sys \<Rightarrow> bool" where
  "claims s t \<longleftrightarrow> prod_pc s ! 0 = PIdle \<and> prod_pc t ! 0 \<noteq> PIdle"

lemma sp_inv_step_exact:
  assumes "step N s t" and "sp_inv N m s" and "unat N < 2 ^ 63"
  shows "sp_inv N (if claims s t then Suc m else m) t"
proof -
  have one: "length (prod_pc s) = 1" using assms(2) by (simp add: sp_inv_def)
  from assms(1) show ?thesis
  proof cases
    case (claim p q w d)
    then have "p = 0" using one by simp
    with claim sp_inv_claim [OF assms(2)] one show ?thesis by (auto simp: claims_def)
  next
    case (write_slot p d q w)
    then have "p = 0" using one by simp
    with write_slot sp_inv_write [OF assms(2)] show ?thesis by (auto simp: claims_def)
  next
    case (publish p d q)
    then have "p = 0" using one by simp
    with publish sp_inv_publish [OF assms(2)] show ?thesis by (auto simp: claims_def)
  next
    case (print_published p d q)
    then have "p = 0" using one by simp
    with print_published sp_inv_print [OF assms(2)] one show ?thesis by (auto simp: claims_def)
  next
    case (while_true c)
    then show ?thesis using sp_inv_pc [OF assms(2) while_true(2) _ assms(3), of CInner] by (simp add: claims_def)
  next
    case (while_false c)
    then show ?thesis using sp_inv_pc [OF assms(2) while_false(2) _ assms(3), of CExit] by (simp add: claims_def)
  next
    case (inner_true c)
    then show ?thesis using sp_inv_pc [OF assms(2) inner_true(2) _ assms(3), of CBody] by (simp add: claims_def)
  next
    case (inner_false c)
    then show ?thesis using sp_inv_pc [OF assms(2) inner_false(2) _ assms(3), of CWhile] by (simp add: claims_def)
  next
    case (body c w)
    then show ?thesis using sp_inv_body [OF assms(2) body(2-4) assms(3)] by (simp add: claims_def)
  next
    case start
    then show ?thesis using sp_inv_start [OF assms(2)] by (simp add: claims_def)
  next
    case (halt_one c cs)
    then show ?thesis using sp_inv_halt_one [OF assms(2)] by (simp add: claims_def)
  qed (use assms(2) in \<open>auto simp: sp_inv_def claims_def\<close>)
qed

lemma sp_inv_step:
  assumes "step N s t" and "sp_inv N m s" and "unat N < 2 ^ 63"
  shows "\<exists>m'. sp_inv N m' t"
  using sp_inv_step_exact [OF assms] by blast

lemma sp_inv_init:
  assumes "ring_size_ok N"
  shows "sp_inv N 0 (init_sys N g 1 nc)"
proof -
  obtain d w where dw: "demo_system N g 1 nc = (d, w)" by fastforce
  note i = demo_system_wired [OF assms dw]
  show ?thesis
    unfolding init_sys_def dw sp_inv_def proc_ok_def
    using i demo_system_consumed [OF dw] by auto
qed

lemma sp_inv_reachable:
  assumes "reachable N (init_sys N g 1 nc) s" and "ring_size_ok N" and "unat N < 2 ^ 63"
  shows "\<exists>m. sp_inv N m s"
  using assms(1)
proof (induction "init_sys N g 1 nc" s rule: reachable.induct)
  case here
  then show ?case using sp_inv_init [OF assms(2)] by blast
next
  case (after t u)
  then show ?case using sp_inv_step assms(3) by blast
qed

section \<open>Start, halt and join\<close>

text \<open>Only \<open>halt\<close> changes \<open>running_\<close>.\<close>

lemma producer_ops_keep_processors:
  "claim_sequence p w = (q, w') \<Longrightarrow> processors w' = processors w"
  "write_event N p q d w = Inr w' \<Longrightarrow> processors w' = processors w"
  "processors (publish_sequence p q w) = processors w"
  by (auto simp: claim_sequence_def write_event_def publish_sequence_def Let_def rbind_eq_Inr
      split: prod.splits)

lemma consume_event_running:
  assumes "consume_event N c w = Inr w'"
  shows "length (processors w') = length (processors w)"
    and "running (processors w' ! i) = running (processors w ! i)"
  using assms
  by (cases "i = c"; cases "c < length (processors w)";
      auto simp: consume_event_def Let_def rbind_eq_Inr list_update_beyond split: if_splits)+

text \<open>What the main thread knows at each point: which processors it has stopped, which threads it
  has joined.\<close>

definition stopped :: "sys \<Rightarrow> nat \<Rightarrow> bool" where
  "stopped s c \<longleftrightarrow> c < length (processors (objs s)) \<longrightarrow> \<not> running (processors (objs s) ! c)"

definition main_inv :: "sys \<Rightarrow> bool" where
  "main_inv s \<longleftrightarrow>
     (let procs = disr_processors (disr s); threads = disr_threads (disr s) in
      case main_at s of
        MInit \<Rightarrow> threads = []
      | MRun \<Rightarrow> threads = procs
      | MHalt cs \<Rightarrow> threads = procs \<and> (\<forall>c \<in> set procs - set cs. stopped s c)
      | MJoin cs \<Rightarrow> threads = procs \<and> (\<forall>c \<in> set procs. stopped s c)
          \<and> (\<forall>c \<in> set procs - set cs. proc_pc s ! c = CExit)
      | MDone \<Rightarrow> threads = [] \<and> (\<forall>c \<in> set procs. stopped s c \<and> proc_pc s ! c = CExit))"

lemma main_inv_same:
  assumes "main_inv s" and "main_at t = main_at s" and "disr t = disr s"
    and "\<And>c. stopped s c \<Longrightarrow> stopped t c" and "\<And>c. proc_pc s ! c = CExit \<Longrightarrow> proc_pc t ! c = CExit"
  shows "main_inv t"
  using assms unfolding main_inv_def Let_def by (auto split: main_pc.splits)

lemma main_inv_step:
  assumes "step N s t" and "main_inv s"
  shows "main_inv t"
  using assms(1)
proof cases
  case (claim p q w d)
  then show ?thesis
    by (intro main_inv_same [OF assms(2)]) (auto simp: stopped_def producer_ops_keep_processors)
next
  case (write_slot p d q w)
  then show ?thesis
    by (intro main_inv_same [OF assms(2)]) (auto simp: stopped_def producer_ops_keep_processors)
next
  case (body c w)
  then show ?thesis
    using consume_event_running [OF body(4)]
    by (intro main_inv_same [OF assms(2)]) (auto simp: stopped_def nth_list_update_any)
next
  case (halt_one c cs)
  have "stopped t c" using halt_one(1) by (simp add: stopped_def processor_halt_def)
  moreover have "stopped t i" if "stopped s i" for i
    using that halt_one(1) by (auto simp: stopped_def processor_halt_def nth_list_update_if)
  ultimately show ?thesis using assms(2) halt_one by (auto simp: main_inv_def Let_def)
next
  case (join_one c cs)
  then show ?thesis using assms(2) by (auto simp: main_inv_def Let_def stopped_def)
next
  case start
  then show ?thesis using assms(2) by (auto simp: main_inv_def Let_def disruptor_start_def)
next
  case halt
  then show ?thesis using assms(2) by (auto simp: main_inv_def Let_def)
next
  case halted
  then show ?thesis using assms(2) by (auto simp: main_inv_def Let_def stopped_def)
next
  case joined
  then show ?thesis
    using assms(2) by (auto simp: main_inv_def Let_def stopped_def disruptor_clear_threads_def)
qed (intro main_inv_same [OF assms(2)];
     auto simp: stopped_def producer_ops_keep_processors nth_list_update_any)+

lemma main_inv_reachable:
  assumes "reachable N (init_sys N g np nc) s"
  shows "main_inv s"
  using assms
proof (induction "init_sys N g np nc" s rule: reachable.induct)
  case here
  show ?case by (simp add: init_sys_def demo_system_eq main_inv_def)
next
  case (after t u)
  then show ?case using main_inv_step by blast
qed

section \<open>Particular runs\<close>

lemma reachable_trans: "reachable N t u \<Longrightarrow> reachable N s t \<Longrightarrow> reachable N s u"
  by (induction rule: reachable.induct) (auto intro: reachable.after)

lemma reachable_two: "step N s t \<Longrightarrow> step N t u \<Longrightarrow> reachable N s u"
  by (blast intro: reachable.intros)

lemma init_sys_view:
  assumes "ring_size_ok N"
  shows "wired N 1 0 (objs (init_sys N g np nc))" "cursor_of 1 (objs (init_sys N g np nc)) = -1"
    "length (producers (objs (init_sys N g np nc))) = np"
    "length (processors (objs (init_sys N g np nc))) = nc"
    "slot_of 0 (objs (init_sys N g np nc)) = []"
    "prod_pc (init_sys N g np nc) = replicate np PIdle"
    "proc_pc (init_sys N g np nc) = replicate nc CNew" "main_at (init_sys N g np nc) = MInit"
    "disr_processors (disr (init_sys N g np nc)) = [0..<nc]"
    "consumed_by i (stdout (objs (init_sys N g np nc))) = []"
    "\<And>c. c < nc \<Longrightarrow> next_of c (objs (init_sys N g np nc)) = 0
       \<and> proc_id (processors (objs (init_sys N g np nc)) ! c) = int c
       \<and> running (processors (objs (init_sys N g np nc)) ! c)"
proof -
  obtain d w where dw: "demo_system N g np nc = (d, w)" by fastforce
  note i = demo_system_wired [OF assms dw]
  have "disr_processors d = [0..<nc]" using dw by (auto simp: demo_system_eq)
  then show "wired N 1 0 (objs (init_sys N g np nc))" "cursor_of 1 (objs (init_sys N g np nc)) = -1"
    "length (producers (objs (init_sys N g np nc))) = np"
    "length (processors (objs (init_sys N g np nc))) = nc"
    "slot_of 0 (objs (init_sys N g np nc)) = []"
    "prod_pc (init_sys N g np nc) = replicate np PIdle"
    "proc_pc (init_sys N g np nc) = replicate nc CNew" "main_at (init_sys N g np nc) = MInit"
    "disr_processors (disr (init_sys N g np nc)) = [0..<nc]"
    "consumed_by i (stdout (objs (init_sys N g np nc))) = []"
    "\<And>c. c < nc \<Longrightarrow> next_of c (objs (init_sys N g np nc)) = 0
       \<and> proc_id (processors (objs (init_sys N g np nc)) ! c) = int c
       \<and> running (processors (objs (init_sys N g np nc)) ! c)"
    unfolding init_sys_def dw using i demo_system_consumed [OF dw] by simp_all
qed

text \<open>The producer has claimed sequence \<open>0\<close> and not yet written its event when the processor
  runs.\<close>

lemma early_read_run:
  assumes "ring_size_ok N" and "unat N < 2 ^ 63"
  shows "\<exists>s. reachable N (init_sys N g 1 1) s \<and> prod_pc s ! 0 = PClaimed d 0
    \<and> consumed_by 0 (stdout (objs s)) = [(0, [])]"
proof -
  let ?s0 = "init_sys N g 1 1"
  note i = init_sys_view [OF assms(1), where g = g and np = 1 and nc = 1]
  obtain q w where cl: "claim_sequence 0 (objs ?s0) = (q, w)" by fastforce
  have p0: "0 < length (producers (objs ?s0))" using i(3) by simp
  note c = claim_sequence_wired [OF i(1) p0 cl]
  have cw: "wired N 1 0 w" "q = 0" "cursor_of 1 w = of_nat 1 - 1" "slot_of 0 w = []"
      "processors w = processors (objs ?s0)" "stdout w = stdout (objs ?s0)"
    using c i by simp_all
  have len: "0 < length (processors w)" and nx: "next_of 0 w = of_nat 0"
    using cw(5) i(4) i(11) [of 0] by (simp_all add: next_of_def)
  have av: "event_available 0 w" using event_available_wired [OF cw(1) len nx cw(3)] by simp
  obtain w' where b: "consume_event N 0 w = Inr w'"
    "stdout w' = stdout w @ [Consumed (proc_id (processors w ! 0)) (slot_of 0 w) (of_nat 0)]"
    using consume_event_wired [OF cw(1) len nx _ assms(2)] ring_size_pos [OF assms(1)] by metis
  let ?s1 = "?s0\<lparr>objs := w, prod_pc := (prod_pc ?s0)[0 := PClaimed d q]\<rparr>"
  let ?s2 = "?s1\<lparr>disr := disruptor_start (disr ?s1),
      proc_pc := fold (\<lambda>c pcs. pcs[c := CWhile]) (disr_processors (disr ?s1)) (proc_pc ?s1),
      main_at := MRun\<rparr>"
  let ?s3 = "?s2\<lparr>proc_pc := (proc_pc ?s2)[0 := CInner]\<rparr>"
  let ?s4 = "?s3\<lparr>proc_pc := (proc_pc ?s3)[0 := CBody]\<rparr>"
  let ?s5 = "?s4\<lparr>objs := w', proc_pc := (proc_pc ?s4)[0 := CInner]\<rparr>"
  have "step N ?s0 ?s1" by (rule step.claim) (use i cl in simp_all)
  moreover have "step N ?s1 ?s2" by (rule step.start) (use i in simp)
  moreover have "step N ?s2 ?s3"
    by (rule step.while_true) (use i i(11) [of 0] cw(5) in simp_all)
  moreover have "step N ?s3 ?s4" by (rule step.inner_true) (use i av in simp_all)
  moreover have "step N ?s4 ?s5" by (rule step.body) (use i b in simp_all)
  ultimately have "reachable N ?s0 ?s5" by (meson reachable_two reachable.after)
  moreover have "consumed_by 0 (stdout w') = [(0, [])]"
    using b(2) cw i(10) [of 0] i(11) [of 0] by simp
  ultimately show ?thesis
    using cw(2) i(6) by (intro exI [of _ ?s5]) simp
qed

text \<open>Two producers: the one that claimed sequence \<open>0\<close> publishes after the one that claimed
  sequence \<open>1\<close>, which moves the cursor back, and its next claim is \<open>1\<close> again.\<close>

lemma duplicate_claim_run:
  assumes "ring_size_ok N" and "2 \<le> unat N"
  shows "\<exists>s t u. reachable N (init_sys N g 2 nc) s \<and> step N s t \<and> reachable N t u
    \<and> seq_cursor (sequencers (objs s) ! 1) = 1 \<and> seq_cursor (sequencers (objs t) ! 1) = 0
    \<and> prod_pc u ! 0 = PClaimed d 1 \<and> prod_pc u ! 1 = PPublished e 1"
proof -
  let ?s0 = "init_sys N g 2 nc"
  note i = init_sys_view [OF assms(1), where g = g and np = 2 and nc = nc]
  have p: "0 < length (producers (objs ?s0))" "1 < length (producers (objs ?s0))" using i(3) by simp_all
  obtain q1 w1 where c1: "claim_sequence 0 (objs ?s0) = (q1, w1)" by fastforce
  note v1 = claim_sequence_wired [OF i(1) p(1) c1]
  obtain q2 w2 where c2: "claim_sequence 1 w1 = (q2, w2)" by fastforce
  have p2: "1 < length (producers w1)" using v1(5) p(2) by simp
  note v2 = claim_sequence_wired [OF v1(1) p2 c2]
  have q: "q1 = of_nat 0" "q2 = of_nat 1" using v1 v2 i(2) by simp_all
  have p3: "1 < length (producers w2)" "0 < length (producers w2)" using v2(5) p2 by auto
  have N1: "1 < unat N" "0 < unat N" using assms(2) by simp_all
  obtain w3 where c3: "write_event N 1 (of_nat 1) e w2 = Inr w3" "wired N 1 0 w3"
      "producers w3 = producers w2"
    by (rule write_event_wired [OF v2(1) p3(1) N1(1)])
  have p4: "1 < length (producers w3)" "0 < length (producers w3)" using c3(3) p3 by simp_all
  define w4 where "w4 = publish_sequence 1 q2 w3"
  note v4 = publish_sequence_wired [OF c3(2) p4(1) w4_def]
  have p5: "0 < length (producers w4)" using v4(4) p4(2) by simp
  obtain w5 where c5: "write_event N 0 (of_nat 0) d w4 = Inr w5" "wired N 1 0 w5"
      "producers w5 = producers w4" "cursor_of 1 w5 = cursor_of 1 w4"
    by (rule write_event_wired [OF v4(1) p5 N1(2)])
  have p6: "0 < length (producers w5)" using c5(3) p5 by simp
  define w6 where "w6 = publish_sequence 0 q1 w5"
  note v6 = publish_sequence_wired [OF c5(2) p6 w6_def]
  define w7 where "w7 = print_line (Published d q1) w6"
  have v7: "wired N 1 0 w7" "cursor_of 1 w7 = q1" "0 < length (producers w7)"
    using v6 p6 by (simp_all add: w7_def)
  obtain q8 w8 where c8: "claim_sequence 0 w7 = (q8, w8)" by fastforce
  note v8 = claim_sequence_wired [OF v7(1,3) c8]
  let ?s1 = "?s0\<lparr>objs := w1, prod_pc := (prod_pc ?s0)[0 := PClaimed d q1]\<rparr>"
  let ?s2 = "?s1\<lparr>objs := w2, prod_pc := (prod_pc ?s1)[1 := PClaimed e q2]\<rparr>"
  let ?s3 = "?s2\<lparr>objs := w3, prod_pc := (prod_pc ?s2)[1 := PWritten e q2]\<rparr>"
  let ?s4 = "?s3\<lparr>objs := publish_sequence 1 q2 (objs ?s3), prod_pc := (prod_pc ?s3)[1 := PPublished e q2]\<rparr>"
  let ?s5 = "?s4\<lparr>objs := w5, prod_pc := (prod_pc ?s4)[0 := PWritten d q1]\<rparr>"
  let ?s6 = "?s5\<lparr>objs := publish_sequence 0 q1 (objs ?s5), prod_pc := (prod_pc ?s5)[0 := PPublished d q1]\<rparr>"
  let ?s7 = "?s6\<lparr>objs := print_line (Published d q1) (objs ?s6), prod_pc := (prod_pc ?s6)[0 := PIdle]\<rparr>"
  let ?s8 = "?s7\<lparr>objs := w8, prod_pc := (prod_pc ?s7)[0 := PClaimed d q8]\<rparr>"
  have "step N ?s0 ?s1" by (rule step.claim) (use i(6) c1 in simp_all)
  moreover have "step N ?s1 ?s2" by (rule step.claim) (use i(6) c2 in simp_all)
  moreover have "step N ?s2 ?s3" by (rule step.write_slot) (use i(6) c3(1) q in simp_all)
  moreover have "step N ?s3 ?s4" by (rule step.publish) (use i(6) in simp_all)
  moreover have "step N ?s4 ?s5" by (rule step.write_slot) (use i(6) c5(1) q w4_def in simp_all)
  ultimately have before: "reachable N ?s0 ?s5" by (meson reachable_two reachable.after)
  have set_back: "step N ?s5 ?s6" by (rule step.publish) (use i(6) in simp_all)
  have "step N ?s6 ?s7" by (rule step.print_published) (use i(6) in simp_all)
  moreover have "step N ?s7 ?s8" by (rule step.claim) (use i(6) c8 w6_def w7_def in simp_all)
  ultimately have "reachable N ?s6 ?s8" by (rule reachable_two)
  then show ?thesis
    using before set_back i(6) q v8(2) v7(2) v6(2) v4(2) c5(4)
    by (intro exI [of _ ?s5] exI [of _ ?s6] exI [of _ ?s8]) (simp add: cursor_of_def w6_def)
qed

text \<open>With \<open>N = 1\<close> the second event already faults.\<close>

lemma overrun_run: "\<exists>s. reachable 1 (init_sys 1 g 1 nc) s \<and> fault 1 s OutOfBounds"
proof -
  have N: "ring_size_ok 1" by (simp add: ring_size_ok_def)
  let ?s0 = "init_sys 1 g 1 nc"
  note i = init_sys_view [OF N, where g = g and np = 1 and nc = nc]
  have p0: "0 < length (producers (objs ?s0))" using i(3) by simp
  obtain q1 w1 where c1: "claim_sequence 0 (objs ?s0) = (q1, w1)" by fastforce
  note v1 = claim_sequence_wired [OF i(1) p0 c1]
  have p1: "0 < length (producers w1)" and q1: "q1 = of_nat 0" using v1 p0 i(2) by simp_all
  obtain w2 where c2: "write_event 1 0 (of_nat 0) [] w1 = Inr w2" "wired 1 1 0 w2" "producers w2 = producers w1"
    by (rule write_event_wired [OF v1(1) p1, of 0 "[]"]) simp
  define w3 where "w3 = publish_sequence 0 q1 w2"
  have p2: "0 < length (producers w2)" using c2(3) p1 by simp
  note v3 = publish_sequence_wired [OF c2(2) p2 w3_def]
  define w4 where "w4 = print_line (Published [] q1) w3"
  have v4: "wired 1 1 0 w4" "cursor_of 1 w4 = 0" "0 < length (producers w4)"
    using v3 p2 q1 by (simp_all add: w4_def)
  obtain q5 w5 where c5: "claim_sequence 0 w4 = (q5, w5)" by fastforce
  note v5 = claim_sequence_wired [OF v4(1,3) c5]
  let ?s1 = "?s0\<lparr>objs := w1, prod_pc := (prod_pc ?s0)[0 := PClaimed [] q1]\<rparr>"
  let ?s2 = "?s1\<lparr>objs := w2, prod_pc := (prod_pc ?s1)[0 := PWritten [] q1]\<rparr>"
  let ?s3 = "?s2\<lparr>objs := publish_sequence 0 q1 (objs ?s2), prod_pc := (prod_pc ?s2)[0 := PPublished [] q1]\<rparr>"
  let ?s4 = "?s3\<lparr>objs := print_line (Published [] q1) (objs ?s3), prod_pc := (prod_pc ?s3)[0 := PIdle]\<rparr>"
  let ?s5 = "?s4\<lparr>objs := w5, prod_pc := (prod_pc ?s4)[0 := PClaimed [] q5]\<rparr>"
  have "step 1 ?s0 ?s1" by (rule step.claim) (use i(6) c1 in simp_all)
  moreover have "step 1 ?s1 ?s2" by (rule step.write_slot) (use i(6) c2(1) q1 in simp_all)
  moreover have "step 1 ?s2 ?s3" by (rule step.publish) (use i(6) in simp_all)
  moreover have "step 1 ?s3 ?s4" by (rule step.print_published) (use i(6) in simp_all)
  moreover have "step 1 ?s4 ?s5" by (rule step.claim) (use i(6) c5 w3_def w4_def in simp_all)
  ultimately have r: "reachable 1 ?s0 ?s5" by (meson reachable_two reachable.after)
  have "ring_get 1 (rings w5 ! 0) 1 = Inl OutOfBounds"
    using v5(1) N by (intro ring_get_at_size) (simp_all add: wired_def)
  then have "write_event 1 0 q5 [] w5 = Inl OutOfBounds"
    using wired_prod [OF v5(1), of 0] v5(2,5) v4(2,3) by (simp add: write_event_def Let_def)
  then have "fault 1 ?s5 OutOfBounds"
    by (intro fault.fault_write [of 0 _ "[]" q5]) (use i(6) in simp_all)
  with r show ?thesis by blast
qed




text \<open>A processor told to stop while it is in the inner loop; and a whole run of \<open>start\<close> and
  \<open>halt\<close>.\<close>

lemma stop_in_inner_run:
  "\<exists>s. reachable N (init_sys N g 1 1) s \<and> \<not> running (processors (objs s) ! 0)
    \<and> proc_pc s ! 0 = CInner \<and> seq_cursor (sequencers (objs s) ! 1) = -1
    \<and> main_at s = MHalt [] \<and> disr_processors (disr s) = [0] \<and> disr_threads (disr s) = [0]
    \<and> length (proc_pc s) = 1 \<and> length (processors (objs s)) = 1
    \<and> next_sequence (processors (objs s) ! 0) = 0 \<and> proc_seq (processors (objs s) ! 0) = 1"
proof -
  let ?s0 = "init_sys N g (Suc 0) (Suc 0)"
  have i: "?s0 = \<lparr>objs = snd (demo_system N g (Suc 0) (Suc 0)), disr = fst (demo_system N g (Suc 0) (Suc 0)),
      prod_pc = [PIdle], proc_pc = [CNew], main_at = MInit\<rparr>"
    by (simp add: init_sys_def case_prod_unfold Let_def)
  have d: "fst (demo_system N g (Suc 0) (Suc 0)) = \<lparr>disr_sequencer = 1, disr_processors = [0],
      disr_producers = [0], disr_buffer = 1, disr_threads = []\<rparr>"
    and w: "processors (snd (demo_system N g (Suc 0) (Suc 0))) = [\<lparr>running = True, next_sequence = 0, proc_ring = 0,
         proc_seq = 1, proc_id = 0\<rparr>]" "sequencers (snd (demo_system N g (Suc 0) (Suc 0))) = [Sequencer, Sequencer]"
    by (simp_all add: demo_system_eq)
  let ?s1 = "?s0\<lparr>disr := disruptor_start (disr ?s0),
      proc_pc := fold (\<lambda>c pcs. pcs[c := CWhile]) (disr_processors (disr ?s0)) (proc_pc ?s0),
      main_at := MRun\<rparr>"
  let ?s2 = "?s1\<lparr>proc_pc := (proc_pc ?s1)[0 := CInner]\<rparr>"
  let ?s3 = "?s2\<lparr>main_at := MHalt (disr_processors (disr ?s2))\<rparr>"
  let ?s4 = "?s3\<lparr>objs := processor_halt 0 (objs ?s3), main_at := MHalt []\<rparr>"
  have "step N ?s0 ?s1" by (rule step.start) (simp add: i)
  moreover have "step N ?s1 ?s2" by (rule step.while_true) (simp_all add: i d w)
  moreover have "step N ?s2 ?s3" by (rule step.halt) simp
  moreover have "step N ?s3 ?s4" by (rule step.halt_one) (simp add: i d disruptor_start_def)
  ultimately have "reachable N ?s0 ?s4" by (meson reachable_two reachable.after)
  then show ?thesis
    by (intro exI [of _ ?s4]) (simp add: i d w processor_halt_def disruptor_start_def Sequencer_def)
qed

lemma halt_run:
  "\<exists>s. reachable N (init_sys N g 1 1) s \<and> main_at s = MDone \<and> disr_processors (disr s) = [0]"
proof -
  obtain s where s: "reachable N (init_sys N g 1 1) s" "\<not> running (processors (objs s) ! 0)"
    "proc_pc s ! 0 = CInner" "seq_cursor (sequencers (objs s) ! 1) = -1"
    "main_at s = MHalt []" "disr_processors (disr s) = [0]" "disr_threads (disr s) = [0]"
    "length (proc_pc s) = 1" "next_sequence (processors (objs s) ! 0) = 0"
    "proc_seq (processors (objs s) ! 0) = 1"
    using stop_in_inner_run [of N g] by auto
  have e: "(proc_pc s)[0 := x] ! 0 = x" for x using s(8) by (intro nth_list_update_eq) simp
  let ?s1 = "s\<lparr>proc_pc := (proc_pc s)[0 := CWhile]\<rparr>"
  let ?s2 = "?s1\<lparr>proc_pc := (proc_pc ?s1)[0 := CExit]\<rparr>"
  let ?s3 = "?s2\<lparr>main_at := MJoin (disr_threads (disr ?s2))\<rparr>"
  let ?s4 = "?s3\<lparr>main_at := MJoin []\<rparr>"
  let ?s5 = "?s4\<lparr>disr := disruptor_clear_threads (disr ?s4), main_at := MDone\<rparr>"
  have "step N s ?s1" by (rule step.inner_false) (use s in \<open>simp_all add: event_available_def Let_def\<close>)
  moreover have "step N ?s1 ?s2" by (rule step.while_false) (use s in simp_all)
  moreover have "step N ?s2 ?s3" by (rule step.halted) (use s in simp)
  moreover have "step N ?s3 ?s4" by (rule step.join_one [where c = 0]) (use s in \<open>simp_all add: e\<close>)
  moreover have "step N ?s4 ?s5" by (rule step.joined) simp
  ultimately have "reachable N s ?s5" by (meson reachable_two reachable.after)
  then have "reachable N (init_sys N g 1 1) ?s5" using s(1) by (rule reachable_trans)
  then show ?thesis using s(6) by (intro exI [of _ ?s5]) (simp add: disruptor_clear_threads_def)
qed

lemma step_length_processors:
  assumes "step N s t"
  shows "length (processors (objs t)) = length (processors (objs s))"
  using assms
proof cases
  case (body c w)
  then show ?thesis using consume_event_running(1) [OF body(4)] by simp
qed (auto simp: producer_ops_keep_processors processor_halt_def)

lemma reachable_length_processors:
  assumes "reachable N (init_sys N g np nc) s"
  shows "length (processors (objs s)) = nc"
  using assms
  by (induction "init_sys N g np nc" s rule: reachable.induct)
    (simp_all add: init_sys_def demo_system_eq step_length_processors)

lemma fault_is_overrun:
  assumes inv: "sp_inv N m s" and "unat N < 2 ^ 63" and "fault N s e"
  shows "e = DataRace \<and> data_race N s \<or>
    e = OutOfBounds \<and> m = unat N + 1 \<and> seq_cursor (sequencers (objs s) ! 1) = N"
proof -
  have w: "wired N 1 0 (objs s)" and cur: "cursor_of 1 (objs s) = of_nat m - 1"
    and m: "m \<le> unat N + 1"
    using inv prod_ok_bound by (auto simp: sp_inv_def)
  have oob: "ring_get N (rings (objs s) ! 0) N = Inl OutOfBounds"
    using w by (intro ring_get_at_size) (simp_all add: wired_def)
  from assms(3) show ?thesis
  proof cases
    case (fault_write p d q)
    then have p: "p = 0" "0 < length (producers (objs s))" and q: "0 < m" "q = of_nat (m - 1)"
      using inv by (auto simp: sp_inv_def)
    have "m - 1 = unat N"
    proof (rule ccontr)
      assume "m - 1 \<noteq> unat N"
      then have "m - 1 < unat N" using q m by simp
      from write_event_wired [OF w p(2) this, of d] fault_write(3) p q show False by auto
    qed
    then have "m = unat N + 1" using q(1) by simp
    then show ?thesis
      using fault_write(3) wired_prod [OF w p(2)] p q oob cur
      by (auto simp: write_event_def cursor_of_def Let_def)
  next
    case (fault_read c)
    then have c: "c < length (processors (objs s))" and "proc_ok m (objs s) CBody c"
      using inv by (force simp: sp_inv_def)+
    then obtain n where n: "n < m" "next_of c (objs s) = of_nat n" by (auto simp: proc_ok_def)
    have "n = unat N"
    proof (rule ccontr)
      assume "n \<noteq> unat N"
      then have "n < unat N" using n(1) m by simp
      from consume_event_wired [OF w c n(2) this assms(2)] fault_read(3) show False by auto
    qed
    then have "m = unat N + 1" "next_sequence (processors (objs s) ! c) = N"
      using n m by (simp_all add: next_of_def)
    then show ?thesis
      using fault_read(3) wired_proc [OF w c] oob cur
      by (auto simp: consume_event_def cursor_of_def Let_def)
  qed simp
qed

text \<open>With one producer there are two kinds of races: the producer writes the event that a processor reads, and \<open>halt\<close>
  clears the flag that a processor tests. Both happen, already with the first event and in the first \<open>halt\<close>.\<close>

lemma race_one_producer:
  assumes "sp_inv N m s" and "data_race N s"
  shows "\<exists>c < length (proc_pc s). proc_pc s ! c = CBody \<and> (\<exists>d q. prod_pc s ! 0 = PClaimed d q)
    \<or> proc_pc s ! c = CWhile \<and> (\<exists>cs. main_at s = MHalt (c # cs))"
proof -
  obtain t u l b where tu: "t \<noteq> u" "plain_access N s t = Some (l, True)" "plain_access N s u = Some (l, b)"
    using assms(2) by (auto simp: data_race_def)
  have one: "length (prod_pc s) = 1" using assms(1) by (simp add: sp_inv_def)
  show ?thesis
  proof (cases t)
    case (ProducerThread p)
    then obtain d q r i where p: "p = 0" "prod_pc s ! 0 = PClaimed d q" "l = EventValue r i"
      using tu(2) one by (auto simp: Let_def split: if_splits producer_pc.splits sum.splits)
    then obtain c where "u = ProcessorThread c"
      using tu(1,3) one ProducerThread by (cases u) (auto split: if_splits main_pc.splits list.splits)
    then have "c < length (proc_pc s) \<and> proc_pc s ! c = CBody"
      using tu(3) p(3) by (auto split: if_splits processor_pc.splits)
    then show ?thesis using p(2) by blast
  next
    case (ProcessorThread c)
    then show ?thesis using tu(2) by (auto simp: Let_def split: if_splits processor_pc.splits sum.splits)
  next
    case MainThread
    then obtain c cs where c: "main_at s = MHalt (c # cs)" "l = RunningFlag c"
      using tu(2) by (auto split: main_pc.splits list.splits)
    then have "u = ProcessorThread c \<and> c < length (proc_pc s) \<and> proc_pc s ! c = CWhile"
      using tu(1,3) MainThread
      by (cases u) (auto simp: Let_def split: if_splits producer_pc.splits processor_pc.splits sum.splits)
    then show ?thesis using c(1) by blast
  qed
qed

lemma event_race:
  assumes "wired N 1 0 (objs s)" and "p < length (prod_pc s)" "p < length (producers (objs s))" "prod_pc s ! p = PClaimed d (of_nat m)"
    and "c < length (proc_pc s)" "c < length (processors (objs s))" "proc_pc s ! c = CBody" "next_of c (objs s) = of_nat n"
    and "m < unat N" "n < unat N"
  shows "data_race N s"
proof -
  have ring: "length (buffer (rings (objs s) ! 0)) = unat N" "ring_size_ok N" using assms(1) by (simp_all add: wired_def)
  have "plain_access N s (ProducerThread p) = Some (EventValue 0 0, True)"
    using assms wired_prod [OF assms(1,3)] ring_get_below [OF ring assms(9)] by simp
  moreover have "plain_access N s (ProcessorThread c) = Some (EventValue 0 0, False)"
    using assms wired_proc [OF assms(1,6)] ring_get_below [OF ring assms(10)] by (simp add: next_of_def)
  ultimately show ?thesis unfolding data_race_def by blast
qed

lemma halt_race:
  assumes "main_at s = MHalt (c # cs)" "c < length (proc_pc s)" "proc_pc s ! c = CWhile"
  shows "data_race N s"
proof -
  have "plain_access N s MainThread = Some (RunningFlag c, True)" "plain_access N s (ProcessorThread c) = Some (RunningFlag c, False)"
    using assms by simp_all
  then show ?thesis unfolding data_race_def by blast
qed

lemma race_runs:
  assumes "ring_size_ok N"
  shows "\<exists>s. reachable N (init_sys N g 1 1) s \<and> prod_pc s ! 0 = PClaimed d 0 \<and> proc_pc s ! 0 = CBody \<and> data_race N s"
    and "\<exists>s. reachable N (init_sys N g 1 1) s \<and> main_at s = MHalt [0] \<and> proc_pc s ! 0 = CWhile \<and> data_race N s"
proof -
  let ?s0 = "init_sys N g 1 1"
  note i = init_sys_view [OF assms, where g = g and np = 1 and nc = 1]
  obtain q w where cl: "claim_sequence 0 (objs ?s0) = (q, w)" by fastforce
  have p0: "0 < length (producers (objs ?s0))" using i(3) by simp
  note c = claim_sequence_wired [OF i(1) p0 cl]
  have cw: "wired N 1 0 w" "q = 0" "cursor_of 1 w = of_nat 1 - 1" "processors w = processors (objs ?s0)"
    "producers w = producers (objs ?s0)" using c i by simp_all
  have len: "0 < length (processors w)" and nx: "next_of 0 w = of_nat 0"
    using cw(4) i(4) i(11) [of 0] by (simp_all add: next_of_def)
  have av: "event_available 0 w" using event_available_wired [OF cw(1) len nx cw(3)] by simp
  let ?start = "\<lambda>s. s\<lparr>disr := disruptor_start (disr s),
      proc_pc := fold (\<lambda>c pcs. pcs[c := CWhile]) (disr_processors (disr s)) (proc_pc s), main_at := MRun\<rparr>"
  let ?s1 = "?s0\<lparr>objs := w, prod_pc := (prod_pc ?s0)[0 := PClaimed d q]\<rparr>"
  let ?s2 = "?start ?s1"
  let ?s3 = "?s2\<lparr>proc_pc := (proc_pc ?s2)[0 := CInner]\<rparr>"
  let ?s4 = "?s3\<lparr>proc_pc := (proc_pc ?s3)[0 := CBody]\<rparr>"
  have "step N ?s0 ?s1" by (rule step.claim) (use i cl in simp_all)
  moreover have "step N ?s1 ?s2" by (rule step.start) (use i in simp)
  moreover have "step N ?s2 ?s3" by (rule step.while_true) (use i i(11) [of 0] cw(4) in simp_all)
  moreover have "step N ?s3 ?s4" by (rule step.inner_true) (use i av in simp_all)
  ultimately have "reachable N ?s0 ?s4" by (meson reachable_two reachable.after)
  moreover have "data_race N ?s4"
    by (rule event_race [of N ?s4 0 d 0 0 0]) (use i cw len nx p0 ring_size_pos [OF assms] in simp_all)
  ultimately show "\<exists>s. reachable N ?s0 s \<and> prod_pc s ! 0 = PClaimed d 0 \<and> proc_pc s ! 0 = CBody \<and> data_race N s"
    using i(6,7,9) cw(2) by (intro exI [of _ ?s4]) simp
  let ?t1 = "?start ?s0"
  let ?t2 = "?t1\<lparr>main_at := MHalt (disr_processors (disr ?t1))\<rparr>"
  have "step N ?s0 ?t1" by (rule step.start) (use i in simp)
  moreover have "step N ?t1 ?t2" by (rule step.halt) simp
  ultimately have "reachable N ?s0 ?t2" by (rule reachable_two)
  moreover have "main_at ?t2 = MHalt [0]" "proc_pc ?t2 ! 0 = CWhile" "0 < length (proc_pc ?t2)"
    using i(7,9) by (simp_all add: disruptor_start_def)
  moreover then have "data_race N ?t2" by (intro halt_race)
  ultimately show "\<exists>s. reachable N ?s0 s \<and> main_at s = MHalt [0] \<and> proc_pc s ! 0 = CWhile \<and> data_race N s" by blast
qed

section \<open>Properties\<close>

text \<open>C6. With one producer, in every reachable state each processor has printed exactly the
  sequence numbers \<open>0, 1, \<dots>, n - 1\<close>, in this order and each once, and never one past the cursor
  it read: \<open>n - 1\<close> is at most the cursor.\<close>

theorem processors_follow_cursor:
  assumes "reachable N (init_sys N g 1 nc) s" and "ring_size_ok N" and "unat N < 2 ^ 63"
    and "c < nc"
  shows "\<exists>n. map fst (consumed_by (int c) (stdout (objs s))) = map of_nat [0..<n]
    \<and> next_sequence (processors (objs s) ! c) = of_nat n
    \<and> int n - 1 \<le> sint (seq_cursor (sequencers (objs s) ! 1))"
proof -
  from sp_inv_reachable [OF assms(1-3)] obtain m where inv: "sp_inv N m s" by blast
  then have w: "wired N 1 0 (objs s)" and cur: "cursor_of 1 (objs s) = of_nat m - 1"
    and ok: "proc_ok m (objs s) (proc_pc s ! c) c" and m: "m \<le> unat N + 1"
    using assms(4) prod_ok_bound reachable_length_processors [OF assms(1)] by (auto simp: sp_inv_def)
  have "sint (cursor_of 1 (objs s)) = int m - 1"
    unfolding cur by (rule sint_of_nat_pred) (use m assms(3) in simp)
  then show ?thesis using ok by (auto simp: proc_ok_def cursor_of_def next_of_def)
qed

theorem processors_follow_cursor_witness:
  "\<exists>s n. reachable 4 (init_sys 4 0 1 1) s \<and> consumed_by 0 (stdout (objs s)) = [(0, [])]
    \<and> map fst (consumed_by 0 (stdout (objs s))) = map of_nat [0..<n]"
proof -
  have N: "ring_size_ok 4" by (simp add: ring_size_ok_def)
  obtain s where s: "reachable 4 (init_sys 4 0 1 1) s" "consumed_by 0 (stdout (objs s)) = [(0, [])]"
    using early_read_run [OF N, of 0 "''x''"] by auto
  obtain n where "map fst (consumed_by (int 0) (stdout (objs s))) = map of_nat [0..<n]"
    using processors_follow_cursor [OF s(1) N, of 0] by auto
  then show ?thesis using s by (intro exI [of _ s] exI [of _ n]) simp
qed

text \<open>C7. With one producer undefined behaviour has exactly three sources. An access out of bounds happens only when the
  cursor has reached \<open>N\<close>. A data race is either the producer writing an event that it has claimed while a
  processor reads one, or \<open>halt\<close> clearing \<open>running_\<close> of a processor that is about to test it. Nothing else is undefined,
  in any interleaving: no overflow, and no race between two processors.\<close>

theorem faults_of_one_producer:
  assumes "reachable N (init_sys N g 1 nc) s" and "ring_size_ok N" and "unat N < 2 ^ 63"
    and "fault N s e"
  shows "e = OutOfBounds \<and> seq_cursor (sequencers (objs s) ! 1) = N
    \<or> e = DataRace \<and> (\<exists>c < nc. proc_pc s ! c = CBody \<and> (\<exists>d q. prod_pc s ! 0 = PClaimed d q)
        \<or> proc_pc s ! c = CWhile \<and> (\<exists>cs. main_at s = MHalt (c # cs)))"
proof -
  from sp_inv_reachable [OF assms(1-3)] obtain m where inv: "sp_inv N m s" by blast
  then have "length (proc_pc s) = nc" using reachable_length_processors [OF assms(1)] by (simp add: sp_inv_def)
  then show ?thesis using fault_is_overrun [OF inv assms(3,4)] race_one_producer [OF inv] by metis
qed

theorem faults_of_one_producer_witness:
  "\<exists>s. reachable 1 (init_sys 1 0 1 0) s \<and> fault 1 s OutOfBounds
    \<and> seq_cursor (sequencers (objs s) ! 1) = 1"
proof -
  have N: "ring_size_ok 1" by (simp add: ring_size_ok_def)
  obtain s where s: "reachable 1 (init_sys 1 0 1 0) s" "fault 1 s OutOfBounds"
    using overrun_run by blast
  then show ?thesis using faults_of_one_producer [OF s(1) N _ s(2)] by auto
qed

text \<open>C8. The disruptor races for every legal ring size, with one producer and one processor: on the string of the first
  event, which the producer assigns while the processor, let in by the cursor that \<open>next\<close> has already advanced,
  copies it; and on \<open>running_\<close>, which \<open>halt\<close> assigns while the processor tests it.\<close>

theorem disruptor_races:
  assumes "ring_size_ok N"
  shows "(\<exists>s. reachable N (init_sys N g 1 1) s \<and> prod_pc s ! 0 = PClaimed d 0 \<and> proc_pc s ! 0 = CBody \<and> fault N s DataRace) \<and>
    (\<exists>s. reachable N (init_sys N g 1 1) s \<and> main_at s = MHalt [0] \<and> proc_pc s ! 0 = CWhile \<and> fault N s DataRace)"
  using race_runs [OF assms, of g] fault.fault_race by metis

theorem disruptor_races_witness:
  "\<exists>s. reachable 1024 (init_sys 1024 0 1 1) s \<and> prod_pc s ! 0 = PClaimed ''Event 0'' 0 \<and> fault 1024 s DataRace"
proof -
  have "ring_size_ok 1024" by (simp add: ring_size_ok_def)
  from disruptor_races [OF this, of 0 "''Event 0''"] show ?thesis by blast
qed

text \<open>C9. \<open>Disruptor::halt\<close> returns only when it is safe to: in every reachable state where it has
  returned, \<open>running_\<close> is false for every processor of the disruptor, every processor thread has
  left \<open>run\<close>, and no thread is left in \<open>threads_\<close>. This holds for any number of producers and
  processors.\<close>

theorem halt_joins_all:
  assumes "reachable N (init_sys N g np nc) s" and "main_at s = MDone"
    and "c \<in> set (disr_processors (disr s))" and "c < nc"
  shows "\<not> running (processors (objs s) ! c) \<and> proc_pc s ! c = CExit \<and> disr_threads (disr s) = []"
  using main_inv_reachable [OF assms(1)] reachable_length_processors [OF assms(1)] assms(2-4)
  by (simp add: main_inv_def stopped_def)

theorem halt_joins_all_witness:
  "\<exists>s. reachable 1024 (init_sys 1024 0 1 1) s \<and> main_at s = MDone \<and> proc_pc s ! 0 = CExit"
proof -
  obtain s where s: "reachable 1024 (init_sys 1024 0 1 1) s" "main_at s = MDone"
      "disr_processors (disr s) = [0]"
    using halt_run [of 1024 0] by blast
  then show ?thesis using halt_joins_all [OF s(1,2), of 0] by auto
qed

text \<open>C10. The sequencer advances the cursor when a producer claims a sequence number, before the
  event is written. So a processor can print sequence \<open>0\<close> with the empty initial value while the
  producer that claimed it has not stored its event: \<open>publish\<close> plays no part in what processors
  see. (It holds for every legal ring size.)\<close>

theorem processor_reads_unwritten_event:
  assumes "ring_size_ok N" and "unat N < 2 ^ 63"
  shows "\<exists>s. reachable N (init_sys N g 1 1) s \<and> prod_pc s ! 0 = PClaimed d 0
    \<and> consumed_by 0 (stdout (objs s)) = [(0, [])]"
  by (rule early_read_run [OF assms])

theorem processor_reads_unwritten_event_witness:
  "\<exists>s. reachable 1024 (init_sys 1024 0 1 1) s \<and> prod_pc s ! 0 = PClaimed ''Event 0'' 0
    \<and> consumed_by 0 (stdout (objs s)) = [(0, [])]"
  by (rule processor_reads_unwritten_event) (simp_all add: ring_size_ok_def)

text \<open>C11. With two producers sequence numbers are not unique: a producer that publishes late sets
  the cursor back from \<open>1\<close> to \<open>0\<close>, and number \<open>1\<close>, which the other producer has published, is claimed again.\<close>

theorem two_producers_share_a_sequence:
  assumes "ring_size_ok N" and "2 \<le> unat N"
  shows "\<exists>s t u. reachable N (init_sys N g 2 nc) s \<and> step N s t \<and> reachable N t u
    \<and> seq_cursor (sequencers (objs s) ! 1) = 1 \<and> seq_cursor (sequencers (objs t) ! 1) = 0
    \<and> prod_pc u ! 0 = PClaimed d 1 \<and> prod_pc u ! 1 = PPublished e 1"
  by (rule duplicate_claim_run [OF assms])

theorem two_producers_share_a_sequence_witness:
  "\<exists>s t u. reachable 1024 (init_sys 1024 0 2 1) s \<and> step 1024 s t \<and> reachable 1024 t u
    \<and> seq_cursor (sequencers (objs s) ! 1) = 1 \<and> seq_cursor (sequencers (objs t) ! 1) = 0
    \<and> prod_pc u ! 0 = PClaimed ''a'' 1 \<and> prod_pc u ! 1 = PPublished ''b'' 1"
  by (rule two_producers_share_a_sequence) (simp_all add: ring_size_ok_def)



end
