(* ===== verification/Disruptor_Tests.thy ===== *)
theory Disruptor_Tests
  imports Disruptor_Threads
begin

text \<open>
  The unit tests of the disruptor (\<open>disruptor/gtest_disruptor.cpp\<close>) and the time base of its benchmark
  (\<open>disruptor/bm_disruptor.cpp\<close>). A test is the script of the main thread, which also calls the producer;
  the processor threads take steps between, and during, its calls. The time stamp counter, the clock and
  the arithmetic of \<open>double\<close> are arguments.
\<close>

section \<open>The tests\<close>

text \<open>The statements of a test: \<open>TReturn\<close> waits for the end of the call of \<open>on_data\<close> in progress.\<close>

datatype test_op = TStart | TCursor i64 | TOnData string | TReturn | TSleep | THalt

definition expect_after :: "nat \<times> string \<Rightarrow> test_op list" where
  "expect_after = (\<lambda>(i, d). [TOnData d, TSleep, TCursor (of_nat i)])"

definition test_script :: "string list \<Rightarrow> test_op list" where
  "test_script ds = [TStart, TCursor (- 1)] @ concat (map expect_after (enumerate 0 ds)) @ [THalt]"

definition SPMCTest :: "test_op list" where
  "SPMCTest = test_script [''Event 0'', ''Event 1'']"

definition BasicTest :: "test_op list" where
  "BasicTest = test_script [''Event 0'', ''Event 1'']"

text \<open>The state of a running test: the system, the rest of the script and the outcomes of the expectations so
  far. \<open>EXPECT_EQ\<close> goes on when the values differ.\<close>

type_synonym test_state = "sys \<times> test_op list \<times> bool list"

inductive test_step :: "u64 \<Rightarrow> test_state \<Rightarrow> test_state \<Rightarrow> bool" for N :: u64 where
  t_processor: "step N s t \<Longrightarrow> prod_pc t = prod_pc s \<Longrightarrow> main_at t = main_at s \<Longrightarrow>
    test_step N (s, ops, r) (t, ops, r)"
| t_start: "step N s t \<Longrightarrow> main_at s = MInit \<Longrightarrow> main_at t = MRun \<Longrightarrow>
    test_step N (s, TStart # ops, r) (t, ops, r)"
| t_cursor: "test_step N (s, TCursor v # ops, r) (s, ops, r @ [disruptor_cursor (disr s) (objs s) = v])"
| t_call: "step N s t \<Longrightarrow> prod_pc s ! 0 = PIdle \<Longrightarrow> prod_pc t ! 0 = PClaimed d q \<Longrightarrow>
    test_step N (s, TOnData d # ops, r) (t, TReturn # ops, r)"
| t_inside: "step N s t \<Longrightarrow> prod_pc s ! 0 \<noteq> PIdle \<Longrightarrow> prod_pc t \<noteq> prod_pc s \<Longrightarrow>
    test_step N (s, TReturn # ops, r) (t, TReturn # ops, r)"
| t_return: "prod_pc s ! 0 = PIdle \<Longrightarrow> test_step N (s, TReturn # ops, r) (s, ops, r)"
| t_sleep: "test_step N (s, TSleep # ops, r) (s, ops, r)"
| t_halt: "step N s t \<Longrightarrow> main_at s \<noteq> MInit \<Longrightarrow> main_at t \<noteq> main_at s \<Longrightarrow>
    test_step N (s, THalt # ops, r) (t, THalt # ops, r)"
| t_halted: "main_at s = MDone \<Longrightarrow> test_step N (s, THalt # ops, r) (s, ops, r)"

inductive test_run :: "u64 \<Rightarrow> test_state \<Rightarrow> test_state \<Rightarrow> bool" for N :: u64 where
  run_here: "test_run N x x"
| run_after: "test_run N x y \<Longrightarrow> test_step N y z \<Longrightarrow> test_run N x z"

section \<open>The time base of the benchmark\<close>

text \<open>\<open>timeval\<close>, and what the environment answers: the k-th reading of the time stamp counter and of the clock.\<close>

record timeval =
  tv_sec :: i64
  tv_usec :: i64

text \<open>The divisor of \<open>tsc_per_milli\<close>: the difference of the seconds is signed, the product with \<open>1000000UL\<close> is
  unsigned, so the elapsed microseconds are computed modulo \<open>2 ^ 64\<close>.\<close>

definition elapsed_usec :: "timeval \<Rightarrow> timeval \<Rightarrow> u64 result" where
  "elapsed_usec todstart todend =
     rbind (to_long (sint (tv_sec todend) - sint (tv_sec todstart))) (\<lambda>sec.
       Inr (of_int sec * 1000000 + tv_usec todend - tv_usec todstart))"

definition elapsed_cycles :: "u64 \<Rightarrow> u64 \<Rightarrow> u64 \<Rightarrow> u64 \<Rightarrow> u64" where
  "elapsed_cycles ccstart0 ccstart1 ccend0 ccend1 = (ccend1 + ccend0) div 2 - (ccstart1 + ccstart0) div 2"

text \<open>\<open>per_milli x y\<close> is \<open>1000.0 * x / y\<close> in \<open>double\<close>, converted to \<open>uint64_t\<close>, undefined if it does not fit. The
  state is the static variable; \<open>rdtsc\<close> and \<open>clock\<close> are read in the order of the code.\<close>

definition tsc_per_milli ::
    "(u64 \<Rightarrow> u64 \<Rightarrow> u64 result) \<Rightarrow> (nat \<Rightarrow> u64) \<Rightarrow> (nat \<Rightarrow> timeval) \<Rightarrow> bool \<Rightarrow> u64 \<Rightarrow> (u64 \<times> u64) result" where
  "tsc_per_milli per_milli rdtsc clock force tsc_in_milli =
     (if tsc_in_milli \<noteq> 0 \<and> \<not> force then Inr (tsc_in_milli, tsc_in_milli)
      else let ccstart0 = rdtsc 0; todstart = clock 0; ccstart1 = rdtsc 1;
               ccend0 = rdtsc 2; todend = clock 1; ccend1 = rdtsc 3
           in rbind (elapsed_usec todstart todend) (\<lambda>usec.
              rbind (per_milli (elapsed_cycles ccstart0 ccstart1 ccend0 ccend1) usec) (\<lambda>v. Inr (v, v))))"

text \<open>\<open>nanos x y\<close> is \<open>(1.0 * x / y) * 1'000'000\<close> in \<open>double\<close>.\<close>

definition tsc_to_nano ::
    "(u64 \<Rightarrow> u64 \<Rightarrow> 'd) \<Rightarrow> (u64 \<Rightarrow> u64 \<Rightarrow> u64 result) \<Rightarrow> (nat \<Rightarrow> u64) \<Rightarrow> (nat \<Rightarrow> timeval) \<Rightarrow> u64 \<Rightarrow> u64 \<Rightarrow> ('d \<times> u64) result" where
  "tsc_to_nano nanos per_milli rdtsc clock tsc_diff tsc_in_milli =
     rbind (tsc_per_milli per_milli rdtsc clock False tsc_in_milli) (\<lambda>(v, tsc_in_milli'). Inr (nanos tsc_diff v, tsc_in_milli'))"


section \<open>The expectations hold\<close>

text \<open>What the rest of a script may expect when \<open>m\<close> sequence numbers have been claimed.\<close>

fun script_ok :: "u64 \<Rightarrow> nat \<Rightarrow> test_op list \<Rightarrow> bool" where
  "script_ok N m [] \<longleftrightarrow> True"
| "script_ok N m (TCursor v # ops) \<longleftrightarrow> v = of_nat m - 1 \<and> script_ok N m ops"
| "script_ok N m (TOnData d # ops) \<longleftrightarrow> m < unat N \<and> script_ok N (Suc m) ops"
| "script_ok N m (op # ops) \<longleftrightarrow> script_ok N m ops"

lemma script_ok_expectations:
  assumes "m + length ds \<le> unat N"
  shows "script_ok N m (concat (map expect_after (enumerate m ds)) @ [THalt])"
  using assms
  by (induction ds arbitrary: m) (simp_all add: expect_after_def)

lemma script_ok_test: "length ds \<le> unat N \<Longrightarrow> script_ok N 0 (test_script ds)"
  using script_ok_expectations [of 0 ds N] by (simp add: test_script_def)

text \<open>Every state of a running test: no more than \<open>N\<close> numbers have been claimed, the rest of the script expects
  the right ones, and no expectation has failed.\<close>

definition test_inv :: "u64 \<Rightarrow> test_state \<Rightarrow> bool" where
  "test_inv N = (\<lambda>(s, ops, r). \<exists>m \<le> unat N. sp_inv N m s \<and> disr_sequencer (disr s) = 1 \<and> script_ok N m ops \<and> False \<notin> set r)"

lemma step_disr_sequencer: "step N s t \<Longrightarrow> disr_sequencer (disr t) = disr_sequencer (disr s)"
  by (cases rule: step.cases) (auto simp: disruptor_start_def disruptor_clear_threads_def)

lemma test_inv_keep:
  assumes "test_inv N (s, ops, r)" "step N s t" "\<not> claims s t" "unat N < 2 ^ 63"
    and "\<And>m. script_ok N m ops \<Longrightarrow> script_ok N m ops'"
  shows "test_inv N (t, ops', r)"
  using assms(1,5) sp_inv_step_exact [OF assms(2) _ assms(4)] assms(3) step_disr_sequencer [OF assms(2)]
  by (fastforce simp: test_inv_def)

lemma main_step_keeps_producers: "step N s t \<Longrightarrow> main_at t \<noteq> main_at s \<Longrightarrow> prod_pc t = prod_pc s"
  by (cases rule: step.cases) auto

lemma test_inv_step:
  assumes "test_step N x y" "test_inv N x" "unat N < 2 ^ 63"
  shows "test_inv N y"
  using assms(1)
proof cases
  case (t_processor s t ops r)
  then show ?thesis using test_inv_keep [OF _ t_processor(3) _ assms(3)] assms(2) by (auto simp: claims_def)
next
  case (t_start s t ops r)
  then have "prod_pc t = prod_pc s" using main_step_keeps_producers [of N s t] by simp
  then show ?thesis using test_inv_keep [of N s "TStart # ops" r t ops] t_start(1-3) assms(2,3) by (simp add: claims_def)
next
  case (t_cursor s v ops r)
  then show ?thesis using assms(2) by (auto simp: test_inv_def sp_inv_def disruptor_cursor_def cursor_of_def)
next
  case (t_call s t d q ops r)
  obtain m where m: "m < unat N" "sp_inv N m s" "disr_sequencer (disr s) = 1" "script_ok N (Suc m) ops" "False \<notin> set r"
    using assms(2) t_call(1) by (auto simp: test_inv_def)
  have "sp_inv N (Suc m) t"
    using sp_inv_step_exact [OF t_call(3) m(2) assms(3)] t_call(4,5) by (simp add: claims_def)
  then show ?thesis using m t_call step_disr_sequencer [OF t_call(3)] by (auto simp: test_inv_def intro!: exI [of _ "Suc m"])
next
  case (t_inside s t ops r)
  then show ?thesis using test_inv_keep [OF _ t_inside(3) _ assms(3)] assms(2) by (auto simp: claims_def)
next
  case (t_halt s t ops r)
  then have "prod_pc t = prod_pc s" using main_step_keeps_producers [of N s t] by simp
  then show ?thesis using test_inv_keep [OF _ t_halt(3) _ assms(3)] assms(2) t_halt(1,2) by (auto simp: claims_def)
qed (use assms(2) in \<open>auto simp: test_inv_def\<close>)

lemma init_sys_sequencer: "disr_sequencer (disr (init_sys N g np nc)) = 1"
  by (simp add: init_sys_def demo_system_eq)

lemma test_inv_run:
  assumes "test_run N x y" "test_inv N x" "unat N < 2 ^ 63"
  shows "test_inv N y"
  using assms by (induction rule: test_run.induct) (auto intro: test_inv_step)

lemma test_inv_init:
  assumes "ring_size_ok N" "length ds \<le> unat N"
  shows "test_inv N (init_sys N g 1 nc, test_script ds, [])"
  using sp_inv_init [OF assms(1), of g nc] script_ok_test [OF assms(2)] init_sys_sequencer [of N g 1 nc]
  by (auto simp: test_inv_def intro!: exI [of _ 0])

text \<open>Every expectation is evaluated once.\<close>

fun expectations :: "test_op list \<Rightarrow> nat" where
  "expectations [] = 0"
| "expectations (TCursor v # ops) = Suc (expectations ops)"
| "expectations (op # ops) = expectations ops"

lemma expectations_append: "expectations (xs @ ys) = expectations xs + expectations ys"
  by (induction xs rule: expectations.induct) simp_all

lemma expectations_test: "expectations (test_script ds) = Suc (length ds)"
proof -
  have "expectations (concat (map expect_after (enumerate m ds))) = length ds" for m
    by (induction ds arbitrary: m) (simp_all add: expect_after_def expectations_append)
  then show ?thesis by (simp add: test_script_def expectations_append)
qed

lemma test_step_expectations:
  "test_step N (s, ops, r) (t, ops', r') \<Longrightarrow> length r' + expectations ops' = length r + expectations ops"
  by (cases rule: test_step.cases) auto

lemma test_run_expectations:
  assumes "test_run N x y"
  shows "length (snd (snd y)) + expectations (fst (snd y)) = length (snd (snd x)) + expectations (fst (snd x))"
  using assms
proof (induction rule: test_run.induct)
  case (run_after x y z)
  then show ?case using test_step_expectations by (cases y; cases z) fastforce
qed simp

section \<open>The tests can finish\<close>

lemma test_run_trans: "test_run N y z \<Longrightarrow> test_run N x y \<Longrightarrow> test_run N x z"
  by (induction rule: test_run.induct) (auto intro: run_after)

lemma test_run_one: "test_step N x y \<Longrightarrow> test_run N x y"
  by (auto intro: run_after run_here)

text \<open>A call of \<open>on_data\<close> during which no processor moves.\<close>

lemma on_data_test:
  assumes inv: "sp_inv N m s" and idle: "prod_pc s ! 0 = PIdle" and m: "m < unat N" and N: "unat N < 2 ^ 63"
  obtains t where "test_run N (s, TOnData d # ops, r) (t, ops, r)" "sp_inv N (Suc m) t" "prod_pc t ! 0 = PIdle"
    "main_at t = main_at s" "proc_pc t = proc_pc s" "disr t = disr s" "processors (objs t) = processors (objs s)"
proof -
  have w: "wired N 1 0 (objs s)" and p: "0 < length (producers (objs s))" "length (prod_pc s) = 1"
    and cur: "cursor_of 1 (objs s) = of_nat m - 1" using inv by (auto simp: sp_inv_def)
  have pcs: "prod_pc s = [PIdle]" using p(2) idle by (cases "prod_pc s") auto
  obtain q w1 where c: "claim_sequence 0 (objs s) = (q, w1)" by fastforce
  note c1 = claim_sequence_wired [OF w p(1) c]
  have q: "q = of_nat m" using c1(2) cur by simp
  have p1: "0 < length (producers w1)" using c1(5) p(1) by simp
  obtain w2 where w2: "write_event N 0 (of_nat m) d w1 = Inr w2" "processors w2 = processors w1" "producers w2 = producers w1"
    by (rule write_event_wired [OF c1(1) p1 m, of d])
  define s1 where "s1 = s\<lparr>objs := w1, prod_pc := [PClaimed d q]\<rparr>"
  define s2 where "s2 = s1\<lparr>objs := w2, prod_pc := [PWritten d q]\<rparr>"
  define s3 where "s3 = s2\<lparr>objs := publish_sequence 0 q w2, prod_pc := [PPublished d q]\<rparr>"
  define s4 where "s4 = s3\<lparr>objs := print_line (Published d q) (objs s3), prod_pc := [PIdle]\<rparr>"
  have st1: "step N s s1" using step.claim [of 0 s q w1 N d] c pcs by (simp add: s1_def)
  have st2: "step N s1 s2" using step.write_slot [of 0 s1 d q N w2] w2(1) q by (simp add: s1_def s2_def)
  have st3: "step N s2 s3" using step.publish [of 0 s2 d q N] by (simp add: s2_def s3_def)
  have st4: "step N s3 s4" using step.print_published [of 0 s3 d q N] by (simp add: s3_def s4_def)
  note next_inv = sp_inv_step_exact [OF _ _ N]
  have "sp_inv N (Suc m) s1" using next_inv [OF st1 inv] pcs by (simp add: claims_def s1_def)
  then have "sp_inv N (Suc m) s2" using next_inv [OF st2] by (auto simp: claims_def s1_def)
  then have "sp_inv N (Suc m) s3" using next_inv [OF st3] by (auto simp: claims_def s2_def)
  then have i4: "sp_inv N (Suc m) s4" using next_inv [OF st4] by (auto simp: claims_def s3_def)
  have "test_step N (s, TOnData d # ops, r) (s1, TReturn # ops, r)"
    by (rule t_call [OF st1, of d q]) (simp_all add: pcs s1_def)
  moreover have "test_step N (s1, TReturn # ops, r) (s2, TReturn # ops, r)"
    by (rule t_inside [OF st2]) (simp_all add: s1_def s2_def)
  moreover have "test_step N (s2, TReturn # ops, r) (s3, TReturn # ops, r)"
    by (rule t_inside [OF st3]) (simp_all add: s2_def s3_def)
  moreover have "test_step N (s3, TReturn # ops, r) (s4, TReturn # ops, r)"
    by (rule t_inside [OF st4]) (simp_all add: s3_def s4_def)
  moreover have "test_step N (s4, TReturn # ops, r) (s4, ops, r)" by (rule t_return) (simp add: s4_def)
  ultimately have "test_run N (s, TOnData d # ops, r) (s4, ops, r)" by (meson run_after run_here)
  moreover have "processors (objs s4) = processors (objs s)"
    using w2(2) c1(6) by (simp add: s4_def s3_def s2_def s1_def producer_ops_keep_processors)
  ultimately show ?thesis using that i4 by (simp add: s4_def s3_def s2_def s1_def)
qed

lemma expectations_run:
  assumes "sp_inv N m s" "prod_pc s ! 0 = PIdle" "m + length ds \<le> unat N" "unat N < 2 ^ 63"
  shows "\<exists>t r'. test_run N (s, concat (map expect_after (enumerate m ds)) @ ops, r) (t, ops, r') \<and>
    main_at t = main_at s \<and> proc_pc t = proc_pc s \<and> disr t = disr s \<and> processors (objs t) = processors (objs s)"
  using assms
proof (induction ds arbitrary: m s r)
  case Nil
  then show ?case by (auto intro: run_here)
next
  case (Cons d ds)
  let ?rest = "concat (map expect_after (enumerate (Suc m) ds)) @ ops"
  have m: "m < unat N" "Suc m + length ds \<le> unat N" using Cons.prems(3) by simp_all
  obtain t where t: "test_run N (s, TOnData d # TSleep # TCursor (of_nat m) # ?rest, r) (t, TSleep # TCursor (of_nat m) # ?rest, r)"
    "sp_inv N (Suc m) t" "prod_pc t ! 0 = PIdle" "main_at t = main_at s" "proc_pc t = proc_pc s" "disr t = disr s"
    "processors (objs t) = processors (objs s)"
    by (rule on_data_test [OF Cons.prems(1,2) m(1) Cons.prems(4)])
  let ?r = "r @ [disruptor_cursor (disr t) (objs t) = of_nat m]"
  have run: "test_run N (s, TOnData d # TSleep # TCursor (of_nat m) # ?rest, r) (t, ?rest, ?r)"
    using t(1) t_sleep [of N t "TCursor (of_nat m) # ?rest" r] t_cursor [of N t "of_nat m" ?rest r] by (blast intro: run_after)
  from Cons.IH [OF t(2,3) m(2) Cons.prems(4), of ?r] obtain u r' where
    "test_run N (t, ?rest, ?r) (u, ops, r')" "main_at u = main_at t" "proc_pc u = proc_pc t" "disr u = disr t"
    "processors (objs u) = processors (objs t)" by blast
  then show ?case using test_run_trans [OF _ run] t(4-7)
    by (intro exI [of _ u] exI [of _ r']) (simp add: expect_after_def)
qed

text \<open>Halting when every processor is at the head of its loop: all are stopped, leave, and are joined.\<close>

lemma halt_each:
  assumes "main_at s = MHalt cs"
  shows "test_run N (s, THalt # ops, r) (s\<lparr>objs := fold processor_halt cs (objs s), main_at := MHalt []\<rparr>, THalt # ops, r)"
  using assms
proof (induction cs arbitrary: s)
  case Nil
  then have "s\<lparr>objs := objs s, main_at := MHalt []\<rparr> = s" by simp
  then show ?case by (simp add: run_here)
next
  case (Cons c cs)
  let ?t = "s\<lparr>objs := processor_halt c (objs s), main_at := MHalt cs\<rparr>"
  have "test_step N (s, THalt # ops, r) (?t, THalt # ops, r)"
    by (rule t_halt [OF step.halt_one [OF Cons.prems]]) (simp_all add: Cons.prems)
  then show ?case using Cons.IH [of ?t] by (auto intro: test_run_trans test_run_one)
qed

lemma leave_each:
  assumes "distinct cs" "\<forall>c \<in> set cs. c < length (proc_pc s) \<and> proc_pc s ! c = CWhile \<and> \<not> running (processors (objs s) ! c)"
  shows "test_run N (s, ops, r) (s\<lparr>proc_pc := fold (\<lambda>c pcs. pcs[c := CExit]) cs (proc_pc s)\<rparr>, ops, r)"
  using assms
proof (induction cs arbitrary: s)
  case Nil
  then show ?case by (simp add: run_here)
next
  case (Cons c cs)
  let ?t = "s\<lparr>proc_pc := (proc_pc s)[c := CExit]\<rparr>"
  have "step N s ?t" by (rule step.while_false) (use Cons.prems in simp_all)
  then have "test_step N (s, ops, r) (?t, ops, r)" by (rule t_processor) simp_all
  moreover have "\<forall>c' \<in> set cs. c' < length (proc_pc ?t) \<and> proc_pc ?t ! c' = CWhile \<and> \<not> running (processors (objs ?t) ! c')"
    using Cons.prems by (auto simp: nth_list_update_if)
  ultimately show ?case using Cons.IH [of ?t] Cons.prems(1) by (auto intro: test_run_trans test_run_one)
qed

lemma join_each:
  assumes "main_at s = MJoin cs" "\<forall>c \<in> set cs. proc_pc s ! c = CExit"
  shows "test_run N (s, THalt # ops, r) (s\<lparr>main_at := MJoin []\<rparr>, THalt # ops, r)"
  using assms
proof (induction cs arbitrary: s)
  case Nil
  then have "s\<lparr>main_at := MJoin []\<rparr> = s" by simp
  then show ?case by (simp add: run_here)
next
  case (Cons c cs)
  let ?t = "s\<lparr>main_at := MJoin cs\<rparr>"
  have "test_step N (s, THalt # ops, r) (?t, THalt # ops, r)"
    by (rule t_halt [OF step.join_one [OF Cons.prems(1)]]) (use Cons.prems in simp_all)
  then show ?case using Cons.IH [of ?t] Cons.prems(2) by (auto intro: test_run_trans test_run_one)
qed

lemma fold_processor_halt:
  "length (processors (fold processor_halt cs w)) = length (processors w)"
  by (induction cs arbitrary: w) (simp_all add: processor_halt_def)

lemma fold_processor_halt_running:
  "c < length (processors w) \<Longrightarrow>
    running (processors (fold processor_halt cs w) ! c) \<longleftrightarrow> running (processors w ! c) \<and> c \<notin> set cs"
  by (induction cs arbitrary: w) (auto simp: processor_halt_def nth_list_update_if)

lemma fold_set_pc:
  "i < length pcs \<Longrightarrow> fold (\<lambda>c pcs. pcs[c := x]) cs pcs ! i = (if i \<in> set cs then x else pcs ! i)"
  by (induction cs arbitrary: pcs) (auto simp: nth_list_update_if)

lemma halt_finishes:
  assumes "main_at s = MRun" "disr_processors (disr s) = [0..<nc]" "disr_threads (disr s) = [0..<nc]"
    and "proc_pc s = replicate nc CWhile" "length (processors (objs s)) = nc"
  obtains t where "test_run N (s, THalt # ops, r) (t, ops, r)" "main_at t = MDone"
proof -
  define s1 where "s1 = s\<lparr>main_at := MHalt [0..<nc]\<rparr>"
  define s2 where "s2 = s1\<lparr>objs := fold processor_halt [0..<nc] (objs s1), main_at := MHalt []\<rparr>"
  define s3 where "s3 = s2\<lparr>main_at := MJoin [0..<nc]\<rparr>"
  define s4 where "s4 = s3\<lparr>proc_pc := fold (\<lambda>c pcs. pcs[c := CExit]) [0..<nc] (proc_pc s3)\<rparr>"
  define s5 where "s5 = s4\<lparr>main_at := MJoin []\<rparr>"
  define s6 where "s6 = s5\<lparr>disr := disruptor_clear_threads (disr s5), main_at := MDone\<rparr>"
  have "test_step N (s, THalt # ops, r) (s1, THalt # ops, r)"
    using step.halt [OF assms(1), of N] assms(1,2) by (intro t_halt) (simp_all add: s1_def)
  moreover have "test_run N (s1, THalt # ops, r) (s2, THalt # ops, r)"
    unfolding s2_def by (rule halt_each) (simp add: s1_def)
  moreover have "test_step N (s2, THalt # ops, r) (s3, THalt # ops, r)"
    using step.halted [of s2 N] assms(3) by (intro t_halt) (simp_all add: s3_def s2_def s1_def)
  moreover have "test_run N (s3, THalt # ops, r) (s4, THalt # ops, r)"
    unfolding s4_def by (rule leave_each) (auto simp: s3_def s2_def s1_def assms fold_processor_halt_running)
  moreover have "\<forall>c \<in> set [0..<nc]. proc_pc s4 ! c = CExit"
    by (simp add: s4_def s3_def s2_def s1_def assms(4) fold_set_pc)
  then have "test_run N (s4, THalt # ops, r) (s5, THalt # ops, r)"
    unfolding s5_def by (intro join_each) (simp add: s4_def s3_def)
  moreover have "test_step N (s5, THalt # ops, r) (s6, THalt # ops, r)"
    using step.joined [of s5 N] by (intro t_halt) (simp_all add: s6_def s5_def)
  moreover have "test_step N (s6, THalt # ops, r) (s6, ops, r)" by (rule t_halted) (simp add: s6_def)
  ultimately have "test_run N (s, THalt # ops, r) (s6, ops, r)" by (meson test_run_trans test_run_one)
  then show ?thesis using that by (simp add: s6_def)
qed

text \<open>The script up to \<open>halt\<close>, run while every processor stays at the head of its loop.\<close>

lemma test_reaches_halt:
  assumes N: "ring_size_ok N" "unat N < 2 ^ 63" "length ds \<le> unat N"
  obtains t r where "test_run N (init_sys N g 1 nc, test_script ds, []) (t, [THalt], r)" "main_at t = MRun"
    "disr_processors (disr t) = [0..<nc]" "disr_threads (disr t) = [0..<nc]"
    "proc_pc t = replicate nc CWhile" "length (processors (objs t)) = nc"
proof -
  define s0 where "s0 = init_sys N g 1 nc"
  define s1 where "s1 = s0\<lparr>disr := disruptor_start (disr s0),
      proc_pc := fold (\<lambda>c pcs. pcs[c := CWhile]) (disr_processors (disr s0)) (proc_pc s0), main_at := MRun\<rparr>"
  let ?ops = "concat (map expect_after (enumerate 0 ds)) @ [THalt]"
  note v = init_sys_view [OF N(1), where g = g and np = 1 and nc = nc, folded s0_def]
  have threads: "disr_threads (disr s0) = []" by (simp add: s0_def init_sys_def demo_system_eq)
  have st: "step N s0 s1" unfolding s1_def by (rule step.start) (rule v(8))
  have "test_step N (s0, TStart # TCursor (- 1) # ?ops, []) (s1, TCursor (- 1) # ?ops, [])"
    by (rule t_start [OF st v(8)]) (simp add: s1_def)
  then have start: "test_run N (s0, test_script ds, []) (s1, ?ops, [disruptor_cursor (disr s1) (objs s1) = - 1])"
    using run_after [OF test_run_one t_cursor [of N s1 "- 1" ?ops "[]"]] by (simp add: test_script_def)
  have i1: "sp_inv N 0 s1" using sp_inv_start [OF sp_inv_init [OF N(1), of g nc]] by (simp add: s1_def s0_def)
  have "prod_pc s1 ! 0 = PIdle" using v(6) by (simp add: s1_def)
  moreover have "main_at s1 = MRun" "processors (objs s1) = processors (objs s0)" by (simp_all add: s1_def)
  ultimately obtain t r where
    t: "test_run N (s1, ?ops, [disruptor_cursor (disr s1) (objs s1) = - 1]) (t, [THalt], r)" "main_at t = MRun"
      "proc_pc t = proc_pc s1" "disr t = disr s1" "processors (objs t) = processors (objs s0)"
    using expectations_run [OF i1 _ _ N(2), of ds "[THalt]"] N(3) by (metis add_0)
  have pcs: "proc_pc s1 = replicate nc CWhile"
    using v(7,9) by (intro nth_equalityI) (simp_all add: s1_def fold_set_CWhile)
  show ?thesis
    by (rule that [OF test_run_trans [OF t(1) start, unfolded s0_def]])
      (use t pcs v(4,9) threads in \<open>auto simp: s1_def disruptor_start_def\<close>)
qed

lemma test_finishes:
  assumes N: "ring_size_ok N" "unat N < 2 ^ 63" "length ds \<le> unat N"
  shows "\<exists>s r. test_run N (init_sys N g 1 nc, test_script ds, []) (s, [], r) \<and> main_at s = MDone"
proof -
  obtain t r where t: "test_run N (init_sys N g 1 nc, test_script ds, []) (t, [THalt], r)" "main_at t = MRun"
    "disr_processors (disr t) = [0..<nc]" "disr_threads (disr t) = [0..<nc]"
    "proc_pc t = replicate nc CWhile" "length (processors (objs t)) = nc"
    by (rule test_reaches_halt [OF N])
  obtain u where u: "test_run N (t, [THalt], r) (u, [], r)" "main_at u = MDone" by (rule halt_finishes [OF t(2-6)])
  show ?thesis using test_run_trans [OF u(1) t(1)] u(2) by blast
qed

lemma test_races:
  assumes N: "ring_size_ok N" "unat N < 2 ^ 63" "length ds \<le> unat N" and "0 < nc"
  shows "\<exists>s ops r. test_run N (init_sys N g 1 nc, test_script ds, []) (s, ops, r) \<and> fault N s DataRace"
proof -
  obtain t r where t: "test_run N (init_sys N g 1 nc, test_script ds, []) (t, [THalt], r)" "main_at t = MRun"
    "disr_processors (disr t) = [0..<nc]" "proc_pc t = replicate nc CWhile"
    by (rule test_reaches_halt [OF N])
  let ?u = "t\<lparr>main_at := MHalt (disr_processors (disr t))\<rparr>"
  have "test_step N (t, [THalt], r) (?u, [THalt], r)"
    by (rule t_halt [OF step.halt]) (use t(2) in simp_all)
  then have "test_run N (init_sys N g 1 nc, test_script ds, []) (?u, [THalt], r)" by (rule run_after [OF t(1)])
  moreover have "data_race N ?u"
    by (rule halt_race [of _ 0 "[1..<nc]"]) (use t assms(4) in \<open>simp_all add: upt_conv_Cons\<close>)
  ultimately show ?thesis using fault.fault_race by blast
qed

section \<open>The time base\<close>

text \<open>The microseconds are right although they may be smaller at the end than at the start: the unsigned
  arithmetic wraps around twice.\<close>

lemma elapsed_usec_exact:
  assumes "0 \<le> sint (tv_sec a)" "sint (tv_sec a) \<le> sint (tv_sec b)" "sint (tv_sec b) < 2 ^ 40"
    and "sint (tv_usec a) \<in> {0..<1000000}" "sint (tv_usec b) \<in> {0..<1000000}"
    and "sint (tv_sec a) * 1000000 + sint (tv_usec a) \<le> sint (tv_sec b) * 1000000 + sint (tv_usec b)"
  shows "\<exists>usec. elapsed_usec a b = Inr usec \<and>
    uint usec = (sint (tv_sec b) - sint (tv_sec a)) * 1000000 + sint (tv_usec b) - sint (tv_usec a)"
proof -
  define v where "v = (sint (tv_sec b) - sint (tv_sec a)) * 1000000 + sint (tv_usec b) - sint (tv_usec a)"
  have "to_long (sint (tv_sec b) - sint (tv_sec a)) = Inr (sint (tv_sec b) - sint (tv_sec a))"
    using assms(1-3) by (intro to_long_ok) simp_all
  then have "elapsed_usec a b = Inr (of_int v)" by (simp add: elapsed_usec_def v_def)
  moreover have "0 \<le> v" using assms(6) by (simp add: v_def algebra_simps)
  moreover have "v < 2 ^ 64" using assms(1-5) by (simp add: v_def)
  moreover have "uint (of_int v :: u64) = v mod 2 ^ 64" by (simp add: uint_word_of_int)
  ultimately have "uint (of_int v :: u64) = v" by simp
  with \<open>elapsed_usec a b = Inr (of_int v)\<close> show ?thesis unfolding v_def [symmetric] by blast
qed

lemma elapsed_cycles_bounds:
  assumes "a0 \<le> a1" "a1 \<le> b0" "b0 \<le> b1" "b1 < 2 ^ 63"
  shows "unat b0 - unat a1 \<le> Suc (unat (elapsed_cycles a0 a1 b0 b1))"
    "unat (elapsed_cycles a0 a1 b0 b1) \<le> Suc (unat b1 - unat a0)"
proof -
  have le: "unat a0 \<le> unat a1" "unat a1 \<le> unat b0" "unat b0 \<le> unat b1" "unat b1 < 2 ^ 63"
    using assms by (simp_all add: word_le_nat_alt word_less_nat_alt)
  have half: "unat ((x + y) div 2) = (unat x + unat y) div 2" if "unat x + unat y < 2 ^ 64" for x y :: u64
  proof -
    have "unat (x + y) = unat x + unat y" using that unat_add_lem [of x y] by simp
    then show ?thesis by (simp add: unat_div)
  qed
  have b: "unat ((b1 + b0) div 2) = (unat b1 + unat b0) div 2" by (rule half) (use le in simp)
  have a: "unat ((a1 + a0) div 2) = (unat a1 + unat a0) div 2" by (rule half) (use le in simp)
  have "(unat a1 + unat a0) div 2 \<le> (unat b1 + unat b0) div 2" using le by (intro div_le_mono) simp
  then have "unat (elapsed_cycles a0 a1 b0 b1) = (unat b1 + unat b0) div 2 - (unat a1 + unat a0) div 2"
    using a b by (simp add: elapsed_cycles_def unat_sub word_le_nat_alt)
  then show "unat b0 - unat a1 \<le> Suc (unat (elapsed_cycles a0 a1 b0 b1))"
    "unat (elapsed_cycles a0 a1 b0 b1) \<le> Suc (unat b1 - unat a0)" using le by linarith+
qed

text \<open>Once computed, the number of cycles is returned again without a measurement.\<close>

lemma tsc_per_milli_cached:
  assumes "tsc_per_milli f rdtsc clock force m = Inr (v, m')" "v \<noteq> 0"
  shows "tsc_per_milli g rdtsc' clock' False m' = Inr (v, m')"
  using assms by (auto simp: tsc_per_milli_def Let_def rbind_eq_Inr split: if_splits)

section \<open>Properties\<close>

text \<open>C24. The unit tests pass under every interleaving, but they race: with one producer, any number of processors and
  up to \<open>N\<close> events, whatever the processor threads do between and during the calls, no expectation on the cursor
  fails and nothing but data races is undefined, every expectation has been evaluated when the script ends, and
  the script can end, with all threads joined; as soon as there is a processor, some schedule has a data race.\<close>

theorem unit_tests_pass:
  assumes "ring_size_ok N" "unat N < 2 ^ 63" "length ds \<le> unat N"
  shows "(\<forall>s ops r. test_run N (init_sys N g 1 nc, test_script ds, []) (s, ops, r) \<longrightarrow>
      False \<notin> set r \<and> (\<forall>e. fault N s e \<longrightarrow> e = DataRace) \<and> (ops = [] \<longrightarrow> length r = Suc (length ds))) \<and>
    (\<exists>s r. test_run N (init_sys N g 1 nc, test_script ds, []) (s, [], r) \<and> main_at s = MDone) \<and>
    (0 < nc \<longrightarrow> (\<exists>s ops r. test_run N (init_sys N g 1 nc, test_script ds, []) (s, ops, r) \<and> fault N s DataRace))"
proof -
  have "False \<notin> set r \<and> (\<forall>e. fault N s e \<longrightarrow> e = DataRace) \<and> (ops = [] \<longrightarrow> length r = Suc (length ds))"
    if run: "test_run N (init_sys N g 1 nc, test_script ds, []) (s, ops, r)" for s ops r
  proof -
    have "test_inv N (s, ops, r)" by (rule test_inv_run [OF run test_inv_init [OF assms(1,3)] assms(2)])
    then obtain m where m: "m \<le> unat N" "sp_inv N m s" "False \<notin> set r" by (auto simp: test_inv_def)
    then have "e = DataRace" if "fault N s e" for e using fault_is_overrun [OF m(2) assms(2) that] by auto
    then show ?thesis using m(3) test_run_expectations [OF run] by (auto simp: expectations_test)
  qed
  then show ?thesis using test_finishes [OF assms] test_races [OF assms] by blast
qed

theorem unit_tests_pass_witness:
  "(\<exists>s. test_run 1024 (init_sys 1024 0 1 2, SPMCTest, []) (s, [], [True, True, True]) \<and> main_at s = MDone) \<and>
   (\<exists>s. test_run 1024 (init_sys 1024 0 1 1, BasicTest, []) (s, [], [True, True, True]) \<and> main_at s = MDone)"
proof -
  have N: "ring_size_ok 1024" "unat (1024 :: u64) < 2 ^ 63" "length [''Event 0'', ''Event 1''] \<le> unat (1024 :: u64)"
    by (simp_all add: ring_size_ok_def)
  have three: "r = [True, True, True]" if "False \<notin> set r" "length r = 3" for r
    using that by (auto simp: numeral_eq_Suc length_Suc_conv)
  have "\<exists>s. test_run 1024 (init_sys 1024 0 1 nc, test_script [''Event 0'', ''Event 1''], []) (s, [], [True, True, True]) \<and>
    main_at s = MDone" for nc
  proof -
    obtain s r where s: "test_run 1024 (init_sys 1024 0 1 nc, test_script [''Event 0'', ''Event 1''], []) (s, [], r)"
      "main_at s = MDone" using unit_tests_pass [OF N, of 0 nc] by blast
    moreover have "False \<notin> set r \<and> length r = 3" using unit_tests_pass [OF N, of 0 nc] s(1) by fastforce
    ultimately show ?thesis using three by blast
  qed
  then show ?thesis by (simp add: SPMCTest_def BasicTest_def)
qed

end
