(* ===== verification/Bounded_Queue.thy ===== *)
theory Bounded_Queue
  imports Workshop_Prelude
begin

text \<open>
  \<open>disruptor/naive_implementation/\<close>: the array-based \<open>Queue\<close> with one slot kept empty, and the
  \<open>Producer\<close> and \<open>Consumer\<close> that retry on it. The queue is shown to implement a bounded FIFO
  (the locale \<open>bounded_fifo\<close>); the clients are verified once against that interface.
\<close>

section \<open>The queue\<close>

record queue =
  qdata :: "i64 list"
  capacity :: u64
  head :: u64
  tail :: u64

text \<open>\<open>size_t\<close> arithmetic is modulo \<open>2 ^ 64\<close>: asking for \<open>2 ^ 64 - 1\<close> elements gives capacity \<open>0\<close>.\<close>

definition Queue :: "u64 \<Rightarrow> queue" where
  "Queue n = (let c = n + 1
     in \<lparr>qdata = replicate (unat c) 0, capacity = c, head = 0, tail = 0\<rparr>)"

definition advance :: "u64 \<Rightarrow> queue \<Rightarrow> u64 result" where
  "advance i q = (if capacity q = 0 then Inl DivByZero else Inr ((i + 1) mod capacity q))"

definition add :: "queue \<Rightarrow> i64 \<Rightarrow> (bool \<times> queue) result" where
  "add q elem =
     rbind (advance (tail q) q) (\<lambda>t.
       if t = head q then Inr (False, q)
       else rbind (array_set (qdata q) (unat (tail q)) elem) (\<lambda>d.
         Inr (True, q\<lparr>qdata := d, tail := t\<rparr>)))"

definition poll :: "queue \<Rightarrow> i64 \<Rightarrow> (bool \<times> i64 \<times> queue) result" where
  "poll q elem =
     (if head q = tail q then Inr (False, elem, q)
      else rbind (array_get (qdata q) (unat (head q))) (\<lambda>v.
             rbind (advance (head q) q) (\<lambda>h. Inr (True, v, q\<lparr>head := h\<rparr>))))"

section \<open>Producer and consumer\<close>

text \<open>\<open>Producer::produce\<close> retries until there is room. Alone it may wait forever, so the loop
  carries fuel and running out is \<open>None\<close>. The operations are parameters: what is proved of the
  clients holds for every queue with the interface below.\<close>

fun produce :: "('q \<Rightarrow> 'a \<Rightarrow> (bool \<times> 'q) result) \<Rightarrow> nat \<Rightarrow> 'a \<Rightarrow> 'q \<Rightarrow> 'q result option" where
  "produce addf 0 x q = None"
| "produce addf (Suc fuel) x q =
     (case addf q x of
        Inl e \<Rightarrow> Some (Inl e)
      | Inr (ok, q') \<Rightarrow> if ok then Some (Inr q') else produce addf fuel x q')"

text \<open>One turn of the endless loop of \<open>Consumer::consume\<close>: the local \<open>data\<close> is uninitialised
  (\<open>garbage\<close>) and the value polled is dropped; the result says whether it slept.\<close>

definition consume_turn ::
    "('q \<Rightarrow> 'a \<Rightarrow> (bool \<times> 'a \<times> 'q) result) \<Rightarrow> 'a \<Rightarrow> 'q \<Rightarrow> ('a option \<times> 'q) result" where
  "consume_turn pollf garbage q =
     rbind (pollf q garbage) (\<lambda>(ret, v, q'). Inr (if ret then Some v else None, q'))"

text \<open>Any interleaving of the two: the values added and the values polled, in order.\<close>

datatype 'a queue_op = AddOp 'a | PollOp

fun run_ops ::
    "('q \<Rightarrow> 'a \<Rightarrow> (bool \<times> 'q) result) \<Rightarrow> ('q \<Rightarrow> 'a \<Rightarrow> (bool \<times> 'a \<times> 'q) result) \<Rightarrow> 'a \<Rightarrow>
     'a queue_op list \<Rightarrow> 'q \<Rightarrow> ('a list \<times> 'a list \<times> 'q) result" where
  "run_ops addf pollf g [] q = Inr ([], [], q)"
| "run_ops addf pollf g (AddOp x # ops) q =
     rbind (addf q x) (\<lambda>(ok, q1). rbind (run_ops addf pollf g ops q1)
       (\<lambda>(as, ps, q2). Inr (if ok then x # as else as, ps, q2)))"
| "run_ops addf pollf g (PollOp # ops) q =
     rbind (consume_turn pollf g q) (\<lambda>(v, q1). rbind (run_ops addf pollf g ops q1)
       (\<lambda>(as, ps, q2). Inr (as, (case v of None \<Rightarrow> ps | Some x \<Rightarrow> x # ps), q2)))"

section \<open>The interface and what its clients may rely on\<close>

locale bounded_fifo =
  fixes invar :: "'q \<Rightarrow> bool"
    and contents :: "'q \<Rightarrow> 'a list"
    and room :: "'q \<Rightarrow> nat"
    and addf :: "'q \<Rightarrow> 'a \<Rightarrow> (bool \<times> 'q) result"
    and pollf :: "'q \<Rightarrow> 'a \<Rightarrow> (bool \<times> 'a \<times> 'q) result"
  assumes bounded: "invar q \<Longrightarrow> length (contents q) \<le> room q"
    and add_room: "invar q \<Longrightarrow> length (contents q) < room q \<Longrightarrow>
      \<exists>q'. addf q x = Inr (True, q') \<and> invar q' \<and> contents q' = contents q @ [x] \<and> room q' = room q"
    and add_full: "invar q \<Longrightarrow> length (contents q) = room q \<Longrightarrow> addf q x = Inr (False, q)"
    and poll_some: "invar q \<Longrightarrow> contents q = x # xs \<Longrightarrow>
      \<exists>q'. pollf q g = Inr (True, x, q') \<and> invar q' \<and> contents q' = xs \<and> room q' = room q"
    and poll_empty: "invar q \<Longrightarrow> contents q = [] \<Longrightarrow> pollf q g = Inr (False, g, q)"
begin

lemma add_cases:
  assumes "invar q"
  obtains (full) "addf q x = Inr (False, q)" "length (contents q) = room q"
    | (room) q' where "addf q x = Inr (True, q')" "invar q'" "contents q' = contents q @ [x]"
        "room q' = room q" "length (contents q) < room q"
  using add_room [OF assms] add_full [OF assms] bounded [OF assms]
  by (metis le_neq_implies_less)

lemma poll_cases:
  assumes "invar q"
  obtains (empty) "pollf q g = Inr (False, g, q)" "contents q = []"
    | (some) x q' where "pollf q g = Inr (True, x, q')" "invar q'" "contents q = x # contents q'"
        "room q' = room q"
  using poll_some [OF assms] poll_empty [OF assms]
  by (metis list.exhaust)

text \<open>A producer with room enters its value at once; one without room waits forever as long as
  nothing else runs.\<close>

lemma produce_room:
  assumes "invar q" and "length (contents q) < room q"
  shows "\<exists>q'. produce addf (Suc fuel) x q = Some (Inr q') \<and> invar q' \<and> contents q' = contents q @ [x]"
  using add_room [OF assms, of x] by auto

lemma produce_full:
  assumes "invar q" and "length (contents q) = room q"
  shows "produce addf fuel x q = None"
  using assms by (induction fuel) (simp_all add: add_full)

text \<open>Whatever the interleaving: nothing fails, values come out in the order they went in, each
  once, and what has gone in and not come out is in the queue.\<close>

lemma run_ops_fifo:
  assumes "invar q"
  shows "\<exists>as ps q'. run_ops addf pollf g ops q = Inr (as, ps, q') \<and> invar q' \<and> room q' = room q
    \<and> contents q @ as = ps @ contents q'"
  using assms
proof (induction ops arbitrary: q)
  case Nil
  then show ?case by simp
next
  case (Cons op ops)
  show ?case
  proof (cases op)
    case (AddOp x)
    show ?thesis
    proof (cases rule: add_cases [OF Cons.prems, of x, case_names full room])
      case full
      with Cons.IH [OF Cons.prems] AddOp show ?thesis by auto
    next
      case (room q1)
      with Cons.IH [OF room(2)] AddOp show ?thesis by fastforce
    qed
  next
    case PollOp
    show ?thesis
    proof (cases rule: poll_cases [OF Cons.prems, of g, case_names empty some])
      case empty
      with Cons.IH [OF Cons.prems] PollOp show ?thesis by (auto simp: consume_turn_def)
    next
      case (some x q1)
      with Cons.IH [OF some(2)] PollOp show ?thesis by (auto simp: consume_turn_def)
    qed
  qed
qed

end

section \<open>The array queue implements it\<close>

definition queue_ok :: "queue \<Rightarrow> bool" where
  "queue_ok q \<longleftrightarrow> 0 < unat (capacity q) \<and> length (qdata q) = unat (capacity q)
     \<and> unat (head q) < unat (capacity q) \<and> unat (tail q) < unat (capacity q)"

definition used :: "queue \<Rightarrow> nat" where
  "used q = (unat (tail q) + unat (capacity q) - unat (head q)) mod unat (capacity q)"

definition queue_contents :: "queue \<Rightarrow> i64 list" where
  "queue_contents q = map (\<lambda>i. qdata q ! ((unat (head q) + i) mod unat (capacity q))) [0..<used q]"

definition queue_room :: "queue \<Rightarrow> nat" where
  "queue_room q = unat (capacity q) - 1"

text \<open>Index arithmetic of the ring: all sums stay below twice the capacity.\<close>

lemma mod_wrap: "(a::nat) < 2 * c \<Longrightarrow> a mod c = (if a < c then a else a - c)"
  by (simp add: le_mod_geq not_less)

lemma unat_succ_mod:
  fixes i c :: u64
  assumes "unat i < unat c"
  shows "unat ((i + 1) mod c) = (unat i + 1) mod unat c"
proof -
  have "unat c < 2 ^ 64" using unsigned_less [of c, where 'a = nat] by simp
  then have "unat (i + 1) = unat i + 1"
    using assms by (subst unat_word_ariths) simp
  then show ?thesis by (simp add: unat_mod)
qed

lemma used_eq:
  "queue_ok q \<Longrightarrow> used q = (if unat (head q) \<le> unat (tail q) then unat (tail q) - unat (head q)
     else unat (tail q) + unat (capacity q) - unat (head q))"
  by (auto simp: used_def queue_ok_def mod_wrap)

lemma used_less: "queue_ok q \<Longrightarrow> used q < unat (capacity q)"
  by (simp add: used_def queue_ok_def)

lemma length_queue_contents [simp]: "length (queue_contents q) = used q"
  by (simp add: queue_contents_def)

lemma slot_tail:
  "queue_ok q \<Longrightarrow> (unat (head q) + used q) mod unat (capacity q) = unat (tail q)"
  by (auto simp: used_eq queue_ok_def mod_wrap)

lemma slot_not_tail:
  "queue_ok q \<Longrightarrow> i < used q \<Longrightarrow> (unat (head q) + i) mod unat (capacity q) \<noteq> unat (tail q)"
  by (auto simp: used_eq queue_ok_def mod_wrap split: if_splits)

lemma advance_ok:
  assumes "queue_ok q" and "unat i < unat (capacity q)"
  obtains j where "advance i q = Inr j" "unat j = (unat i + 1) mod unat (capacity q)"
proof
  show "advance i q = Inr ((i + 1) mod capacity q)"
    using assms(1) by (auto simp: advance_def queue_ok_def)
  show "unat ((i + 1) mod capacity q) = (unat i + 1) mod unat (capacity q)"
    by (rule unat_succ_mod [OF assms(2)])
qed

lemma tail_meets_head:
  assumes "queue_ok q"
  shows "(unat (tail q) + 1) mod unat (capacity q) = unat (head q) \<longleftrightarrow> used q = queue_room q"
proof -
  have "unat (tail q) + 1 < 2 * unat (capacity q)" using assms by (auto simp: queue_ok_def)
  then show ?thesis using assms by (auto simp: used_eq queue_ok_def mod_wrap queue_room_def)
qed

lemma add_has_room:
  assumes "queue_ok q" and "used q < queue_room q"
  shows "\<exists>q'. add q x = Inr (True, q') \<and> queue_ok q' \<and> queue_contents q' = queue_contents q @ [x]
    \<and> queue_room q' = queue_room q"
proof -
  have t: "unat (tail q) < unat (capacity q)" "length (qdata q) = unat (capacity q)"
    using assms(1) by (auto simp: queue_ok_def)
  obtain j where j: "advance (tail q) q = Inr j" "unat j = (unat (tail q) + 1) mod unat (capacity q)"
    by (rule advance_ok [OF assms(1) t(1)])
  have "j \<noteq> head q" using tail_meets_head [OF assms(1)] assms(2) j(2) by auto
  let ?q = "q\<lparr>qdata := (qdata q)[unat (tail q) := x], tail := j\<rparr>"
  have a: "add q x = Inr (True, ?q)" using \<open>j \<noteq> head q\<close> j(1) t by (simp add: add_def)
  have ok: "queue_ok ?q" using assms(1) j(2) by (auto simp: queue_ok_def)
  have "unat (tail q) + 1 < 2 * unat (capacity q)" using assms(1) by (auto simp: queue_ok_def)
  then have u: "used ?q = Suc (used q)"
    using used_eq [OF ok] used_eq [OF assms(1)] j(2) assms by (auto simp: queue_ok_def mod_wrap queue_room_def)
  have "(qdata q)[unat (tail q) := x] ! ((unat (head q) + i) mod unat (capacity q)) =
      qdata q ! ((unat (head q) + i) mod unat (capacity q))" if "i < used q" for i
    using slot_not_tail [OF assms(1) that] by simp
  then have "queue_contents ?q = queue_contents q @ [x]"
    using slot_tail [OF assms(1)] t unfolding queue_contents_def u by simp
  with a ok show ?thesis by (simp add: queue_room_def)
qed

lemma add_no_room:
  assumes "queue_ok q" and "used q = queue_room q"
  shows "add q x = Inr (False, q)"
proof -
  have t: "unat (tail q) < unat (capacity q)" using assms(1) by (auto simp: queue_ok_def)
  obtain j where "advance (tail q) q = Inr j" "unat j = (unat (tail q) + 1) mod unat (capacity q)"
    by (rule advance_ok [OF assms(1) t])
  then show ?thesis using tail_meets_head [OF assms(1)] assms(2) by (simp add: add_def word_unat_eq_iff)
qed

lemma poll_element:
  assumes "queue_ok q" and "queue_contents q = x # xs"
  shows "\<exists>q'. poll q g = Inr (True, x, q') \<and> queue_ok q' \<and> queue_contents q' = xs
    \<and> queue_room q' = queue_room q"
proof -
  have h: "unat (head q) < unat (capacity q)" "length (qdata q) = unat (capacity q)"
    using assms(1) by (auto simp: queue_ok_def)
  have pos: "0 < used q" using assms(2) length_queue_contents [of q] by simp
  then have ne: "head q \<noteq> tail q" using used_eq [OF assms(1)] by auto
  obtain j where j: "advance (head q) q = Inr j" "unat j = (unat (head q) + 1) mod unat (capacity q)"
    by (rule advance_ok [OF assms(1) h(1)])
  let ?q = "q\<lparr>head := j\<rparr>"
  have split: "queue_contents q = qdata q ! unat (head q) #
      map (\<lambda>i. qdata q ! ((unat (head q) + i) mod unat (capacity q))) [Suc 0..<used q]"
    unfolding queue_contents_def using pos h(1) by (simp add: upt_conv_Cons)
  have p: "poll q g = Inr (True, x, ?q)"
    using ne j(1) h assms(2) split by (simp add: poll_def)
  have ok: "queue_ok ?q" using assms(1) j(2) by (auto simp: queue_ok_def)
  have "unat (head q) + 1 < 2 * unat (capacity q)" using assms(1) by (auto simp: queue_ok_def)
  then have u: "used ?q = used q - 1"
    using used_eq [OF ok] used_eq [OF assms(1)] j(2) assms(1) pos by (auto simp: queue_ok_def mod_wrap)
  have "queue_contents ?q = map (\<lambda>i. qdata q ! ((unat (head q) + i) mod unat (capacity q))) [Suc 0..<used q]"
    unfolding queue_contents_def u
    by (rule nth_equalityI) (simp_all add: j(2) mod_simps ac_simps)
  with split assms(2) p ok show ?thesis by (simp add: queue_room_def)
qed

lemma poll_nothing: "queue_ok q \<Longrightarrow> queue_contents q = [] \<Longrightarrow> poll q g = Inr (False, g, q)"
  using used_eq [of q] length_queue_contents [of q]
  by (auto simp: poll_def queue_ok_def word_unat_eq_iff split: if_splits)

interpretation array_queue: bounded_fifo queue_ok queue_contents queue_room add poll
proof unfold_locales
  show "length (queue_contents q) \<le> queue_room q" if "queue_ok q" for q
    using used_less [OF that] by (simp add: queue_room_def)
qed (auto intro: add_has_room add_no_room poll_element poll_nothing)

section \<open>Properties\<close>

lemma Queue_ok:
  assumes "n \<noteq> - 1"
  shows "queue_ok (Queue n)" "queue_contents (Queue n) = []" "queue_room (Queue n) = unat n"
proof -
  have "unat (n + 1) = unat n + 1"
    using assms unatSuc [of n] by (metis add.commute add.inverse_inverse add_eq_0_iff2 plus_1_eq_Suc)
  then show "queue_ok (Queue n)" "queue_contents (Queue n) = []" "queue_room (Queue n) = unat n"
    by (simp_all add: Queue_def queue_ok_def queue_contents_def used_def queue_room_def Let_def)
qed

text \<open>Filling a queue: as many values as there is room for are accepted, the others are refused and
  change nothing.\<close>

definition add_all :: "i64 list \<Rightarrow> queue \<Rightarrow> (bool list \<times> queue) result" where
  "add_all xs q = for_each (\<lambda>x (bs, q). rbind (add q x) (\<lambda>(b, q'). Inr (bs @ [b], q'))) xs ([], q)"

lemma add_all_gen:
  assumes "queue_ok q"
  shows "\<exists>q'. for_each (\<lambda>x (bs, q). rbind (add q x) (\<lambda>(b, q'). Inr (bs @ [b], q'))) xs (bs, q) =
      Inr (bs @ map (\<lambda>i. i < queue_room q - used q) [0..<length xs], q')
    \<and> queue_contents q' = queue_contents q @ take (queue_room q - used q) xs"
  using assms
proof (induction xs arbitrary: q bs)
  case Nil
  then show ?case by simp
next
  case (Cons x xs)
  show ?case
  proof (cases rule: array_queue.add_cases [OF Cons.prems, of x, case_names full room])
    case full
    with Cons.IH [OF Cons.prems, of "bs @ [False]"] show ?thesis
      by (simp add: map_replicate_const replicate_append_same flip: replicate_Suc)
  next
    case (room q1)
    have u: "queue_room q1 - used q1 = queue_room q - used q - 1" "0 < queue_room q - used q"
      using room length_queue_contents [of q1] length_queue_contents [of q] by auto
    have "[0..<length (x # xs)] = 0 # map Suc [0..<length xs]"
      by (simp add: map_Suc_upt upt_conv_Cons del: upt_Suc)
    then have "map (\<lambda>i. i < queue_room q - used q) [0..<length (x # xs)] =
        True # map (\<lambda>i. i < queue_room q - used q - 1) [0..<length xs]"
      using u(2) by auto
    with Cons.IH [OF room(2), of "bs @ [True]"] room(1,3) u show ?thesis
      by (auto simp: take_Cons')
  qed
qed

text \<open>C29. The array queue is a FIFO under every interleaving of \<open>add\<close> and \<open>poll\<close>: no operation is
  undefined, the values polled followed by what is still queued are exactly the values accepted,
  in order, and never more than \<open>n\<close> values are queued.\<close>

theorem queue_is_fifo:
  assumes "n \<noteq> - 1"
  shows "\<exists>as ps q. run_ops add poll g ops (Queue n) = Inr (as, ps, q)
    \<and> as = ps @ queue_contents q \<and> length (queue_contents q) \<le> unat n"
proof -
  note q = Queue_ok [OF assms]
  from array_queue.run_ops_fifo [OF q(1), of g ops] obtain as ps q' where
    r: "run_ops add poll g ops (Queue n) = Inr (as, ps, q')" "queue_ok q'"
      "queue_room q' = queue_room (Queue n)" "queue_contents (Queue n) @ as = ps @ queue_contents q'"
    by blast
  then show ?thesis using q array_queue.bounded [OF r(2)] by (metis append_Nil)
qed

theorem queue_is_fifo_witness:
  "\<exists>as ps q. run_ops add poll 0 [AddOp 5, PollOp, AddOp 7, PollOp] (Queue 2) = Inr (as, ps, q)
    \<and> as = ps @ queue_contents q"
  using queue_is_fifo [of 2 0 "[AddOp 5, PollOp, AddOp 7, PollOp]"] by auto

text \<open>A queue constructed for \<open>n\<close> elements accepts exactly the first \<open>n\<close> of a sequence of
  \<open>add\<close> calls and refuses the rest without changing its contents: the extra slot makes the
  requested size usable, also for \<open>n = 1\<close>, which a comment in \<open>add\<close> doubts.\<close>

theorem queue_accepts_exactly_its_size:
  assumes "n \<noteq> - 1"
  shows "\<exists>q. add_all xs (Queue n) = Inr (map (\<lambda>i. i < unat n) [0..<length xs], q)
    \<and> queue_contents q = take (unat n) xs"
proof -
  note q = Queue_ok [OF assms]
  have "used (Queue n) = 0" using q(2) length_queue_contents [of "Queue n"] by simp
  with add_all_gen [OF q(1), of xs "[]"] q show ?thesis by (simp add: add_all_def)
qed

text \<open>C30. \<open>Producer::produce\<close> on the queue: with room its first \<open>add\<close> succeeds and it returns after
  that one turn, with the value at the end of the queue; on a full queue that nobody polls it never
  returns, whatever the number of turns.\<close>

theorem produce_returns_iff_room:
  assumes "queue_ok q"
  shows "(used q < queue_room q \<longrightarrow> (\<exists>q'. queue_ok q' \<and> queue_contents q' = queue_contents q @ [x]
        \<and> queue_room q' = queue_room q \<and> (\<forall>fuel. produce add (Suc fuel) x q = Some (Inr q'))))
    \<and> (\<not> used q < queue_room q \<longrightarrow> (\<forall>fuel. produce add fuel x q = None))"
proof (intro conjI impI)
  assume "used q < queue_room q"
  then obtain q' where "add q x = Inr (True, q')" "queue_ok q'" "queue_contents q' = queue_contents q @ [x]"
      "queue_room q' = queue_room q"
    using array_queue.add_room [OF assms, of x] by auto
  then show "\<exists>q'. queue_ok q' \<and> queue_contents q' = queue_contents q @ [x] \<and> queue_room q' = queue_room q
      \<and> (\<forall>fuel. produce add (Suc fuel) x q = Some (Inr q'))"
    by (intro exI [of _ q']) simp
next
  assume "\<not> used q < queue_room q"
  then have "length (queue_contents q) = queue_room q" using array_queue.bounded [OF assms] by simp
  then show "\<forall>fuel. produce add fuel x q = None" using array_queue.produce_full [OF assms] by blast
qed

theorem produce_returns_iff_room_witness:
  "\<exists>q'. produce add 1 9 (Queue 1) = Some (Inr q') \<and> queue_contents q' = [9]
    \<and> (\<forall>fuel. produce add fuel 7 q' = None)"
proof -
  have ok: "queue_ok (Queue 1)" "queue_contents (Queue 1) = []" using Queue_ok [of 1] by simp_all
  have room: "queue_room (Queue 1) = 1" by (simp add: queue_room_def Queue_def Let_def)
  have "used (Queue 1) < queue_room (Queue 1)"
    using ok(2) room by (simp flip: length_queue_contents)
  then obtain q' where q': "queue_ok q'" "queue_contents q' = [9]" "queue_room q' = 1"
      "\<forall>fuel. produce add (Suc fuel) 9 (Queue 1) = Some (Inr q')"
    using produce_returns_iff_room [OF ok(1), of 9] ok(2) room by auto
  have "\<not> used q' < queue_room q'" using q'(2,3) by (simp flip: length_queue_contents)
  then have "\<forall>fuel. produce add fuel 7 q' = None"
    using produce_returns_iff_room [OF q'(1), of 7] by blast
  moreover have "produce add 1 9 (Queue 1) = Some (Inr q')" using q'(4) by (simp del: produce.simps)
  ultimately show ?thesis using q'(2) by blast
qed

end
