(* ===== verification/Lock_Benchmark.thy ===== *)
theory Lock_Benchmark
  imports Workshop_Prelude
begin

text \<open>
  \<open>design_patterns/lock_free/lock_free.cc\<close>: the \<open>SpinLock\<close> and the benchmark that increments a
  plain \<open>int\<close> under a lock from several threads. The benchmark is a template over the lock type;
  here it is a step relation over the operations of a lock, and the locale \<open>lock_contract\<close> says
  what it needs of them. \<open>SpinLock\<close> is one lock with this contract, \<open>std::mutex\<close> another.
\<close>

section \<open>SpinLock\<close>

text \<open>Where a thread is inside \<open>SpinLock::lock\<close>: before the load and the exchange of the fast path,
  before the load of the waiting loop, before the exchange that follows it.\<close>

datatype spin_pc = FastLoad | FastExchange | WaitLoad | WaitExchange

text \<open>\<open>std::atomic<bool>::exchange(true)\<close>: the old value, and the flag set.\<close>

definition exchange_true :: "bool \<Rightarrow> bool \<times> bool" where
  "exchange_true flag = (flag, True)"

text \<open>One atomic access of \<open>lock\<close>. \<open>None\<close> is the return from \<open>lock\<close>.\<close>

fun spin_step :: "spin_pc \<Rightarrow> bool \<Rightarrow> spin_pc option \<times> bool" where
  "spin_step FastLoad flag = (if \<not> flag then Some FastExchange else Some WaitLoad, flag)"
| "spin_step FastExchange flag =
     (let (old, flag') = exchange_true flag in (if \<not> old then None else Some WaitLoad, flag'))"
| "spin_step WaitLoad flag = (if flag then Some WaitLoad else Some WaitExchange, flag)"
| "spin_step WaitExchange flag =
     (let (old, flag') = exchange_true flag in (if \<not> old then None else Some WaitLoad, flag'))"

definition spin_unlock :: "bool \<Rightarrow> bool" where
  "spin_unlock flag = False"

text \<open>\<open>try_lock\<close>, its load and its exchange with whatever the flag is by then.\<close>

definition try_lock :: "bool \<Rightarrow> bool \<Rightarrow> bool \<times> bool" where
  "try_lock flag_at_load flag_at_exchange =
     (if \<not> flag_at_load then (let (old, flag') = exchange_true flag_at_exchange in (\<not> old, flag'))
      else (False, flag_at_exchange))"

text \<open>\<open>std::mutex\<close> and the exclusive side of \<open>std::shared_mutex\<close> as the standard specifies them:
  \<open>lock\<close> blocks until it can take the lock in one step.\<close>

definition mutex_step :: "unit \<Rightarrow> bool \<Rightarrow> unit option \<times> bool" where
  "mutex_step u owned = (if owned then (Some (), owned) else (None, True))"

definition mutex_unlock :: "bool \<Rightarrow> bool" where
  "mutex_unlock owned = False"

section \<open>The benchmark loop\<close>

text \<open>A thread between two iterations, inside \<open>lock()\<close>, about to read \<open>counter\<close>, about to write
  the value it read plus one, about to \<open>unlock()\<close>, and past the loop; with the iterations it has
  left.\<close>

datatype 'p thread_pc = TNext | TLocking 'p | TRead | TWrite int | TUnlock | TDone

record ('l, 'p) bench =
  lock_state :: 'l
  counter :: int
  threads :: "('p thread_pc \<times> nat) list"

definition bench_init :: "'l \<Rightarrow> nat list \<Rightarrow> ('l, 'p) bench" where
  "bench_init l iterations = \<lparr>lock_state = l, counter = 0, threads = map (Pair TNext) iterations\<rparr>"

inductive bench_step ::
    "'p \<Rightarrow> ('p \<Rightarrow> 'l \<Rightarrow> 'p option \<times> 'l) \<Rightarrow> ('l \<Rightarrow> 'l) \<Rightarrow> ('l, 'p) bench \<Rightarrow> ('l, 'p) bench \<Rightarrow> bool"
  for start :: 'p and lstep :: "'p \<Rightarrow> 'l \<Rightarrow> 'p option \<times> 'l" and unlock :: "'l \<Rightarrow> 'l" where
  iterate: "i < length (threads b) \<Longrightarrow> threads b ! i = (TNext, Suc k) \<Longrightarrow>
    bench_step start lstep unlock b (b\<lparr>threads := (threads b)[i := (TLocking start, k)]\<rparr>)"
| leave: "i < length (threads b) \<Longrightarrow> threads b ! i = (TNext, 0) \<Longrightarrow>
    bench_step start lstep unlock b (b\<lparr>threads := (threads b)[i := (TDone, 0)]\<rparr>)"
| wait: "i < length (threads b) \<Longrightarrow> threads b ! i = (TLocking p, k) \<Longrightarrow>
    lstep p (lock_state b) = (Some p', l) \<Longrightarrow>
    bench_step start lstep unlock b (b\<lparr>lock_state := l, threads := (threads b)[i := (TLocking p', k)]\<rparr>)"
| acquire: "i < length (threads b) \<Longrightarrow> threads b ! i = (TLocking p, k) \<Longrightarrow>
    lstep p (lock_state b) = (None, l) \<Longrightarrow>
    bench_step start lstep unlock b (b\<lparr>lock_state := l, threads := (threads b)[i := (TRead, k)]\<rparr>)"
| read: "i < length (threads b) \<Longrightarrow> threads b ! i = (TRead, k) \<Longrightarrow>
    bench_step start lstep unlock b (b\<lparr>threads := (threads b)[i := (TWrite (counter b), k)]\<rparr>)"
| write_back: "i < length (threads b) \<Longrightarrow> threads b ! i = (TWrite v, k) \<Longrightarrow> v < 2 ^ 31 - 1 \<Longrightarrow>
    bench_step start lstep unlock b
      (b\<lparr>counter := v + 1, threads := (threads b)[i := (TUnlock, k)]\<rparr>)"
| release: "i < length (threads b) \<Longrightarrow> threads b ! i = (TUnlock, k) \<Longrightarrow>
    bench_step start lstep unlock b
      (b\<lparr>lock_state := unlock (lock_state b), threads := (threads b)[i := (TNext, k)]\<rparr>)"

text \<open>\<open>counter++\<close> at the largest \<open>int\<close>.\<close>

definition bench_overflow :: "('l, 'p) bench \<Rightarrow> bool" where
  "bench_overflow b \<longleftrightarrow> (\<exists>i < length (threads b). \<exists>v k. threads b ! i = (TWrite v, k) \<and> v = 2 ^ 31 - 1)"

definition bench_finished :: "('l, 'p) bench \<Rightarrow> bool" where
  "bench_finished b \<longleftrightarrow> (\<forall>t \<in> set (threads b). fst t = TDone)"

inductive bench_run ::
    "'p \<Rightarrow> ('p \<Rightarrow> 'l \<Rightarrow> 'p option \<times> 'l) \<Rightarrow> ('l \<Rightarrow> 'l) \<Rightarrow> ('l, 'p) bench \<Rightarrow> ('l, 'p) bench \<Rightarrow> bool"
  for start :: 'p and lstep :: "'p \<Rightarrow> 'l \<Rightarrow> 'p option \<times> 'l" and unlock :: "'l \<Rightarrow> 'l" where
  none: "bench_run start lstep unlock b b"
| more: "bench_run start lstep unlock b b' \<Longrightarrow> bench_step start lstep unlock b' b'' \<Longrightarrow>
    bench_run start lstep unlock b b''"

fun in_section :: "'p thread_pc \<Rightarrow> bool" where
  "in_section TRead = True"
| "in_section (TWrite v) = True"
| "in_section TUnlock = True"
| "in_section _ = False"

text \<open>Increments a thread still has to make.\<close>

fun owed :: "'p thread_pc \<times> nat \<Rightarrow> nat" where
  "owed (TLocking p, k) = Suc k"
| "owed (TRead, k) = Suc k"
| "owed (TWrite v, k) = Suc k"
| "owed (_, k) = k"

definition section_of :: "('p thread_pc \<times> nat) list \<Rightarrow> nat set" where
  "section_of ts = {i. i < length ts \<and> in_section (fst (ts ! i))}"

text \<open>A value read is still the counter's; a thread past the loop has no iterations left.\<close>

fun thread_ok :: "int \<Rightarrow> 'p thread_pc \<times> nat \<Rightarrow> bool" where
  "thread_ok c (TWrite v, k) \<longleftrightarrow> v = c"
| "thread_ok c (TDone, k) \<longleftrightarrow> k = 0"
| "thread_ok c _ \<longleftrightarrow> True"

section \<open>Bookkeeping\<close>

lemma section_of_update:
  "i < length ts \<Longrightarrow> section_of (ts[i := t]) =
     (if in_section (fst t) then insert i (section_of ts) else section_of ts - {i})"
  by (auto simp: section_of_def nth_list_update_if split: if_splits)

lemma in_section_of: "i < length ts \<Longrightarrow> i \<in> section_of ts \<longleftrightarrow> in_section (fst (ts ! i))"
  by (simp add: section_of_def)

lemma owed_le: "i < length ts \<Longrightarrow> owed (ts ! i) \<le> sum_list (map owed ts)"
  using member_le_sum_list [of "owed (ts ! i)" "map owed ts"] by simp

lemma owed_update:
  "i < length ts \<Longrightarrow> sum_list (map owed (ts[i := t])) + owed (ts ! i) = sum_list (map owed ts) + owed t"
  using owed_le [of i ts] by (simp add: map_update sum_list_update)

lemma thread_ok_update:
  "\<forall>i < length ts. thread_ok c (ts ! i) \<Longrightarrow> thread_ok c t \<Longrightarrow>
     \<forall>i < length (ts[j := t]). thread_ok c (ts[j := t] ! i)"
  by (simp add: nth_list_update_if)

text \<open>Only the thread in the section has read the counter, so it may change it.\<close>

lemma thread_ok_elsewhere:
  assumes "\<forall>i < length ts. thread_ok c (ts ! i)" and "section_of ts \<subseteq> {j}" and "thread_ok c' t"
  shows "\<forall>i < length (ts[j := t]). thread_ok c' (ts[j := t] ! i)"
proof (intro allI impI)
  fix i assume "i < length (ts[j := t])"
  then have i: "i < length ts" by simp
  show "thread_ok c' (ts[j := t] ! i)"
  proof (cases "j = i")
    case True
    then show ?thesis using assms(3) i by simp
  next
    case False
    then have "\<not> in_section (fst (ts ! i))" using assms(2) i by (auto simp: section_of_def)
    then show ?thesis
      using assms(1) i False by (cases "ts ! i"; cases "fst (ts ! i)") auto
  qed
qed

section \<open>What the benchmark needs of a lock\<close>

locale lock_contract =
  fixes start :: 'p
    and lstep :: "'p \<Rightarrow> 'l \<Rightarrow> 'p option \<times> 'l"
    and unlock :: "'l \<Rightarrow> 'l"
    and held :: "'l \<Rightarrow> bool"
    and distance :: "'p \<Rightarrow> nat"
  assumes acquire_law: "lstep p l = (None, l') \<Longrightarrow> \<not> held l \<and> held l'"
    and wait_law: "lstep p l = (Some p', l') \<Longrightarrow> held l' = held l"
    and release_law: "\<not> held (unlock l)"
    and progress_law: "\<not> held l \<Longrightarrow> lstep p l = (Some p', l') \<Longrightarrow> distance p' < distance p"
begin

text \<open>The lock is held exactly when one thread is in the critical section, and a value read there
  is still the counter's; increments made and owed add up.\<close>

definition bench_inv :: "nat \<Rightarrow> ('l, 'p) bench \<Rightarrow> bool" where
  "bench_inv work b \<longleftrightarrow>
     (if held (lock_state b) then \<exists>i. section_of (threads b) = {i} else section_of (threads b) = {})
   \<and> (\<forall>i < length (threads b). thread_ok (counter b) (threads b ! i))
   \<and> counter b + int (sum_list (map owed (threads b))) = int work"

lemma bench_inv_step:
  assumes "bench_step start lstep unlock b b'" and "bench_inv work b"
  shows "bench_inv work b'"
  using assms(1)
proof cases
  case (iterate i k)
  then show ?thesis
    using assms(2) owed_update [OF iterate(2), of "(TLocking start, k)"] in_section_of [OF iterate(2)]
    by (simp add: bench_inv_def section_of_update thread_ok_update split: if_splits)
next
  case (leave i)
  then show ?thesis
    using assms(2) owed_update [OF leave(2), of "(TDone, 0)"] in_section_of [OF leave(2)]
    by (simp add: bench_inv_def section_of_update thread_ok_update split: if_splits)
next
  case (wait i p k p' l)
  then show ?thesis
    using assms(2) owed_update [OF wait(2), of "(TLocking p', k)"] wait_law [OF wait(4)]
      in_section_of [OF wait(2)]
    by (simp add: bench_inv_def section_of_update thread_ok_update split: if_splits)
next
  case (acquire i p k l)
  then show ?thesis
    using assms(2) owed_update [OF acquire(2), of "(TRead, k)"] acquire_law [OF acquire(4)]
    by (simp add: bench_inv_def section_of_update thread_ok_update)
next
  case (read i k)
  then show ?thesis
    using assms(2) owed_update [OF read(2), of "(TWrite (counter b), k)"] in_section_of [OF read(2)]
    by (auto simp: bench_inv_def section_of_update thread_ok_update insert_absorb split: if_splits)
next
  case (write_back i v k)
  have sec: "section_of (threads b) = {i}" "v = counter b"
    using assms(2) write_back in_section_of [OF write_back(2)]
    by (auto simp: bench_inv_def split: if_splits)
  then show ?thesis
    using assms(2) write_back owed_update [OF write_back(2), of "(TUnlock, k)"]
      thread_ok_elsewhere [of "threads b" "counter b" i "v + 1" "(TUnlock, k)"]
    by (auto simp: bench_inv_def section_of_update split: if_splits)
next
  case (release i k)
  then show ?thesis
    using assms(2) owed_update [OF release(2), of "(TNext, k)"] release_law [of "lock_state b"]
      in_section_of [OF release(2)]
    by (auto simp: bench_inv_def section_of_update thread_ok_update split: if_splits)
qed

lemma bench_inv_init:
  assumes "\<not> held l"
  shows "bench_inv (sum_list ns) (bench_init l ns)"
proof -
  have "sum_list (map (owed \<circ> Pair TNext) ns) = sum_list ns" by (induction ns) auto
  then show ?thesis using assms by (simp add: bench_inv_def bench_init_def section_of_def)
qed

lemma bench_inv_run: "bench_run start lstep unlock b b' \<Longrightarrow> bench_inv work b \<Longrightarrow> bench_inv work b'"
  by (induction rule: bench_run.induct) (auto intro: bench_inv_step)

lemmas bench_inv_reached = bench_inv_run [OF _ bench_inv_init]

lemma mutual_exclusion:
  assumes "bench_inv work b" and "i < length (threads b)" and "j < length (threads b)"
    and "in_section (fst (threads b ! i))" and "in_section (fst (threads b ! j))"
  shows "i = j"
proof -
  have "i \<in> section_of (threads b)" "j \<in> section_of (threads b)"
    using assms by (simp_all add: in_section_of)
  moreover have "\<exists>x. section_of (threads b) \<subseteq> {x}"
    using assms(1) by (auto simp: bench_inv_def split: if_splits)
  ultimately show ?thesis by auto
qed

lemma owed_finished:
  assumes "bench_inv work b" and "bench_finished b"
  shows "counter b = int work"
proof -
  have "owed t = 0" if mem: "t \<in> set (threads b)" for t
  proof -
    obtain i where i: "i < length (threads b)" "threads b ! i = t"
      using mem by (auto simp: in_set_conv_nth)
    have "fst t = TDone" using assms(2) mem by (simp add: bench_finished_def)
    moreover have "thread_ok (counter b) t" using assms(1) i by (auto simp: bench_inv_def)
    ultimately show ?thesis by (cases t) auto
  qed
  then have z: "sum_list (map owed (threads b)) = 0" by (simp add: sum_list_eq_0_iff)
  show ?thesis using assms(1) unfolding bench_inv_def z by simp
qed

lemma no_overflow:
  assumes "bench_inv work b" and "work < 2 ^ 31"
  shows "\<not> bench_overflow b"
proof
  assume "bench_overflow b"
  then obtain i k where i: "i < length (threads b)" "threads b ! i = (TWrite (2 ^ 31 - 1), k)"
    by (auto simp: bench_overflow_def)
  then have "counter b = 2 ^ 31 - 1" using assms(1) by (auto simp: bench_inv_def)
  moreover note owed_le [OF i(1)]
  ultimately show False using assms i(2) by (simp add: bench_inv_def)
qed

text \<open>Termination is possible from every state: a thread in the section can leave it, and when
  there is none the lock is free and any other thread can move on.\<close>

fun rank :: "'p thread_pc \<times> nat \<Rightarrow> nat" where
  "rank (TDone, k) = 0"
| "rank (TNext, k) = 10 * k + 1"
| "rank (TLocking p, k) = 10 * k + 6"
| "rank (TRead, k) = 10 * k + 5"
| "rank (TWrite v, k) = 10 * k + 4"
| "rank (TUnlock, k) = 10 * k + 3"

lemma rank_update:
  assumes "i < length ts" and "rank t < rank (ts ! i)"
  shows "sum_list (map rank (ts[i := t])) < sum_list (map rank ts)"
proof -
  have "rank (ts ! i) \<le> sum_list (map rank ts)"
    using assms(1) member_le_sum_list [of "rank (ts ! i)" "map rank ts"] by simp
  then show ?thesis using assms by (simp add: map_update sum_list_update)
qed

lemma run_trans:
  "bench_run start lstep unlock b' b'' \<Longrightarrow> bench_run start lstep unlock b b' \<Longrightarrow>
     bench_run start lstep unlock b b''"
  by (induction rule: bench_run.induct) (auto intro: bench_run.more)

lemma run_one: "bench_step start lstep unlock b b' \<Longrightarrow> bench_run start lstep unlock b b'"
  by (rule bench_run.more [OF bench_run.none])

lemma free_lock_acquired:
  assumes "i < length (threads b)" and "threads b ! i = (TLocking p, k)" and "\<not> held (lock_state b)"
  shows "\<exists>l. bench_run start lstep unlock b (b\<lparr>lock_state := l, threads := (threads b)[i := (TRead, k)]\<rparr>)"
  using assms
proof (induction "distance p" arbitrary: b p rule: less_induct)
  case less
  obtain o' l where step: "lstep p (lock_state b) = (o', l)" by fastforce
  show ?case
  proof (cases o')
    case None
    then show ?thesis using bench_step.acquire [OF less.prems(1,2)] step run_one by blast
  next
    case (Some p')
    let ?b = "b\<lparr>lock_state := l, threads := (threads b)[i := (TLocking p', k)]\<rparr>"
    have st: "bench_step start lstep unlock b ?b"
      using bench_step.wait [OF less.prems(1,2)] step Some by blast
    have d: "distance p' < distance p" and h: "\<not> held l"
      using progress_law [OF less.prems(3)] wait_law step Some less.prems(3) by auto
    have "\<exists>l'. bench_run start lstep unlock ?b
        (?b\<lparr>lock_state := l', threads := (threads ?b)[i := (TRead, k)]\<rparr>)"
      by (rule less.hyps [OF d]) (use less.prems h in simp_all)
    then show ?thesis using run_trans [OF _ run_one [OF st]] by auto
  qed
qed

lemma work_goes_on:
  assumes "bench_inv work b" and "\<not> bench_finished b" and "work < 2 ^ 31"
  shows "\<exists>b'. bench_run start lstep unlock b b' \<and>
    sum_list (map rank (threads b')) < sum_list (map rank (threads b))"
proof (cases "section_of (threads b) = {}")
  case False
  then obtain i where i: "i < length (threads b)" "in_section (fst (threads b ! i))"
    by (auto simp: section_of_def)
  obtain pc k where t: "threads b ! i = (pc, k)" by fastforce
  show ?thesis
  proof (cases pc)
    case TRead
    then show ?thesis
      using bench_step.read [OF i(1)] t rank_update [OF i(1), of "(TWrite (counter b), k)"] run_one
      by fastforce
  next
    case (TWrite v)
    have "v < 2 ^ 31 - 1"
    proof -
      have "v = counter b" using assms(1) i(1) t TWrite by (auto simp: bench_inv_def)
      then show ?thesis using assms(1,3) t TWrite owed_le [OF i(1)] by (simp add: bench_inv_def)
    qed
    then show ?thesis
      using bench_step.write_back [OF i(1)] t TWrite rank_update [OF i(1), of "(TUnlock, k)"] run_one
      by fastforce
  next
    case TUnlock
    then show ?thesis
      using bench_step.release [OF i(1)] t rank_update [OF i(1), of "(TNext, k)"] run_one
      by fastforce
  qed (use i t in auto)
next
  case True
  then have free: "\<not> held (lock_state b)" using assms(1) by (auto simp: bench_inv_def split: if_splits)
  obtain i where i: "i < length (threads b)" "fst (threads b ! i) \<noteq> TDone"
    using assms(2) by (auto simp: bench_finished_def in_set_conv_nth)
  obtain pc k where t: "threads b ! i = (pc, k)" by fastforce
  have "\<not> in_section pc" using True i(1) t by (auto simp: section_of_def)
  then consider "pc = TNext" | p where "pc = TLocking p" using i t by (cases pc) auto
  then show ?thesis
  proof cases
    case 1
    show ?thesis
    proof (cases k)
      case 0
      then show ?thesis
        using bench_step.leave [OF i(1)] t 1 rank_update [OF i(1), of "(TDone, 0)"] run_one by fastforce
    next
      case (Suc n)
      then show ?thesis
        using bench_step.iterate [OF i(1)] t 1 rank_update [OF i(1), of "(TLocking start, n)"] run_one
        by fastforce
    qed
  next
    case (2 p)
    then show ?thesis
      using free_lock_acquired [OF i(1) _ free] t rank_update [OF i(1), of "(TRead, k)"] by fastforce
  qed
qed

lemma can_finish:
  assumes "bench_inv work b" and "work < 2 ^ 31"
  shows "\<exists>b'. bench_run start lstep unlock b b' \<and> bench_finished b'"
  using assms(1)
proof (induction "sum_list (map rank (threads b))" arbitrary: b rule: less_induct)
  case less
  show ?case
  proof (cases "bench_finished b")
    case True
    then show ?thesis by (blast intro: bench_run.none)
  next
    case False
    then obtain b' where b': "bench_run start lstep unlock b b'"
        "sum_list (map rank (threads b')) < sum_list (map rank (threads b))"
      using work_goes_on [OF less.prems _ assms(2)] by blast
    then show ?thesis
      using less.hyps [OF b'(2) bench_inv_run [OF b'(1) less.prems]] run_trans by blast
  qed
qed

end

section \<open>The locks of the benchmark\<close>

fun spin_distance :: "spin_pc \<Rightarrow> nat" where
  "spin_distance FastLoad = 1"
| "spin_distance FastExchange = 0"
| "spin_distance WaitLoad = 1"
| "spin_distance WaitExchange = 0"

interpretation spin: lock_contract FastLoad spin_step spin_unlock "\<lambda>flag. flag" spin_distance
proof unfold_locales
  fix p p' l l'
  show "spin_step p l = (None, l') \<Longrightarrow> \<not> l \<and> l'"
    by (cases p) (auto simp: exchange_true_def split: if_splits)
  show "spin_step p l = (Some p', l') \<Longrightarrow> l' = l"
    by (cases p) (auto simp: exchange_true_def split: if_splits)
  show "\<not> l \<Longrightarrow> spin_step p l = (Some p', l') \<Longrightarrow> spin_distance p' < spin_distance p"
    by (cases p) (auto simp: exchange_true_def split: if_splits)
qed (simp add: spin_unlock_def)

interpretation mutex: lock_contract "()" mutex_step mutex_unlock "\<lambda>owned. owned" "\<lambda>_. 0"
  by unfold_locales (auto simp: mutex_step_def mutex_unlock_def split: if_splits)

section \<open>Properties\<close>

lemma spin_section_run:
  "\<exists>b. bench_run FastLoad spin_step spin_unlock (bench_init False [1, 1]) b
    \<and> threads b = [(TRead, 0), (TNext, 1)]"
proof -
  let ?b0 = "bench_init False [1, 1] :: (bool, spin_pc) bench"
  let ?b1 = "?b0\<lparr>threads := (threads ?b0)[0 := (TLocking FastLoad, 0)]\<rparr>"
  have st: "bench_step FastLoad spin_step spin_unlock ?b0 ?b1"
    by (rule bench_step.iterate) (simp_all add: bench_init_def)
  have "\<exists>l. bench_run FastLoad spin_step spin_unlock ?b1
      (?b1\<lparr>lock_state := l, threads := (threads ?b1)[0 := (TRead, 0)]\<rparr>)"
    by (rule spin.free_lock_acquired) (simp_all add: bench_init_def)
  then obtain l where "bench_run FastLoad spin_step spin_unlock ?b0
      (?b1\<lparr>lock_state := l, threads := (threads ?b1)[0 := (TRead, 0)]\<rparr>)"
    using spin.run_trans [OF _ spin.run_one [OF st]] by blast
  then show ?thesis
    by (intro exI [of _ "?b1\<lparr>lock_state := l, threads := (threads ?b1)[0 := (TRead, 0)]\<rparr>"])
      (simp add: bench_init_def)
qed

text \<open>C31. \<open>SpinLock\<close> gives mutual exclusion: in every interleaving of any number of threads that
  run the benchmark, two threads are never both between the return of \<open>lock()\<close> and \<open>unlock()\<close>; and
  some thread is there exactly when the flag is set.\<close>

theorem spin_lock_mutual_exclusion:
  assumes "bench_run FastLoad spin_step spin_unlock (bench_init False ns) b"
  shows "(\<forall>i j. i < length (threads b) \<and> j < length (threads b)
        \<and> in_section (fst (threads b ! i)) \<and> in_section (fst (threads b ! j)) \<longrightarrow> i = j)
    \<and> (lock_state b \<longleftrightarrow> (\<exists>i < length (threads b). in_section (fst (threads b ! i))))"
proof -
  have inv: "spin.bench_inv (sum_list ns) b" by (rule spin.bench_inv_reached [OF assms]) simp
  then have "lock_state b \<longleftrightarrow> section_of (threads b) \<noteq> {}" by (auto simp: spin.bench_inv_def split: if_splits)
  then have "lock_state b \<longleftrightarrow> (\<exists>i < length (threads b). in_section (fst (threads b ! i)))"
    by (auto simp: section_of_def)
  then show ?thesis using spin.mutual_exclusion [OF inv] by blast
qed

theorem spin_lock_mutual_exclusion_witness:
  "\<exists>b. bench_run FastLoad spin_step spin_unlock (bench_init False [1, 1]) b
    \<and> in_section (fst (threads b ! 0)) \<and> \<not> in_section (fst (threads b ! 1)) \<and> lock_state b"
proof -
  obtain b where b: "bench_run FastLoad spin_step spin_unlock (bench_init False [1, 1]) b"
      "threads b = [(TRead, 0), (TNext, 1)]"
    using spin_section_run by blast
  then show ?thesis using spin_lock_mutual_exclusion [OF b(1)] by (intro exI [of _ b]) fastforce
qed

text \<open>C32. No increment is lost: when all threads have finished, \<open>counter\<close> is the number of
  iterations of all threads together; and as long as that number is an \<open>int\<close>, no \<open>counter++\<close> on
  the way overflows. The same holds with \<open>std::mutex\<close> in place of \<open>SpinLock\<close>.\<close>

theorem locked_counter_is_exact:
  assumes "sum_list ns < 2 ^ 31"
  shows "(\<forall>b. bench_run FastLoad spin_step spin_unlock (bench_init False ns) b \<longrightarrow>
      \<not> bench_overflow b \<and> (bench_finished b \<longrightarrow> counter b = int (sum_list ns)))
    \<and> (\<forall>b. bench_run () mutex_step mutex_unlock (bench_init False ns) b \<longrightarrow>
      \<not> bench_overflow b \<and> (bench_finished b \<longrightarrow> counter b = int (sum_list ns)))"
  using spin.bench_inv_reached [of False ns] mutex.bench_inv_reached [of False ns] assms
    spin.no_overflow mutex.no_overflow spin.owed_finished mutex.owed_finished
  by meson

theorem locked_counter_is_exact_witness:
  "\<exists>b. bench_run FastLoad spin_step spin_unlock (bench_init False [2, 1]) b \<and> bench_finished b
    \<and> counter b = 3"
proof -
  have inv: "spin.bench_inv (sum_list [2, 1]) (bench_init False [2, 1])"
    by (rule spin.bench_inv_init) simp
  then obtain b where b: "bench_run FastLoad spin_step spin_unlock (bench_init False [2, 1]) b"
      "bench_finished b"
    using spin.can_finish by fastforce
  then show ?thesis using locked_counter_is_exact [of "[2, 1]"] by auto
qed

text \<open>C33. No deadlock: from every state the benchmark with \<open>SpinLock\<close> can reach, all threads can
  still finish.\<close>

theorem spin_lock_no_deadlock:
  assumes "bench_run FastLoad spin_step spin_unlock (bench_init False ns) b" and "sum_list ns < 2 ^ 31"
  shows "\<exists>b'. bench_run FastLoad spin_step spin_unlock b b' \<and> bench_finished b'
    \<and> counter b' = int (sum_list ns)"
proof -
  have inv: "spin.bench_inv (sum_list ns) b" by (rule spin.bench_inv_reached [OF assms(1)]) simp
  then obtain b' where b': "bench_run FastLoad spin_step spin_unlock b b'" "bench_finished b'"
    using spin.can_finish assms(2) by blast
  then show ?thesis using spin.owed_finished [OF spin.bench_inv_run [OF b'(1) inv]] by blast
qed

theorem spin_lock_no_deadlock_witness:
  "\<exists>b'. bench_run FastLoad spin_step spin_unlock (bench_init False [1, 1]) b' \<and> bench_finished b'
    \<and> counter b' = 2"
  using spin_lock_no_deadlock [OF bench_run.none, of "[1, 1]"] by simp

end
