(* ===== verification/Shared_Counters.thy ===== *)
theory Shared_Counters
  imports Workshop_Prelude
begin

text \<open>
  \<open>design_patterns/cache_line/cache_line.cc\<close> and the lock-free test of \<open>lock_free.cc\<close>: threads
  that count together. A run is a schedule, the list of the threads that take a step, in order;
  one step is one access to a shared variable. The second half is about memory layout: which
  bytes and cache lines the variants touch.
\<close>

section \<open>One atomic counter\<close>

text \<open>\<open>counter.fetch_add(1)\<close> on an \<open>std::atomic<int>\<close> wraps around.\<close>

record direct =
  dcounter :: i32
  dleft :: "nat list"

definition direct_start :: "nat list \<Rightarrow> direct" where
  "direct_start iterations = \<lparr>dcounter = 0, dleft = iterations\<rparr>"

definition direct_step :: "nat \<Rightarrow> direct \<Rightarrow> direct" where
  "direct_step i s =
     (if i < length (dleft s) \<and> 0 < dleft s ! i
      then \<lparr>dcounter = dcounter s + 1, dleft = (dleft s)[i := dleft s ! i - 1]\<rparr>
      else s)"

definition direct_run :: "nat list \<Rightarrow> direct \<Rightarrow> direct" where
  "direct_run schedule s = fold direct_step schedule s"

text \<open>\<open>num_iterations = 1 << 20\<close> split over four threads.\<close>

definition BM_DirectSharing :: "nat list \<Rightarrow> direct" where
  "BM_DirectSharing schedule =
     (let num_iterations = 2 ^ 20; num_threads = 4; elements_per_thread = num_iterations div num_threads
      in direct_run schedule (direct_start (replicate num_threads elements_per_thread)))"

section \<open>One plain counter per thread\<close>

text \<open>\<open>BM_FalseSharing\<close> and \<open>BM_NoSharing\<close> run the same code on differently aligned counters: a
  thread increments its own \<open>int\<close>, adds it to \<open>final_sum\<close>, and resets it.\<close>

datatype counting_pc = Count nat | AddToSum | Reset | Joined

record sharing =
  svalues :: "int list"
  final_sum :: i32
  spcs :: "counting_pc list"

definition sharing_step :: "nat \<Rightarrow> sharing \<Rightarrow> sharing" where
  "sharing_step thread_id s =
     (if thread_id < length (spcs s)
      then (case spcs s ! thread_id of
              Count (Suc k) \<Rightarrow>
                s\<lparr>svalues := (svalues s)[thread_id := svalues s ! thread_id + 1],
                  spcs := (spcs s)[thread_id := Count k]\<rparr>
            | Count 0 \<Rightarrow> s\<lparr>spcs := (spcs s)[thread_id := AddToSum]\<rparr>
            | AddToSum \<Rightarrow>
                s\<lparr>final_sum := final_sum s + of_int (svalues s ! thread_id),
                  spcs := (spcs s)[thread_id := Reset]\<rparr>
            | Reset \<Rightarrow> s\<lparr>svalues := (svalues s)[thread_id := 0],
                         spcs := (spcs s)[thread_id := Joined]\<rparr>
            | Joined \<Rightarrow> s)
      else s)"

text \<open>One iteration of the benchmark: clear \<open>final_sum\<close>, spawn the threads, run them under the
  schedule until all have been joined. The counters are not cleared: they are as the iteration
  before left them.\<close>

definition sharing_iteration :: "nat \<Rightarrow> nat \<Rightarrow> nat list \<Rightarrow> sharing \<Rightarrow> sharing" where
  "sharing_iteration num_threads elements_per_thread schedule s =
     fold sharing_step schedule
       (s\<lparr>final_sum := 0, spcs := replicate num_threads (Count elements_per_thread)\<rparr>)"

definition sharing_start :: "nat \<Rightarrow> sharing" where
  "sharing_start num_threads = \<lparr>svalues = replicate num_threads 0, final_sum = 0, spcs = []\<rparr>"

definition BM_FalseSharing :: "nat list \<Rightarrow> sharing \<Rightarrow> sharing" where
  "BM_FalseSharing schedule s =
     (let num_iterations = 2 ^ 20; num_threads = 4; elements_per_thread = num_iterations div num_threads
      in sharing_iteration num_threads elements_per_thread schedule s)"

definition BM_NoSharing :: "nat list \<Rightarrow> sharing \<Rightarrow> sharing" where
  "BM_NoSharing schedule s =
     (let num_iterations = 2 ^ 20; num_threads = 4; elements_per_thread = num_iterations div num_threads
      in sharing_iteration num_threads elements_per_thread schedule s)"

definition all_joined :: "sharing \<Rightarrow> bool" where
  "all_joined s \<longleftrightarrow> list_all (\<lambda>pc. pc = Joined) (spcs s)"

section \<open>Two counters, one per thread of the benchmark\<close>

record lines =
  line_a :: u64
  line_b :: u64

text \<open>\<open>BM_Adjacent_Conflict_64\<close> and \<open>_128\<close>: one \<open>fetch_add\<close> of the thread with the given index, and
  the two threads under a schedule.\<close>

definition adjacent_step :: "nat \<Rightarrow> lines \<Rightarrow> lines" where
  "adjacent_step thread_index g =
     (if thread_index = 0 then g\<lparr>line_a := line_a g + 1\<rparr> else g\<lparr>line_b := line_b g + 1\<rparr>)"

definition BM_Adjacent_Conflict :: "nat list \<Rightarrow> lines \<Rightarrow> lines" where
  "BM_Adjacent_Conflict schedule g = fold adjacent_step schedule g"

section \<open>Layout\<close>

text \<open>Byte offsets of the counters in \<open>BadCounters\<close> (packed \<open>int\<close>s behind one aligned address) and
  \<open>GoodCounters\<close> (each padded to the interference size), and of the two atomics of the aligned
  containers. A cache line has 64 bytes.\<close>

definition bad_offset :: "nat \<Rightarrow> nat" where
  "bad_offset i = 4 * i"

definition good_offset :: "nat \<Rightarrow> nat \<Rightarrow> nat" where
  "good_offset interference_size i = interference_size * i"

definition container_offsets :: "nat \<Rightarrow> nat \<times> nat" where
  "container_offsets alignment = (0, alignment)"

definition line_of :: "nat \<Rightarrow> nat" where
  "line_of byte = byte div 64"

definition lines_touched :: "nat \<Rightarrow> nat \<Rightarrow> nat set" where
  "lines_touched offset width = line_of ` {offset..<offset + width}"

text \<open>The two-line pool and a 64-bit little-endian store and load at a byte offset.\<close>

definition memory_pool :: "i8 list" where
  "memory_pool = replicate (2 * 64) 0"

definition store_u64 :: "nat \<Rightarrow> u64 \<Rightarrow> i8 list \<Rightarrow> i8 list result" where
  "store_u64 off v mem =
     for_each (\<lambda>k m. array_set m (off + k) (ucast (drop_bit (8 * k) v))) [0..<8] mem"

definition load_u64 :: "nat \<Rightarrow> i8 list \<Rightarrow> u64 result" where
  "load_u64 off mem =
     for_each (\<lambda>k acc. rbind (array_get mem (off + k))
        (\<lambda>b. Inr (acc OR push_bit (8 * k) (ucast b)))) [0..<8] 0"

text \<open>\<open>BM_CacheLine_Aligned\<close> is offset 0, \<open>BM_CacheLine_Split\<close> is offset 60: a thousand stores
  through the pointer.\<close>

definition BM_CacheLine :: "nat \<Rightarrow> i8 list \<Rightarrow> i8 list result" where
  "BM_CacheLine off pool = for_each (\<lambda>i. store_u64 off (of_nat i)) [0..<1000] pool"

section \<open>The atomic counter\<close>

lemma sum_list_decrement:
  "i < length xs \<Longrightarrow> 0 < xs ! i \<Longrightarrow> Suc (sum_list (xs[i := xs ! i - 1])) = sum_list (xs :: nat list)"
  using member_le_sum_list [of "xs ! i" xs] by (simp add: sum_list_update)

lemma direct_step_sum:
  "dcounter (direct_step i s) + of_nat (sum_list (dleft (direct_step i s))) =
     dcounter s + of_nat (sum_list (dleft s))"
proof (cases "i < length (dleft s) \<and> 0 < dleft s ! i")
  case True
  then have "of_nat (Suc (sum_list ((dleft s)[i := dleft s ! i - 1]))) = (of_nat (sum_list (dleft s)) :: i32)"
    by (simp only: sum_list_decrement)
  with True show ?thesis by (simp add: direct_step_def add.commute add.left_commute)
next
  case False
  then show ?thesis by (auto simp: direct_step_def)
qed

lemma direct_run_sum:
  "dcounter (direct_run sch s) + of_nat (sum_list (dleft (direct_run sch s))) =
     dcounter s + of_nat (sum_list (dleft s))"
  by (induction sch arbitrary: s) (simp_all add: direct_run_def direct_step_sum)

lemma adjacent_exact:
  "BM_Adjacent_Conflict sch g =
     \<lparr>line_a = line_a g + of_nat (length (filter (\<lambda>t. t = 0) sch)),
      line_b = line_b g + of_nat (length (filter (\<lambda>t. t \<noteq> 0) sch))\<rparr>"
  unfolding BM_Adjacent_Conflict_def
  by (induction sch arbitrary: g) (simp_all add: adjacent_step_def algebra_simps)

section \<open>The counters of the sharing benchmarks\<close>

fun value_ok :: "nat \<Rightarrow> counting_pc \<Rightarrow> int \<Rightarrow> bool" where
  "value_ok n (Count k) v \<longleftrightarrow> k \<le> n \<and> v = int (n - k)"
| "value_ok n AddToSum v \<longleftrightarrow> v = int n"
| "value_ok n Reset v \<longleftrightarrow> v = int n"
| "value_ok n Joined v \<longleftrightarrow> v = 0"

definition given :: "nat \<Rightarrow> counting_pc \<Rightarrow> nat" where
  "given n pc = (if pc = Reset \<or> pc = Joined then n else 0)"

definition sharing_inv :: "nat \<Rightarrow> nat \<Rightarrow> sharing \<Rightarrow> bool" where
  "sharing_inv num n s \<longleftrightarrow> length (svalues s) = num \<and> length (spcs s) = num
     \<and> (\<forall>i < num. value_ok n (spcs s ! i) (svalues s ! i))
     \<and> final_sum s = of_nat (sum_list (map (given n) (spcs s)))"

lemma given_update:
  assumes "i < length pcs"
  shows "sum_list (map (given n) (pcs[i := pc])) + given n (pcs ! i) =
    sum_list (map (given n) pcs) + given n pc"
proof -
  have "given n (pcs ! i) \<le> sum_list (map (given n) pcs)"
    using assms member_le_sum_list [of "given n (pcs ! i)" "map (given n) pcs"] by simp
  then show ?thesis using assms by (simp add: map_update sum_list_update)
qed

lemma sharing_inv_step: "sharing_inv num n s \<Longrightarrow> sharing_inv num n (sharing_step i s)"
proof (cases "i < length (spcs s)")
  case True
  assume inv: "sharing_inv num n s"
  then have ok: "value_ok n (spcs s ! i) (svalues s ! i)" using True by (simp add: sharing_inv_def)
  note upd = given_update [OF True, of n]
  show ?thesis
  proof (cases "spcs s ! i")
    case (Count k)
    then show ?thesis
    proof (cases k)
      case 0
      then show ?thesis
        using inv True Count ok upd [of AddToSum]
        by (auto simp: sharing_inv_def sharing_step_def nth_list_update_if given_def)
    next
      case (Suc j)
      then show ?thesis
        using inv True Count ok upd [of "Count j"]
        by (auto simp: sharing_inv_def sharing_step_def nth_list_update_if given_def)
    qed
  next
    case AddToSum
    have "sum_list (map (given n) ((spcs s)[i := Reset])) = sum_list (map (given n) (spcs s)) + n"
      using upd [of Reset] AddToSum by (simp add: given_def)
    then show ?thesis
      using inv True AddToSum ok
      by (auto simp: sharing_inv_def sharing_step_def nth_list_update_if)
  next
    case Reset
    then show ?thesis
      using inv True ok upd [of Joined]
      by (auto simp: sharing_inv_def sharing_step_def nth_list_update_if given_def)
  qed (use inv True in \<open>simp add: sharing_step_def\<close>)
qed (simp add: sharing_step_def)

lemma sharing_inv_run: "sharing_inv num n s \<Longrightarrow> sharing_inv num n (fold sharing_step sch s)"
  by (induction sch arbitrary: s) (simp_all add: sharing_inv_step)

lemma sharing_inv_iteration:
  assumes "svalues s = replicate num 0"
  shows "sharing_inv num n (sharing_iteration num n sch s)"
  unfolding sharing_iteration_def
  by (rule sharing_inv_run)
    (use assms in \<open>simp add: sharing_inv_def given_def sum_list_replicate\<close>)

section \<open>Bytes\<close>

lemma byte_of_word: "ucast (ucast (x :: u64) :: i8) = take_bit 8 x"
  by (rule bit_word_eqI) (auto simp: bit_unsigned_iff bit_take_bit_iff)

lemma bytes_assemble:
  "fold (\<lambda>k acc. acc OR push_bit (8 * k) (take_bit 8 (drop_bit (8 * k) (v :: u64)))) [0..<j] 0 =
     take_bit (8 * j) v"
proof (induction j)
  case 0
  then show ?case by simp
next
  case (Suc j)
  have "take_bit (8 * j) v OR push_bit (8 * j) (take_bit 8 (drop_bit (8 * j) v)) = take_bit (8 * Suc j) v"
    by (rule bit_word_eqI) (auto simp: bit_or_iff bit_take_bit_iff bit_push_bit_iff bit_drop_bit_eq)
  with Suc show ?case by simp
qed

definition put_bytes :: "nat \<Rightarrow> u64 \<Rightarrow> nat \<Rightarrow> i8 list \<Rightarrow> i8 list" where
  "put_bytes off v j mem = fold (\<lambda>k m. m[off + k := ucast (drop_bit (8 * k) v)]) [0..<j] mem"

lemma length_put_bytes [simp]: "length (put_bytes off v j mem) = length mem"
  by (induction j) (simp_all add: put_bytes_def)

lemma nth_put_bytes:
  "i < length mem \<Longrightarrow> put_bytes off v j mem ! i =
     (if off \<le> i \<and> i < off + j then ucast (drop_bit (8 * (i - off)) v) else mem ! i)"
proof (induction j)
  case 0
  then show ?case by (auto simp: put_bytes_def)
next
  case (Suc j)
  have "put_bytes off v (Suc j) mem = (put_bytes off v j mem)[off + j := ucast (drop_bit (8 * j) v)]"
    by (simp add: put_bytes_def)
  with Suc show ?case by (auto simp: nth_list_update_if less_Suc_eq)
qed

lemma store_u64_ok:
  assumes "off + 8 \<le> length mem"
  shows "store_u64 off v mem = Inr (put_bytes off v 8 mem)"
proof -
  have "for_each (\<lambda>k m. array_set m (off + k) (ucast (drop_bit (8 * k) v))) [0..<j] mem =
      Inr (put_bytes off v j mem)" if "j \<le> 8" for j
    using that
  proof (induction j)
    case (Suc j)
    then have "off + j < length (put_bytes off v j mem)" using assms by simp
    with Suc show ?case by (simp add: for_each_append put_bytes_def)
  qed (simp add: put_bytes_def)
  then show ?thesis by (simp add: store_u64_def)
qed

lemma load_u64_ok:
  assumes "off + 8 \<le> length mem"
    and "\<And>k. k < 8 \<Longrightarrow> mem ! (off + k) = ucast (drop_bit (8 * k) v)"
  shows "load_u64 off mem = Inr v"
proof -
  have "load_u64 off mem =
      Inr (fold (\<lambda>k acc. acc OR push_bit (8 * k) (take_bit 8 (drop_bit (8 * k) v))) [0..<8] 0)"
    unfolding load_u64_def
    by (rule for_each_total) (use assms in \<open>auto simp: byte_of_word\<close>)
  also have "\<dots> = Inr (take_bit 64 v)" using bytes_assemble [of v 8] by simp
  also have "\<dots> = Inr v" by (simp add: take_bit_word_eq_self)
  finally show ?thesis .
qed

lemma store_then_load:
  assumes "off + 8 \<le> length mem"
  shows "load_u64 off (put_bytes off v 8 mem) = Inr v"
  by (rule load_u64_ok) (use assms in \<open>simp_all add: nth_put_bytes\<close>)

lemma repeated_stores:
  assumes "off + 8 \<le> length mem"
  shows "\<exists>mem'. for_each (\<lambda>i. store_u64 off (of_nat i)) [0..<Suc n] mem = Inr mem'
    \<and> length mem' = length mem \<and> load_u64 off mem' = Inr (of_nat n)
    \<and> (\<forall>i < length mem. i < off \<or> off + 8 \<le> i \<longrightarrow> mem' ! i = mem ! i)"
proof (induction n)
  case 0
  then show ?case
    using store_then_load [OF assms, of 0] by (auto simp: store_u64_ok [OF assms] nth_put_bytes)
next
  case (Suc n)
  then obtain m where m: "for_each (\<lambda>i. store_u64 off (of_nat i)) [0..<Suc n] mem = Inr m"
      "length m = length mem" "\<forall>i < length mem. i < off \<or> off + 8 \<le> i \<longrightarrow> m ! i = mem ! i"
    by blast
  have off: "off + 8 \<le> length m" using assms m(2) by simp
  have "for_each (\<lambda>i. store_u64 off (of_nat i)) [0..<Suc (Suc n)] mem =
      Inr (put_bytes off (of_nat (Suc n)) 8 m)"
  proof -
    have split: "[0..<Suc (Suc n)] = [0..<Suc n] @ [Suc n]" by simp
    show ?thesis unfolding split for_each_append m(1) by (simp add: store_u64_ok [OF off])
  qed
  then show ?case
    using store_then_load [OF off] m(2,3) by (auto simp: nth_put_bytes)
qed

section \<open>Properties\<close>

text \<open>Direct sharing: whatever the order in which the threads get to run, when they are done
  the atomic counter is the number of all increments (modulo \<open>2 ^ 32\<close>); for the constants of
  \<open>BM_DirectSharing\<close> it is \<open>2 ^ 20\<close>.\<close>

theorem direct_sharing_exact:
  "(sum_list (dleft (direct_run sch (direct_start ns))) = 0 \<longrightarrow>
      dcounter (direct_run sch (direct_start ns)) = of_nat (sum_list ns))
   \<and> (sum_list (dleft (BM_DirectSharing sch)) = 0 \<longrightarrow> dcounter (BM_DirectSharing sch) = 2 ^ 20)"
proof -
  have gen: "sum_list (dleft (direct_run sch (direct_start ns))) = 0 \<Longrightarrow>
      dcounter (direct_run sch (direct_start ns)) = of_nat (sum_list ns)" for ns
  proof -
    assume z: "sum_list (dleft (direct_run sch (direct_start ns))) = 0"
    show ?thesis using direct_run_sum [of sch "direct_start ns"] unfolding z by (simp add: direct_start_def)
  qed
  moreover have "sum_list (replicate 4 (2 ^ 20 div 4)) = (2 ^ 20 :: nat)"
    by (simp add: sum_list_replicate)
  ultimately show ?thesis
    using gen [of "replicate 4 (2 ^ 20 div 4)"] by (simp add: BM_DirectSharing_def Let_def)
qed

text \<open>C34. Private counters (\<open>BM_FalseSharing\<close> and \<open>BM_NoSharing\<close>): in one iteration, under every
  schedule, no private counter exceeds the number of elements per thread, and when all threads
  have been joined \<open>final_sum\<close> is exact and every private counter is zero again, so the next
  iteration starts as this one did. At the constants of the two benchmarks they are this
  iteration.\<close>

theorem sharing_iteration_exact:
  assumes "svalues s = replicate num 0" and "t = sharing_iteration num n sch s"
  shows "(\<forall>v \<in> set (svalues t). 0 \<le> v \<and> v \<le> int n)
    \<and> (all_joined t \<longrightarrow> final_sum t = of_nat (num * n) \<and> svalues t = replicate num 0)
    \<and> (num = 4 \<and> n = 262144 \<longrightarrow> t = BM_FalseSharing sch s \<and> t = BM_NoSharing sch s)"
proof -
  have inv: "sharing_inv num n t" using sharing_inv_iteration [OF assms(1)] assms(2) by simp
  have bound: "0 \<le> v \<and> v \<le> int n" if "value_ok n pc v" for pc v
    using that by (cases pc) auto
  have "0 \<le> v \<and> v \<le> int n" if "v \<in> set (svalues t)" for v
    using inv that bound by (auto simp: sharing_inv_def in_set_conv_nth)
  moreover have "final_sum t = of_nat (num * n) \<and> svalues t = replicate num 0" if "all_joined t"
  proof -
    have pcs: "spcs t = replicate num Joined"
      using inv that by (auto simp: sharing_inv_def all_joined_def list_all_iff intro: replicate_eqI)
    have "svalues t = replicate num 0"
      using inv pcs by (intro replicate_eqI) (auto simp: sharing_inv_def in_set_conv_nth)
    then show ?thesis using inv pcs by (simp add: sharing_inv_def given_def sum_list_replicate)
  qed
  moreover have "num = 4 \<and> n = 262144 \<longrightarrow> t = BM_FalseSharing sch s \<and> t = BM_NoSharing sch s"
    using assms(2) by (simp add: BM_FalseSharing_def BM_NoSharing_def)
  ultimately show ?thesis by blast
qed

theorem sharing_iteration_exact_witness:
  "final_sum (sharing_iteration 2 1 [0, 1, 1, 0, 0, 1, 0, 1] (sharing_start 2)) = 2"
proof -
  let ?t = "sharing_iteration 2 1 [0, 1, 1, 0, 0, 1, 0, 1] (sharing_start 2)"
  have j: "all_joined ?t"
    by (simp add: sharing_iteration_def sharing_start_def sharing_step_def all_joined_def numeral_2_eq_2)
  have v: "svalues (sharing_start 2) = replicate 2 0" by (simp add: sharing_start_def)
  show ?thesis using sharing_iteration_exact [OF v refl, of 1 "[0, 1, 1, 0, 0, 1, 0, 1]"] j by simp
qed

text \<open>Layout. Four packed counters lie on one cache line; padded to an interference size of at
  least one line, any two lie on different lines; two atomics aligned to 64 bytes lie on
  neighbouring lines of one 128-byte pair, aligned to 128 bytes they do not; and under every
  schedule each of the two counts the steps of its own thread only.\<close>

theorem counter_layout:
  shows "(\<forall>i < 4. \<forall>j < 4. line_of (bad_offset i) = line_of (bad_offset j))
    \<and> (64 \<le> isz \<longrightarrow> i \<noteq> j \<longrightarrow> line_of (good_offset isz i) \<noteq> line_of (good_offset isz j))
    \<and> (case container_offsets 64 of (a, b) \<Rightarrow> line_of a \<noteq> line_of b \<and> line_of a div 2 = line_of b div 2)
    \<and> (case container_offsets 128 of (a, b) \<Rightarrow> line_of a div 2 \<noteq> line_of b div 2)
    \<and> line_a (BM_Adjacent_Conflict sch g) = line_a g + of_nat (length (filter (\<lambda>t. t = 0) sch))
    \<and> line_b (BM_Adjacent_Conflict sch g) = line_b g + of_nat (length (filter (\<lambda>t. t \<noteq> 0) sch))"
proof -
  have mono: "line_of (good_offset isz a) < line_of (good_offset isz b)" if "64 \<le> isz" "a < b" for a b
  proof -
    have "isz * a + 64 \<le> isz * Suc a" using that(1) by simp
    also have "\<dots> \<le> isz * b" using that(2) by (intro mult_le_mono2) simp
    finally have "(isz * a + 64) div 64 \<le> isz * b div 64" by (rule div_le_mono)
    then show ?thesis by (simp add: line_of_def good_offset_def)
  qed
  have "line_of (good_offset isz i) \<noteq> line_of (good_offset isz j)" if "64 \<le> isz" "i \<noteq> j"
    using mono [OF that(1)] that(2) by (metis linorder_neqE_nat nat_neq_iff)
  then show ?thesis by (auto simp: bad_offset_def line_of_def container_offsets_def adjacent_exact)
qed

text \<open>Stores through the aligned and the split pointer: the thousand stores of the benchmark stay
  inside the two-line pool, the last value is read back, no other byte changes; at offset 0 a
  store touches one cache line, at offset 60 it touches two.\<close>

theorem cache_line_stores:
  assumes "off = 0 \<or> off = 60"
  shows "(\<exists>pool. BM_CacheLine off memory_pool = Inr pool \<and> load_u64 off pool = Inr 999
      \<and> (\<forall>i < 128. i < off \<or> off + 8 \<le> i \<longrightarrow> pool ! i = 0))
    \<and> card (lines_touched off 8) = (if off = 0 then 1 else 2)"
proof -
  have len: "length memory_pool = 128" by (simp add: memory_pool_def)
  have "off + 8 \<le> length memory_pool" using assms len by auto
  from repeated_stores [OF this, of 999] have
    "\<exists>pool. BM_CacheLine off memory_pool = Inr pool \<and> load_u64 off pool = Inr 999
      \<and> (\<forall>i < 128. i < off \<or> off + 8 \<le> i \<longrightarrow> pool ! i = 0)"
    by (auto simp: BM_CacheLine_def len memory_pool_def)
  moreover have "{0..<8} = {0, 1, 2, 3, 4, 5, 6, 7 :: nat}" "{60..<68} = {60, 61, 62, 63, 64, 65, 66, 67 :: nat}"
    by auto
  ultimately show ?thesis using assms by (auto simp: lines_touched_def line_of_def)
qed

end
