(* ===== verification/Word_Dictionary.thy ===== *)
theory Word_Dictionary
  imports Workshop_Prelude
begin

text \<open>
  \<open>design_patterns/dictionary/\<close>: the versions \<open>v0\<close> to \<open>v4\<close> of the word dictionary and the
  benchmark \<open>dictionary.cc\<close> with its two consistency checks. Versions 3 and 4 are hash tables with
  linear probing that hold pointers to the words of the caller; they differ in how an index is
  computed from a hash, and both are instances of the locale \<open>probing\<close>. What a client may rely on
  is the locale \<open>dictionary\<close>.
\<close>

section \<open>Versions 0 to 2: containers of the standard library\<close>

text \<open>\<open>std::set\<close> and \<open>std::unordered_set\<close> of strings, by what \<open>find\<close> promises of them. A
  \<open>string_view\<close> is the sequence of its characters. Version 2 keeps the strings in a vector and a
  set of views into it.\<close>

record v0_dict =
  v0_container :: "string set"

definition v0_Dictionary :: "string list \<Rightarrow> v0_dict" where
  "v0_Dictionary words = \<lparr>v0_container = set words\<rparr>"

definition v0_in_dictionary :: "v0_dict \<Rightarrow> string \<Rightarrow> bool" where
  "v0_in_dictionary d word \<longleftrightarrow> word \<in> v0_container d"

record v1_dict =
  v1_container :: "string set"

definition v1_Dictionary :: "string list \<Rightarrow> v1_dict" where
  "v1_Dictionary words = \<lparr>v1_container = set words\<rparr>"

definition v1_in_dictionary :: "v1_dict \<Rightarrow> string \<Rightarrow> bool" where
  "v1_in_dictionary d word \<longleftrightarrow> word \<in> v1_container d"

text \<open>A view of version 2 is an index into \<open>_data\<close>; two views are equal when their characters are.\<close>

record v2_dict =
  v2_data :: "string list"
  v2_index :: "nat list"

definition v2_Dictionary :: "string list \<Rightarrow> v2_dict" where
  "v2_Dictionary words = \<lparr>v2_data = words, v2_index = [0..<length words]\<rparr>"

definition v2_in_dictionary :: "v2_dict \<Rightarrow> string \<Rightarrow> bool" where
  "v2_in_dictionary d word \<longleftrightarrow> list_ex (\<lambda>view. v2_data d ! view = word) (v2_index d)"

section \<open>Versions 3 and 4: linear probing\<close>

text \<open>The pointer to a word is its index in the collection the dictionary was built from, which the
  caller keeps; \<open>None\<close> is \<open>nullptr\<close>.\<close>

record entry =
  ehash :: u64
  estring :: "nat option"

record table =
  hashTable :: "entry list"
  tsize :: nat

definition empty_entry :: entry where
  "empty_entry = \<lparr>ehash = 0, estring = None\<rparr>"

text \<open>\<open>index\<close> and \<open>next\<close>, given \<open>hashTable_.size()\<close>: with \<open>%\<close> in version 3, with \<open>&\<close> in version 4.\<close>

definition v3_index :: "u64 \<Rightarrow> u64 \<Rightarrow> u64 result" where
  "v3_index tablesize hash = (if tablesize = 0 then Inl DivByZero else Inr (hash mod tablesize))"

definition v3_next :: "u64 \<Rightarrow> u64 \<Rightarrow> u64 result" where
  "v3_next tablesize idx = (if tablesize = 0 then Inl DivByZero else Inr ((idx + 1) mod tablesize))"

definition v4_index :: "u64 \<Rightarrow> u64 \<Rightarrow> u64 result" where
  "v4_index tablesize hash = Inr (hash AND (tablesize - 1))"

definition v4_next :: "u64 \<Rightarrow> u64 \<Rightarrow> u64 result" where
  "v4_next tablesize idx = Inr ((idx + 1) AND (tablesize - 1))"

text \<open>The loop of \<open>insert\<close> has no exit but an empty slot; not leaving it is \<open>None\<close>.\<close>

partial_function (option) insert_loop ::
    "(u64 \<Rightarrow> u64 \<Rightarrow> u64 result) \<Rightarrow> u64 \<Rightarrow> nat \<Rightarrow> u64 \<Rightarrow> entry list \<Rightarrow> entry list result option" where
  "insert_loop nextf hash s idx tbl =
     (case array_get tbl (unat idx) of
        Inl e \<Rightarrow> Some (Inl e)
      | Inr entry \<Rightarrow>
          if estring entry \<noteq> None
          then (case nextf (of_nat (length tbl)) idx of
                  Inl e \<Rightarrow> Some (Inl e)
                | Inr idx' \<Rightarrow> insert_loop nextf hash s idx' tbl)
          else Some (array_set tbl (unat idx) \<lparr>ehash = hash, estring = Some s\<rparr>))"

definition insert_word ::
    "(u64 \<Rightarrow> u64 \<Rightarrow> u64 result) \<Rightarrow> (u64 \<Rightarrow> u64 \<Rightarrow> u64 result) \<Rightarrow> (string \<Rightarrow> u64) \<Rightarrow> string list \<Rightarrow> nat \<Rightarrow>
     entry list \<Rightarrow> entry list result option" where
  "insert_word indexf nextf hashf words s tbl =
     (let hash = hashf (words ! s)
      in case indexf (of_nat (length tbl)) hash of
           Inl e \<Rightarrow> Some (Inl e)
         | Inr idx \<Rightarrow> insert_loop nextf hash s idx tbl)"

fun insert_all ::
    "(u64 \<Rightarrow> u64 \<Rightarrow> u64 result) \<Rightarrow> (u64 \<Rightarrow> u64 \<Rightarrow> u64 result) \<Rightarrow> (string \<Rightarrow> u64) \<Rightarrow> string list \<Rightarrow> nat list \<Rightarrow>
     entry list \<Rightarrow> entry list result option" where
  "insert_all indexf nextf hashf words [] tbl = Some (Inr tbl)"
| "insert_all indexf nextf hashf words (s # ss) tbl =
     (case insert_word indexf nextf hashf words s tbl of
        Some (Inr tbl') \<Rightarrow> insert_all indexf nextf hashf words ss tbl'
      | stop \<Rightarrow> stop)"

text \<open>The loop of \<open>in_dictionary\<close>, which \<open>attempts\<close> bounds.\<close>

function find_loop ::
    "(u64 \<Rightarrow> u64 \<Rightarrow> u64 result) \<Rightarrow> string list \<Rightarrow> table \<Rightarrow> string \<Rightarrow> u64 \<Rightarrow> u64 \<Rightarrow> nat \<Rightarrow> bool result" where
  "find_loop nextf words d word hash idx attempts =
     (if attempts < tsize d
      then rbind (array_get (hashTable d) (unat idx)) (\<lambda>entry.
             case estring entry of
               None \<Rightarrow> Inr False
             | Some p \<Rightarrow>
                 if ehash entry = hash \<and> words ! p = word then Inr True
                 else (case nextf (of_nat (length (hashTable d))) idx of
                         Inl e \<Rightarrow> Inl e
                       | Inr idx' \<Rightarrow> find_loop nextf words d word hash idx' (attempts + 1)))
      else Inr False)"
  by pat_completeness auto
termination
  by (relation "measure (\<lambda>(_, _, d, _, _, _, attempts). tsize d - attempts)") auto

declare find_loop.simps [simp del]

definition find_word ::
    "(u64 \<Rightarrow> u64 \<Rightarrow> u64 result) \<Rightarrow> (u64 \<Rightarrow> u64 \<Rightarrow> u64 result) \<Rightarrow> (string \<Rightarrow> u64) \<Rightarrow> string list \<Rightarrow>
     table \<Rightarrow> string \<Rightarrow> bool result" where
  "find_word indexf nextf hashf words d word =
     rbind (indexf (of_nat (length (hashTable d))) (hashf word)) (\<lambda>idx.
       find_loop nextf words d word (hashf word) idx 0)"

text \<open>The loop that doubles \<open>hashSize\<close> until it exceeds the number of words; on 64 bits it would not
  end for \<open>2 ^ 63\<close> words.\<close>

partial_function (option) hash_size_loop :: "u64 \<Rightarrow> u64 \<Rightarrow> u64 option" where
  "hash_size_loop n hashSize =
     (if hashSize \<le> n then hash_size_loop n (push_bit 1 hashSize) else Some hashSize)"

definition v3_hash_size :: "u64 \<Rightarrow> u64 option" where
  "v3_hash_size n = hash_size_loop n 1"

definition v4_hash_size :: "u64 \<Rightarrow> u64 option" where
  "v4_hash_size n = (if n AND (n - 1) = 0 then Some (n * 2) else hash_size_loop n 1)"

definition build_table ::
    "(u64 \<Rightarrow> u64 option) \<Rightarrow> (u64 \<Rightarrow> u64 \<Rightarrow> u64 result) \<Rightarrow> (u64 \<Rightarrow> u64 \<Rightarrow> u64 result) \<Rightarrow> (string \<Rightarrow> u64) \<Rightarrow>
     string list \<Rightarrow> table result option" where
  "build_table sizef indexf nextf hashf words =
     (case sizef (of_nat (length words)) of
        None \<Rightarrow> None
      | Some hashSize \<Rightarrow>
          map_option (map_sum (\<lambda>e. e) (\<lambda>tbl. \<lparr>hashTable = tbl, tsize = length words\<rparr>))
            (insert_all indexf nextf hashf words [0..<length words]
               (replicate (unat hashSize) empty_entry)))"

definition v3_insert :: "(string \<Rightarrow> u64) \<Rightarrow> string list \<Rightarrow> nat \<Rightarrow> entry list \<Rightarrow> entry list result option" where
  "v3_insert = insert_word v3_index v3_next"

definition v3_Dictionary :: "(string \<Rightarrow> u64) \<Rightarrow> string list \<Rightarrow> table result option" where
  "v3_Dictionary = build_table v3_hash_size v3_index v3_next"

definition v3_in_dictionary :: "(string \<Rightarrow> u64) \<Rightarrow> string list \<Rightarrow> table \<Rightarrow> string \<Rightarrow> bool result" where
  "v3_in_dictionary = find_word v3_index v3_next"

definition v4_insert :: "(string \<Rightarrow> u64) \<Rightarrow> string list \<Rightarrow> nat \<Rightarrow> entry list \<Rightarrow> entry list result option" where
  "v4_insert = insert_word v4_index v4_next"

definition v4_Dictionary :: "(string \<Rightarrow> u64) \<Rightarrow> string list \<Rightarrow> table result option" where
  "v4_Dictionary = build_table v4_hash_size v4_index v4_next"

definition v4_in_dictionary :: "(string \<Rightarrow> u64) \<Rightarrow> string list \<Rightarrow> table \<Rightarrow> string \<Rightarrow> bool result" where
  "v4_in_dictionary = find_word v4_index v4_next"

section \<open>The benchmark\<close>

text \<open>\<open>CreateRandomString\<close>: the two distributions are functions from the state of the random device
  to a sample and the next state; \<open>lengthDist\<close> gives the sample already truncated to \<open>int\<close>.\<close>

fun push_chars :: "('g \<Rightarrow> int \<times> 'g) \<Rightarrow> nat \<Rightarrow> 'g \<Rightarrow> string \<times> 'g" where
  "push_chars charDist 0 rd = ([], rd)"
| "push_chars charDist (Suc n) rd =
     (let (c, rd1) = charDist rd; (out, rd2) = push_chars charDist n rd1
      in (char_of (nat (c mod 256)) # out, rd2))"

definition CreateRandomString :: "('g \<Rightarrow> int \<times> 'g) \<Rightarrow> ('g \<Rightarrow> int \<times> 'g) \<Rightarrow> 'g \<Rightarrow> string \<times> 'g" where
  "CreateRandomString lengthDist charDist rd =
     (let (l, rd1) = lengthDist rd; len = nat ((l + 1) mod 2 ^ 64) in push_chars charDist len rd1)"

text \<open>The loop draws until the set has \<open>len\<close> strings. The set is kept as the list of its elements in
  the order of insertion; \<open>iterate\<close> is the order in which the container enumerates them.\<close>

partial_function (option) unique_loop ::
    "('g \<Rightarrow> string \<times> 'g) \<Rightarrow> nat \<Rightarrow> string list \<Rightarrow> 'g \<Rightarrow> (string list \<times> 'g) option" where
  "unique_loop draw len strings rd =
     (if length strings < len
      then (case draw rd of (s, rd') \<Rightarrow>
              unique_loop draw len (if s \<in> set strings then strings else strings @ [s]) rd')
      else Some (strings, rd))"

definition CreateVectorOfUniqueRandomStrings ::
    "(string list \<Rightarrow> string list) \<Rightarrow> ('g \<Rightarrow> string \<times> 'g) \<Rightarrow> nat \<Rightarrow> 'g \<Rightarrow> string list option" where
  "CreateVectorOfUniqueRandomStrings iterate draw len rd =
     map_option (\<lambda>(strings, _). iterate strings) (unique_loop draw len [] rd)"

text \<open>\<open>main\<close>: the first half of the words goes into the dictionary, the second half does not
  (\<open>DICT_SIZE\<close> is 99171).\<close>

definition dictionary_main ::
    "(string list \<Rightarrow> string list) \<Rightarrow> ('g \<Rightarrow> string \<times> 'g) \<Rightarrow> nat \<Rightarrow> 'g \<Rightarrow> (string list \<times> string list) option" where
  "dictionary_main iterate draw DICT_SIZE rd =
     map_option (\<lambda>words. (take DICT_SIZE words, drop DICT_SIZE words))
       (CreateVectorOfUniqueRandomStrings iterate draw (DICT_SIZE * 2) rd)"

text \<open>\<open>idx\<close> is an \<open>int\<close> that is converted to \<open>size_t\<close> for the subscript and the remainder, and back.\<close>

definition word_at :: "string list \<Rightarrow> int \<Rightarrow> string result" where
  "word_at words idx = array_get words (nat (idx mod 2 ^ 64))"

definition next_word :: "string list \<Rightarrow> int \<Rightarrow> int result" where
  "next_word words idx =
     (if idx = 2 ^ 31 - 1 then Inl SignedOverflow
      else if words = [] then Inl DivByZero
      else Inr (signed_take_bit 31 ((idx + 1) mod 2 ^ 64 mod int (length words))))"

definition lookup_turn ::
    "(bool \<Rightarrow> bool \<Rightarrow> bool) \<Rightarrow> (string \<Rightarrow> bool result) \<Rightarrow> string list \<Rightarrow> int \<times> bool \<Rightarrow> (int \<times> bool) result" where
  "lookup_turn acc lookup words = (\<lambda>(idx, flag).
     rbind (word_at words idx) (\<lambda>word.
     rbind (next_word words idx) (\<lambda>idx'.
     rbind (lookup word) (\<lambda>found. Inr (idx', acc flag found)))))"

text \<open>The two benchmarks, for a dictionary type given by its constructor and \<open>in_dictionary\<close> (which
  may read the collection it was built from): whether the consistency check prints its message.\<close>

definition InDictionary ::
    "(string list \<Rightarrow> 'd result option) \<Rightarrow> (string list \<Rightarrow> 'd \<Rightarrow> string \<Rightarrow> bool result) \<Rightarrow>
     string list \<Rightarrow> nat \<Rightarrow> bool result option" where
  "InDictionary build lookup wordsIn iterations =
     map_option (\<lambda>r. rbind r (\<lambda>dict.
       rbind (for_each (\<lambda>_. lookup_turn (\<and>) (lookup wordsIn dict) wordsIn) [0..<iterations] (0, True))
         (\<lambda>(idx, allFound). Inr (\<not> allFound)))) (build wordsIn)"

definition NotInDictionary ::
    "(string list \<Rightarrow> 'd result option) \<Rightarrow> (string list \<Rightarrow> 'd \<Rightarrow> string \<Rightarrow> bool result) \<Rightarrow>
     string list \<Rightarrow> string list \<Rightarrow> nat \<Rightarrow> bool result option" where
  "NotInDictionary build lookup wordsIn wordsNotIn iterations =
     map_option (\<lambda>r. rbind r (\<lambda>dict.
       rbind (for_each (\<lambda>_. lookup_turn (\<or>) (lookup wordsIn dict) wordsNotIn) [0..<iterations] (0, False))
         (\<lambda>(idx, someFound). Inr someFound))) (build wordsIn)"

section \<open>The size of the table\<close>

lemma push_bit_power2: "push_bit 1 (2 ^ k :: u64) = 2 ^ Suc k"
  by (simp add: push_bit_eq_mult)

lemma power2_le_word:
  assumes "k < 64"
  shows "(2 ^ k :: u64) \<le> n \<longleftrightarrow> 2 ^ k \<le> unat n"
  by (simp add: word_le_nat_alt unat_power2_u64 [OF assms])

lemma hash_size_loop_power2:
  assumes "unat n < 2 ^ 63" and "k \<le> 63"
  shows "\<exists>m. k \<le> m \<and> m < 64 \<and> hash_size_loop n (2 ^ k) = Some (2 ^ m) \<and> unat n < 2 ^ m
    \<and> (\<forall>j. k \<le> j \<longrightarrow> j < m \<longrightarrow> 2 ^ j \<le> unat n)"
  using assms(2)
proof (induction "63 - k" arbitrary: k)
  case 0
  then have k: "k = 63" by simp
  have "\<not> 2 ^ 63 \<le> n" using power2_le_word [of 63 n] assms(1) by simp
  then have "hash_size_loop n (2 ^ k) = Some (2 ^ k)"
    by (subst hash_size_loop.simps) (simp add: k)
  then show ?case using k assms(1) by (intro exI [of _ 63]) auto
next
  case (Suc d)
  show ?case
  proof (cases "(2 ^ k :: u64) \<le> n")
    case True
    have le: "2 ^ k \<le> unat n" using True power2_le_word [of k n] Suc by simp
    have "hash_size_loop n (2 ^ k) = hash_size_loop n (2 ^ Suc k)"
      using True by (subst hash_size_loop.simps) (simp only: push_bit_power2 if_True)
    moreover obtain m where m: "Suc k \<le> m" "m < 64" "hash_size_loop n (2 ^ Suc k) = Some (2 ^ m)"
        "unat n < 2 ^ m" "\<forall>j. Suc k \<le> j \<longrightarrow> j < m \<longrightarrow> 2 ^ j \<le> unat n"
    proof -
      have "d = 63 - Suc k" "Suc k \<le> 63" using Suc.hyps(2) by arith+
      from Suc.hyps(1) [OF this] that show ?thesis by blast
    qed
    moreover have "2 ^ j \<le> unat n" if "k \<le> j" "j < m" for j
      using m(5) le that by (cases "k = j") auto
    ultimately show ?thesis by (intro exI [of _ m]) auto
  next
    case False
    then have "hash_size_loop n (2 ^ k) = Some (2 ^ k)" by (subst hash_size_loop.simps) simp
    moreover have "unat n < 2 ^ k" using False power2_le_word [of k n] Suc by simp
    ultimately show ?thesis using Suc by (intro exI [of _ k]) auto
  qed
qed

lemma v3_hash_size_power2:
  assumes "unat n < 2 ^ 63"
  shows "\<exists>k < 64. v3_hash_size n = Some (2 ^ k) \<and> unat n < 2 ^ k \<and> (\<forall>j < k. 2 ^ j \<le> unat n)"
  using hash_size_loop_power2 [OF assms, of 0] by (auto simp: v3_hash_size_def)

text \<open>On a power of two the shortcut of version 4 computes what the loop does.\<close>

lemma v4_hash_size_eq_v3:
  assumes "unat n < 2 ^ 63" and "0 < n"
  shows "v4_hash_size n = v3_hash_size n"
proof (cases "n AND (n - 1) = 0")
  case True
  with assms(2) obtain i where i: "i < 64" "n = 2 ^ i" using word_and_pred_zero_power2 [of n] by auto
  obtain k where k: "k < 64" "v3_hash_size n = Some (2 ^ k)" "unat n < 2 ^ k" "\<forall>j < k. 2 ^ j \<le> unat n"
    using v3_hash_size_power2 [OF assms(1)] by blast
  have un: "unat n = 2 ^ i" using i unat_power2_u64 by simp
  have "i < k" using k(3) un by simp
  moreover have "\<not> Suc i < k"
  proof
    assume "Suc i < k"
    with k(4) un have "(2::nat) ^ Suc i \<le> 2 ^ i" by metis
    then show False by simp
  qed
  ultimately have "k = Suc i" by simp
  with k(2) i True show ?thesis by (simp add: v4_hash_size_def)
next
  case False
  then show ?thesis by (simp add: v4_hash_size_def v3_hash_size_def)
qed

section \<open>Probing\<close>

text \<open>The slots of a table of \<open>n\<close> entries that a search starting at \<open>i\<close> visits.\<close>

definition occupied :: "entry list \<Rightarrow> nat \<Rightarrow> bool" where
  "occupied tbl p \<longleftrightarrow> estring (tbl ! p) \<noteq> None"

definition slot :: "entry list \<Rightarrow> nat \<Rightarrow> nat \<Rightarrow> nat" where
  "slot tbl i d = (i + d) mod length tbl"

lemma slot_less: "0 < length tbl \<Longrightarrow> slot tbl i d < length tbl"
  by (simp add: slot_def)

lemma slot_0: "i < length tbl \<Longrightarrow> slot tbl i 0 = i"
  by (simp add: slot_def)

lemma slot_Suc: "slot tbl i (Suc d) = slot tbl (Suc i mod length tbl) d"
  by (simp add: slot_def mod_add_left_eq)

lemma slot_inj:
  assumes "a < length tbl" and "b < length tbl" and "slot tbl i a = slot tbl i b"
  shows "a = b"
proof -
  have "(a + i) mod length tbl = (b + i) mod length tbl" using assms(3) by (simp add: slot_def add.commute)
  then have "a mod length tbl = b mod length tbl" by (simp add: nat_mod_eq_iff)
  with assms show ?thesis by simp
qed

lemma slot_reaches:
  assumes "p < length tbl" and "i < length tbl"
  shows "\<exists>d < length tbl. slot tbl i d = p"
proof (cases "i \<le> p")
  case True
  then show ?thesis using assms by (intro exI [of _ "p - i"]) (simp add: slot_def)
next
  case False
  then show ?thesis using assms by (intro exI [of _ "length tbl - i + p"]) (simp add: slot_def)
qed

text \<open>The first free slot of the search.\<close>

lemma first_free:
  assumes "p < length tbl" and "\<not> occupied tbl p" and "i < length tbl"
  obtains d where "d < length tbl" "\<not> occupied tbl (slot tbl i d)" "\<forall>d' < d. occupied tbl (slot tbl i d')"
proof -
  obtain d where d: "d < length tbl" "slot tbl i d = p" using slot_reaches [OF assms(1,3)] by blast
  define d0 where "d0 = (LEAST d. \<not> occupied tbl (slot tbl i d))"
  have "\<not> occupied tbl (slot tbl i d)" using d assms(2) by simp
  then have "\<not> occupied tbl (slot tbl i d0)" "d0 \<le> d" unfolding d0_def by (rule LeastI, rule Least_le)
  moreover have "\<forall>d' < d0. occupied tbl (slot tbl i d')" unfolding d0_def using not_less_Least by blast
  ultimately show ?thesis using d(1) by (intro that [of d0]) simp_all
qed

text \<open>A search that has met only occupied slots has met as many as it has made steps.\<close>

lemma run_of_occupied:
  assumes "d < length tbl" and "\<forall>d' \<le> d. occupied tbl (slot tbl i d')"
  shows "d < card {p. p < length tbl \<and> occupied tbl p}"
proof -
  have "inj_on (slot tbl i) {..d}" by (rule inj_onI, rule slot_inj) (use assms(1) in auto)
  then have "card (slot tbl i ` {..d}) = Suc d" by (simp add: card_image)
  moreover have "slot tbl i ` {..d} \<subseteq> {p. p < length tbl \<and> occupied tbl p}"
    using assms by (auto intro: slot_less)
  ultimately show ?thesis using card_mono [of "{p. p < length tbl \<and> occupied tbl p}" "slot tbl i ` {..d}"] by simp
qed

text \<open>What the client of \<open>index\<close> and \<open>next\<close> relies on, for tables of a power of two entries.\<close>

locale probing =
  fixes indexf nextf :: "u64 \<Rightarrow> u64 \<Rightarrow> u64 result"
  assumes index_ok: "k < 64 \<Longrightarrow> \<exists>i. indexf (2 ^ k) h = Inr i \<and> unat i < 2 ^ k"
    and next_ok: "k < 64 \<Longrightarrow> unat i < 2 ^ k \<Longrightarrow>
      \<exists>j. nextf (2 ^ k) i = Inr j \<and> unat j = Suc (unat i) mod 2 ^ k"
begin

definition home :: "nat \<Rightarrow> u64 \<Rightarrow> nat" where
  "home k h = unat (projr (indexf (2 ^ k) h))"

lemma index_home:
  assumes "k < 64"
  obtains i where "indexf (2 ^ k) h = Inr i" "unat i = home k h" "home k h < 2 ^ k"
  using index_ok [OF assms, of h] by (auto simp: home_def)

lemma insert_loop_finds:
  assumes "k < 64" and "length tbl = 2 ^ k" and "unat idx < 2 ^ k"
    and "\<not> occupied tbl (slot tbl (unat idx) d)" and "\<forall>d' < d. occupied tbl (slot tbl (unat idx) d')"
  shows "insert_loop nextf h s idx tbl =
    Some (Inr (tbl[slot tbl (unat idx) d := \<lparr>ehash = h, estring = Some s\<rparr>]))"
  using assms(3-5)
proof (induction d arbitrary: idx)
  case 0
  then have "\<not> occupied tbl (unat idx)" using assms(2) by (simp add: slot_0)
  then show ?case
    using 0 assms(2) by (subst insert_loop.simps) (simp add: occupied_def slot_0)
next
  case (Suc d)
  obtain j where j: "nextf (2 ^ k) idx = Inr j" "unat j = Suc (unat idx) mod 2 ^ k"
    using next_ok [OF assms(1) Suc.prems(1)] by blast
  have step: "slot tbl (unat idx) (Suc e) = slot tbl (unat j) e" for e
    using j(2) assms(2) by (simp add: slot_Suc)
  have occ: "occupied tbl (unat idx)" using Suc.prems(1,3) assms(2) slot_0 [of "unat idx" tbl] by force
  have "insert_loop nextf h s idx tbl = insert_loop nextf h s j tbl"
    using occ Suc.prems(1) assms(2) j(1) by (subst insert_loop.simps) (auto simp: occupied_def)
  moreover have "insert_loop nextf h s j tbl =
      Some (Inr (tbl[slot tbl (unat j) d := \<lparr>ehash = h, estring = Some s\<rparr>]))"
  proof (rule Suc.IH)
    show "unat j < 2 ^ k" using j(2) by simp
    show "\<not> occupied tbl (slot tbl (unat j) d)" using Suc.prems(2) unfolding step .
    show "\<forall>d' < d. occupied tbl (slot tbl (unat j) d')" using Suc.prems(3) unfolding step [symmetric] by simp
  qed
  ultimately show ?case by (simp add: step)
qed

text \<open>The outcome of the search, exactly.\<close>

lemma find_loop_exact:
  assumes "k < 64" and "length (hashTable d) = 2 ^ k" and "unat idx < 2 ^ k"
  shows "find_loop nextf words d word h idx a =
    Inr (\<exists>e < tsize d - a. (\<forall>e' \<le> e. occupied (hashTable d) (slot (hashTable d) (unat idx) e'))
      \<and> ehash (hashTable d ! slot (hashTable d) (unat idx) e) = h
      \<and> words ! the (estring (hashTable d ! slot (hashTable d) (unat idx) e)) = word)"
  using assms(3)
proof (induction "tsize d - a" arbitrary: a idx)
  case 0
  then show ?case by (subst find_loop.simps) simp
next
  case (Suc r)
  let ?t = "hashTable d"
  define P where "P i n \<longleftrightarrow> (\<exists>e < n. (\<forall>e' \<le> e. occupied ?t (slot ?t i e'))
      \<and> ehash (?t ! slot ?t i e) = h \<and> words ! the (estring (?t ! slot ?t i e)) = word)" for i n
  obtain j where j: "nextf (2 ^ k) idx = Inr j" "unat j = Suc (unat idx) mod 2 ^ k"
    using next_ok [OF assms(1) Suc.prems] by blast
  have step: "slot ?t (unat idx) (Suc e) = slot ?t (unat j) e" for e
    using j(2) assms(2) by (simp add: slot_Suc)
  have s0: "slot ?t (unat idx) 0 = unat idx" using Suc.prems assms(2) by (simp add: slot_0)
  have unfold: "P (unat idx) (Suc r) \<longleftrightarrow> occupied ?t (unat idx) \<and>
      (ehash (?t ! unat idx) = h \<and> words ! the (estring (?t ! unat idx)) = word \<or> P (unat j) r)"
    unfolding P_def less_Suc_eq_le [symmetric] Ex_less_Suc2 All_less_Suc2 step s0 by auto
  have IH: "find_loop nextf words d word h j (a + 1) = Inr (P (unat j) r)"
  proof -
    have "r = tsize d - (a + 1)" "unat j < 2 ^ k" using Suc.hyps(2) j(2) by auto
    from Suc.hyps(1) [OF this] this(1) show ?thesis by (simp add: P_def)
  qed
  have "a < tsize d" "unat idx < length ?t" using Suc.hyps(2) Suc.prems assms(2) by simp_all
  then have "find_loop nextf words d word h idx a = Inr (P (unat idx) (Suc r))"
    using IH j(1) assms(2) unfolding unfold
    by (subst find_loop.simps) (auto simp: occupied_def split: option.split)
  then show ?case using Suc.hyps(2) by (simp add: P_def)
qed

end

section \<open>The table\<close>

context probing
begin

text \<open>The entry in a slot belongs to one of the first \<open>m\<close> words and a search for its hash reaches it
  through occupied slots; all of these words are in the table, each in one slot.\<close>

definition entry_ok :: "nat \<Rightarrow> (string \<Rightarrow> u64) \<Rightarrow> string list \<Rightarrow> nat \<Rightarrow> entry list \<Rightarrow> nat \<Rightarrow> nat \<Rightarrow> bool" where
  "entry_ok k hashf words m tbl p s \<longleftrightarrow> s < m \<and> ehash (tbl ! p) = hashf (words ! s)
     \<and> (\<exists>d < length tbl. slot tbl (home k (hashf (words ! s))) d = p
          \<and> (\<forall>d' < d. occupied tbl (slot tbl (home k (hashf (words ! s))) d')))"

definition table_ok :: "nat \<Rightarrow> (string \<Rightarrow> u64) \<Rightarrow> string list \<Rightarrow> nat \<Rightarrow> entry list \<Rightarrow> bool" where
  "table_ok k hashf words m tbl \<longleftrightarrow> length tbl = 2 ^ k
     \<and> (\<forall>p < 2 ^ k. \<forall>s. estring (tbl ! p) = Some s \<longrightarrow> entry_ok k hashf words m tbl p s)
     \<and> (\<forall>s < m. \<exists>p < 2 ^ k. estring (tbl ! p) = Some s)
     \<and> card {p. p < length tbl \<and> occupied tbl p} = m"

lemma table_ok_card: "table_ok k hashf words m tbl \<Longrightarrow> card {p. p < length tbl \<and> occupied tbl p} = m"
  unfolding table_ok_def by blast

lemma table_ok_empty: "table_ok k hashf words 0 (replicate (2 ^ k) empty_entry)"
  by (simp add: table_ok_def empty_entry_def occupied_def)

lemma occupied_update:
  "q < length tbl \<Longrightarrow> occupied (tbl[q := \<lparr>ehash = h, estring = Some s\<rparr>]) p \<longleftrightarrow> p = q \<or> occupied tbl p"
  by (auto simp: occupied_def nth_list_update_any)

lemma slot_update [simp]: "slot (tbl[q := e]) = slot tbl"
  by (simp add: slot_def fun_eq_iff)

lemma entry_ok_update:
  assumes "entry_ok k hashf words m tbl p s" and "q < length tbl" and "q \<noteq> p"
  shows "entry_ok k hashf words (Suc m) (tbl[q := \<lparr>ehash = h, estring = Some m\<rparr>]) p s"
  using assms by (auto simp: entry_ok_def occupied_update nth_list_update_any)

lemma card_occupied_update:
  assumes "q < length tbl" and "\<not> occupied tbl q"
  shows "card {p. p < length tbl \<and> (p = q \<or> occupied tbl p)} = Suc (card {p. p < length tbl \<and> occupied tbl p})"
proof -
  have "{p. p < length tbl \<and> (p = q \<or> occupied tbl p)} = insert q {p. p < length tbl \<and> occupied tbl p}"
    using assms(1) by auto
  then show ?thesis using assms by simp
qed

lemma insert_word_ok:
  assumes k: "k < 64" and ok: "table_ok k hashf words m tbl" and room: "m < 2 ^ k"
  shows "\<exists>tbl'. insert_word indexf nextf hashf words m tbl = Some (Inr tbl')
    \<and> table_ok k hashf words (Suc m) tbl'"
proof -
  let ?h = "hashf (words ! m)"
  have len: "length tbl = 2 ^ k" using ok by (simp add: table_ok_def)
  have "\<exists>p < length tbl. \<not> occupied tbl p"
  proof (rule ccontr)
    assume "\<not> ?thesis"
    then have "{p. p < length tbl \<and> occupied tbl p} = {..<length tbl}" by auto
    with ok room len show False by (simp add: table_ok_def)
  qed
  then obtain p where p: "p < length tbl" "\<not> occupied tbl p" by blast
  obtain i where i: "indexf (2 ^ k) ?h = Inr i" "unat i = home k ?h" "home k ?h < 2 ^ k"
    using index_home [OF k] .
  obtain d where d: "d < length tbl" "\<not> occupied tbl (slot tbl (home k ?h) d)"
      "\<forall>d' < d. occupied tbl (slot tbl (home k ?h) d')"
    using first_free [OF p, of "home k ?h"] i(3) len by auto
  define q where "q = slot tbl (home k ?h) d"
  have q: "q < length tbl" "\<not> occupied tbl q" using d(2) slot_less [of tbl] i(3) len by (auto simp: q_def)
  let ?t = "tbl[q := \<lparr>ehash = ?h, estring = Some m\<rparr>]"
  have "insert_word indexf nextf hashf words m tbl = Some (Inr ?t)"
    using i insert_loop_finds [OF k len, of i d ?h m] d(2,3) len by (simp add: insert_word_def q_def Let_def)
  moreover have "table_ok k hashf words (Suc m) ?t"
    unfolding table_ok_def
  proof (intro conjI allI impI)
    show "length ?t = 2 ^ k" using len by simp
    fix p' s assume p': "p' < 2 ^ k" "estring (?t ! p') = Some s"
    show "entry_ok k hashf words (Suc m) ?t p' s"
    proof (cases "p' = q")
      case True
      then have "s = m" using p' q len by simp
      then show ?thesis using True d q by (auto simp: entry_ok_def occupied_update q_def)
    next
      case False
      then have "entry_ok k hashf words m tbl p' s" using p' ok by (simp add: table_ok_def)
      then show ?thesis using entry_ok_update q(1) False by metis
    qed
  next
    fix s assume s: "s < Suc m"
    show "\<exists>p < 2 ^ k. estring (?t ! p) = Some s"
    proof (cases "s = m")
      case True
      then show ?thesis using q len by (intro exI [of _ q]) simp
    next
      case False
      then obtain p' where p': "p' < 2 ^ k" "estring (tbl ! p') = Some s"
        using s ok by (auto simp: table_ok_def less_Suc_eq)
      then have "p' \<noteq> q" using q(2) by (auto simp: occupied_def)
      then show ?thesis using p' by (intro exI [of _ p']) simp
    qed
  next
    show "card {p. p < length ?t \<and> occupied ?t p} = Suc m"
      using card_occupied_update [OF q] q table_ok_card [OF ok] by (simp add: occupied_update)
  qed
  ultimately show ?thesis by blast
qed

lemma insert_all_ok:
  assumes "k < 64" and "table_ok k hashf words m tbl" and "m + n \<le> 2 ^ k"
  shows "\<exists>tbl'. insert_all indexf nextf hashf words [m..<m + n] tbl = Some (Inr tbl')
    \<and> table_ok k hashf words (m + n) tbl'"
  using assms(2,3)
proof (induction n arbitrary: m tbl)
  case (Suc n)
  have "m < 2 ^ k" using Suc.prems(2) by simp
  from insert_word_ok [OF assms(1) Suc.prems(1) this] obtain t where
    t: "insert_word indexf nextf hashf words m tbl = Some (Inr t)" "table_ok k hashf words (Suc m) t"
    by blast
  have split: "[m..<m + Suc n] = m # [Suc m..<Suc m + n]" by (simp add: upt_conv_Cons del: upt_Suc)
  from Suc.IH [OF t(2)] Suc.prems(2) t(1) show ?case
    unfolding split insert_all.simps by (simp del: upt_Suc)
qed simp

text \<open>The bound on \<open>attempts\<close> is never what ends a search for a word of the dictionary.\<close>

lemma find_word_ok:
  assumes k: "k < 64" and ok: "table_ok k hashf words (length words) (hashTable d)"
    and sz: "tsize d = length words"
  shows "find_word indexf nextf hashf words d word = Inr (word \<in> set words)"
proof -
  let ?t = "hashTable d" and ?h = "hashf word"
  have len: "length ?t = 2 ^ k" using ok by (simp add: table_ok_def)
  obtain i where i: "indexf (2 ^ k) ?h = Inr i" "unat i = home k ?h" "home k ?h < 2 ^ k"
    using index_home [OF k] .
  define found where "found \<longleftrightarrow> (\<exists>e < tsize d - 0. (\<forall>e' \<le> e. occupied ?t (slot ?t (home k ?h) e'))
      \<and> ehash (?t ! slot ?t (home k ?h) e) = ?h
      \<and> words ! the (estring (?t ! slot ?t (home k ?h) e)) = word)"
  have "find_word indexf nextf hashf words d word = Inr found"
    using i find_loop_exact [OF k len, of i words word ?h 0] len by (simp add: find_word_def found_def)
  moreover have "found \<longleftrightarrow> word \<in> set words"
  proof
    assume found
    then obtain e where e: "occupied ?t (slot ?t (home k ?h) e)"
        "words ! the (estring (?t ! slot ?t (home k ?h) e)) = word"
      unfolding found_def by blast
    from e(1) obtain s where s: "estring (?t ! slot ?t (home k ?h) e) = Some s" by (auto simp: occupied_def)
    have "slot ?t (home k ?h) e < 2 ^ k" using slot_less [of ?t] len by simp
    with s ok have "s < length words" by (simp add: table_ok_def entry_ok_def)
    with e(2) s show "word \<in> set words" by auto
  next
    assume "word \<in> set words"
    then obtain s where s: "s < length words" "words ! s = word" by (auto simp: in_set_conv_nth)
    then obtain p where p: "p < 2 ^ k" "estring (?t ! p) = Some s" using ok by (auto simp: table_ok_def)
    then have "entry_ok k hashf words (length words) ?t p s" using ok by (simp add: table_ok_def)
    then obtain e where e: "e < length ?t" "slot ?t (home k ?h) e = p" "ehash (?t ! p) = ?h"
        "\<forall>d' < e. occupied ?t (slot ?t (home k ?h) d')"
      using s(2) unfolding entry_ok_def by blast
    have occ: "\<forall>e' \<le> e. occupied ?t (slot ?t (home k ?h) e')"
      using e(2,4) p(2) by (auto simp: le_less occupied_def)
    have "e < tsize d" using run_of_occupied [OF e(1) occ] table_ok_card [OF ok] sz by linarith
    with occ e p s(2) show found unfolding found_def by (intro exI [of _ e]) simp
  qed
  ultimately show ?thesis by simp
qed

lemma build_table_ok:
  assumes "k < 64" and "sizef (of_nat (length words)) = Some (2 ^ k)" and "length words \<le> 2 ^ k"
  shows "\<exists>d. build_table sizef indexf nextf hashf words = Some (Inr d)
    \<and> (\<forall>word. find_word indexf nextf hashf words d word = Inr (word \<in> set words))"
proof -
  from insert_all_ok [OF assms(1) table_ok_empty, of "length words" hashf words] assms(3) obtain tbl where
    t: "insert_all indexf nextf hashf words [0..<length words] (replicate (2 ^ k) empty_entry) = Some (Inr tbl)"
      "table_ok k hashf words (length words) tbl" by auto
  let ?d = "\<lparr>hashTable = tbl, tsize = length words\<rparr>"
  have "build_table sizef indexf nextf hashf words = Some (Inr ?d)"
    using t(1) assms(2) unat_power2_u64 [OF assms(1)] by (simp add: build_table_def)
  moreover have "find_word indexf nextf hashf words ?d word = Inr (word \<in> set words)" for word
    by (rule find_word_ok [OF assms(1)]) (simp_all add: t(2))
  ultimately show ?thesis by blast
qed

end

text \<open>Both ways to compute an index have the contract.\<close>

lemma word_mask_mod:
  assumes "k < 64"
  shows "h AND (2 ^ k - 1) = (h :: u64) mod 2 ^ k"
proof -
  have "h AND (2 ^ k - 1) = take_bit k h" by (simp add: take_bit_eq_mask mask_eq_exp_minus_1)
  also have "\<dots> = h mod 2 ^ k" by (simp add: take_bit_eq_mod)
  finally show ?thesis .
qed

lemma power2_u64_nonzero: "k < 64 \<Longrightarrow> (2 ^ k :: u64) \<noteq> 0"
  using unat_power2_u64 [of k] by (metis power_not_zero unat_0 zero_neq_numeral)

lemma unat_mod_power2:
  assumes "k < 64"
  shows "unat ((h :: u64) mod 2 ^ k) = unat h mod 2 ^ k"
  using assms by (simp add: unat_mod_distrib unat_power2_u64)

lemma unat_next_mod:
  assumes "k < 64" and "unat i < 2 ^ k"
  shows "unat ((i + 1 :: u64) mod 2 ^ k) = Suc (unat i) mod 2 ^ k"
proof -
  have "(2::nat) ^ k \<le> 2 ^ 63" using assms(1) by (intro power_increasing) simp_all
  then have "unat (i + 1) = Suc (unat i)" using assms(2) by (subst unat_word_ariths) simp
  then show ?thesis by (simp add: unat_mod_power2 [OF assms(1)])
qed

interpretation v3: probing v3_index v3_next
  by unfold_locales
    (simp add: v3_index_def power2_u64_nonzero unat_mod_power2,
     simp add: v3_next_def power2_u64_nonzero unat_next_mod)

interpretation v4: probing v4_index v4_next
  by unfold_locales
    (simp add: v4_index_def word_mask_mod unat_mod_power2,
     simp add: v4_next_def word_mask_mod unat_next_mod)

section \<open>What a client of a dictionary relies on\<close>

lemma next_word_ok:
  assumes "0 \<le> idx" and "idx < int (length words)" and "length words < 2 ^ 31"
  shows "next_word words idx = Inr ((idx + 1) mod int (length words))"
proof -
  have pos: "0 < int (length words)" using assms by linarith
  have r: "0 \<le> (idx + 1) mod int (length words)" "(idx + 1) mod int (length words) < 2 ^ 31"
    using pos assms(3) pos_mod_bound [OF pos, of "idx + 1"] by (simp_all add: of_nat_less_iff [symmetric] del: pos_mod_bound)
  have "(idx + 1) mod 2 ^ 64 = idx + 1" using assms by (intro mod_pos_pos_trivial) auto
  moreover have "signed_take_bit 31 ((idx + 1) mod int (length words)) = (idx + 1) mod int (length words)"
    using r by (intro signed_take_bit_int_eq_self) auto
  ultimately show ?thesis using assms by (auto simp: next_word_def)
qed

lemma word_at_ok:
  assumes "0 \<le> idx" and "idx < int (length words)" and "length words < 2 ^ 31"
  shows "word_at words idx = Inr (words ! nat idx)"
proof -
  have "idx mod 2 ^ 64 = idx" using assms by (intro mod_pos_pos_trivial) auto
  then show ?thesis using assms by (simp add: word_at_def nat_less_iff)
qed

lemma lookup_turns:
  assumes "words \<noteq> []" and "length words < 2 ^ 31"
    and "\<And>word. word \<in> set words \<Longrightarrow> lookup word = Inr b" and "acc flag b = flag"
  shows "\<exists>idx. for_each (\<lambda>_. lookup_turn acc lookup words) [0..<n] (0, flag) = Inr (idx, flag)
    \<and> 0 \<le> idx \<and> idx < int (length words)"
proof (induction n)
  case 0
  then show ?case using assms(1) by simp
next
  case (Suc n)
  then obtain idx where i: "for_each (\<lambda>_. lookup_turn acc lookup words) [0..<n] (0, flag) = Inr (idx, flag)"
      "0 \<le> idx" "idx < int (length words)" by blast
  have "words ! nat idx \<in> set words" using i by (simp add: nat_less_iff)
  with i assms show ?case
    by (simp add: for_each_append lookup_turn_def word_at_ok next_word_ok)
qed

text \<open>A dictionary, whatever its version, holds the words it was built from and no others.\<close>

locale dictionary =
  fixes build :: "string list \<Rightarrow> 'd result option"
    and lookup :: "string list \<Rightarrow> 'd \<Rightarrow> string \<Rightarrow> bool result"
  assumes lookup_iff: "length words < 2 ^ 50 \<Longrightarrow>
    \<exists>d. build words = Some (Inr d) \<and> (\<forall>word. lookup words d word = Inr (word \<in> set words))"
begin

lemma in_check_silent:
  assumes "wordsIn \<noteq> []" and "length wordsIn < 2 ^ 31"
  shows "InDictionary build lookup wordsIn n = Some (Inr False)"
proof -
  obtain d where d: "build wordsIn = Some (Inr d)" "\<And>word. lookup wordsIn d word = Inr (word \<in> set wordsIn)"
    using lookup_iff [of wordsIn] assms(2) by auto
  have "\<exists>idx. for_each (\<lambda>_. lookup_turn (\<and>) (lookup wordsIn d) wordsIn) [0..<n] (0, True) = Inr (idx, True)
      \<and> 0 \<le> idx \<and> idx < int (length wordsIn)"
    by (rule lookup_turns [OF assms, where b = True]) (simp_all add: d(2))
  then show ?thesis using d(1) by (auto simp: InDictionary_def)
qed

lemma not_in_check_silent:
  assumes "wordsNotIn \<noteq> []" and "length wordsNotIn < 2 ^ 31" and "length wordsIn < 2 ^ 31"
    and "set wordsIn \<inter> set wordsNotIn = {}"
  shows "NotInDictionary build lookup wordsIn wordsNotIn n = Some (Inr False)"
proof -
  obtain d where d: "build wordsIn = Some (Inr d)" "\<And>word. lookup wordsIn d word = Inr (word \<in> set wordsIn)"
    using lookup_iff [of wordsIn] assms(3) by auto
  have "\<exists>idx. for_each (\<lambda>_. lookup_turn (\<or>) (lookup wordsIn d) wordsNotIn) [0..<n] (0, False) = Inr (idx, False)
      \<and> 0 \<le> idx \<and> idx < int (length wordsNotIn)"
    by (rule lookup_turns [OF assms(1,2), where b = False]) (use assms(4) in \<open>auto simp: d(2)\<close>)
  then show ?thesis using d(1) by (auto simp: NotInDictionary_def)
qed

lemmas checks_silent = in_check_silent not_in_check_silent

end

abbreviation v0_build :: "string list \<Rightarrow> v0_dict result option" where
  "v0_build words \<equiv> Some (Inr (v0_Dictionary words))"

abbreviation v1_build :: "string list \<Rightarrow> v1_dict result option" where
  "v1_build words \<equiv> Some (Inr (v1_Dictionary words))"

abbreviation v2_build :: "string list \<Rightarrow> v2_dict result option" where
  "v2_build words \<equiv> Some (Inr (v2_Dictionary words))"

abbreviation v0_lookup :: "string list \<Rightarrow> v0_dict \<Rightarrow> string \<Rightarrow> bool result" where
  "v0_lookup words d word \<equiv> Inr (v0_in_dictionary d word)"

abbreviation v1_lookup :: "string list \<Rightarrow> v1_dict \<Rightarrow> string \<Rightarrow> bool result" where
  "v1_lookup words d word \<equiv> Inr (v1_in_dictionary d word)"

abbreviation v2_lookup :: "string list \<Rightarrow> v2_dict \<Rightarrow> string \<Rightarrow> bool result" where
  "v2_lookup words d word \<equiv> Inr (v2_in_dictionary d word)"

interpretation d0: dictionary v0_build v0_lookup
  by unfold_locales (simp add: v0_Dictionary_def v0_in_dictionary_def)

interpretation d1: dictionary v1_build v1_lookup
  by unfold_locales (simp add: v1_Dictionary_def v1_in_dictionary_def)

interpretation d2: dictionary v2_build v2_lookup
  by unfold_locales (auto simp: v2_Dictionary_def v2_in_dictionary_def list_ex_iff in_set_conv_nth)

lemma length_as_word: "length words < 2 ^ 63 \<Longrightarrow> unat (of_nat (length words) :: u64) = length words"
  by (subst unat_of_nat) simp

lemma v3_dictionary_ok:
  assumes "length words < 2 ^ 63"
  shows "\<exists>d. v3_Dictionary hashf words = Some (Inr d)
    \<and> (\<forall>word. v3_in_dictionary hashf words d word = Inr (word \<in> set words))"
proof -
  obtain k where "k < 64" "v3_hash_size (of_nat (length words)) = Some (2 ^ k)" "length words < 2 ^ k"
    using v3_hash_size_power2 [of "of_nat (length words)"] length_as_word [OF assms] assms by auto
  then show ?thesis
    using v3.build_table_ok [of k v3_hash_size words hashf] by (simp add: v3_Dictionary_def v3_in_dictionary_def)
qed

lemma v4_dictionary_ok:
  assumes "length words < 2 ^ 63"
  shows "\<exists>d. v4_Dictionary hashf words = Some (Inr d)
    \<and> (\<forall>word. v4_in_dictionary hashf words d word = Inr (word \<in> set words))"
proof (cases "words = []")
  case True
  then show ?thesis
    by (simp add: v4_Dictionary_def v4_in_dictionary_def build_table_def v4_hash_size_def find_word_def
        v4_index_def find_loop.simps)
next
  case False
  have u: "unat (of_nat (length words) :: u64) = length words" by (rule length_as_word [OF assms])
  with False have pos: "0 < (of_nat (length words) :: u64)"
    by (simp add: word_less_nat_alt)
  obtain k where "k < 64" "v4_hash_size (of_nat (length words)) = Some (2 ^ k)" "length words < 2 ^ k"
    using v3_hash_size_power2 [of "of_nat (length words)"] v4_hash_size_eq_v3 [OF _ pos] u assms by auto
  then show ?thesis
    using v4.build_table_ok [of k v4_hash_size words hashf] by (simp add: v4_Dictionary_def v4_in_dictionary_def)
qed

interpretation d3: dictionary "v3_Dictionary hashf" "v3_in_dictionary hashf" for hashf
  by unfold_locales (rule v3_dictionary_ok, simp)

interpretation d4: dictionary "v4_Dictionary hashf" "v4_in_dictionary hashf" for hashf
  by unfold_locales (rule v4_dictionary_ok, simp)

section \<open>Two ways to compute the same indices\<close>

lemma insert_loop_agree:
  assumes "insert_loop nextf h s idx tbl = Some r" and "nextf (of_nat (length tbl)) = nextg (of_nat (length tbl))"
  shows "insert_loop nextg h s idx tbl = Some r"
  using assms(2)
proof (induction rule: insert_loop.raw_induct [OF _ assms(1)])
  case (1 rec nextf h s idx tbl r)
  from 1(2,3) show ?case
    by (subst insert_loop.simps) (auto split: sum.splits if_splits intro: 1(1))
qed

lemma insert_loop_length:
  assumes "insert_loop nextf h s idx tbl = Some r"
  shows "\<forall>t. r = Inr t \<longrightarrow> length t = length tbl"
proof (induction rule: insert_loop.raw_induct [OF _ assms])
  case (1 rec nextf h s idx tbl r)
  from 1(2) show ?case
    by (auto simp: array_set_def split: sum.splits if_splits dest: 1(1))
qed

lemma insert_loop_cong:
  assumes "nextf (of_nat (length tbl)) = nextg (of_nat (length tbl))"
  shows "insert_loop nextf h s idx tbl = insert_loop nextg h s idx tbl"
  using insert_loop_agree [of nextf h s idx tbl _ nextg] insert_loop_agree [of nextg h s idx tbl _ nextf] assms
  by (metis option.exhaust)

lemma insert_all_cong:
  assumes "indexf (of_nat (length tbl)) = indexg (of_nat (length tbl))"
    and "nextf (of_nat (length tbl)) = nextg (of_nat (length tbl))"
  shows "insert_all indexf nextf hashf words ss tbl = insert_all indexg nextg hashf words ss tbl"
  using assms
proof (induction ss arbitrary: tbl)
  case (Cons s ss)
  have eq: "insert_word indexf nextf hashf words s tbl = insert_word indexg nextg hashf words s tbl"
    unfolding insert_word_def Cons.prems(1) insert_loop_cong [of nextf tbl nextg, OF Cons.prems(2)] ..
  have len: "length t = length tbl" if "insert_word indexg nextg hashf words s tbl = Some (Inr t)" for t
    using that insert_loop_length by (auto simp: insert_word_def Let_def split: sum.splits)
  show ?case using Cons.IH Cons.prems len by (auto simp: eq split: option.splits sum.splits)
qed simp

lemma insert_all_length:
  "insert_all indexf nextf hashf words ss tbl = Some (Inr t) \<Longrightarrow> length t = length tbl"
proof (induction ss arbitrary: tbl)
  case (Cons s ss)
  have len: "length t = length tbl" if "insert_word indexf nextf hashf words s tbl = Some (Inr t)" for t
    using that insert_loop_length by (auto simp: insert_word_def Let_def split: sum.splits)
  show ?case using Cons.IH Cons.prems len by (auto split: option.splits sum.splits)
qed simp

lemma build_table_length:
  assumes "build_table sizef indexf nextf hashf words = Some (Inr d)"
    and "sizef (of_nat (length words)) = Some sz"
  shows "length (hashTable d) = unat sz"
proof -
  obtain z where z: "insert_all indexf nextf hashf words [0..<length words] (replicate (unat sz) empty_entry) = Some z"
      "map_sum (\<lambda>e. e) (\<lambda>tbl. \<lparr>hashTable = tbl, tsize = length words\<rparr>) z = Inr d"
    using assms by (auto simp: build_table_def)
  then show ?thesis by (cases z) (auto dest: insert_all_length)
qed

lemma find_loop_cong:
  assumes "nextf (of_nat (length (hashTable d))) = nextg (of_nat (length (hashTable d)))"
  shows "find_loop nextf words d word h idx a = find_loop nextg words d word h idx a"
proof (induction "tsize d - a" arbitrary: a idx)
  case 0
  then show ?case by (simp add: find_loop.simps)
next
  case (Suc r)
  then have eq: "find_loop nextf words d word h i (a + 1) = find_loop nextg words d word h i (a + 1)" for i
    by simp
  show ?case unfolding find_loop.simps [of _ _ _ _ _ _ a] assms eq ..
qed

lemma masked_index: "k < 64 \<Longrightarrow> v4_index (2 ^ k) = v3_index (2 ^ k)"
  by (simp add: fun_eq_iff v3_index_def v4_index_def power2_u64_nonzero word_mask_mod)

lemma masked_next: "k < 64 \<Longrightarrow> v4_next (2 ^ k) = v3_next (2 ^ k)"
  by (simp add: fun_eq_iff v3_next_def v4_next_def power2_u64_nonzero word_mask_mod)

section \<open>The words of the benchmark\<close>

fun drawn :: "('g \<Rightarrow> string \<times> 'g) \<Rightarrow> nat \<Rightarrow> 'g \<Rightarrow> string list" where
  "drawn draw 0 rd = []"
| "drawn draw (Suc n) rd = (case draw rd of (s, rd') \<Rightarrow> s # drawn draw n rd')"

lemma unique_loop_returns:
  assumes "distinct strings" and "length strings \<le> len"
    and "len \<le> card (set strings \<union> set (drawn draw n rd))"
  shows "\<exists>ss rd'. unique_loop draw len strings rd = Some (ss, rd') \<and> distinct ss \<and> length ss = len"
  using assms
proof (induction n arbitrary: strings rd)
  case 0
  then have "length strings = len" by (simp add: distinct_card)
  then show ?case using 0 by (subst unique_loop.simps) simp
next
  case (Suc n)
  obtain s rd' where d: "draw rd = (s, rd')" by fastforce
  let ?ss = "if s \<in> set strings then strings else strings @ [s]"
  have un: "set ?ss \<union> set (drawn draw n rd') = set strings \<union> set (drawn draw (Suc n) rd)"
    using d by auto
  show ?case
  proof (cases "length strings < len")
    case True
    have "\<exists>ss rd''. unique_loop draw len ?ss rd' = Some (ss, rd'') \<and> distinct ss \<and> length ss = len"
      by (rule Suc.IH) (use True Suc.prems un in auto)
    then show ?thesis using True d by (subst unique_loop.simps) simp
  next
    case False
    then show ?thesis using Suc.prems by (subst unique_loop.simps) simp
  qed
qed

lemma dictionary_main_words:
  assumes "\<And>xs. mset (iterate xs) = mset xs"
    and "N * 2 \<le> card (set (drawn draw n rd))"
  shows "\<exists>wordsIn wordsNotIn. dictionary_main iterate draw N rd = Some (wordsIn, wordsNotIn)
    \<and> length wordsIn = N \<and> length wordsNotIn = N \<and> set wordsIn \<inter> set wordsNotIn = {}"
proof -
  obtain ss rd' where ss: "unique_loop draw (N * 2) [] rd = Some (ss, rd')" "distinct ss" "length ss = N * 2"
    using unique_loop_returns [of "[]" "N * 2" draw n rd] assms(2) by auto
  have "distinct (iterate ss)" using assms(1) [of ss] ss(2) by (metis mset_eq_imp_distinct_iff)
  then have "set (take N (iterate ss)) \<inter> set (drop N (iterate ss)) = {}"
    by (rule set_take_disj_set_drop_if_distinct) simp
  moreover have "length (iterate ss) = N * 2" using assms(1) [of ss] ss(3) by (metis mset_eq_length)
  ultimately show ?thesis
    using ss(1) by (simp add: dictionary_main_def CreateVectorOfUniqueRandomStrings_def)
qed

lemma push_chars_ok:
  assumes "\<And>r. 48 \<le> fst (charDist r) \<and> fst (charDist r) \<le> 127"
  shows "length (fst (push_chars charDist n rd)) = n
    \<and> (\<forall>c \<in> set (fst (push_chars charDist n rd)). (48 :: nat) \<le> of_char c \<and> of_char c \<le> (127 :: nat))"
proof (induction n arbitrary: rd)
  case (Suc n)
  obtain c rd1 where c: "charDist rd = (c, rd1)" by fastforce
  have "48 \<le> c" "c \<le> 127" using assms [of rd] c by auto
  then have "of_char (char_of (nat (c mod 256)) :: char) = nat c" by (simp add: nat_less_iff)
  moreover have "48 \<le> nat c" "nat c \<le> 127" using \<open>48 \<le> c\<close> \<open>c \<le> 127\<close> by simp_all
  ultimately show ?case using Suc [of rd1] c by (auto simp: case_prod_beta)
qed simp

section \<open>Properties\<close>

text \<open>C35. The hash table of version 3, for every hash function: construction ends without touching
  memory outside the table, and \<open>in_dictionary\<close> then answers exactly whether the word is among
  the words the table was built from, duplicates and colliding hashes included. In particular the
  bound on the number of attempts never hides a word.\<close>

theorem v3_dictionary_correct:
  assumes "length words < 2 ^ 63"
  shows "\<exists>d. v3_Dictionary hashf words = Some (Inr d)
    \<and> (\<forall>word. v3_in_dictionary hashf words d word = Inr (word \<in> set words))"
  by (rule v3_dictionary_ok [OF assms])

theorem v3_dictionary_correct_witness:
  "\<exists>d. v3_Dictionary (\<lambda>_. 3) [''a'', ''b'', ''a''] = Some (Inr d)
    \<and> v3_in_dictionary (\<lambda>_. 3) [''a'', ''b'', ''a''] d ''b'' = Inr True
    \<and> v3_in_dictionary (\<lambda>_. 3) [''a'', ''b'', ''a''] d ''c'' = Inr False"
  using v3_dictionary_correct [of "[''a'', ''b'', ''a'']" "\<lambda>_. 3"] by auto

text \<open>C36. Version 4 replaces the remainder by a mask and takes a shortcut for the size of the table.
  On a non-empty collection it computes the same size, builds the same table and answers every
  query as version 3 does.\<close>

theorem v4_equals_v3:
  assumes "words \<noteq> []" and "length words < 2 ^ 63"
  shows "v4_hash_size (of_nat (length words)) = v3_hash_size (of_nat (length words))
    \<and> v4_Dictionary hashf words = v3_Dictionary hashf words
    \<and> (\<forall>d word. v3_Dictionary hashf words = Some (Inr d) \<longrightarrow>
         v4_in_dictionary hashf words d word = v3_in_dictionary hashf words d word)"
proof -
  have u: "unat (of_nat (length words) :: u64) = length words" by (rule length_as_word [OF assms(2)])
  with assms(1) have pos: "0 < (of_nat (length words) :: u64)" by (simp add: word_less_nat_alt)
  have size: "v4_hash_size (of_nat (length words)) = v3_hash_size (of_nat (length words))"
    using v4_hash_size_eq_v3 [OF _ pos] u assms(2) by simp
  obtain k where k: "k < 64" "v3_hash_size (of_nat (length words)) = Some (2 ^ k)"
    using v3_hash_size_power2 [of "of_nat (length words)"] u assms(2) by auto
  have build: "v4_Dictionary hashf words = v3_Dictionary hashf words"
    using insert_all_cong [of v4_index "replicate (2 ^ k) empty_entry" v3_index v4_next v3_next]
    by (simp add: v3_Dictionary_def v4_Dictionary_def build_table_def size k unat_power2_u64
        masked_index masked_next)
  moreover have "v4_in_dictionary hashf words d word = v3_in_dictionary hashf words d word"
    if "v3_Dictionary hashf words = Some (Inr d)" for d word
  proof -
    have "length (hashTable d) = 2 ^ k"
      using build_table_length [of v3_hash_size v3_index v3_next hashf words d] that k
      by (simp add: v3_Dictionary_def unat_power2_u64)
    then show ?thesis
      using find_loop_cong [of v4_next d v3_next]
      by (simp add: v3_in_dictionary_def v4_in_dictionary_def find_word_def masked_index masked_next k)
  qed
  ultimately show ?thesis using size by blast
qed

theorem v4_equals_v3_witness:
  "v4_Dictionary (\<lambda>_. 3) [''a'', ''b''] = v3_Dictionary (\<lambda>_. 3) [''a'', ''b'']"
  using v4_equals_v3 [of "[''a'', ''b'']" "\<lambda>_. 3"] by simp

text \<open>Version 4 is correct also on the empty collection, where its table has no entries.\<close>

theorem v4_dictionary_correct:
  assumes "length words < 2 ^ 63"
  shows "\<exists>d. v4_Dictionary hashf words = Some (Inr d)
    \<and> (\<forall>word. v4_in_dictionary hashf words d word = Inr (word \<in> set words))"
  by (rule v4_dictionary_ok [OF assms])

end
