(* ===== verification/Spell_Checker.thy ===== *)
theory Spell_Checker
  imports Word_Dictionary "HOL-Library.AList"
begin

text \<open>
  \<open>design_patterns/dictionary/spellchecker/\<close> with \<open>util.hh\<close> and the benchmark \<open>CheckText\<close>: reading
  lines, the tokenizer, the statistics on errors, the main program. A file is the string of its
  characters; one that cannot be opened reads as empty. The order in which an unordered container
  enumerates its elements and the order \<open>std::sort\<close> gives to equal elements are not specified:
  they are parameters.
\<close>

section \<open>Reading\<close>

abbreviation newline :: char where
  "newline \<equiv> CHR 0x0A"

text \<open>\<open>std::getline\<close> until it fails: a line ends at a newline or at the end of the file, and there is no
  empty line after the last newline.\<close>

function getlines :: "string \<Rightarrow> string list" where
  "getlines input =
     (if input = [] then []
      else (let line = takeWhile (\<lambda>c. c \<noteq> newline) input
            in line # getlines (drop (Suc (length line)) input)))"
  by pat_completeness auto
termination
  by (relation "measure length") auto

declare getlines.simps [simp del]

definition load_dictionary :: "(string \<Rightarrow> string) \<Rightarrow> string \<Rightarrow> string list" where
  "load_dictionary files path = fold (\<lambda>line out. out @ [line]) (getlines (files path)) []"

definition read_lines :: "(string \<Rightarrow> string) \<Rightarrow> string \<Rightarrow> string list" where
  "read_lines files path = fold (\<lambda>line out. out @ [line]) (getlines (files path)) []"

definition read_full_file :: "(string \<Rightarrow> string) \<Rightarrow> string \<Rightarrow> string" where
  "read_full_file files path = files path"

section \<open>Tokenizer\<close>

text \<open>Space, tab, and the punctuation of the string \<open>DELIMITERS\<close>.\<close>

definition DELIMITERS :: string where
  "DELIMITERS = [CHR 0x20, CHR 0x09, CHR ''.'', CHR '','', CHR '':'', CHR '';'', CHR ''?'', CHR ''!'',
     CHR 0x22, CHR 0x27, CHR ''['', CHR '']'', CHR ''{'', CHR ''}'', CHR ''|'', CHR ''&'', CHR ''*'',
     CHR ''='', CHR ''+'', CHR ''-'', CHR ''_'', CHR ''('', CHR '')'', CHR ''#'']"

text \<open>A \<open>char\<close> as a subscript: \<open>char\<close> is signed, so from 128 on the index is negative and its
  conversion to \<open>size_t\<close> is huge.\<close>

definition char_index :: "char \<Rightarrow> nat" where
  "char_index c = nat (signed_take_bit 7 (int (of_char c)) mod 2 ^ 64)"

definition is_dropped :: "bool list" where
  "is_dropped = (case for_each (\<lambda>c delimiters. array_set delimiters (char_index c) True)
                        DELIMITERS (replicate 256 False) of Inr d \<Rightarrow> d | Inl _ \<Rightarrow> [])"

text \<open>The two loops of \<open>get_next\<close>: advance over characters that are, or are not, dropped.\<close>

function scan :: "bool \<Rightarrow> string \<Rightarrow> nat \<Rightarrow> nat result" where
  "scan dropped buf next =
     (if next < length buf
      then rbind (array_get is_dropped (char_index (buf ! next)))
             (\<lambda>d. if d = dropped then scan dropped buf (next + 1) else Inr next)
      else Inr next)"
  by pat_completeness auto
termination
  by (relation "measure (\<lambda>(_, buf, next). length buf - next)") auto

declare scan.simps [simp del]

text \<open>A tokenizer is its buffer and the position \<open>next\<close>; \<open>get_next\<close> gives the word and the new
  position.\<close>

definition get_next :: "string \<Rightarrow> nat \<Rightarrow> (string \<times> nat) result" where
  "get_next buf next =
     rbind (scan True buf next) (\<lambda>start.
     rbind (scan False buf start) (\<lambda>next'. Inr (take (next' - start) (drop start buf), next')))"

lemma scan_bounds: "scan b buf i = Inr j \<Longrightarrow> i \<le> length buf \<Longrightarrow> i \<le> j \<and> j \<le> length buf"
proof (induction b buf i rule: scan.induct)
  case (1 b buf i)
  show ?case
  proof (cases "i < length buf")
    case True
    show ?thesis
      using "1.prems" "1.IH" [OF True] True
      by (subst (asm) scan.simps) (auto simp: rbind_eq_Inr split: if_splits dest: Suc_leD)
  next
    case False
    then show ?thesis using "1.prems" by (subst (asm) scan.simps) simp
  qed
qed

lemma get_next_advances:
  assumes "get_next buf i = Inr (w, j)" and "w \<noteq> []"
  shows "i < length buf" and "i < j"
proof -
  obtain start where s: "scan True buf i = Inr start" "scan False buf start = Inr j" "w = take (j - start) (drop start buf)"
    using assms(1) by (auto simp: get_next_def rbind_eq_Inr)
  have start: "start < length buf" "start < j" using s(3) assms(2) by (auto simp: not_le)
  show i: "i < length buf"
  proof (rule ccontr)
    assume "\<not> i < length buf"
    then have "scan True buf i = Inr i" by (simp add: scan.simps)
    with s(1) start \<open>\<not> i < length buf\<close> show False by simp
  qed
  then show "i < j" using scan_bounds [OF s(1)] start by simp
qed

text \<open>The loop over the tokens: \<open>for (word = get_next(); !word.empty(); word = get_next())\<close>.\<close>

function for_tokens :: "(string \<Rightarrow> 's \<Rightarrow> 's result) \<Rightarrow> string \<Rightarrow> nat \<Rightarrow> 's \<Rightarrow> 's result" where
  "for_tokens body buf next s =
     (case get_next buf next of
        Inl e \<Rightarrow> Inl e
      | Inr (word, next') \<Rightarrow>
          if word = [] then Inr s
          else (case body word s of Inl e \<Rightarrow> Inl e | Inr s' \<Rightarrow> for_tokens body buf next' s'))"
  by pat_completeness auto
termination
proof (relation "measure (\<lambda>(_, buf, next, _). length buf - next)")
  fix body :: "string \<Rightarrow> 's \<Rightarrow> 's result" and buf i and s :: 's and z word j and s' :: 's
  assume z: "get_next buf i = Inr z" and wn: "(word, j) = z" and ne: "word \<noteq> []"
  have "i < length buf" "i < j"
    using get_next_advances [of buf i word j] z wn ne by auto
  then show "((body, buf, j, s'), body, buf, i, s) \<in> measure (\<lambda>(_, buf, next, _). length buf - next)"
    by simp
qed simp

declare for_tokens.simps [simp del]

section \<open>Statistics\<close>

record statistics =
  num_errors :: u64
  errors :: "(string \<times> int) list"

definition Statistics :: statistics where
  "Statistics = \<lparr>num_errors = 0, errors = []\<rparr>"

text \<open>\<open>_errors[error]++\<close> starts from \<open>0\<close> for a new key; the largest \<open>int\<close> must not be incremented.\<close>

definition add_error :: "string \<Rightarrow> statistics \<Rightarrow> statistics result" where
  "add_error err s =
     (let n = (case map_of (errors s) err of None \<Rightarrow> 0 | Some n \<Rightarrow> n)
      in if n = 2 ^ 31 - 1 then Inl SignedOverflow
         else Inr \<lparr>num_errors = num_errors s + 1, errors = AList.update err (n + 1) (errors s)\<rparr>)"

text \<open>\<open>print_stats\<close>: the number of errors and the ten most frequent ones with their counts.
  \<open>iterate\<close> is the order of the unordered map, \<open>sort_by\<close> is \<open>std::sort\<close> with a comparator.\<close>

definition more_frequent :: "string \<times> int \<Rightarrow> string \<times> int \<Rightarrow> bool" where
  "more_frequent a b \<longleftrightarrow> snd a > snd b"

definition print_stats ::
    "((string \<times> int) list \<Rightarrow> (string \<times> int) list) \<Rightarrow>
     ((string \<times> int \<Rightarrow> string \<times> int \<Rightarrow> bool) \<Rightarrow> (string \<times> int) list \<Rightarrow> (string \<times> int) list) \<Rightarrow>
     statistics \<Rightarrow> u64 \<times> (int \<times> string) list" where
  "print_stats iterate sort_by s =
     (let errors_by_freq = sort_by more_frequent (iterate (errors s));
          n = nat (min 10 (signed_take_bit 31 (int (length errors_by_freq))))
      in (num_errors s, map (\<lambda>(w, f). (f, w)) (take n errors_by_freq)))"

section \<open>The main program\<close>

definition tolower :: "char \<Rightarrow> char" where
  "tolower c = (if 65 \<le> (of_char c :: nat) \<and> (of_char c :: nat) \<le> 90 then char_of (of_char c + 32 :: nat) else c)"

definition check_word :: "v0_dict \<Rightarrow> string \<Rightarrow> statistics \<Rightarrow> statistics result" where
  "check_word dict word stats =
     (if \<not> v0_in_dictionary dict word
      then (let lower = map tolower word
            in if \<not> v0_in_dictionary dict lower then add_error word stats else Inr stats)
      else Inr stats)"

definition check_lines :: "v0_dict \<Rightarrow> string list \<Rightarrow> statistics \<Rightarrow> statistics result" where
  "check_lines dict = for_each (\<lambda>line. for_tokens (check_word dict) line 0)"

datatype spell_error = Usage | Undefined ub

text \<open>\<open>argv\<close> includes the name of the program.\<close>

definition spellchecker_main ::
    "((string \<times> int) list \<Rightarrow> (string \<times> int) list) \<Rightarrow>
     ((string \<times> int \<Rightarrow> string \<times> int \<Rightarrow> bool) \<Rightarrow> (string \<times> int) list \<Rightarrow> (string \<times> int) list) \<Rightarrow>
     (string \<Rightarrow> string) \<Rightarrow> string list \<Rightarrow> spell_error + u64 \<times> (int \<times> string) list" where
  "spellchecker_main iterate sort_by files argv =
     (if length argv < 3 then Inl Usage
      else (let words = load_dictionary files (argv ! 1); dict = v0_Dictionary words
            in case check_lines dict (getlines (files (argv ! 2))) Statistics of
                 Inl e \<Rightarrow> Inl (Undefined e)
               | Inr stats \<Rightarrow> Inr (print_stats iterate sort_by stats)))"

section \<open>CheckText\<close>

text \<open>The benchmark that counts the tokens of a file that are not in the dictionary; \<open>Inr None\<close> is
  \<open>SkipWithError\<close>, otherwise the number printed.\<close>

definition CheckText ::
    "(string list \<Rightarrow> 'd result option) \<Rightarrow> (string list \<Rightarrow> 'd \<Rightarrow> string \<Rightarrow> bool result) \<Rightarrow>
     (string \<Rightarrow> string) \<Rightarrow> nat \<Rightarrow> u64 option result option" where
  "CheckText build lookup files iterations =
     (let words = read_lines files ''/usr/share/dict/words'';
          file_contents = read_full_file files ''/usr/share/dict/cracklib-small''
      in map_option (\<lambda>r. rbind r (\<lambda>dict.
           if words = [] \<or> file_contents = [] then Inr None
           else rbind (for_each (\<lambda>_. for_tokens (\<lambda>word numErrors.
                    rbind (lookup words dict word) (\<lambda>found.
                      Inr (if \<not> found then numErrors + 1 else numErrors))) file_contents 0)
                  [0..<iterations] 0)
                (\<lambda>numErrors. if iterations = 0 then Inl DivByZero
                             else Inr (Some (numErrors div of_nat iterations)))))
         (build words))"

section \<open>Lines\<close>

lemma fold_snoc [simp]: "fold (\<lambda>x out. out @ [x]) xs ys = ys @ xs"
  by (induction xs arbitrary: ys) simp_all

lemma getlines_line:
  assumes "newline \<notin> set l"
  shows "getlines (l @ newline # rest) = l # getlines rest"
proof -
  have "takeWhile (\<lambda>c. c \<noteq> newline) (l @ newline # rest) = l" using assms by (induction l) auto
  then show ?thesis by (subst getlines.simps) (simp add: Let_def)
qed

lemma getlines_lines:
  assumes "\<forall>l \<in> set ls. newline \<notin> set l"
  shows "getlines (concat (map (\<lambda>l. l @ [newline]) ls)) = ls"
  using assms by (induction ls) (simp_all add: getlines_line getlines.simps [of "[]"])

section \<open>Tokens\<close>

definition ascii :: "char \<Rightarrow> bool" where
  "ascii c \<longleftrightarrow> of_char c < (128 :: nat)"

definition delim :: "char \<Rightarrow> bool" where
  "delim c \<longleftrightarrow> c \<in> set DELIMITERS"

text \<open>The reference: maximal runs of characters that are not delimiters.\<close>

function words_of :: "string \<Rightarrow> string list" where
  "words_of s =
     (let r = dropWhile delim s
      in if r = [] then [] else takeWhile (\<lambda>c. \<not> delim c) r # words_of (dropWhile (\<lambda>c. \<not> delim c) r))"
  by pat_completeness auto
termination
proof (relation "measure length")
  fix s :: string and r
  assume r: "r = dropWhile delim s" "r \<noteq> []"
  then have "\<not> delim (hd r)" using hd_dropWhile by metis
  with r(2) have "length (dropWhile (\<lambda>c. \<not> delim c) r) < length r"
    by (cases r) (auto simp: length_dropWhile_le less_Suc_eq_le)
  with r(1) show "(dropWhile (\<lambda>c. \<not> delim c) r, s) \<in> measure length"
    using length_dropWhile_le [of delim s] by simp
qed simp

declare words_of.simps [simp del]

lemma char_index_ascii:
  assumes "ascii c"
  shows "char_index c = of_char c"
proof -
  have "int (of_char c) < 128" using assms by (simp add: ascii_def)
  then have "signed_take_bit 7 (int (of_char c)) = int (of_char c)"
    by (intro signed_take_bit_int_eq_self) simp_all
  then show ?thesis using \<open>int (of_char c) < 128\<close> by (simp add: char_index_def)
qed

lemma char_index_beyond:
  assumes "\<not> ascii c"
  shows "256 \<le> char_index c"
proof -
  define k where "k = int (of_char c)"
  have k: "128 \<le> k" "k < 256"
    using assms nat_of_char_less_256 [of c] by (simp_all add: ascii_def k_def)
  have "take_bit 8 (k + 128) = (k + 128) mod 256" by (simp add: take_bit_eq_mod)
  also have "\<dots> = (k - 128) mod 256" using mod_add_self2 [of "k - 128" 256] by (simp add: add.commute)
  also have "\<dots> = k - 128" using k by simp
  finally have "signed_take_bit 7 k = k - 256" by (simp add: signed_take_bit_eq_take_bit_shift)
  moreover have "(k - 256) mod 2 ^ 64 = k - 256 + 2 ^ 64" 
    using k mod_add_self2 [of "k - 256" "2 ^ 64"] by simp
  ultimately show ?thesis using k by (simp add: char_index_def flip: k_def)
qed

lemma mark_all:
  assumes "\<forall>c \<in> set cs. char_index c < length d"
  shows "\<exists>d'. for_each (\<lambda>c d. array_set d (char_index c) True) cs d = Inr d' \<and> length d' = length d
    \<and> (\<forall>i < length d. d' ! i \<longleftrightarrow> d ! i \<or> i \<in> char_index ` set cs)"
  using assms
proof (induction cs arbitrary: d)
  case (Cons c cs)
  from Cons.IH [of "d[char_index c := True]"] Cons.prems show ?case
    by (auto simp: nth_list_update_if)
qed simp

lemma delim_ascii: "delim c \<Longrightarrow> ascii c"
  by (auto simp: delim_def DELIMITERS_def ascii_def)

lemma is_dropped_get:
  "array_get is_dropped (char_index c) = (if ascii c then Inr (delim c) else Inl OutOfBounds)"
proof -
  have "\<forall>c \<in> set DELIMITERS. char_index c < length (replicate 256 False)"
    using delim_ascii by (auto simp: delim_def char_index_ascii)
  from mark_all [OF this] have d: "length is_dropped = 256"
      "\<forall>i < 256. is_dropped ! i \<longleftrightarrow> i \<in> char_index ` set DELIMITERS"
    by (auto simp: is_dropped_def)
  show ?thesis
  proof (cases "ascii c")
    case True
    then have "char_index c < 256" by (simp add: char_index_ascii)
    moreover have "char_index c \<in> char_index ` set DELIMITERS \<longleftrightarrow> delim c"
    proof
      assume "char_index c \<in> char_index ` set DELIMITERS"
      then obtain c' where "delim c'" "char_index c = char_index c'" by (auto simp: delim_def)
      with True delim_ascii show "delim c" by (simp add: char_index_ascii)
    qed (simp add: delim_def)
    ultimately show ?thesis using d True by simp
  next
    case False
    then show ?thesis using d(1) char_index_beyond [OF False] by simp
  qed
qed

text \<open>Where a scan stops, and when it leaves the table.\<close>

definition run_length :: "bool \<Rightarrow> string \<Rightarrow> nat" where
  "run_length b s = length (takeWhile (\<lambda>c. ascii c \<and> delim c = b) s)"

lemma scan_eq:
  "i \<le> length buf \<Longrightarrow> scan b buf i =
     (let j = i + run_length b (drop i buf)
      in if j < length buf \<and> \<not> ascii (buf ! j) then Inl OutOfBounds else Inr j)"
proof (induction b buf i rule: scan.induct)
  case (1 b buf i)
  show ?case
  proof (cases "i < length buf")
    case True
    then have "drop i buf = buf ! i # drop (Suc i) buf" by (simp add: Cons_nth_drop_Suc)
    then have run: "run_length b (drop i buf) =
        (if ascii (buf ! i) \<and> delim (buf ! i) = b then Suc (run_length b (drop (Suc i) buf)) else 0)"
      by (simp add: run_length_def)
    show ?thesis
    proof (cases "ascii (buf ! i) \<and> delim (buf ! i) = b")
      case go: True
      then have "scan b buf i = scan b buf (Suc i)" using True by (subst scan.simps) (simp add: is_dropped_get)
      then show ?thesis using "1.IH" [OF True, of b] go True run by (simp add: Let_def)
    next
      case False
      then show ?thesis using True run by (subst scan.simps) (auto simp: is_dropped_get Let_def)
    qed
  next
    case False
    then show ?thesis using "1.prems" by (subst scan.simps) (simp add: run_length_def Let_def)
  qed
qed

lemma drop_takeWhile: "drop (i + length (takeWhile P (drop i buf))) buf = dropWhile P (drop i buf)"
  by (metis add.commute drop_drop dropWhile_eq_drop)

lemma length_drop_takeWhile: "i \<le> length buf \<Longrightarrow> i + length (takeWhile P (drop i buf)) \<le> length buf"
  using length_takeWhile_le [of P "drop i buf"] by simp

text \<open>On text that is ASCII from the position on, a scan is \<open>takeWhile\<close>.\<close>

lemma scan_ascii:
  assumes "i \<le> length buf" and "\<forall>c \<in> set (drop i buf). ascii c"
  shows "scan b buf i = Inr (i + length (takeWhile (\<lambda>c. delim c = b) (drop i buf)))"
proof -
  have tw: "takeWhile (\<lambda>c. ascii c \<and> delim c = b) (drop i buf) = takeWhile (\<lambda>c. delim c = b) (drop i buf)"
    using assms(2) by (intro takeWhile_cong) auto
  have "ascii (buf ! j)" if "i \<le> j" "j < length buf" for j
  proof -
    have "buf ! j = drop i buf ! (j - i)" using that by simp
    moreover have "j - i < length (drop i buf)" using that by simp
    ultimately show ?thesis using assms(2) nth_mem by metis
  qed
  then show ?thesis using assms(1) by (simp add: scan_eq run_length_def tw Let_def)
qed

lemma get_next_ascii:
  assumes "i \<le> length buf" and "\<forall>c \<in> set (drop i buf). ascii c"
  shows "\<exists>j \<le> length buf. get_next buf i = Inr (takeWhile (\<lambda>c. \<not> delim c) (dropWhile delim (drop i buf)), j)
    \<and> drop j buf = dropWhile (\<lambda>c. \<not> delim c) (dropWhile delim (drop i buf))"
proof -
  define start where "start = i + length (takeWhile delim (drop i buf))"
  have start: "drop start buf = dropWhile delim (drop i buf)" "start \<le> length buf"
    using length_drop_takeWhile [OF assms(1)] by (simp_all add: start_def drop_takeWhile)
  have asc: "\<forall>c \<in> set (drop start buf). ascii c"
    using assms(2) by (auto simp: start(1) dest: set_dropWhileD)
  let ?j = "start + length (takeWhile (\<lambda>c. \<not> delim c) (drop start buf))"
  have "get_next buf i = Inr (takeWhile (\<lambda>c. \<not> delim c) (drop start buf), ?j)"
    using scan_ascii [OF assms, of True] scan_ascii [OF start(2) asc, of False]
    by (simp add: get_next_def start_def flip: takeWhile_eq_take)
  then show ?thesis
    using start drop_takeWhile [of start "\<lambda>c. \<not> delim c" buf] length_drop_takeWhile [OF start(2)] by auto
qed

lemma for_tokens_ascii:
  assumes "i \<le> length buf" and "\<forall>c \<in> set (drop i buf). ascii c"
  shows "for_tokens body buf i s = for_each body (words_of (drop i buf)) s"
  using assms
proof (induction "length buf - i" arbitrary: i s rule: less_induct)
  case less
  let ?r = "dropWhile delim (drop i buf)"
  obtain j where j: "get_next buf i = Inr (takeWhile (\<lambda>c. \<not> delim c) ?r, j)" "j \<le> length buf"
      "drop j buf = dropWhile (\<lambda>c. \<not> delim c) ?r"
    using get_next_ascii [OF less.prems] by blast
  show ?case
  proof (cases "?r = []")
    case True
    have "get_next buf i = Inr ([], j)" using j(1) unfolding True by simp
    then show ?thesis using True by (simp add: for_tokens.simps words_of.simps [of "drop i buf"] del: dropWhile_eq_Nil_conv)
  next
    case False
    then have "\<not> delim (hd ?r)" using hd_dropWhile by metis
    then have ne: "takeWhile (\<lambda>c. \<not> delim c) ?r \<noteq> []" using False by (cases ?r) auto
    have "i < length buf" "i < j" using get_next_advances [OF j(1) ne] by auto
    moreover have "\<forall>c \<in> set (drop j buf). ascii c"
      using less.prems(2) by (auto simp: j(3) dest!: set_dropWhileD)
    ultimately have "for_tokens body buf j t = for_each body (words_of (drop j buf)) t" for t
      using less.hyps j(2) by simp
    moreover have "for_tokens body buf i s = (case body (takeWhile (\<lambda>c. \<not> delim c) ?r) s of
        Inl e \<Rightarrow> Inl e | Inr s' \<Rightarrow> for_tokens body buf j s')"
      by (subst for_tokens.simps) (simp add: j(1) ne)
    moreover have "words_of (drop i buf) = takeWhile (\<lambda>c. \<not> delim c) ?r # words_of (drop j buf)"
      using False j(3) by (subst words_of.simps) (simp add: Let_def del: dropWhile_eq_Nil_conv)
    ultimately show ?thesis by (cases "body (takeWhile (\<lambda>c. \<not> delim c) ?r) s") simp_all
  qed
qed

text \<open>A character outside ASCII makes the tokenizer read outside its table.\<close>

lemma scan_beyond:
  assumes "scan b buf i = Inr j" and "i \<le> length buf" and "\<exists>c \<in> set (drop i buf). \<not> ascii c"
  shows "j < length buf \<and> (\<exists>c \<in> set (drop j buf). \<not> ascii c) \<and> ascii (buf ! j) \<and> delim (buf ! j) \<noteq> b"
proof -
  define P where "P = (\<lambda>c. ascii c \<and> delim c = b)"
  have j: "j = i + length (takeWhile P (drop i buf))" and stop: "j < length buf \<longrightarrow> ascii (buf ! j)"
    using assms(1,2) by (auto simp: scan_eq run_length_def P_def Let_def split: if_splits)
  have dj: "drop j buf = dropWhile P (drop i buf)" unfolding j by (rule drop_takeWhile)
  obtain c where c: "c \<in> set (drop i buf)" "\<not> ascii c" using assms(3) by blast
  have cj: "c \<in> set (drop j buf)"
  proof -
    have "c \<in> set (takeWhile P (drop i buf)) \<or> c \<in> set (dropWhile P (drop i buf))"
      using c(1) by (metis Un_iff set_append takeWhile_dropWhile_id)
    then show ?thesis using c(2) dj by (auto simp: P_def dest: set_takeWhileD)
  qed
  then have lt: "j < length buf" by (metis drop_all empty_iff empty_set not_le)
  then have "buf ! j = hd (dropWhile P (drop i buf))" unfolding dj [symmetric] by (simp add: hd_drop_conv_nth)
  moreover have "dropWhile P (drop i buf) \<noteq> []" using cj dj by (metis empty_iff empty_set)
  ultimately have "\<not> P (buf ! j)" using hd_dropWhile by metis
  then show ?thesis using lt cj c(2) stop by (auto simp: P_def)
qed

lemma scan_fails: "scan b buf i = Inl e \<Longrightarrow> i \<le> length buf \<Longrightarrow> e = OutOfBounds"
  by (simp add: scan_eq Let_def split: if_splits)

lemma get_next_beyond:
  assumes "i \<le> length buf" and "\<exists>c \<in> set (drop i buf). \<not> ascii c"
  shows "get_next buf i = Inl OutOfBounds \<or> (\<exists>w j. get_next buf i = Inr (w, j) \<and> w \<noteq> []
    \<and> j \<le> length buf \<and> (\<exists>c \<in> set (drop j buf). \<not> ascii c))"
proof (cases "scan True buf i")
  case (Inl e)
  then show ?thesis using scan_fails assms(1) by (simp add: get_next_def)
next
  case (Inr start)
  note st = scan_beyond [OF Inr assms]
  show ?thesis
  proof (cases "scan False buf start")
    case (Inl e)
    then show ?thesis using scan_fails st Inr by (simp add: get_next_def)
  next
    case j: (Inr j)
    have sb: "j < length buf \<and> (\<exists>c \<in> set (drop j buf). \<not> ascii c) \<and> ascii (buf ! j) \<and> delim (buf ! j) \<noteq> False"
      using scan_beyond [OF j] st by simp
    then have "start \<noteq> j" "start \<le> j" using st scan_bounds [OF j] by auto
    then have "take (j - start) (drop start buf) \<noteq> []" using st by simp
    then show ?thesis using Inr j sb by (auto simp: get_next_def)
  qed
qed

lemma for_tokens_beyond:
  assumes "i \<le> length buf" and "\<exists>c \<in> set (drop i buf). \<not> ascii c" and "\<And>w s. body w s = Inr (f w s)"
  shows "for_tokens body buf i s = Inl OutOfBounds"
  using assms(1,2)
proof (induction "length buf - i" arbitrary: i s rule: less_induct)
  case less
  from get_next_beyond [OF less.prems] show ?case
  proof (elim disjE exE conjE)
    assume "get_next buf i = Inl OutOfBounds"
    then show ?thesis by (simp add: for_tokens.simps)
  next
    fix w j assume j: "get_next buf i = Inr (w, j)" "w \<noteq> []" "j \<le> length buf" "\<exists>c \<in> set (drop j buf). \<not> ascii c"
    have "i < length buf" "i < j" using get_next_advances [OF j(1,2)] by auto
    then have "for_tokens body buf j t = Inl OutOfBounds" for t using less.hyps j(3,4) by simp
    then show ?thesis using j(1,2) by (simp add: for_tokens.simps [of body buf i] assms(3))
  qed
qed

section \<open>Counting errors\<close>

text \<open>What the statistics hold after the errors \<open>es\<close>.\<close>

definition stats_of :: "string list \<Rightarrow> statistics \<Rightarrow> bool" where
  "stats_of es s \<longleftrightarrow> num_errors s = of_nat (length es) \<and> distinct (map fst (errors s))
     \<and> (\<forall>w. map_of (errors s) w = (if w \<in> set es then Some (int (count_list es w)) else None))"

lemma add_error_ok:
  assumes "stats_of es s" and "count_list es w < 2 ^ 31 - 1"
  shows "\<exists>s'. add_error w s = Inr s' \<and> stats_of (es @ [w]) s'"
proof -
  let ?n = "case map_of (errors s) w of None \<Rightarrow> 0 | Some n \<Rightarrow> n"
  have n: "?n = int (count_list es w)" using assms(1) by (auto simp: stats_of_def count_list_0_iff)
  then have "?n \<noteq> 2 ^ 31 - 1" using assms(2) by simp
  moreover have "stats_of (es @ [w]) \<lparr>num_errors = num_errors s + 1, errors = AList.update w (?n + 1) (errors s)\<rparr>"
    using assms(1) unfolding n by (auto simp: stats_of_def update_conv' distinct_update)
  ultimately show ?thesis by (simp add: add_error_def Let_def)
qed

lemma add_errors_ok:
  assumes "stats_of es s" and "length es + length es' < 2 ^ 31"
  shows "\<exists>s'. for_each add_error es' s = Inr s' \<and> stats_of (es @ es') s'"
  using assms
proof (induction es' arbitrary: es s)
  case (Cons w es')
  have "count_list es w \<le> length es" by (rule count_le_length)
  then have "count_list es w < 2 ^ 31 - 1" using Cons.prems(2) by simp
  from add_error_ok [OF Cons.prems(1) this] obtain s' where
    s': "add_error w s = Inr s'" "stats_of (es @ [w]) s'" by blast
  from Cons.IH [OF s'(2)] Cons.prems(2) s'(1) show ?case by auto
qed auto

text \<open>The report: the ten most frequent errors, most frequent first.\<close>

definition top_of :: "string list \<Rightarrow> (int \<times> string) list \<Rightarrow> bool" where
  "top_of es report \<longleftrightarrow> length report = min 10 (card (set es)) \<and> distinct (map snd report)
     \<and> sorted_wrt (\<ge>) (map fst report)
     \<and> (\<forall>(f, w) \<in> set report. w \<in> set es \<and> f = int (count_list es w))
     \<and> (\<forall>w \<in> set es - snd ` set report. \<forall>(f, _) \<in> set report. int (count_list es w) \<le> f)"

lemma stats_entries:
  assumes "stats_of es s"
  shows "set (errors s) = (\<lambda>w. (w, int (count_list es w))) ` set es" and "length (errors s) = card (set es)"
proof -
  have dist: "distinct (map fst (errors s))" using assms by (simp add: stats_of_def)
  have "(w, n) \<in> set (errors s) \<longleftrightarrow> w \<in> set es \<and> n = int (count_list es w)" for w n
    using map_of_eq_Some_iff [OF dist, of w n] assms by (auto simp: stats_of_def split: if_splits)
  then show set: "set (errors s) = (\<lambda>w. (w, int (count_list es w))) ` set es" by auto
  have "length (errors s) = card (set (errors s))" using dist by (metis distinct_card distinct_map)
  also have "\<dots> = card (set es)" unfolding set by (intro card_image inj_onI) simp
  finally show "length (errors s) = card (set es)" .
qed

lemma top_of_sorted:
  assumes len: "length xs = card (set es)" and set: "set xs = (\<lambda>w. (w, int (count_list es w))) ` set es"
    and dist: "distinct (map fst xs)" and srt: "sorted_wrt (\<lambda>a b. snd a \<ge> snd b) xs"
  shows "top_of es (map (\<lambda>(w, f). (f, w)) (take (min 10 (card (set es))) xs))"
    (is "top_of es (map _ (take ?n xs))")
  unfolding top_of_def
proof (intro conjI)
  show "length (map (\<lambda>(w, f). (f, w)) (take ?n xs)) = ?n" by (simp add: len)
  have snds: "map snd (map (\<lambda>(w, f). (f, w)) (take ?n xs)) = take ?n (map fst xs)"
    by (simp add: take_map case_prod_beta comp_def)
  show "distinct (map snd (map (\<lambda>(w, f). (f, w)) (take ?n xs)))" unfolding snds using dist by simp
  have "sorted_wrt (\<lambda>a b. snd a \<ge> snd b) (take ?n xs)" using srt by (rule sorted_wrt_take)
  then show "sorted_wrt (\<ge>) (map fst (map (\<lambda>(w, f). (f, w)) (take ?n xs)))"
    by (simp add: sorted_wrt_map case_prod_beta)
  show "\<forall>(f, w) \<in> set (map (\<lambda>(w, f). (f, w)) (take ?n xs)). w \<in> set es \<and> f = int (count_list es w)"
    using set set_take_subset [of ?n xs] by fastforce
  show "\<forall>w \<in> set es - snd ` set (map (\<lambda>(w, f). (f, w)) (take ?n xs)).
      \<forall>(f, _) \<in> set (map (\<lambda>(w, f). (f, w)) (take ?n xs)). int (count_list es w) \<le> f"
  proof (intro ballI)
    fix w p
    assume w: "w \<in> set es - snd ` set (map (\<lambda>(w, f). (f, w)) (take ?n xs))"
      and p: "p \<in> set (map (\<lambda>(w, f). (f, w)) (take ?n xs))"
    obtain f w' where f: "p = (f, w')" "(w', f) \<in> set (take ?n xs)" using p by auto
    have "(w, int (count_list es w)) \<in> set xs" using w set by simp
    moreover have "(w, int (count_list es w)) \<notin> set (take ?n xs)" using w by force
    ultimately have "(w, int (count_list es w)) \<in> set (drop ?n xs)"
      by (metis Un_iff append_take_drop_id set_append)
    then show "case p of (f, _) \<Rightarrow> int (count_list es w) \<le> f"
      using srt f sorted_wrt_append [of "\<lambda>a b. snd a \<ge> snd b" "take ?n xs" "drop ?n xs"] by fastforce
  qed
qed

lemma print_stats_ok:
  assumes "stats_of es s" and "length es < 2 ^ 31"
    and iterate: "\<And>xs. mset (iterate xs) = mset xs"
    and sort: "\<And>cmp xs. mset (sort_by cmp xs) = mset xs"
    and sorted: "\<And>xs. sorted_wrt (\<lambda>a b. \<not> more_frequent b a) (sort_by more_frequent xs)"
  shows "\<exists>report. print_stats iterate sort_by s = (of_nat (length es), report) \<and> top_of es report"
proof -
  define by_freq where "by_freq = sort_by more_frequent (iterate (errors s))"
  have ms: "mset by_freq = mset (errors s)" by (simp add: by_freq_def sort iterate)
  have len: "length by_freq = card (set es)"
    using stats_entries(2) [OF assms(1)] mset_eq_length [OF ms] by simp
  have set: "set by_freq = (\<lambda>w. (w, int (count_list es w))) ` set es"
    using stats_entries(1) [OF assms(1)] mset_eq_setD [OF ms] by simp
  have dist: "distinct (map fst by_freq)"
  proof -
    have "mset (map fst by_freq) = mset (map fst (errors s))" using ms by simp
    then show ?thesis using assms(1) unfolding stats_of_def by (metis mset_eq_imp_distinct_iff)
  qed
  have srt: "sorted_wrt (\<lambda>a b. snd a \<ge> snd b) by_freq"
    using sorted [of "iterate (errors s)"] by (simp add: by_freq_def more_frequent_def not_less)
  let ?n = "min 10 (card (set es))"
  have "card (set es) < 2 ^ 31" using card_length [of es] assms(2) by linarith
  then have "signed_take_bit 31 (int (length by_freq)) = int (length by_freq)"
    by (intro signed_take_bit_int_eq_self) (simp_all add: len)
  then have "nat (min 10 (signed_take_bit 31 (int (length by_freq)))) = ?n" by (simp add: len)
  then have "print_stats iterate sort_by s = (of_nat (length es), map (\<lambda>(w, f). (f, w)) (take ?n by_freq))"
    using assms(1) by (simp add: print_stats_def stats_of_def Let_def flip: by_freq_def)
  moreover have "top_of es (map (\<lambda>(w, f). (f, w)) (take ?n by_freq))"
    using top_of_sorted [OF len set dist srt] .
  ultimately show ?thesis by blast
qed

section \<open>The tokens of a text\<close>

lemma concat_words_of: "concat (words_of s) = filter (\<lambda>c. \<not> delim c) s"
proof (induction s rule: words_of.induct)
  case (1 s)
  let ?r = "dropWhile delim s"
  have drop: "filter (\<lambda>c. \<not> delim c) (dropWhile delim s) = filter (\<lambda>c. \<not> delim c) s" for s :: string
    by (induction s) auto
  have split: "filter (\<lambda>c. \<not> delim c) r =
      takeWhile (\<lambda>c. \<not> delim c) r @ filter (\<lambda>c. \<not> delim c) (dropWhile (\<lambda>c. \<not> delim c) r)" for r :: string
    by (induction r) auto
  show ?case
  proof (cases "?r = []")
    case True
    then have "filter (\<lambda>c. \<not> delim c) s = []" using drop [of s] by (simp del: dropWhile_eq_Nil_conv)
    then show ?thesis using True unfolding words_of.simps [of s] Let_def by (simp del: dropWhile_eq_Nil_conv)
  next
    case False
    then show ?thesis using "1.IH" [OF refl False] drop [of s] split [of ?r]
      unfolding words_of.simps [of s] Let_def by (simp del: dropWhile_eq_Nil_conv)
  qed
qed

lemma words_of_token: "w \<in> set (words_of s) \<Longrightarrow> w \<noteq> [] \<and> (\<forall>c \<in> set w. \<not> delim c)"
proof (induction s rule: words_of.induct)
  case (1 s)
  let ?r = "dropWhile delim s"
  show ?case
  proof (cases "?r = []")
    case True
    then show ?thesis using "1.prems" unfolding words_of.simps [of s] Let_def by (simp del: dropWhile_eq_Nil_conv)
  next
    case False
    then have "\<not> delim (hd ?r)" using hd_dropWhile by metis
    then have "takeWhile (\<lambda>c. \<not> delim c) ?r \<noteq> []" using False by (cases ?r) auto
    moreover have "w = takeWhile (\<lambda>c. \<not> delim c) ?r \<or> w \<in> set (words_of (dropWhile (\<lambda>c. \<not> delim c) ?r))"
      using "1.prems" False unfolding words_of.simps [of s] Let_def by (simp del: dropWhile_eq_Nil_conv)
    moreover have "\<forall>c \<in> set (takeWhile (\<lambda>c. \<not> delim c) ?r). \<not> delim c" using set_takeWhileD by metis
    ultimately show ?thesis using "1.IH" [OF refl False] by metis
  qed
qed

lemma words_of_undelimited:
  assumes "\<forall>c \<in> set s. \<not> delim c" and "s \<noteq> []"
  shows "words_of s = [s]"
proof -
  have dw: "dropWhile delim s = s" using assms by (cases s) auto
  have tw: "takeWhile (\<lambda>c. \<not> delim c) s = s" "dropWhile (\<lambda>c. \<not> delim c) s = []"
    using assms(1) by (simp_all add: takeWhile_eq_all_conv)
  have "words_of [] = []" by (simp add: words_of.simps)
  then show ?thesis using assms(2) unfolding words_of.simps [of s] dw Let_def tw by simp
qed

lemma newline_no_delim: "\<not> delim newline"
  by (simp add: delim_def DELIMITERS_def)

text \<open>What the spell checker is to report of a text.\<close>

definition misspelled :: "string set \<Rightarrow> string list \<Rightarrow> string list" where
  "misspelled dict ws = filter (\<lambda>w. w \<notin> dict \<and> map tolower w \<notin> dict) ws"

lemma check_lines_ok:
  assumes "\<forall>line \<in> set ls. \<forall>c \<in> set line. ascii c"
  shows "check_lines (v0_Dictionary words) ls s =
    for_each add_error (misspelled (set words) (concat (map words_of ls))) s"
proof -
  have "check_lines (v0_Dictionary words) ls s =
      for_each (\<lambda>line. for_each (check_word (v0_Dictionary words)) (words_of line)) ls s"
    unfolding check_lines_def
  proof (rule for_each_cong)
    fix line t assume "line \<in> set ls"
    then show "for_tokens (check_word (v0_Dictionary words)) line 0 t =
        for_each (check_word (v0_Dictionary words)) (words_of line) t"
      using for_tokens_ascii [of 0 line] assms by simp
  qed
  also have "\<dots> = for_each add_error (misspelled (set words) (concat (map words_of ls))) s"
    unfolding for_each_concat misspelled_def
    by (rule for_each_filter) (simp add: check_word_def v0_in_dictionary_def v0_Dictionary_def)
  finally show ?thesis .
qed

lemma length_le_concat: "\<forall>w \<in> set ws. w \<noteq> [] \<Longrightarrow> length ws \<le> length (concat ws)"
  by (induction ws) (auto simp: Suc_le_eq add_pos_nonneg less_Suc_eq_le [symmetric] add_strict_increasing)

section \<open>Counting unknown tokens\<close>

context dictionary
begin

lemma count_unknown:
  assumes "\<And>word. lookup words d word = Inr (word \<in> set words)"
  shows "for_each (\<lambda>word n. rbind (lookup words d word) (\<lambda>found. Inr (if \<not> found then n + 1 else n))) ws (n :: u64) =
    Inr (n + of_nat (length (filter (\<lambda>w. w \<notin> set words) ws)))"
  by (induction ws arbitrary: n) (simp_all add: assms)

lemma check_text_counts:
  assumes "words = read_lines files ''/usr/share/dict/words''"
    and "contents = files ''/usr/share/dict/cracklib-small''"
    and "words \<noteq> []" and "contents \<noteq> []" and "length words < 2 ^ 50" and "\<forall>c \<in> set contents. ascii c"
    and "0 < n" and "n * length contents < 2 ^ 64"
  shows "CheckText build lookup files n =
    Some (Inr (Some (of_nat (length (filter (\<lambda>w. w \<notin> set words) (words_of contents))))))"
proof -
  obtain d where d: "build words = Some (Inr d)" "\<And>word. lookup words d word = Inr (word \<in> set words)"
    using lookup_iff [OF assms(5)] by auto
  let ?k = "length (filter (\<lambda>w. w \<notin> set words) (words_of contents))"
  let ?body = "\<lambda>word numErrors. rbind (lookup words d word) (\<lambda>found.
      Inr (if \<not> found then numErrors + 1 else numErrors))"
  have turn: "for_tokens ?body contents 0 t = Inr (t + of_nat ?k :: u64)" for t
    using for_tokens_ascii [of 0 contents ?body t] assms(6) count_unknown [OF d(2)] by simp
  have loop: "for_each (\<lambda>_. for_tokens ?body contents 0) [0..<m] (0 :: u64) = Inr (of_nat (m * ?k))" for m
    by (induction m) (simp_all add: for_each_append turn algebra_simps)
  have "?k \<le> length (words_of contents)" by (rule length_filter_le)
  also have "\<dots> \<le> length (concat (words_of contents))"
    by (rule length_le_concat) (use words_of_token in auto)
  also have "\<dots> \<le> length contents" unfolding concat_words_of by (rule length_filter_le)
  finally have k: "?k \<le> length contents" .
  have "of_nat (n * ?k) div of_nat n = (of_nat ?k :: u64)"
  proof (rule word_unat_eq_iff [THEN iffD2])
    have b: "n * ?k < 2 ^ 64" using mult_le_mono2 [OF k, of n] assms(8) by linarith
    have n: "n < 2 ^ 64"
      using assms(4,8) by (metis Suc_leI length_greater_0_conv less_le_trans mult.right_neutral mult_le_mono2 not_le One_nat_def)
    have kk: "?k < 2 ^ 64" using b assms(7) by (metis le_less_trans mult.commute mult.right_neutral mult_le_mono2 Suc_leI One_nat_def)
    show "unat (of_nat (n * ?k) div of_nat n :: u64) = unat (of_nat ?k :: u64)"
      using b n kk assms(7) by (simp add: unat_div_distrib unat_of_nat del: of_nat_mult)
  qed
  then show ?thesis
    using d(1) loop [of n] assms(1-4,7) by (simp add: CheckText_def read_full_file_def Let_def)
qed

end

section \<open>Properties\<close>

text \<open>On ASCII text the loop over \<open>get_next\<close> ends and visits the maximal runs of characters that
  are not delimiters, in order: every token is non-empty and free of delimiters, and the tokens
  together are the text without its delimiters.\<close>

theorem tokenizer_splits:
  assumes "\<forall>c \<in> set buf. ascii c"
  shows "for_tokens body buf 0 s = for_each body (words_of buf) s
    \<and> concat (words_of buf) = filter (\<lambda>c. \<not> delim c) buf
    \<and> (\<forall>w \<in> set (words_of buf). w \<noteq> [] \<and> (\<forall>c \<in> set w. \<not> delim c))"
  using for_tokens_ascii [of 0 buf body s] assms concat_words_of [of buf] words_of_token [of _ buf] by simp

text \<open>C39. A character outside ASCII is a negative \<open>char\<close> and an index outside the table of delimiters:
  tokenizing any text that has one reads out of bounds.\<close>

theorem tokenizer_beyond_ascii:
  assumes "\<exists>c \<in> set buf. \<not> ascii c"
  shows "for_tokens (\<lambda>w s. Inr (f w s)) buf 0 s = Inl OutOfBounds"
  using for_tokens_beyond [of 0 buf "\<lambda>w s. Inr (f w s)" f s] assms by simp

theorem tokenizer_beyond_ascii_witness:
  "for_tokens (\<lambda>w n. Inr (n + 1 :: nat)) [CHR ''a'', CHR 0xE9] 0 0 = Inl OutOfBounds"
proof -
  have "\<exists>c \<in> set [CHR ''a'', CHR 0xE9]. \<not> ascii c" by (simp add: ascii_def)
  from tokenizer_beyond_ascii [OF this] show ?thesis .
qed

text \<open>C38. The spell checker, end to end: without enough arguments it reports its usage; on an ASCII
  input it terminates and prints the number of words that are in the dictionary neither as they
  are nor in lower case, and the ten most frequent of them, most frequent first.\<close>

theorem spellchecker_reports:
  assumes "\<And>xs. mset (iterate xs) = mset xs"
    and "\<And>cmp xs. mset (sort_by cmp xs) = mset xs"
    and "\<And>xs. sorted_wrt (\<lambda>a b. \<not> more_frequent b a) (sort_by more_frequent xs)"
    and "\<forall>line \<in> set (getlines (files input)). \<forall>c \<in> set line. ascii c"
    and "es = misspelled (set (getlines (files dict))) (concat (map words_of (getlines (files input))))"
    and "length es < 2 ^ 31"
  shows "spellchecker_main iterate sort_by files [prog, dict] = Inl Usage
    \<and> (\<exists>report. spellchecker_main iterate sort_by files [prog, dict, input] = Inr (of_nat (length es), report)
         \<and> top_of es report)"
proof -
  have "stats_of [] Statistics" by (simp add: stats_of_def Statistics_def)
  from add_errors_ok [OF this, of es] assms(6) obtain s where
    s: "for_each add_error es Statistics = Inr s" "stats_of es s" by auto
  obtain report where "print_stats iterate sort_by s = (of_nat (length es), report)" "top_of es report"
    using print_stats_ok [where iterate = iterate and sort_by = sort_by, OF s(2) assms(6)] assms(1-3) by blast
  moreover have "check_lines (v0_Dictionary (load_dictionary files dict)) (getlines (files input)) Statistics = Inr s"
    using check_lines_ok [OF assms(4), of "getlines (files dict)" Statistics] s(1) assms(5)
    by (simp add: load_dictionary_def)
  ultimately show ?thesis by (simp add: spellchecker_main_def)
qed

theorem spellchecker_reports_witness:
  "\<exists>report. spellchecker_main id (\<lambda>cmp xs. rev (sort_key snd xs)) (\<lambda>p. if p = ''d'' then ''the'' else ''The cat'')
      [''spell'', ''d'', ''i''] = Inr (1, report) \<and> top_of [''cat''] report"
proof -
  let ?files = "\<lambda>p. if p = ''d'' then ''the'' else ''The cat''"
  have l: "getlines (?files ''d'') = [''the'']" "getlines (?files ''i'') = [''The cat'']"
    by (simp_all add: getlines.simps)
  have w: "words_of ''The cat'' = [''The'', ''cat'']" by (simp add: words_of.simps delim_def DELIMITERS_def)
  have low: "tolower CHR ''T'' = CHR ''t''" "tolower CHR ''h'' = CHR ''h''" "tolower CHR ''e'' = CHR ''e''"
    "tolower CHR ''c'' = CHR ''c''"
    by code_simp+
  have es: "[''cat''] = misspelled (set (getlines (?files ''d''))) (concat (map words_of (getlines (?files ''i''))))"
    unfolding l by (simp add: w misspelled_def low)
  have sorted: "sorted_wrt (\<lambda>a b. \<not> more_frequent b a) (rev (sort_key snd xs))" for xs :: "(string \<times> int) list"
    using sorted_sort_key [of snd xs]
    by (simp add: sorted_wrt_rev more_frequent_def not_less sorted_wrt_map [symmetric])
  have "\<forall>line \<in> set (getlines (?files ''i'')). \<forall>c \<in> set line. ascii c" unfolding l by (simp add: ascii_def)
  from spellchecker_reports [where iterate = id and sort_by = "\<lambda>cmp xs. rev (sort_key snd xs)" and files = ?files
      and input = "''i''" and dict = "''d''" and prog = "''spell''", OF _ _ _ this es] sorted
  show ?thesis by simp
qed

text \<open>\<open>CheckText\<close> prints the number of tokens of the text that are not words of the dictionary,
  whatever the number of iterations. A newline is no delimiter: a text that separates its words by
  newlines only is a single token.\<close>

theorem check_text_result:
  assumes "words = read_lines files ''/usr/share/dict/words''"
    and "contents = files ''/usr/share/dict/cracklib-small''"
    and "words \<noteq> []" and "contents \<noteq> []" and "length words < 2 ^ 50" and "\<forall>c \<in> set contents. ascii c"
    and "0 < n" and "n * length contents < 2 ^ 64"
  shows "CheckText v0_build v0_lookup files n =
      Some (Inr (Some (of_nat (length (filter (\<lambda>w. w \<notin> set words) (words_of contents))))))
    \<and> CheckText (v4_Dictionary hashf) (v4_in_dictionary hashf) files n = CheckText v0_build v0_lookup files n
    \<and> (contents = concat (map (\<lambda>l. l @ [newline]) ls) \<and> (\<forall>l \<in> set ls. \<forall>c \<in> set l. \<not> delim c) \<longrightarrow>
         words_of contents = [contents])"
  using d0.check_text_counts [OF assms] d4.check_text_counts [OF assms] assms(4)
  by (auto simp: newline_no_delim intro!: words_of_undelimited)

end
