(* ===== verification/Swiss_Groups.thy ===== *)
theory Swiss_Groups
  imports Workshop_Prelude
begin

text \<open>
  The control bytes of the Swiss table behind version 5 of the dictionary
  (\<open>absl/container/internal/raw_hash_set.h\<close>): bit masks, the group operations that look at 16 or 8
  control bytes at once, and the interface \<open>control_group\<close> that the table relies on. The SSE2 group,
  its SSSE3 variants and the portable group are instances of the interface.
\<close>

section \<open>Counting bits\<close>

text \<open>\<open>absl/numeric/bits.h\<close>, by the definition of the functions.\<close>

definition countr_zero :: "'a::len word \<Rightarrow> nat" where
  "countr_zero x = length (takeWhile (\<lambda>i. \<not> bit x i) [0..<LENGTH('a)])"

definition countl_zero :: "'a::len word \<Rightarrow> nat" where
  "countl_zero x = length (takeWhile (\<lambda>i. \<not> bit x i) (rev [0..<LENGTH('a)]))"

definition bit_width :: "'a::len word \<Rightarrow> nat" where
  "bit_width x = LENGTH('a) - countl_zero x"

lemma word_bit_exists: "x \<noteq> 0 \<Longrightarrow> \<exists>i < LENGTH('a). bit x i" for x :: "'a::len word"
  using bit_imp_le_length [of x] by (metis bit_0_eq bit_eq_iff bot_apply bot_bool_def)

lemma countr_zero_lowest:
  fixes x :: "'a::len word"
  assumes "x \<noteq> 0"
  shows "countr_zero x < LENGTH('a)" "bit x (countr_zero x)" "\<And>i. i < countr_zero x \<Longrightarrow> \<not> bit x i"
proof -
  let ?w = "takeWhile (\<lambda>i. \<not> bit x i) [0..<LENGTH('a)]"
  obtain i where i: "i < LENGTH('a)" "bit x i" using word_bit_exists [OF assms] by blast
  then have "\<exists>j \<in> set [0..<LENGTH('a)]. \<not> (\<not> bit x j)" by auto
  then have "?w \<noteq> [0..<LENGTH('a)]" by (metis takeWhile_eq_all_conv)
  then show lt: "countr_zero x < LENGTH('a)"
    unfolding countr_zero_def
    by (metis diff_zero le_neq_implies_less length_takeWhile_le length_upt takeWhile_eq_take take_all_iff le_refl)
  then show "bit x (countr_zero x)"
    unfolding countr_zero_def using nth_length_takeWhile [of "\<lambda>i. \<not> bit x i" "[0..<LENGTH('a)]"] by simp
  show "\<not> bit x i" if "i < countr_zero x" for i
  proof -
    have "?w ! i = i" using that lt by (simp add: countr_zero_def takeWhile_nth)
    moreover have "?w ! i \<in> set ?w" using that by (simp add: countr_zero_def)
    ultimately show ?thesis using set_takeWhileD by fastforce
  qed
qed

lemma countr_zero_unique:
  fixes x :: "'a::len word"
  assumes "bit x k" "\<And>i. i < k \<Longrightarrow> \<not> bit x i"
  shows "countr_zero x = k"
proof -
  have "x \<noteq> 0" using assms(1) by auto
  from countr_zero_lowest [OF this] assms show ?thesis by (meson linorder_neqE_nat)
qed

lemma bit_width_highest:
  fixes x :: "'a::len word"
  assumes "bit x k" "\<And>i. k < i \<Longrightarrow> \<not> bit x i"
  shows "bit_width x = Suc k" "countl_zero x = LENGTH('a) - Suc k"
proof -
  have k: "k < LENGTH('a)" using assms(1) bit_imp_le_length by blast
  have split: "rev [0..<LENGTH('a)] = rev [Suc k..<LENGTH('a)] @ k # rev [0..<k]"
  proof -
    have "[0..<LENGTH('a)] = [0..<k] @ [k..<LENGTH('a)]"
      using upt_add_eq_append [of 0 k "LENGTH('a) - k"] k by simp
    then show ?thesis using k by (simp add: upt_conv_Cons)
  qed
  have "takeWhile (\<lambda>i. \<not> bit x i) (rev [0..<LENGTH('a)]) = rev [Suc k..<LENGTH('a)]"
    unfolding split using assms by (subst takeWhile_append2) auto
  then show c: "countl_zero x = LENGTH('a) - Suc k" by (simp add: countl_zero_def)
  then show "bit_width x = Suc k" using k by (simp add: bit_width_def)
qed


section \<open>Bit masks\<close>

text \<open>The methods of \<open>NonIterableBitMask<T, SignificantBits, Shift>\<close> as an object, since the two
  group implementations use different \<open>T\<close>.\<close>

record bit_mask =
  mask_nonzero :: bool
  LowestBitSet :: nat
  HighestBitSet :: nat
  TrailingZeros :: nat
  LeadingZeros :: nat

definition NonIterableBitMask :: "nat \<Rightarrow> nat \<Rightarrow> 'a::len word \<Rightarrow> bit_mask" where
  "NonIterableBitMask SignificantBits Shift msk =
     \<lparr>mask_nonzero = (msk \<noteq> 0),
      LowestBitSet = drop_bit Shift (countr_zero msk),
      HighestBitSet = drop_bit Shift (bit_width msk - 1),
      TrailingZeros = drop_bit Shift (countr_zero msk),
      LeadingZeros =
        (let total_significant_bits = push_bit Shift SignificantBits;
             extra_bits = LENGTH('a) - total_significant_bits
         in drop_bit Shift (countl_zero (push_bit extra_bits msk)))\<rparr>"

text \<open>Clearing the lowest set bit, the step of the iterator of \<open>BitMask\<close>.\<close>

lemma bit_clear_lowest:
  fixes m :: "'a::len word"
  assumes "m \<noteq> 0"
  shows "bit (m AND (m - 1)) i \<longleftrightarrow> bit m i \<and> i \<noteq> countr_zero m"
proof -
  let ?k = "countr_zero m"
  note low = countr_zero_lowest [OF assms]
  let ?u = "unset_bit ?k m"
  have "m = ?u OR 2 ^ ?k"
    by (rule bit_word_eqI) (use low in \<open>auto simp: bit_simps\<close>)
  moreover have "?u OR 2 ^ ?k = ?u + 2 ^ ?k"
    by (rule disjunctive_add [symmetric]) (auto simp: bit_simps)
  moreover have "?u OR mask ?k = ?u + mask ?k"
    by (rule disjunctive_add [symmetric]) (use low in \<open>auto simp: bit_simps\<close>)
  ultimately have "m - 1 = ?u OR mask ?k" by (simp add: mask_eq_exp_minus_1)
  then have "bit (m - 1) i \<longleftrightarrow> bit m i \<and> i \<noteq> ?k \<or> i < ?k \<and> i < LENGTH('a)"
    using bit_imp_le_length by (auto simp: bit_simps)
  then show ?thesis using low by (auto simp: bit_simps)
qed

lemma clear_lowest_less: "m \<noteq> 0 \<Longrightarrow> unat (m AND (m - 1)) < unat m" for m :: "'a::len word"
proof -
  assume m: "m \<noteq> 0"
  have "m AND (m - 1) \<noteq> m"
    using bit_clear_lowest [OF m, of "countr_zero m"] countr_zero_lowest(2) [OF m] by metis
  moreover have "m AND (m - 1) \<le> m" by (rule word_and_le2)
  ultimately show ?thesis by (metis order_le_less word_less_nat_alt)
qed

text \<open>\<open>for (uint32_t i : BitMask(mask))\<close>: the values of \<open>i\<close>.\<close>

function mask_iter :: "nat \<Rightarrow> 'a::len word \<Rightarrow> nat list" where
  "mask_iter Shift msk =
     (if msk = 0 then [] else drop_bit Shift (countr_zero msk) # mask_iter Shift (msk AND (msk - 1)))"
  by pat_completeness auto
termination
  by (relation "measure (\<lambda>(s, m). unat m)") (auto simp: clear_lowest_less)

declare mask_iter.simps [simp del]

lemma set_mask_iter: "set (mask_iter s m) = drop_bit s ` {i. bit m i}"
proof (induction s m rule: mask_iter.induct)
  case (1 s m)
  show ?case
  proof (cases "m = 0")
    case True
    then show ?thesis by (simp add: mask_iter.simps)
  next
    case False
    have "{i. bit m i} = insert (countr_zero m) {i. bit (m AND (m - 1)) i}"
      using bit_clear_lowest [OF False] countr_zero_lowest(2) [OF False] by auto
    then show ?thesis using "1.IH" [OF False] False by (simp add: mask_iter.simps [of s m])
  qed
qed

text \<open>The mask \<open>bm\<close> stands for the positions below \<open>W\<close> with property \<open>P\<close>.\<close>

definition mask_of :: "nat \<Rightarrow> (nat \<Rightarrow> bool) \<Rightarrow> bit_mask \<Rightarrow> bool" where
  "mask_of W P bm \<longleftrightarrow>
     (mask_nonzero bm \<longleftrightarrow> (\<exists>i < W. P i)) \<and>
     (mask_nonzero bm \<longrightarrow>
        LowestBitSet bm < W \<and> P (LowestBitSet bm) \<and> (\<forall>j < LowestBitSet bm. \<not> P j) \<and>
        HighestBitSet bm < W \<and> P (HighestBitSet bm) \<and> (\<forall>j. HighestBitSet bm < j \<and> j < W \<longrightarrow> \<not> P j) \<and>
        TrailingZeros bm = LowestBitSet bm \<and> LeadingZeros bm = W - 1 - HighestBitSet bm)"


lemma mask_of_mono:
  assumes eq: "\<And>i. i < W \<Longrightarrow> P i \<longleftrightarrow> Q i" and m: "mask_of W P bm"
  shows "mask_of W Q bm"
proof -
  have ex: "mask_nonzero bm \<longleftrightarrow> (\<exists>i < W. Q i)" using m eq unfolding mask_of_def by blast
  have "Q (LowestBitSet bm) \<and> (\<forall>j < LowestBitSet bm. \<not> Q j) \<and> Q (HighestBitSet bm)
      \<and> (\<forall>j. HighestBitSet bm < j \<and> j < W \<longrightarrow> \<not> Q j)" if nz: "mask_nonzero bm"
  proof -
    have "LowestBitSet bm < W" "P (LowestBitSet bm)" "\<And>j. j < LowestBitSet bm \<Longrightarrow> \<not> P j"
      "HighestBitSet bm < W" "P (HighestBitSet bm)" "\<And>j. HighestBitSet bm < j \<Longrightarrow> j < W \<Longrightarrow> \<not> P j"
      using m nz by (auto simp: mask_of_def)
    note P = this
    have "\<not> Q j" if "j < LowestBitSet bm" for j using P(1,3) eq [of j] that by simp
    moreover have "\<not> Q j" if "HighestBitSet bm < j" "j < W" for j using P(6) eq [of j] that by simp
    ultimately show ?thesis using P(1,2,4,5) eq [of "LowestBitSet bm"] eq [of "HighestBitSet bm"] by blast
  qed
  moreover have "mask_nonzero bm \<longrightarrow> LowestBitSet bm < W \<and> HighestBitSet bm < W \<and>
      TrailingZeros bm = LowestBitSet bm \<and> LeadingZeros bm = W - 1 - HighestBitSet bm"
    using m unfolding mask_of_def by blast
  ultimately show ?thesis unfolding mask_of_def using ex by blast
qed

lemma NonIterableBitMask_mask_of:
  fixes m :: "'a::len word"
  assumes bits: "\<And>n. bit m n \<longleftrightarrow> n < W * 2 ^ s \<and> n mod 2 ^ s = 2 ^ s - 1 \<and> P (n div 2 ^ s)"
    and len: "W * 2 ^ s \<le> LENGTH('a)"
  shows "mask_of W P (NonIterableBitMask W s m)"
proof -
  let ?S = "2 ^ s :: nat"
  define r where "r = ?S - 1"
  have r: "Suc r = ?S" by (simp add: r_def)
  have split: "(i * ?S + r) div ?S = i" "(i * ?S + r) mod ?S = r" for i
    using r by simp_all
  have pos: "bit m (i * ?S + r) \<longleftrightarrow> i < W \<and> P i" for i
  proof -
    have "i * ?S + r < W * ?S \<longleftrightarrow> i < W"
    proof
      assume "i < W"
      then have "Suc i * ?S \<le> W * ?S" by (intro mult_le_mono1) simp
      then have "?S + i * ?S \<le> W * ?S" by (simp only: mult_Suc)
      moreover have "0 < ?S" by simp
      ultimately show "i * ?S + r < W * ?S" using r by linarith
    next
      assume "i * ?S + r < W * ?S"
      then have "i * ?S < W * ?S" by linarith
      then show "i < W" by simp
    qed
    then show ?thesis unfolding bits split by (simp add: r_def)
  qed
  have at: "bit m n \<Longrightarrow> n = n div ?S * ?S + r" for n
    using bits [of n] div_mult_mod_eq [of n ?S] unfolding r_def by metis
  show ?thesis
  proof (cases "m = 0")
    case True
    then show ?thesis using pos by (auto simp: mask_of_def NonIterableBitMask_def)
  next
    case False
    let ?A = "{i. i < W \<and> P i}"
    obtain n where "bit m n" using word_bit_exists [OF False] by blast
    then have ne: "?A \<noteq> {}" using at [of n] pos by (metis (mono_tags, lifting) empty_Collect_eq)
    define l h where "l = Min ?A" and "h = Max ?A"
    have l: "l < W" "P l" and h: "h < W" "P h" using ne Min_in [of ?A] Max_in [of ?A] by (auto simp: l_def h_def)
    have le: "l \<le> i" "i \<le> h" if "i < W" "P i" for i using that by (simp_all add: l_def h_def)
    have least: "\<not> bit m i" if "i < l * ?S + r" for i
      using that at [of i] pos [of "i div ?S"] le(1) [of "i div ?S"]
      by (metis add_le_cancel_right mult_le_mono1 not_le)
    have most: "\<not> bit m i" if "h * ?S + r < i" for i
      using that at [of i] pos [of "i div ?S"] le(2) [of "i div ?S"]
      by (metis add_le_cancel_right mult_le_mono1 not_le)
    have "countr_zero m = l * ?S + r" using least pos l by (intro countr_zero_unique) auto
    then have cr: "drop_bit s (countr_zero m) = l" by (simp add: drop_bit_eq_div split)
    have "bit_width m = Suc (h * ?S + r)" using most pos h by (intro bit_width_highest) auto
    then have bw: "drop_bit s (bit_width m - 1) = h" by (simp add: drop_bit_eq_div split)
    have "Suc h * ?S \<le> W * ?S" using h by (intro mult_le_mono1) simp
    then have up: "?S + h * ?S \<le> W * ?S" "0 < ?S" by (simp_all only: mult_Suc) simp
    define e where "e = LENGTH('a) - W * ?S"
    have "countl_zero (push_bit e m) = LENGTH('a) - Suc (e + (h * ?S + r))"
    proof (rule bit_width_highest(2))
      have "e + (h * ?S + r) < LENGTH('a)"
        using up len r unfolding e_def by linarith
      then show "bit (push_bit e m) (e + (h * ?S + r))"
        using pos h by (simp add: bit_simps)
      show "\<not> bit (push_bit e m) i" if "e + (h * ?S + r) < i" for i
        using most [of "i - e"] that by (auto simp: bit_simps)
    qed
    also have "\<dots> = (W - Suc h) * ?S"
      using up len r unfolding e_def diff_mult_distrib mult_Suc by linarith
    finally have "drop_bit s (countl_zero (push_bit e m)) = W - Suc h" by (simp add: drop_bit_eq_div)
    moreover have "\<not> P j" if "j < l" for j using that le(1) [of j] l(1) by fastforce
    moreover have "\<not> P j" if "h < j" "j < W" for j using that le(2) [of j] by fastforce
    ultimately show ?thesis
      using False cr bw l h by (auto simp: mask_of_def NonIterableBitMask_def push_bit_eq_mult e_def)
  qed
qed


section \<open>Control bytes\<close>

text \<open>\<open>ctrl_t\<close> is an enumeration over \<open>int8_t\<close>, compared as a signed number; \<open>h2_t\<close> is \<open>uint8_t\<close>.\<close>

type_synonym ctrl_t = i8

definition kEmpty :: ctrl_t where "kEmpty = - 128"
definition kDeleted :: ctrl_t where "kDeleted = - 2"
definition kSentinel :: ctrl_t where "kSentinel = - 1"

definition IsEmpty :: "ctrl_t \<Rightarrow> bool" where "IsEmpty c \<longleftrightarrow> c = kEmpty"
definition IsFull :: "ctrl_t \<Rightarrow> bool" where "IsFull c \<longleftrightarrow> 0 \<le>s c"
definition IsDeleted :: "ctrl_t \<Rightarrow> bool" where "IsDeleted c \<longleftrightarrow> c = kDeleted"
definition IsEmptyOrDeleted :: "ctrl_t \<Rightarrow> bool" where "IsEmptyOrDeleted c \<longleftrightarrow> c <s kSentinel"

definition kEmptyGroup :: "ctrl_t list" where
  "kEmptyGroup = kSentinel # replicate 15 kEmpty"

text \<open>The four states of a control byte.\<close>

definition valid_ctrl :: "ctrl_t \<Rightarrow> bool" where
  "valid_ctrl c \<longleftrightarrow> IsFull c \<or> c = kEmpty \<or> c = kDeleted \<or> c = kSentinel"

lemma IsFull_bit: "IsFull c \<longleftrightarrow> \<not> bit c 7"
  using bit_last_iff [of c] by (simp add: IsFull_def word_sle_eq not_less)

lemma ctrl_values [simp]:
  "IsEmpty kEmpty" "\<not> IsFull kEmpty" "\<not> IsDeleted kEmpty" "IsEmptyOrDeleted kEmpty"
  "\<not> IsEmpty kDeleted" "\<not> IsFull kDeleted" "IsDeleted kDeleted" "IsEmptyOrDeleted kDeleted"
  "\<not> IsEmpty kSentinel" "\<not> IsFull kSentinel" "\<not> IsDeleted kSentinel" "\<not> IsEmptyOrDeleted kSentinel"
  "kEmpty \<noteq> kDeleted" "kEmpty \<noteq> kSentinel" "kDeleted \<noteq> kSentinel"
  "kDeleted \<noteq> kEmpty" "kSentinel \<noteq> kEmpty" "kSentinel \<noteq> kDeleted"
  "valid_ctrl kEmpty" "valid_ctrl kDeleted" "valid_ctrl kSentinel"
  by (simp_all add: IsEmpty_def IsFull_def IsDeleted_def IsEmptyOrDeleted_def valid_ctrl_def
      kEmpty_def kDeleted_def kSentinel_def word_sle_eq word_sless_alt)

lemma full_ctrl [simp]:
  assumes "IsFull c"
  shows "\<not> IsEmpty c" "\<not> IsDeleted c" "\<not> IsEmptyOrDeleted c" "valid_ctrl c" "c \<noteq> kEmpty" "c \<noteq> kDeleted"
    "c \<noteq> kSentinel"
  using assms by (auto simp: IsEmpty_def IsDeleted_def IsEmptyOrDeleted_def valid_ctrl_def word_sless_alt
      IsFull_def word_sle_eq kEmpty_def kDeleted_def kSentinel_def)

lemma valid_ctrl_cases:
  assumes "valid_ctrl c"
  obtains "IsFull c" | "c = kEmpty" | "c = kDeleted" | "c = kSentinel"
  using assms by (auto simp: valid_ctrl_def)

lemma IsEmptyOrDeleted_iff:
  "valid_ctrl c \<Longrightarrow> IsEmptyOrDeleted c \<longleftrightarrow> c = kEmpty \<or> c = kDeleted"
  by (erule valid_ctrl_cases) auto


section \<open>Groups of control bytes\<close>

text \<open>What the table uses of the type \<open>Group\<close>. A group object holds the \<open>kWidth\<close> control bytes it
  was loaded from; \<open>Match\<close> is given by the positions its iterator yields.\<close>

record group_ops =
  kWidth :: nat
  Match :: "ctrl_t list \<Rightarrow> i8 \<Rightarrow> nat list"
  MaskEmpty :: "ctrl_t list \<Rightarrow> bit_mask"
  MaskEmptyOrDeleted :: "ctrl_t list \<Rightarrow> bit_mask"
  CountLeadingEmptyOrDeleted :: "ctrl_t list \<Rightarrow> nat"
  ConvertSpecialToEmptyAndFullToDeleted :: "ctrl_t list \<Rightarrow> ctrl_t list"

text \<open>What the table relies on. \<open>Match\<close> may yield full positions that do not match, so that its
  client compares the element; every other mask is exact.\<close>

locale control_group =
  fixes G :: group_ops
  assumes width: "kWidth G = 8 \<or> kWidth G = 16"
    and match_full: "length g = kWidth G \<Longrightarrow> list_all valid_ctrl g \<Longrightarrow> IsFull h \<Longrightarrow> i \<in> set (Match G g h) \<Longrightarrow>
      i < kWidth G \<and> IsFull (g ! i)"
    and match_complete: "length g = kWidth G \<Longrightarrow> list_all valid_ctrl g \<Longrightarrow> IsFull h \<Longrightarrow> i < kWidth G \<Longrightarrow>
      g ! i = h \<Longrightarrow> i \<in> set (Match G g h)"
    and empty_mask: "length g = kWidth G \<Longrightarrow> list_all valid_ctrl g \<Longrightarrow>
      mask_of (kWidth G) (\<lambda>i. IsEmpty (g ! i)) (MaskEmpty G g)"
    and empty_or_deleted_mask: "length g = kWidth G \<Longrightarrow> list_all valid_ctrl g \<Longrightarrow>
      mask_of (kWidth G) (\<lambda>i. IsEmptyOrDeleted (g ! i)) (MaskEmptyOrDeleted G g)"
    and count_leading: "length g = kWidth G \<Longrightarrow> list_all valid_ctrl g \<Longrightarrow>
      CountLeadingEmptyOrDeleted G g = length (takeWhile IsEmptyOrDeleted g)"
    and convert: "length g = kWidth G \<Longrightarrow> list_all valid_ctrl g \<Longrightarrow>
      ConvertSpecialToEmptyAndFullToDeleted G g = map (\<lambda>c. if IsFull c then kDeleted else kEmpty) g"

subsection \<open>The SSE2 group\<close>

text \<open>A register \<open>__m128i\<close> as its sixteen lanes of eight bits.\<close>

definition mm_set1_epi8 :: "i8 \<Rightarrow> i8 list" where
  "mm_set1_epi8 c = replicate 16 c"

definition mm_cmpeq_epi8 :: "i8 list \<Rightarrow> i8 list \<Rightarrow> i8 list" where
  "mm_cmpeq_epi8 a b = map2 (\<lambda>x y. if x = y then - 1 else 0) a b"

definition mm_cmpgt_epi8 :: "i8 list \<Rightarrow> i8 list \<Rightarrow> i8 list" where
  "mm_cmpgt_epi8 a b = map2 (\<lambda>x y. if y <s x then - 1 else 0) a b"

text \<open>Subtraction of signed lanes with saturation, and the comparison as the code makes it: where \<open>char\<close> is
  unsigned under GCC, whose \<open>_mm_cmpgt_epi8\<close> is broken there, through the sign of the difference. Both branches
  give the same lanes (\<open>cmpgt_fixed\<close>), so that one serves in the groups.\<close>

definition mm_subs_epi8 :: "i8 list \<Rightarrow> i8 list \<Rightarrow> i8 list" where
  "mm_subs_epi8 a b = map2 (\<lambda>x y. word_of_int (max (- 128) (min 127 (sint x - sint y)))) a b"

definition mm_and_si128 :: "i8 list \<Rightarrow> i8 list \<Rightarrow> i8 list" where
  "mm_and_si128 a b = map2 (AND) a b"

definition mm_cmpgt_epi8_fixed :: "bool \<Rightarrow> i8 list \<Rightarrow> i8 list \<Rightarrow> i8 list" where
  "mm_cmpgt_epi8_fixed unsigned_char a b =
     (if unsigned_char
      then (let sign_bits = mm_set1_epi8 (- 128); diff = mm_subs_epi8 b a
            in mm_cmpeq_epi8 (mm_and_si128 diff sign_bits) sign_bits)
      else mm_cmpgt_epi8 a b)"

definition mm_sign_epi8 :: "i8 list \<Rightarrow> i8 list \<Rightarrow> i8 list" where
  "mm_sign_epi8 a b = map2 (\<lambda>x y. if y <s 0 then - x else if y = 0 then 0 else x) a b"

definition mm_or_si128 :: "i8 list \<Rightarrow> i8 list \<Rightarrow> i8 list" where
  "mm_or_si128 a b = map2 (OR) a b"

definition mm_andnot_si128 :: "i8 list \<Rightarrow> i8 list \<Rightarrow> i8 list" where
  "mm_andnot_si128 a b = map2 (\<lambda>x y. NOT x AND y) a b"

definition mm_shuffle_epi8 :: "i8 list \<Rightarrow> i8 list \<Rightarrow> i8 list" where
  "mm_shuffle_epi8 a b = map (\<lambda>y. if bit y 7 then 0 else a ! unat (y AND 15)) b"

definition mm_movemask_epi8 :: "i8 list \<Rightarrow> i32" where
  "mm_movemask_epi8 a = horner_sum of_bool 2 (map (\<lambda>x. bit x 7) a)"

definition sse2_Match :: "ctrl_t list \<Rightarrow> i8 \<Rightarrow> nat list" where
  "sse2_Match ctrl hash =
     (let match = mm_set1_epi8 hash
      in mask_iter 0 (mm_movemask_epi8 (mm_cmpeq_epi8 match ctrl)))"

definition sse2_MaskEmpty :: "ctrl_t list \<Rightarrow> bit_mask" where
  "sse2_MaskEmpty ctrl =
     (let match = mm_set1_epi8 kEmpty
      in NonIterableBitMask 16 0 (mm_movemask_epi8 (mm_cmpeq_epi8 match ctrl)))"

definition ssse3_MaskEmpty :: "ctrl_t list \<Rightarrow> bit_mask" where
  "ssse3_MaskEmpty ctrl = NonIterableBitMask 16 0 (mm_movemask_epi8 (mm_sign_epi8 ctrl ctrl))"

definition sse2_MaskEmptyOrDeleted :: "ctrl_t list \<Rightarrow> bit_mask" where
  "sse2_MaskEmptyOrDeleted ctrl =
     (let special = mm_set1_epi8 kSentinel
      in NonIterableBitMask 16 0 (mm_movemask_epi8 (mm_cmpgt_epi8_fixed False special ctrl)))"

definition sse2_CountLeadingEmptyOrDeleted :: "ctrl_t list \<Rightarrow> nat" where
  "sse2_CountLeadingEmptyOrDeleted ctrl =
     (let special = mm_set1_epi8 kSentinel
      in countr_zero (mm_movemask_epi8 (mm_cmpgt_epi8_fixed False special ctrl) + 1))"

definition sse2_Convert :: "ctrl_t list \<Rightarrow> ctrl_t list" where
  "sse2_Convert ctrl =
     (let msbs = mm_set1_epi8 (- 128);
          x126 = mm_set1_epi8 126;
          zero = mm_set1_epi8 0;
          special_mask = mm_cmpgt_epi8_fixed False zero ctrl
      in mm_or_si128 msbs (mm_andnot_si128 special_mask x126))"

definition ssse3_Convert :: "ctrl_t list \<Rightarrow> ctrl_t list" where
  "ssse3_Convert ctrl =
     (let msbs = mm_set1_epi8 (- 128);
          x126 = mm_set1_epi8 126
      in mm_or_si128 (mm_shuffle_epi8 x126 ctrl) msbs)"

definition GroupSse2Impl :: group_ops where
  "GroupSse2Impl =
     \<lparr>kWidth = 16, Match = sse2_Match, MaskEmpty = sse2_MaskEmpty, MaskEmptyOrDeleted = sse2_MaskEmptyOrDeleted,
      CountLeadingEmptyOrDeleted = sse2_CountLeadingEmptyOrDeleted,
      ConvertSpecialToEmptyAndFullToDeleted = sse2_Convert\<rparr>"

definition GroupSsse3Impl :: group_ops where
  "GroupSsse3Impl = GroupSse2Impl
     \<lparr>MaskEmpty := ssse3_MaskEmpty, ConvertSpecialToEmptyAndFullToDeleted := ssse3_Convert\<rparr>"

subsection \<open>The portable group\<close>

text \<open>Eight control bytes in one 64-bit word, the first one lowest.\<close>

fun Load64 :: "i8 list \<Rightarrow> u64" where
  "Load64 [] = 0"
| "Load64 (b # bs) = ucast b + 256 * Load64 bs"

definition Store64 :: "u64 \<Rightarrow> i8 list" where
  "Store64 w = map (\<lambda>i. ucast (drop_bit (8 * i) w)) [0..<8]"

definition msbs64 :: u64 where "msbs64 = 0x8080808080808080"
definition lsbs64 :: u64 where "lsbs64 = 0x0101010101010101"

definition portable_Match :: "ctrl_t list \<Rightarrow> i8 \<Rightarrow> nat list" where
  "portable_Match pos hash =
     (let ctrl = Load64 pos;
          x = ctrl XOR (lsbs64 * ucast hash)
      in mask_iter 3 ((x - lsbs64) AND NOT x AND msbs64))"

definition portable_MaskEmpty :: "ctrl_t list \<Rightarrow> bit_mask" where
  "portable_MaskEmpty pos =
     (let ctrl = Load64 pos in NonIterableBitMask 8 3 ((ctrl AND push_bit 6 (NOT ctrl)) AND msbs64))"

definition portable_MaskEmptyOrDeleted :: "ctrl_t list \<Rightarrow> bit_mask" where
  "portable_MaskEmptyOrDeleted pos =
     (let ctrl = Load64 pos in NonIterableBitMask 8 3 ((ctrl AND push_bit 7 (NOT ctrl)) AND msbs64))"

definition portable_CountLeadingEmptyOrDeleted :: "ctrl_t list \<Rightarrow> nat" where
  "portable_CountLeadingEmptyOrDeleted pos =
     (let ctrl = Load64 pos in drop_bit 3 (countr_zero ((ctrl OR NOT (drop_bit 7 ctrl)) AND lsbs64)))"

definition portable_Convert :: "ctrl_t list \<Rightarrow> ctrl_t list" where
  "portable_Convert pos =
     (let ctrl = Load64 pos;
          x = ctrl AND msbs64;
          res = (NOT x + drop_bit 7 x) AND NOT lsbs64
      in Store64 res)"

definition GroupPortableImpl :: group_ops where
  "GroupPortableImpl =
     \<lparr>kWidth = 8, Match = portable_Match, MaskEmpty = portable_MaskEmpty,
      MaskEmptyOrDeleted = portable_MaskEmptyOrDeleted,
      CountLeadingEmptyOrDeleted = portable_CountLeadingEmptyOrDeleted,
      ConvertSpecialToEmptyAndFullToDeleted = portable_Convert\<rparr>"

section \<open>The implementations meet the interface\<close>

lemma bit_movemask: "bit (mm_movemask_epi8 a) n \<longleftrightarrow> n < 32 \<and> n < length a \<and> bit (a ! n) 7"
  by (auto simp: mm_movemask_epi8_def bit_horner_sum_bit_word_iff)

lemma saturated_sign:
  "word_of_int (max (- 128) (min 127 (sint y - sint x))) AND - 128 = (- 128 :: i8) \<longleftrightarrow> y <s x" (is "?w AND _ = _ \<longleftrightarrow> _")
proof -
  have "sint (word_of_int k :: i8) = k" if "- 128 \<le> k" "k < 128" for k
    using that by (simp add: sint_sbintrunc' signed_take_bit_int_eq_self)
  then have "sint ?w = max (- 128) (min 127 (sint y - sint x))" by simp
  then have "bit ?w 7 \<longleftrightarrow> y <s x" using bit_last_iff [of ?w] by (auto simp: word_sless_alt)
  moreover have "?w AND - 128 = - 128 \<longleftrightarrow> bit ?w 7"
  proof -
    have top_bit: "bit (- 128 :: i8) n \<longleftrightarrow> n = 7" for n
      by (cases "n < 8") (auto simp: less_Suc_eq numeral_eq_Suc dest: bit_imp_le_length)
    then have "bit (?w AND - 128) n \<longleftrightarrow> n = 7 \<and> bit ?w 7" for n unfolding bit_and_iff by auto
    with top_bit show ?thesis by (metis bit_word_eqI)
  qed
  ultimately show ?thesis by blast
qed

lemma cmpgt_fixed [simp]:
  assumes "length a = 16" "length b = 16"
  shows "mm_cmpgt_epi8_fixed unsigned_char a b = mm_cmpgt_epi8 a b"
  using assms by (auto simp: mm_cmpgt_epi8_fixed_def mm_cmpgt_epi8_def mm_cmpeq_epi8_def mm_and_si128_def mm_subs_epi8_def
      mm_set1_epi8_def Let_def saturated_sign intro!: nth_equalityI)

lemma cmpgt_default [simp]: "mm_cmpgt_epi8_fixed False a b = mm_cmpgt_epi8 a b"
  by (simp add: mm_cmpgt_epi8_fixed_def)

lemma sse2_compare_bits:
  assumes "length g = 16"
  shows "bit (mm_movemask_epi8 (mm_cmpeq_epi8 (mm_set1_epi8 c) g)) n \<longleftrightarrow> n < 16 \<and> g ! n = c"
    and "bit (mm_movemask_epi8 (mm_cmpgt_epi8 (mm_set1_epi8 c) g)) n \<longleftrightarrow> n < 16 \<and> g ! n <s c"
    and "bit (mm_movemask_epi8 (mm_sign_epi8 g g)) n \<longleftrightarrow> n < 16 \<and> g ! n = kEmpty"
proof -
  show "bit (mm_movemask_epi8 (mm_cmpeq_epi8 (mm_set1_epi8 c) g)) n \<longleftrightarrow> n < 16 \<and> g ! n = c"
    using assms by (auto simp: bit_movemask mm_cmpeq_epi8_def mm_set1_epi8_def split: if_splits)
  show "bit (mm_movemask_epi8 (mm_cmpgt_epi8 (mm_set1_epi8 c) g)) n \<longleftrightarrow> n < 16 \<and> g ! n <s c"
    using assms by (auto simp: bit_movemask mm_cmpgt_epi8_def mm_set1_epi8_def split: if_splits)
  have sign: "bit (if y <s 0 then - y else if y = 0 then 0 else y) 7 \<longleftrightarrow> y = kEmpty" for y :: i8
  proof (cases "IsFull y")
    case True
    then have "\<not> y <s 0" "\<not> bit y 7" by (simp_all add: IsFull_def word_sless_alt word_sle_eq flip: IsFull_bit)
    then show ?thesis using True by auto
  next
    case False
    then have neg: "y <s 0" by (simp add: IsFull_def word_sless_alt word_sle_eq)
    have y: "y = word_of_int (sint y)" "- 128 \<le> sint y" "sint y < 0"
      using sint_greater_eq [of y] neg by (simp_all add: word_sless_alt)
    show ?thesis
    proof (cases "sint y = - 128")
      case True
      with y(1) have "y = kEmpty" by (simp add: kEmpty_def)
      then show ?thesis using neg by (simp add: kEmpty_def)
    next
      case False
      have "- y = word_of_int (- sint y)" using y(1) by (metis of_int_minus)
      moreover have "sint (word_of_int (- sint y) :: i8) = - sint y"
        using False y(2,3) by (subst sint_sbintrunc') (simp add: signed_take_bit_int_eq_self)
      ultimately have "sint (- y) = - sint y" by (simp only:)
      then have "IsFull (- y)" unfolding IsFull_def word_sle_eq using y(3) by simp
      moreover have "y \<noteq> kEmpty" using False by (auto simp: kEmpty_def)
      ultimately show ?thesis using neg by (simp flip: IsFull_bit)
    qed
  qed
  show "bit (mm_movemask_epi8 (mm_sign_epi8 g g)) n \<longleftrightarrow> n < 16 \<and> g ! n = kEmpty"
    using assms by (simp add: bit_movemask mm_sign_epi8_def sign cong: conj_cong split del: if_split) auto
qed

text \<open>The instance of \<open>NonIterableBitMask_mask_of\<close> for one bit per position.\<close>

lemma movemask_mask_of:
  assumes "\<And>n. bit (m::i32) n \<longleftrightarrow> n < 16 \<and> P n"
  shows "mask_of 16 P (NonIterableBitMask 16 0 m)"
  using assms by (intro NonIterableBitMask_mask_of) simp_all

lemma set_mask_iter_0: "set (mask_iter 0 m) = {i. bit m i}"
  by (simp add: set_mask_iter)

text \<open>Adding one to a mask turns its trailing ones into zeros.\<close>

lemma countr_zero_add_one:
  fixes m :: "'a::len word"
  assumes "\<And>n. n < k \<Longrightarrow> bit m n" "\<not> bit m k" "k < LENGTH('a)"
  shows "countr_zero (m + 1) = k"
proof (rule countr_zero_unique)
  let ?u = "NOT (mask k) AND m"
  have "m = ?u OR mask k"
    by (rule bit_word_eqI) (use assms in \<open>auto simp: bit_simps\<close>)
  moreover have "?u OR mask k = ?u + mask k"
    by (rule disjunctive_add [symmetric]) (auto simp: bit_simps)
  moreover have "?u OR 2 ^ k = ?u + 2 ^ k"
    by (rule disjunctive_add [symmetric]) (use assms in \<open>auto simp: bit_simps\<close>)
  ultimately have "m + 1 = ?u OR 2 ^ k" by (metis add.assoc diff_add_cancel mask_eq_exp_minus_1)
  then show "bit (m + 1) k" "\<And>i. i < k \<Longrightarrow> \<not> bit (m + 1) i"
    using assms by (auto simp: bit_simps)
qed

interpretation sse2: control_group GroupSse2Impl
proof
  fix g :: "ctrl_t list" and h :: i8 and i :: nat
  assume g: "length g = kWidth GroupSse2Impl" "list_all valid_ctrl g"
  then have len: "length g = 16" by (simp add: GroupSse2Impl_def)
  note bits = sse2_compare_bits [OF len]
  show "mask_of (kWidth GroupSse2Impl) (\<lambda>i. IsEmpty (g ! i)) (MaskEmpty GroupSse2Impl g)"
    using movemask_mask_of [OF bits(1)] by (simp add: GroupSse2Impl_def sse2_MaskEmpty_def IsEmpty_def)
  show "mask_of (kWidth GroupSse2Impl) (\<lambda>i. IsEmptyOrDeleted (g ! i)) (MaskEmptyOrDeleted GroupSse2Impl g)"
    using movemask_mask_of [OF bits(2)]
    by (simp add: GroupSse2Impl_def sse2_MaskEmptyOrDeleted_def IsEmptyOrDeleted_def)
  show "i < kWidth GroupSse2Impl \<and> IsFull (g ! i)" if "IsFull h" "i \<in> set (Match GroupSse2Impl g h)"
    using that by (simp add: GroupSse2Impl_def sse2_Match_def set_mask_iter_0 bits)
  show "i \<in> set (Match GroupSse2Impl g h)" if "IsFull h" "i < kWidth GroupSse2Impl" "g ! i = h"
    using that by (simp add: GroupSse2Impl_def sse2_Match_def set_mask_iter_0 bits)
  let ?k = "length (takeWhile IsEmptyOrDeleted g)"
  have "?k \<le> 16" using length_takeWhile_le [of IsEmptyOrDeleted g] len by simp
  moreover have "IsEmptyOrDeleted (g ! n)" if "n < ?k" for n
    using that by (metis nth_mem set_takeWhileD takeWhile_nth)
  moreover have "?k < 16 \<Longrightarrow> \<not> IsEmptyOrDeleted (g ! ?k)" using nth_length_takeWhile [of IsEmptyOrDeleted g] len by simp
  ultimately have "countr_zero (mm_movemask_epi8 (mm_cmpgt_epi8 (mm_set1_epi8 kSentinel) g) + 1) = ?k"
    by (intro countr_zero_add_one) (auto simp: bits IsEmptyOrDeleted_def)
  then show "CountLeadingEmptyOrDeleted GroupSse2Impl g = ?k"
    by (simp add: GroupSse2Impl_def sse2_CountLeadingEmptyOrDeleted_def)
  show "ConvertSpecialToEmptyAndFullToDeleted GroupSse2Impl g = map (\<lambda>c. if IsFull c then kDeleted else kEmpty) g"
    using len by (auto simp: GroupSse2Impl_def sse2_Convert_def mm_set1_epi8_def mm_cmpgt_epi8_def mm_or_si128_def
        mm_andnot_si128_def IsFull_def kDeleted_def kEmpty_def word_sless_alt word_sle_eq intro!: nth_equalityI)
qed (simp_all add: GroupSse2Impl_def)

interpretation ssse3: control_group GroupSsse3Impl
proof
  fix g :: "ctrl_t list" and h :: i8 and i :: nat
  assume g: "length g = kWidth GroupSsse3Impl" "list_all valid_ctrl g"
  then have len: "length g = 16" by (simp add: GroupSsse3Impl_def GroupSse2Impl_def)
  have w: "kWidth GroupSse2Impl = 16" by (simp add: GroupSse2Impl_def)
  show "i < kWidth GroupSsse3Impl \<and> IsFull (g ! i)" if "IsFull h" "i \<in> set (Match GroupSsse3Impl g h)"
    using sse2.match_full [of g h i] that g len w by (simp add: GroupSsse3Impl_def)
  show "i \<in> set (Match GroupSsse3Impl g h)" if "IsFull h" "i < kWidth GroupSsse3Impl" "g ! i = h"
    using sse2.match_complete [of g h i] that g len w by (simp add: GroupSsse3Impl_def)
  show "mask_of (kWidth GroupSsse3Impl) (\<lambda>i. IsEmptyOrDeleted (g ! i)) (MaskEmptyOrDeleted GroupSsse3Impl g)"
    using sse2.empty_or_deleted_mask [of g] g len w by (simp add: GroupSsse3Impl_def)
  show "CountLeadingEmptyOrDeleted GroupSsse3Impl g = length (takeWhile IsEmptyOrDeleted g)"
    using sse2.count_leading [of g] g len w by (simp add: GroupSsse3Impl_def)
  show "mask_of (kWidth GroupSsse3Impl) (\<lambda>i. IsEmpty (g ! i)) (MaskEmpty GroupSsse3Impl g)"
    using movemask_mask_of [OF sse2_compare_bits(3) [OF len]]
    by (simp add: GroupSsse3Impl_def GroupSse2Impl_def ssse3_MaskEmpty_def IsEmpty_def)
  have lane: "replicate 16 (126::i8) ! unat (c AND 15) = 126" for c :: i8
  proof -
    have "unat (c AND 15) \<le> unat (15::i8)" by (metis word_and_le1 word_le_nat_alt)
    then show ?thesis by (intro nth_replicate) simp
  qed
  show "ConvertSpecialToEmptyAndFullToDeleted GroupSsse3Impl g = map (\<lambda>c. if IsFull c then kDeleted else kEmpty) g"
    using len by (auto simp: GroupSsse3Impl_def ssse3_Convert_def mm_set1_epi8_def mm_shuffle_epi8_def mm_or_si128_def
        IsFull_bit kDeleted_def kEmpty_def lane intro!: nth_equalityI)
qed (simp_all add: GroupSsse3Impl_def GroupSse2Impl_def)


text \<open>The bits of a word loaded from bytes.\<close>

lemma Load64_Cons_or: "ucast (b::i8) + 256 * (w::u64) = ucast b OR push_bit 8 w"
proof -
  have "256 * w = push_bit 8 w" by (simp add: push_bit_eq_mult)
  moreover have "ucast b + push_bit 8 w = ucast b OR push_bit 8 w"
    by (rule disjunctive_add) (use bit_imp_le_length [of b] in \<open>force simp: bit_simps\<close>)
  ultimately show ?thesis by simp
qed

lemma bit_Load64: "bit (Load64 bs) n \<longleftrightarrow> n < 64 \<and> n div 8 < length bs \<and> bit (bs ! (n div 8)) (n mod 8)"
proof (induction bs arbitrary: n)
  case (Cons b bs)
  show ?case
  proof (cases "n < 8")
    case True
    then show ?thesis by (auto simp: Load64_Cons_or bit_simps simp del: Load64.simps) (simp_all add: Load64_Cons_or bit_simps)
  next
    case False
    then obtain m where m: "n = m + 8" by (metis add.commute le_Suc_ex not_less)
    have "\<not> bit b (m + 8)" using bit_imp_le_length [of b "m + 8"] by auto
    moreover have "(m + 8) div 8 = Suc (m div 8)" by simp
    ultimately show ?thesis using Cons.IH [of m] by (auto simp: m Load64_Cons_or bit_simps simp del: div_add_self2)
  qed
qed simp

lemma Load64_eqI:
  assumes "length bs = 8" "\<And>i k. i < 8 \<Longrightarrow> k < 8 \<Longrightarrow> bit w (8 * i + k) \<longleftrightarrow> bit (bs ! i) k"
  shows "w = Load64 bs"
proof (rule bit_word_eqI)
  fix n assume n: "n < LENGTH(64)"
  then have "n div 8 < 8" "n mod 8 < 8" by auto
  with assms(2) [of "n div 8" "n mod 8"] assms(1) n show "bit w n \<longleftrightarrow> bit (Load64 bs) n"
    by (simp add: bit_Load64)
qed

lemma bit_Load64_byte:
  assumes "length bs = 8" "i < 8" "k < 8"
  shows "bit (Load64 bs) (8 * i + k) \<longleftrightarrow> bit (bs ! i) k"
  using assms by (simp add: bit_Load64)

lemma Store64_Load64: "length bs = 8 \<Longrightarrow> Store64 (Load64 bs) = bs"
  by (rule nth_equalityI) (auto simp: Store64_def bit_simps bit_Load64_byte intro!: bit_word_eqI)

lemma lsbs64_times: "lsbs64 * ucast c = Load64 (replicate 8 c)"
proof -
  have "replicate 8 c = [c, c, c, c, c, c, c, c]" by (simp add: numeral_eq_Suc)
  then show ?thesis by (simp add: lsbs64_def algebra_simps)
qed

lemma msbs64_Load64: "msbs64 = Load64 (replicate 8 128)"
  by (simp add: msbs64_def lsbs64_def flip: lsbs64_times)

lemma lsbs64_Load64: "lsbs64 = Load64 (replicate 8 1)"
  by (simp flip: lsbs64_times)

lemma bit_128_8: "bit (128::i8) k \<longleftrightarrow> k = 7"
  using bit_exp_iff [of 7 k, where ?'a = "8 word"] by auto

lemma bit_128_int: "bit (128::int) k \<longleftrightarrow> k = 7"
  using bit_exp_iff [of 7 k, where ?'a = int] by auto

lemma bit_msbs64: "bit msbs64 n \<longleftrightarrow> n < 64 \<and> n mod 8 = 7"
  unfolding msbs64_Load64 bit_Load64 by (cases "n < 64") (auto simp: bit_128_int)

lemma bit_lsbs64: "bit lsbs64 n \<longleftrightarrow> n < 64 \<and> n mod 8 = 0"
  by (auto simp: lsbs64_Load64 bit_Load64 bit_1_iff)

text \<open>The instance of \<open>NonIterableBitMask_mask_of\<close> for one byte per position.\<close>

lemma bytemask_mask_of:
  assumes "\<And>n. bit (m::u64) n \<longleftrightarrow> n < 64 \<and> n mod 8 = 7 \<and> P (n div 8)"
  shows "mask_of 8 P (NonIterableBitMask 8 3 m)"
  using assms by (intro NonIterableBitMask_mask_of) simp_all

text \<open>Which bits tell the states of a control byte apart.\<close>

lemma ctrl_bits:
  assumes "valid_ctrl c"
  shows "bit c 7 \<and> \<not> bit c 1 \<longleftrightarrow> IsEmpty c" "bit c 7 \<and> \<not> bit c 0 \<longleftrightarrow> IsEmptyOrDeleted c"
proof -
  show "bit c 7 \<and> \<not> bit c 1 \<longleftrightarrow> IsEmpty c"
    using assms
  proof (cases rule: valid_ctrl_cases)
    case 1
    then show ?thesis using IsFull_bit by simp
  qed (simp_all only: ctrl_values, simp_all add: kEmpty_def kDeleted_def kSentinel_def)
  show "bit c 7 \<and> \<not> bit c 0 \<longleftrightarrow> IsEmptyOrDeleted c"
    using assms
  proof (cases rule: valid_ctrl_cases)
    case 1
    then show ?thesis using IsFull_bit by simp
  qed (simp_all only: ctrl_values, simp_all add: kEmpty_def kDeleted_def kSentinel_def)
qed


text \<open>Subtracting one from every byte sets the high bit of a byte that was zero, whatever the bytes
  below it borrow.\<close>

fun bytes_value :: "i8 list \<Rightarrow> int" where
  "bytes_value [] = 0"
| "bytes_value (b # bs) = uint b + 256 * bytes_value bs"

lemma bytes_value_bound: "0 \<le> bytes_value bs \<and> bytes_value bs < 256 ^ length bs"
proof (induction bs)
  case (Cons b bs)
  have "0 \<le> uint b" "uint b < 256" using uint_lt2p [of b] by simp_all
  with Cons show ?case by simp
qed simp

lemma bytes_value_append: "bytes_value (as @ bs) = bytes_value as + 256 ^ length as * bytes_value bs"
  by (induction as) (simp_all add: algebra_simps)

lemma Load64_bytes_value: "Load64 bs = word_of_int (bytes_value bs)"
proof (induction bs)
  case (Cons b bs)
  have "(ucast b :: u64) = word_of_int (uint b)" by (simp add: unsigned_ucast_eq flip: word_uint_eq_iff)
  then show ?case using Cons by simp
qed simp

lemma zero_byte_borrows:
  assumes len: "length bs = 8" and i: "i < 8" and zero: "bs ! i = 0"
  shows "bit (Load64 bs - lsbs64) (8 * i + 7)"
proof -
  let ?ones = "replicate 8 1 :: i8 list"
  let ?B = "256 ^ i :: int"
  define k where "k = bytes_value bs - bytes_value ?ones"
  define r where "r = bytes_value (drop (Suc i) bs) - bytes_value (drop (Suc i) ?ones)"
  define a where "a = bytes_value (take i bs) - bytes_value (take i ?ones)"
  have split: "xs = take i xs @ xs ! i # drop (Suc i) xs" if "length xs = 8" for xs :: "i8 list"
    using that i by (simp add: id_take_nth_drop)
  have "bytes_value bs = bytes_value (take i bs) + ?B * (256 * bytes_value (drop (Suc i) bs))"
    by (subst split [OF len]) (use len i zero in \<open>simp add: bytes_value_append\<close>)
  moreover have "bytes_value ?ones = bytes_value (take i ?ones) + ?B * (1 + 256 * bytes_value (drop (Suc i) ?ones))"
    by (subst split) (use i in \<open>simp_all add: bytes_value_append del: replicate.simps drop_replicate take_replicate\<close>)
  ultimately have k: "k = a + ?B * (256 * r - 1)" by (simp add: k_def r_def a_def algebra_simps)
  have "- ?B < a" "a < ?B"
    using bytes_value_bound [of "take i bs"] bytes_value_bound [of "take i ?ones"] len i
    unfolding a_def by (simp_all add: min_def del: replicate.simps take_replicate)
  then have "(128 * ?B + a - ?B) div (128 * ?B) = 0" by (intro div_pos_pos_trivial) simp_all
  moreover have "k = (128 * ?B + a - ?B) + (128 * ?B) * (2 * r - 1)" unfolding k by (simp add: algebra_simps)
  ultimately have "k div (128 * ?B) = 2 * r - 1" by (simp add: div_mult_self2)
  moreover have "(2::int) ^ (8 * i + 7) = 128 * ?B" by (simp add: power_add power_mult)
  ultimately have "bit k (8 * i + 7)" by (simp add: bit_iff_odd)
  moreover have "Load64 bs - lsbs64 = word_of_int k"
    by (simp add: k_def Load64_bytes_value lsbs64_Load64 del: replicate.simps)
  ultimately show ?thesis using i by (simp add: bit_word_of_int_iff)
qed


lemma portable_mask_bits:
  assumes "length g = 8"
  shows "bit ((Load64 g AND push_bit 6 (NOT (Load64 g))) AND msbs64) n \<longleftrightarrow>
      n < 64 \<and> n mod 8 = 7 \<and> bit (g ! (n div 8)) 7 \<and> \<not> bit (g ! (n div 8)) 1"
    and "bit ((Load64 g AND push_bit 7 (NOT (Load64 g))) AND msbs64) n \<longleftrightarrow>
      n < 64 \<and> n mod 8 = 7 \<and> bit (g ! (n div 8)) 7 \<and> \<not> bit (g ! (n div 8)) 0"
    and "bit ((Load64 g OR NOT (drop_bit 7 (Load64 g))) AND lsbs64) n \<longleftrightarrow>
      n < 64 \<and> n mod 8 = 0 \<and> (bit (g ! (n div 8)) 0 \<or> \<not> bit (g ! (n div 8)) 7)"
proof -
  let ?i = "n div 8"
  have low: "n = 8 * ?i + 7" "n - 6 = 8 * ?i + 1" "n - 7 = 8 * ?i + 0" "6 \<le> n" "7 \<le> n" if "n mod 8 = 7"
    using that div_mult_mod_eq [of n 8] by linarith+
  have high: "n = 8 * ?i + 0" "7 + n = 8 * ?i + 7" if "n mod 8 = 0"
    using that div_mult_mod_eq [of n 8] by linarith+
  have i: "?i < 8" if "n < 64" using that by simp
  note byte = bit_Load64_byte [OF assms i]
  show "bit ((Load64 g AND push_bit 6 (NOT (Load64 g))) AND msbs64) n \<longleftrightarrow>
      n < 64 \<and> n mod 8 = 7 \<and> bit (g ! ?i) 7 \<and> \<not> bit (g ! ?i) 1"
    using low byte [of 7] byte [of 1] by (auto simp: bit_and_iff bit_push_bit_iff bit_not_iff bit_msbs64)
  show "bit ((Load64 g AND push_bit 7 (NOT (Load64 g))) AND msbs64) n \<longleftrightarrow>
      n < 64 \<and> n mod 8 = 7 \<and> bit (g ! ?i) 7 \<and> \<not> bit (g ! ?i) 0"
    using low byte [of 7] byte [of 0] by (auto simp: bit_and_iff bit_push_bit_iff bit_not_iff bit_msbs64)
  show "bit ((Load64 g OR NOT (drop_bit 7 (Load64 g))) AND lsbs64) n \<longleftrightarrow>
      n < 64 \<and> n mod 8 = 0 \<and> (bit (g ! ?i) 0 \<or> \<not> bit (g ! ?i) 7)"
    using high byte [of 7] byte [of 0]
    by (auto simp: bit_and_iff bit_or_iff bit_drop_bit_eq bit_not_iff bit_lsbs64 add.commute)
qed

text \<open>\<open>Match\<close> of the portable group: every match is found, and whatever else is found is full.\<close>

lemma portable_Match_set:
  assumes g: "length g = 8" and h: "IsFull h"
  shows "i \<in> set (portable_Match g h) \<Longrightarrow> i < 8 \<and> IsFull (g ! i)"
    and "i < 8 \<Longrightarrow> g ! i = h \<Longrightarrow> i \<in> set (portable_Match g h)"
proof -
  let ?xs = "map (\<lambda>c. c XOR h) g"
  have x: "Load64 g XOR (lsbs64 * ucast h) = Load64 ?xs"
    unfolding lsbs64_times
    by (rule Load64_eqI) (use g in \<open>auto simp: bit_xor_iff bit_Load64_byte\<close>)
  have full: "bit (NOT (Load64 ?xs) AND msbs64) n \<longleftrightarrow> n < 64 \<and> n mod 8 = 7 \<and> IsFull (g ! (n div 8))" for n
  proof (cases "n < 64 \<and> n mod 8 = 7")
    case True
    then have "n = 8 * (n div 8) + 7" using div_mult_mod_eq [of n 8] by linarith
    then have "bit (Load64 ?xs) n \<longleftrightarrow> bit (?xs ! (n div 8)) 7"
      using bit_Load64_byte [of ?xs "n div 8" 7] g True by simp
    moreover have "n div 8 < 8" using True by auto
    ultimately show ?thesis using True g h by (simp add: bit_and_iff bit_not_iff bit_msbs64 IsFull_bit bit_xor_iff)
  next
    case False
    then show ?thesis by (auto simp: bit_and_iff bit_msbs64)
  qed
  have set: "set (portable_Match g h) = (\<lambda>n. n div 8) `
      {n. bit (Load64 ?xs - lsbs64) n \<and> n < 64 \<and> n mod 8 = 7 \<and> IsFull (g ! (n div 8))}"
    unfolding portable_Match_def Let_def x set_mask_iter full [symmetric]
    by (auto simp: drop_bit_eq_div bit_and_iff)
  show "i \<in> set (portable_Match g h) \<Longrightarrow> i < 8 \<and> IsFull (g ! i)" unfolding set by auto
  show "i \<in> set (portable_Match g h)" if "i < 8" "g ! i = h"
  proof -
    have "bit (Load64 ?xs - lsbs64) (8 * i + 7)" using zero_byte_borrows [of ?xs i] that g by simp
    then show ?thesis using that h unfolding set by (intro image_eqI [of _ _ "8 * i + 7"]) simp_all
  qed
qed

text \<open>Adding bytes that do not overflow.\<close>

lemma Load64_add:
  assumes "length as = length bs" "\<And>i. i < length as \<Longrightarrow> unat (as ! i) + unat (bs ! i) < 256"
  shows "Load64 as + Load64 bs = Load64 (map2 (+) as bs)"
  using assms
proof (induction as bs rule: list_induct2)
  case (Cons a as b bs)
  have "unat a + unat b < 256" using Cons.prems [of 0] by simp
  then have "unat (a + b) = unat a + unat b" by (simp add: unat_word_ariths)
  then have "(ucast (a + b) :: u64) = ucast a + ucast b"
    by (metis of_nat_add of_nat_unat)
  moreover have "Load64 as + Load64 bs = Load64 (map2 (+) as bs)"
    using Cons.prems [of "Suc i" for i] by (intro Cons.IH) simp
  ultimately show ?case by (simp add: algebra_simps flip: distrib_left distrib_right)
qed simp

lemma portable_Convert_map:
  assumes g: "length g = 8"
  shows "portable_Convert g = map (\<lambda>c. if IsFull c then kDeleted else kEmpty) g"
proof -
  define sp where "sp a b = map (\<lambda>c. if IsFull c then a else b) g" for a b :: i8
  have len: "length (sp a b) = 8" for a b using g by (simp add: sp_def)
  have nth: "i < 8 \<Longrightarrow> sp a b ! i = (if IsFull (g ! i) then a else b)" for a b i using g by (simp add: sp_def)
  note byte = bit_Load64_byte [OF len] bit_Load64_byte [OF g]
  have one: "bit (1::i8) k \<longleftrightarrow> k = 0" "\<not> bit (0::i8) k" for k by (simp_all add: bit_1_iff)
  have minus: "bit (127 :: int) k \<longleftrightarrow> k < 7" for k
    using bit_mask_iff [of 7 k, where ?'a = int] by (simp add: mask_eq_exp_minus_1)
  have special: "bit kDeleted k \<longleftrightarrow> 0 < k \<and> k < 8" "bit kEmpty k \<longleftrightarrow> k = 7" for k
  proof -
    have eq: "kDeleted = NOT 1" "kEmpty = 2 ^ 7" by (simp_all add: kDeleted_def kEmpty_def)
    show "bit kDeleted k \<longleftrightarrow> 0 < k \<and> k < 8" unfolding eq bit_not_iff bit_1_iff by auto
    show "bit kEmpty k \<longleftrightarrow> k = 7" unfolding eq bit_exp_iff by auto
  qed
  have x: "Load64 g AND msbs64 = Load64 (sp 0 128)"
    by (rule Load64_eqI [OF len]) (auto simp: bit_and_iff bit_msbs64 byte nth bit_128_int IsFull_bit)
  have n: "NOT (Load64 (sp 0 128)) = Load64 (sp (- 1) 127)"
    by (rule Load64_eqI [OF len]) (auto simp: bit_not_iff byte nth bit_128_int minus)
  have d: "drop_bit 7 (Load64 (sp 0 128)) = Load64 (sp 0 1)"
  proof (rule Load64_eqI [OF len])
    fix i k :: nat assume ik: "i < 8" "k < 8"
    show "bit (drop_bit 7 (Load64 (sp 0 128))) (8 * i + k) \<longleftrightarrow> bit (sp 0 1 ! i) k"
    proof (cases k)
      case 0
      then show ?thesis using ik byte(1) [of i 7] by (simp add: bit_drop_bit_eq nth add.commute)
    next
      case (Suc j)
      then have "7 + (8 * i + k) = 8 * Suc i + j" by simp
      moreover have "\<not> bit (Load64 (sp 0 128)) (8 * Suc i + j)"
      proof
        assume "bit (Load64 (sp 0 128)) (8 * Suc i + j)"
        moreover have "(8 * Suc i + j) div 8 = Suc i" "(8 * Suc i + j) mod 8 = j"
          using ik Suc by (simp_all only: div_mult_self4 mod_mult_self4 mod_mult_self2 div_mult_self2) simp_all
        ultimately have "bit (sp 0 128 ! Suc i) j" "Suc i < 8" using len by (simp_all only: bit_Load64)
        then show False using ik Suc by (auto simp: nth bit_128_int split: if_splits)
      qed
      ultimately show ?thesis using ik Suc by (simp add: bit_drop_bit_eq nth bit_1_iff add.assoc)
    qed
  qed
  have "Load64 (sp (- 1) 127) + Load64 (sp 0 1) = Load64 (map2 (+) (sp (- 1) 127) (sp 0 1))"
    by (rule Load64_add) (use unsigned_less [of "- 1 :: i8"] in \<open>auto simp: len nth\<close>)
  also have "map2 (+) (sp (- 1) 127) (sp 0 1) = sp (- 1) 128"
    by (rule nth_equalityI) (auto simp: len nth)
  finally have "Load64 (sp (- 1) 127) + Load64 (sp 0 1) = Load64 (sp (- 1) 128)" .
  moreover have "Load64 (sp (- 1) 128) AND NOT lsbs64 = Load64 (sp kDeleted kEmpty)"
    by (rule Load64_eqI [OF len]) (auto simp: bit_and_iff bit_not_iff bit_lsbs64 byte nth bit_128_int special)
  ultimately have "portable_Convert g = Store64 (Load64 (sp kDeleted kEmpty))"
    by (simp only: portable_Convert_def Let_def x n d)
  then show ?thesis using Store64_Load64 [OF len] by (simp add: sp_def)
qed

lemma portable_CountLeading:
  assumes g: "length g = 8" and valid: "\<And>i. i < 8 \<Longrightarrow> valid_ctrl (g ! i)"
  shows "portable_CountLeadingEmptyOrDeleted g = length (takeWhile IsEmptyOrDeleted g)"
proof -
  let ?m = "(Load64 g OR NOT (drop_bit 7 (Load64 g))) AND lsbs64"
  let ?k = "length (takeWhile IsEmptyOrDeleted g)"
  have bits: "bit ?m n \<longleftrightarrow> n < 64 \<and> n mod 8 = 0 \<and> \<not> IsEmptyOrDeleted (g ! (n div 8))" for n
  proof (cases "n < 64")
    case True
    then have "valid_ctrl (g ! (n div 8))" by (intro valid) simp
    with ctrl_bits(2) show ?thesis unfolding portable_mask_bits(3) [OF g] by blast
  next
    case False
    then show ?thesis using portable_mask_bits(3) [OF g] by blast
  qed
  have k: "?k \<le> 8" using length_takeWhile_le [of IsEmptyOrDeleted g] g by simp
  have below: "IsEmptyOrDeleted (g ! n)" if "n < ?k" for n
    using that by (metis nth_mem set_takeWhileD takeWhile_nth)
  have "drop_bit 3 (countr_zero ?m) = ?k"
  proof (cases "?k = 8")
    case True
    have "?m = 0" by (rule bit_word_eqI) (use below True in \<open>auto simp: bits\<close>)
    moreover have "countr_zero (0::u64) = 64" by (simp add: countr_zero_def takeWhile_eq_all_conv [THEN iffD2])
    ultimately have "countr_zero ?m = 64" by simp
    then show ?thesis using True by simp
  next
    case False
    then have "\<not> IsEmptyOrDeleted (g ! ?k)" using nth_length_takeWhile [of IsEmptyOrDeleted g] g k by simp
    then have "countr_zero ?m = 8 * ?k" using False k below by (intro countr_zero_unique) (auto simp: bits)
    then show ?thesis by (simp add: drop_bit_eq_div)
  qed
  then show ?thesis by (simp add: portable_CountLeadingEmptyOrDeleted_def Let_def)
qed

interpretation portable: control_group GroupPortableImpl
proof
  fix g :: "ctrl_t list" and h :: i8 and i :: nat
  assume g: "length g = kWidth GroupPortableImpl" "list_all valid_ctrl g"
  then have len: "length g = 8" and valid: "\<And>i. i < 8 \<Longrightarrow> valid_ctrl (g ! i)"
    by (auto simp: GroupPortableImpl_def list_all_length)
  note bits = portable_mask_bits [OF len]
  show "i < kWidth GroupPortableImpl \<and> IsFull (g ! i)" if "IsFull h" "i \<in> set (Match GroupPortableImpl g h)"
    using portable_Match_set(1) [OF len that(1)] that(2) by (simp add: GroupPortableImpl_def)
  show "i \<in> set (Match GroupPortableImpl g h)" if "IsFull h" "i < kWidth GroupPortableImpl" "g ! i = h"
    using portable_Match_set(2) [OF len that(1)] that(2,3) by (simp add: GroupPortableImpl_def)
  have byte: "n < 64 \<Longrightarrow> n div 8 < 8" for n :: nat by simp
  note mask1 = bytemask_mask_of [of "(Load64 g AND push_bit 6 (NOT (Load64 g))) AND msbs64" "\<lambda>i. IsEmpty (g ! i)",
      unfolded bits, OF conj_cong [OF refl], OF conj_cong [OF refl], OF ctrl_bits(1) [OF valid [OF byte]]]
  note mask2 = bytemask_mask_of [of "(Load64 g AND push_bit 7 (NOT (Load64 g))) AND msbs64" "\<lambda>i. IsEmptyOrDeleted (g ! i)",
      unfolded bits, OF conj_cong [OF refl], OF conj_cong [OF refl], OF ctrl_bits(2) [OF valid [OF byte]]]
  show "mask_of (kWidth GroupPortableImpl) (\<lambda>i. IsEmpty (g ! i)) (MaskEmpty GroupPortableImpl g)"
    using mask1 by (simp add: GroupPortableImpl_def portable_MaskEmpty_def Let_def)
  show "mask_of (kWidth GroupPortableImpl) (\<lambda>i. IsEmptyOrDeleted (g ! i)) (MaskEmptyOrDeleted GroupPortableImpl g)"
    using mask2 by (simp add: GroupPortableImpl_def portable_MaskEmptyOrDeleted_def Let_def)
  show "CountLeadingEmptyOrDeleted GroupPortableImpl g = length (takeWhile IsEmptyOrDeleted g)"
    using portable_CountLeading [OF len] valid by (simp add: GroupPortableImpl_def)
  show "ConvertSpecialToEmptyAndFullToDeleted GroupPortableImpl g = map (\<lambda>c. if IsFull c then kDeleted else kEmpty) g"
    using portable_Convert_map [OF len] by (simp add: GroupPortableImpl_def)
qed (simp_all add: GroupPortableImpl_def)

end
