(* ===== verification/Bit_Routines.thy ===== *)
theory Bit_Routines
  imports Swiss_Groups
begin

text \<open>
  The portable bit routines behind the masks of the Swiss table
  (\<open>absl/numeric/internal/bits.h\<close> and \<open>absl/numeric/bits.h\<close>): the branches that are compiled where
  no compiler builtin is available. Every routine is compared with the counting definitions
  \<open>countr_zero\<close>, \<open>countl_zero\<close>, \<open>bit_width\<close> and \<open>bit_count\<close>, which read the bits one by one. A template
  over an unsigned type \<open>T\<close> is a function on words whose length is the number of digits of \<open>T\<close>.
\<close>

section \<open>Rotation\<close>

text \<open>The unsigned types a routine can be instantiated with.\<close>

definition unsigned_type :: "nat \<Rightarrow> bool" where
  "unsigned_type digits \<longleftrightarrow> digits \<in> {8, 16, 32, 64}"

definition IsPowerOf2 :: "i32 \<Rightarrow> bool" where
  "IsPowerOf2 x \<longleftrightarrow> x \<noteq> 0 \<and> x AND (x - 1) = 0"

text \<open>The rotation distance is an \<open>int\<close>; negating the least one overflows.\<close>

definition RotateRight :: "'a::len word \<Rightarrow> int \<Rightarrow> 'a word result" where
  "RotateRight x s =
     rbind (to_int (- s)) (\<lambda>neg.
       Inr (drop_bit (nat (s AND (int LENGTH('a) - 1))) x OR push_bit (nat (neg AND (int LENGTH('a) - 1))) x))"

definition RotateLeft :: "'a::len word \<Rightarrow> int \<Rightarrow> 'a word result" where
  "RotateLeft x s =
     rbind (to_int (- s)) (\<lambda>neg.
       Inr (push_bit (nat (s AND (int LENGTH('a) - 1))) x OR drop_bit (nat (neg AND (int LENGTH('a) - 1))) x))"

definition rotl :: "'a::len word \<Rightarrow> int \<Rightarrow> 'a word result" where
  "rotl x s = RotateLeft x s"

definition rotr :: "'a::len word \<Rightarrow> int \<Rightarrow> 'a word result" where
  "rotr x s = RotateRight x s"


section \<open>Population count\<close>

definition Popcount32 :: "32 word \<Rightarrow> int" where
  "Popcount32 x =
     (let x = x - (drop_bit 1 x AND 0x55555555);
          x = (drop_bit 2 x AND 0x33333333) + (x AND 0x33333333)
      in uint (drop_bit 24 (((x + drop_bit 4 x) AND 0xF0F0F0F) * 0x1010101)))"

definition Popcount64 :: "64 word \<Rightarrow> int" where
  "Popcount64 x =
     (let x = x - (drop_bit 1 x AND 0x5555555555555555);
          x = (drop_bit 2 x AND 0x3333333333333333) + (x AND 0x3333333333333333)
      in uint (drop_bit 56 (((x + drop_bit 4 x) AND 0xF0F0F0F0F0F0F0F) * 0x101010101010101)))"

definition Popcount :: "'a::len word \<Rightarrow> int" where
  "Popcount x = (if LENGTH('a) \<le> 32 then Popcount32 (ucast x) else Popcount64 (ucast x))"

definition popcount :: "'a::len word \<Rightarrow> int" where
  "popcount x = Popcount x"


section \<open>Leading zeroes\<close>

text \<open>The string literal that serves as the table: fifteen characters and the terminating zero.\<close>

definition clz_table :: "int list" where
  "clz_table = [4, 3, 2, 2, 1, 1, 1, 1, 0, 0, 0, 0, 0, 0, 0, 0]"

text \<open>\<open>if (x >> s) { zeroes -= s; x >>= s; }\<close>\<close>

definition clz_narrow :: "nat \<Rightarrow> 'a::len word \<times> int \<Rightarrow> 'a word \<times> int" where
  "clz_narrow s = (\<lambda>(x, zeroes). if drop_bit s x \<noteq> 0 then (drop_bit s x, zeroes - int s) else (x, zeroes))"

definition CountLeadingZeroes32 :: "32 word \<Rightarrow> int result" where
  "CountLeadingZeroes32 x =
     (case clz_narrow 4 (clz_narrow 8 (clz_narrow 16 (x, 28))) of
        (x, zeroes) \<Rightarrow> rbind (array_get clz_table (unat x)) (\<lambda>t. Inr (t + zeroes)))"

definition CountLeadingZeroes16 :: "16 word \<Rightarrow> int result" where
  "CountLeadingZeroes16 x = rbind (CountLeadingZeroes32 (ucast x)) (\<lambda>z. Inr (z - 16))"

definition CountLeadingZeroes64 :: "64 word \<Rightarrow> int result" where
  "CountLeadingZeroes64 x =
     (case clz_narrow 4 (clz_narrow 8 (clz_narrow 16 (clz_narrow 32 (x, 60)))) of
        (x, zeroes) \<Rightarrow> rbind (array_get clz_table (unat x)) (\<lambda>t. Inr (t + zeroes)))"

definition CountLeadingZeroes :: "'a::len word \<Rightarrow> int result" where
  "CountLeadingZeroes x =
     (if LENGTH('a) \<le> 16 then rbind (CountLeadingZeroes16 (ucast x)) (\<lambda>z. Inr (z - (16 - int LENGTH('a))))
      else if LENGTH('a) \<le> 32 then rbind (CountLeadingZeroes32 (ucast x)) (\<lambda>z. Inr (z - (32 - int LENGTH('a))))
      else CountLeadingZeroes64 (ucast x))"

definition countl_one :: "'a::len word \<Rightarrow> int result" where
  "countl_one x = CountLeadingZeroes (NOT x)"


section \<open>Trailing zeroes\<close>

definition CountTrailingZeroesNonzero32 :: "32 word \<Rightarrow> int" where
  "CountTrailingZeroesNonzero32 x =
     (let c = 31;
          x = x AND (NOT x + 1);
          c = (if x AND 0x0000FFFF \<noteq> 0 then c - 16 else c);
          c = (if x AND 0x00FF00FF \<noteq> 0 then c - 8 else c);
          c = (if x AND 0x0F0F0F0F \<noteq> 0 then c - 4 else c);
          c = (if x AND 0x33333333 \<noteq> 0 then c - 2 else c);
          c = (if x AND 0x55555555 \<noteq> 0 then c - 1 else c)
      in c)"

definition CountTrailingZeroesNonzero64 :: "64 word \<Rightarrow> int" where
  "CountTrailingZeroesNonzero64 x =
     (let c = 63;
          x = x AND (NOT x + 1);
          c = (if x AND 0x00000000FFFFFFFF \<noteq> 0 then c - 32 else c);
          c = (if x AND 0x0000FFFF0000FFFF \<noteq> 0 then c - 16 else c);
          c = (if x AND 0x00FF00FF00FF00FF \<noteq> 0 then c - 8 else c);
          c = (if x AND 0x0F0F0F0F0F0F0F0F \<noteq> 0 then c - 4 else c);
          c = (if x AND 0x3333333333333333 \<noteq> 0 then c - 2 else c);
          c = (if x AND 0x5555555555555555 \<noteq> 0 then c - 1 else c)
      in c)"

definition CountTrailingZeroesNonzero16 :: "16 word \<Rightarrow> int" where
  "CountTrailingZeroesNonzero16 x = CountTrailingZeroesNonzero32 (ucast x)"

definition CountTrailingZeroes :: "'a::len word \<Rightarrow> int" where
  "CountTrailingZeroes x =
     (if x = 0 then int LENGTH('a)
      else if LENGTH('a) \<le> 16 then CountTrailingZeroesNonzero16 (ucast x)
      else if LENGTH('a) \<le> 32 then CountTrailingZeroesNonzero32 (ucast x)
      else CountTrailingZeroesNonzero64 (ucast x))"

definition countr_one :: "'a::len word \<Rightarrow> int" where
  "countr_one x = CountTrailingZeroes (NOT x)"


section \<open>Powers of two\<close>

definition has_single_bit :: "'a::len word \<Rightarrow> bool" where
  "has_single_bit x \<longleftrightarrow> x \<noteq> 0 \<and> x AND (x - 1) = 0"

text \<open>\<open>bit_width\<close> as it is written, over the portable \<open>CountLeadingZeroes\<close>.\<close>

definition portable_bit_width :: "'a::len word \<Rightarrow> int result" where
  "portable_bit_width x = rbind (CountLeadingZeroes x) (\<lambda>z. Inr (int LENGTH('a) - z))"

text \<open>A shift of a type narrower than \<open>int\<close> is carried out on \<open>int\<close>, and the result converted
  back. A shift by the width of the promoted type or more, or by a negative amount, is undefined.\<close>

definition shift_one :: "int \<Rightarrow> 'a::len word result" where
  "shift_one n =
     (if n < 0 \<or> int (max 32 LENGTH('a)) \<le> n then Inl ShiftTooLarge
      else if LENGTH('a) < 32 then Inr (ucast (push_bit (nat n) (1 :: i32)))
      else Inr (push_bit (nat n) 1))"

definition bit_floor :: "'a::len word \<Rightarrow> 'a word result" where
  "bit_floor x = (if x = 0 then Inr 0 else rbind (portable_bit_width x) (\<lambda>w. shift_one (w - 1)))"

definition BitCeilPromotionHelper :: "'a::len word \<Rightarrow> 'a word \<Rightarrow> 'a word result" where
  "BitCeilPromotionHelper x promotion =
     (let n = unat x + unat promotion
      in if max 32 LENGTH('a) \<le> n then Inl ShiftTooLarge
         else if LENGTH('a) < 32 then Inr (ucast (signed_drop_bit (unat promotion) (push_bit n (1 :: i32))))
         else Inr (drop_bit (unat promotion) (push_bit n 1)))"

definition BitCeilNonPowerOf2 :: "'a::len word \<Rightarrow> 'a word result" where
  "BitCeilNonPowerOf2 x =
     rbind (CountLeadingZeroes x) (\<lambda>z.
       BitCeilPromotionHelper (of_int (int LENGTH('a) - z))
         (if 32 \<le> LENGTH('a) then 0 else of_nat (32 - LENGTH('a))))"

definition bit_ceil :: "'a::len word \<Rightarrow> 'a word result" where
  "bit_ceil x =
     (if has_single_bit x then rbind (portable_bit_width x) (\<lambda>w. shift_one (w - 1))
      else BitCeilNonPowerOf2 x)"


section \<open>Counting zeroes is counting bits\<close>

lemma highest_bit:
  fixes x :: "'a::len word"
  assumes "x \<noteq> 0"
  obtains k where "k < LENGTH('a)" "bit x k" "\<And>i. k < i \<Longrightarrow> \<not> bit x i"
proof -
  let ?S = "{i. bit x i}"
  have fin: "finite ?S" using bit_imp_le_length [of x] by (auto intro: finite_subset [of _ "{..<LENGTH('a)}"])
  have "?S \<noteq> {}" using word_bit_exists [OF assms] by blast
  then have "bit x (Max ?S)" using Max_in [OF fin] by simp
  moreover have "\<not> bit x i" if "Max ?S < i" for i using Max_ge [OF fin, of i] that by (metis mem_Collect_eq not_le)
  ultimately show ?thesis using that bit_imp_le_length by blast
qed

lemma bit_width_zero [simp]: "bit_width (0 :: 'a::len word) = 0"
  by (simp add: bit_width_def countl_zero_def takeWhile_eq_all_conv [THEN iffD2])

lemma countl_zero_le: "countl_zero (x :: 'a::len word) \<le> LENGTH('a)"
  unfolding countl_zero_def using length_takeWhile_le [of _ "rev [0..<LENGTH('a)]"] by (simp add: order_trans)

lemma countl_zero_width: "int (countl_zero (x :: 'a::len word)) = int LENGTH('a) - int (bit_width x)"
  using countl_zero_le [of x] by (simp add: bit_width_def of_nat_diff)

text \<open>The width of a word is the number of digits of its value.\<close>

lemma bit_width_le_iff: "bit_width x \<le> k \<longleftrightarrow> unat x < 2 ^ k" for x :: "'a::len word"
proof (cases "x = 0")
  case False
  obtain h where h: "h < LENGTH('a)" "bit x h" "\<And>i. h < i \<Longrightarrow> \<not> bit x i" using highest_bit [OF False] by blast
  have w: "bit_width x = Suc h" using h(2,3) by (rule bit_width_highest(1))
  have "unat x < 2 ^ k \<longleftrightarrow> h < k"
  proof
    assume "unat x < 2 ^ k"
    then have "take_bit k (unat x) = unat x" by (simp add: take_bit_nat_eq_self)
    moreover have "bit (unat x) h" using h(2) by (simp add: bit_unsigned_iff)
    ultimately show "h < k" by (metis bit_take_bit_iff)
  next
    assume "h < k"
    then have "take_bit k (unat x) = unat x"
      using h(3) by (intro bit_eqI) (simp add: bit_take_bit_iff bit_unsigned_iff, meson le_less_trans not_le)
    then show "unat x < 2 ^ k" by (metis take_bit_nat_less_exp)
  qed
  then show ?thesis using w by auto
qed simp

lemma unat_drop_div: "unat (drop_bit s x) = unat x div 2 ^ s" for x :: "'a::len word"
  by (metis drop_bit_eq_div unat_drop_bit_eq)

lemma bit_width_drop:
  fixes x :: "'a::len word"
  assumes "drop_bit s x \<noteq> 0"
  shows "bit_width x = bit_width (drop_bit s x) + s"
proof -
  obtain h where h: "bit (drop_bit s x) h" "\<And>i. h < i \<Longrightarrow> \<not> bit (drop_bit s x) i" using highest_bit [OF assms] by blast
  have "bit x (s + h)" using h(1) by (simp add: bit_drop_bit_eq)
  moreover have "\<not> bit x i" if "s + h < i" for i
    using h(2) [of "i - s"] that by (simp add: bit_drop_bit_eq)
  ultimately show ?thesis using bit_width_highest(1) [of x "s + h"] bit_width_highest(1) [OF h] by simp
qed

lemma unat_clz_narrow:
  assumes "unat (fst p) < 2 ^ (2 * s)"
  shows "unat (fst (clz_narrow s p)) < 2 ^ s"
    and "int (bit_width (fst (clz_narrow s p))) - snd (clz_narrow s p) = int (bit_width (fst p)) - snd p"
proof -
  obtain x z where p: "p = (x, z)" by force
  have "unat x div 2 ^ s < 2 ^ s"
    using assms by (simp add: p less_mult_imp_div_less power_add [symmetric] mult_2)
  moreover have "unat x < 2 ^ s" if "drop_bit s x = 0"
  proof -
    have "unat (drop_bit s x) = 0" using that by simp
    then have "unat x div 2 ^ s = 0" by (simp only: unat_drop_div)
    then show ?thesis by (simp add: div_eq_0_iff)
  qed
  ultimately show "unat (fst (clz_narrow s p)) < 2 ^ s"
    by (auto simp: p clz_narrow_def unat_drop_div)
  show "int (bit_width (fst (clz_narrow s p))) - snd (clz_narrow s p) = int (bit_width (fst p)) - snd p"
    using bit_width_drop [of s x] by (auto simp: p clz_narrow_def)
qed

lemma clz_table_width:
  fixes x :: "'a::len word"
  assumes "unat x < 16"
  shows "array_get clz_table (unat x) = Inr (4 - int (bit_width x))"
proof -
  have le: "bit_width x \<le> k \<longleftrightarrow> unat x < 2 ^ k" for k by (rule bit_width_le_iff)
  have w: "bit_width x = (if unat x < 1 then 0 else if unat x < 2 then 1 else if unat x < 4 then 2
        else if unat x < 8 then 3 else 4)"
    using le [of 0] le [of 1] le [of 2] le [of 3] le [of 4] assms by auto
  have "\<forall>n \<in> set [0..<16]. clz_table ! n = 4 - int (if n < 1 then 0 else if n < 2 then 1 else if n < 4 then 2
        else if n < 8 then 3 else 4)"
    by code_simp
  then show ?thesis using assms unfolding w by (simp add: array_get_def clz_table_def)
qed

lemma clz_chain:
  assumes "unat (fst p) < 16"
  shows "(case p of (x, zeroes) \<Rightarrow> rbind (array_get clz_table (unat x)) (\<lambda>t. Inr (t + zeroes)))
           = Inr (4 - (int (bit_width (fst p)) - snd p))"
  using clz_table_width [of "fst p"] assms by (auto split: prod.splits)

lemma CountLeadingZeroes32_eq: "CountLeadingZeroes32 x = Inr (int (countl_zero x))"
proof -
  let ?a = "clz_narrow 16 (x, 28)" and ?b = "clz_narrow 8 (clz_narrow 16 (x, 28))"
  let ?c = "clz_narrow 4 (clz_narrow 8 (clz_narrow 16 (x, 28)))"
  have a: "unat (fst ?a) < 2 ^ 16" "int (bit_width (fst ?a)) - snd ?a = int (bit_width x) - 28"
    using unat_clz_narrow [of "(x, 28)" 16] unsigned_less [of x] by simp_all
  have b: "unat (fst ?b) < 2 ^ 8" "int (bit_width (fst ?b)) - snd ?b = int (bit_width x) - 28"
    using unat_clz_narrow [of ?a 8] a by simp_all
  have c: "unat (fst ?c) < 16" "int (bit_width (fst ?c)) - snd ?c = int (bit_width x) - 28"
    using unat_clz_narrow [of ?b 4] b by simp_all
  show ?thesis unfolding CountLeadingZeroes32_def clz_chain [OF c(1)] c(2) by (simp add: countl_zero_width)
qed

lemma CountLeadingZeroes64_eq: "CountLeadingZeroes64 x = Inr (int (countl_zero x))"
proof -
  let ?z = "clz_narrow 32 (x, 60)" and ?a = "clz_narrow 16 (clz_narrow 32 (x, 60))"
  let ?b = "clz_narrow 8 (clz_narrow 16 (clz_narrow 32 (x, 60)))"
  let ?c = "clz_narrow 4 (clz_narrow 8 (clz_narrow 16 (clz_narrow 32 (x, 60))))"
  have z: "unat (fst ?z) < 2 ^ 32" "int (bit_width (fst ?z)) - snd ?z = int (bit_width x) - 60"
    using unat_clz_narrow [of "(x, 60)" 32] unsigned_less [of x] by simp_all
  have a: "unat (fst ?a) < 2 ^ 16" "int (bit_width (fst ?a)) - snd ?a = int (bit_width x) - 60"
    using unat_clz_narrow [of ?z 16] z by simp_all
  have b: "unat (fst ?b) < 2 ^ 8" "int (bit_width (fst ?b)) - snd ?b = int (bit_width x) - 60"
    using unat_clz_narrow [of ?a 8] a by simp_all
  have c: "unat (fst ?c) < 16" "int (bit_width (fst ?c)) - snd ?c = int (bit_width x) - 60"
    using unat_clz_narrow [of ?b 4] b by simp_all
  show ?thesis unfolding CountLeadingZeroes64_def clz_chain [OF c(1)] c(2) by (simp add: countl_zero_width)
qed

lemma bit_width_ucast:
  assumes "LENGTH('a) \<le> LENGTH('b)"
  shows "bit_width (ucast (x :: 'a::len word) :: 'b::len word) = bit_width x"
proof -
  have "unat (ucast x :: 'b word) = unat x"
    using assms by (simp add: unsigned_ucast_eq take_bit_nat_eq_self_iff) (meson less_le_trans one_le_numeral power_increasing unsigned_less)
  then have "bit_width (ucast x :: 'b word) \<le> k \<longleftrightarrow> bit_width x \<le> k" for k by (simp add: bit_width_le_iff)
  then show ?thesis by (meson order_antisym order_refl)
qed

lemma CountLeadingZeroes_eq:
  fixes x :: "'a::len word"
  assumes "unsigned_type LENGTH('a)"
  shows "CountLeadingZeroes x = Inr (int (countl_zero x))"
  using assms by (auto simp: unsigned_type_def CountLeadingZeroes_def CountLeadingZeroes16_def
      CountLeadingZeroes32_eq CountLeadingZeroes64_eq countl_zero_width bit_width_ucast)


lemma isolate_lowest:
  fixes x :: "'a::len word"
  assumes "x \<noteq> 0"
  shows "x AND (NOT x + 1) = 2 ^ countr_zero x"
proof -
  have "NOT x + 1 = NOT (x - 1)" by (simp add: not_eq_complement)
  moreover have "x AND NOT (x - 1) = 2 ^ countr_zero x"
  proof (rule bit_word_eqI)
    fix i assume i: "i < LENGTH('a)"
    have "bit x i \<and> bit (x - 1) i \<longleftrightarrow> bit x i \<and> i \<noteq> countr_zero x"
      using bit_clear_lowest [OF assms, of i] by (simp add: bit_and_iff)
    then show "bit (x AND NOT (x - 1)) i \<longleftrightarrow> bit (2 ^ countr_zero x :: 'a word) i"
      using countr_zero_lowest(2) [OF assms] i by (auto simp: bit_simps)
  qed
  ultimately show ?thesis by simp
qed

lemma CountTrailingZeroesNonzero32_masks:
  "\<forall>k \<in> set [0..<32].
     (let c = 31;
          c = (if bit (0x0000FFFF :: int) k then c - 16 else c);
          c = (if bit (0x00FF00FF :: int) k then c - 8 else c);
          c = (if bit (0x0F0F0F0F :: int) k then c - 4 else c);
          c = (if bit (0x33333333 :: int) k then c - 2 else c);
          c = (if bit (0x55555555 :: int) k then c - 1 else c)
      in c) = int k"
  by code_simp

lemma CountTrailingZeroesNonzero64_masks:
  "\<forall>k \<in> set [0..<64].
     (let c = 63;
          c = (if bit (0x00000000FFFFFFFF :: int) k then c - 32 else c);
          c = (if bit (0x0000FFFF0000FFFF :: int) k then c - 16 else c);
          c = (if bit (0x00FF00FF00FF00FF :: int) k then c - 8 else c);
          c = (if bit (0x0F0F0F0F0F0F0F0F :: int) k then c - 4 else c);
          c = (if bit (0x3333333333333333 :: int) k then c - 2 else c);
          c = (if bit (0x5555555555555555 :: int) k then c - 1 else c)
      in c) = int k"
  by code_simp

text \<open>A mask shares the isolated bit exactly when the mask has that bit.\<close>

lemma power_meets_mask: "k < LENGTH('a) \<Longrightarrow> (2 ^ k :: 'a::len word) AND numeral m = 0 \<longleftrightarrow> \<not> bit (numeral m :: int) k"
  by (simp add: and.commute [of "2 ^ k"] and_exp_eq_0_iff_not_bit)

lemma CountTrailingZeroesNonzero32_eq:
  assumes "x \<noteq> 0"
  shows "CountTrailingZeroesNonzero32 x = int (countr_zero x)"
proof -
  have k: "countr_zero x < LENGTH(32)" using assms by (rule countr_zero_lowest(1))
  then have "countr_zero x \<in> set [0..<32]" by simp
  from bspec [OF CountTrailingZeroesNonzero32_masks this] show ?thesis
    by (simp only: CountTrailingZeroesNonzero32_def isolate_lowest [OF assms] power_meets_mask [OF k] Let_def not_not)
qed

lemma CountTrailingZeroesNonzero64_eq:
  assumes "x \<noteq> 0"
  shows "CountTrailingZeroesNonzero64 x = int (countr_zero x)"
proof -
  have k: "countr_zero x < LENGTH(64)" using assms by (rule countr_zero_lowest(1))
  then have "countr_zero x \<in> set [0..<64]" by simp
  from bspec [OF CountTrailingZeroesNonzero64_masks this] show ?thesis
    by (simp only: CountTrailingZeroesNonzero64_def isolate_lowest [OF assms] power_meets_mask [OF k] Let_def not_not)
qed

lemma ucast_widen_eq_0: "LENGTH('a) \<le> LENGTH('b) \<Longrightarrow> (ucast x :: 'b::len word) = 0 \<longleftrightarrow> x = 0"
  for x :: "'a::len word"
  by (metis bit_width_le_iff bit_width_ucast less_one power_0 unsigned_0 unat_eq_zero)

lemma countr_zero_ucast:
  fixes x :: "'a::len word"
  assumes "LENGTH('a) \<le> LENGTH('b)" "x \<noteq> 0"
  shows "countr_zero (ucast x :: 'b::len word) = countr_zero x"
  using countr_zero_lowest [OF assms(2)] assms(1) by (intro countr_zero_unique) (auto simp: bit_ucast_iff)

lemma CountTrailingZeroes_eq:
  fixes x :: "'a::len word"
  assumes "unsigned_type LENGTH('a)"
  shows "CountTrailingZeroes x = int (countr_zero x)"
proof (cases "x = 0")
  case True
  then show ?thesis by (simp add: CountTrailingZeroes_def countr_zero_def takeWhile_eq_all_conv [THEN iffD2])
next
  case False
  then show ?thesis using assms
    by (auto simp: unsigned_type_def CountTrailingZeroes_def CountTrailingZeroesNonzero16_def
        CountTrailingZeroesNonzero32_eq CountTrailingZeroesNonzero64_eq countr_zero_ucast ucast_widen_eq_0)
qed


section \<open>The population count adds bits bytewise\<close>

text \<open>A number as the list of its bytes, least significant first. Every step of the routine but the
  last acts on each byte alone.\<close>

fun of_bytes :: "nat list \<Rightarrow> nat" where
  "of_bytes [] = 0"
| "of_bytes (d # ds) = d + 256 * of_bytes ds"

fun to_bytes :: "nat \<Rightarrow> nat \<Rightarrow> nat list" where
  "to_bytes 0 v = []"
| "to_bytes (Suc n) v = v mod 256 # to_bytes n (v div 256)"

lemma of_to_bytes: "v < 256 ^ n \<Longrightarrow> of_bytes (to_bytes n v) = v"
  by (induction n arbitrary: v) (simp_all add: less_mult_imp_div_less mult.commute)

lemma to_bytes_less: "d \<in> set (to_bytes n v) \<Longrightarrow> d < 256"
  by (induction n arbitrary: v) auto

lemma length_to_bytes [simp]: "length (to_bytes n v) = n"
  by (induction n arbitrary: v) simp_all

lemma byte_bits:
  fixes d v :: nat
  assumes "d < 256"
  shows "bit (d + 256 * v) i = (if i < 8 then bit d i else bit v (i - 8))"
proof (cases "i < 8")
  case True
  have "take_bit 8 (d + 256 * v) = d" using assms by (simp add: take_bit_eq_mod)
  then show ?thesis using True by (metis bit_take_bit_iff)
next
  case False
  have "drop_bit 8 (d + 256 * v) = v" using assms by (simp add: drop_bit_eq_div)
  then have "bit (drop_bit 8 (d + 256 * v)) (i - 8) = bit v (i - 8)" by simp
  then show ?thesis using False unfolding bit_drop_bit_eq by simp
qed

lemma masked_shift_byte:
  fixes d v m w :: nat
  assumes "d < 256" "m < 2 ^ (8 - s)" "s \<le> 8"
  shows "drop_bit s (d + 256 * v) AND (m + 256 * w) = (drop_bit s d AND m) + 256 * (drop_bit s v AND w)"
proof (rule bit_eqI)
  fix i
  have high: "bit m j \<Longrightarrow> s + j < 8" for j
    using assms(2,3) by (metis bit_take_bit_iff less_diff_conv add.commute take_bit_nat_eq_self)
  have m: "m < 256" by (rule less_le_trans [OF assms(2)]) (use power_increasing [of "8 - s" 8 "2::nat"] in simp)
  have "take_bit 8 (drop_bit s d AND m) = drop_bit s d AND m"
    using add_lessD1 [OF high [unfolded add.commute [of s]]] by (intro bit_eqI) (auto simp: bit_take_bit_iff bit_and_iff)
  then have b: "(drop_bit s d AND m) < 256" using take_bit_nat_less_exp [of 8 "drop_bit s d AND m"] by simp
  show "bit (drop_bit s (d + 256 * v) AND (m + 256 * w)) i
          = bit ((drop_bit s d AND m) + 256 * (drop_bit s v AND w)) i"
    using high by (auto simp: bit_and_iff bit_drop_bit_eq byte_bits assms(1) m b)
qed

lemma of_bytes_shift_mask:
  assumes "\<forall>d \<in> set ds. d < 256" "m < 2 ^ (8 - s)" "s \<le> 8"
  shows "drop_bit s (of_bytes ds) AND of_bytes (replicate (length ds) m)
           = of_bytes (map (\<lambda>d. drop_bit s d AND m) ds)"
  using assms(1) by (induction ds) (simp_all add: masked_shift_byte assms(2,3))

lemma of_bytes_add: "of_bytes (map f ds) + of_bytes (map g ds) = of_bytes (map (\<lambda>d. f d + g d) ds)"
  by (induction ds) simp_all

lemma of_bytes_sub:
  assumes "\<forall>d \<in> set ds. f d \<le> d"
  shows "of_bytes (map f ds) \<le> of_bytes ds \<and> of_bytes ds - of_bytes (map f ds) = of_bytes (map (\<lambda>d. d - f d) ds)"
  using assms by (induction ds) (auto simp: algebra_simps)

text \<open>In the step that adds the two halves of a byte, the upper half of the sum holds a part of the
  next byte; it does not carry over and is masked out.\<close>

definition nibbles_small :: "nat \<Rightarrow> bool" where
  "nibbles_small d \<longleftrightarrow> d mod 16 \<le> 4 \<and> d div 16 \<le> 4"

lemma of_bytes_mod: "\<forall>d \<in> set ds. nibbles_small d \<Longrightarrow> of_bytes ds mod 16 \<le> 4"
  by (cases ds) (auto simp: nibbles_small_def mod_add_eq [symmetric] mod_mult_left_eq [symmetric] mod_mult_eq)

lemma of_bytes_fold_halves:
  assumes "\<forall>d \<in> set ds. nibbles_small d"
  shows "(of_bytes ds + drop_bit 4 (of_bytes ds)) AND of_bytes (replicate (length ds) 15)
           = of_bytes (map (\<lambda>d. d mod 16 + d div 16) ds)"
  using assms
proof (induction ds)
  case (Cons d ds)
  let ?v = "of_bytes ds"
  define a where "a = d mod 16 + d div 16 + 16 * (d div 16 + ?v mod 16)"
  have small: "d mod 16 \<le> 4" "d div 16 \<le> 4" "?v mod 16 \<le> 4"
    using Cons.prems of_bytes_mod [of ds] by (simp_all add: nibbles_small_def)
  have "(lo + hi + 16 * c) mod 16 = lo + hi" if "lo \<le> 4" "hi \<le> 4" for lo hi c :: nat using that by simp
  from this [OF small(1,2)] have a: "a mod 16 = d mod 16 + d div 16" unfolding a_def by blast
  have "lo + hi + 16 * (hi + n) < 256" if "lo \<le> 4" "hi \<le> 4" "n \<le> 4" for lo hi n :: nat using that by simp
  from this [OF small] have a': "a < 256" unfolding a_def .
  have low: "(e + 256 * v) AND (15 + 256 * w) = (e AND 15) + 256 * (v AND w)" if "e < 256" for e v w :: nat
    using masked_shift_byte [of e 15 0 v w] that by simp
  have half: "drop_bit 4 v = v div 16" for v :: nat by (simp add: drop_bit_eq_div)
  have "d + 256 * ?v + (d + 256 * ?v) div 16 = a + 256 * (?v + ?v div 16)"
  proof -
    have "(d + 256 * ?v) div 16 = d div 16 + 16 * ?v" by simp
    moreover have "e + 256 * v + (h + 16 * v) = l + h + 16 * (h + vl) + 256 * (v + vh)"
      if "h * 16 + l = e" "vh * 16 + vl = v" for e h l v vh vl :: nat using that by simp
    note this [OF div_mult_mod_eq [of d 16] div_mult_mod_eq [of ?v 16]]
    ultimately show ?thesis unfolding a_def by simp
  qed
  then have "(of_bytes (d # ds) + drop_bit 4 (of_bytes (d # ds))) AND of_bytes (replicate (length (d # ds)) 15)
      = (a + 256 * (?v + ?v div 16)) AND (15 + 256 * of_bytes (replicate (length ds) 15))"
    by (simp only: of_bytes.simps length_Cons replicate_Suc half)
  also have "\<dots> = (a AND 15) + 256 * ((?v + ?v div 16) AND of_bytes (replicate (length ds) 15))"
    by (rule low [OF a'])
  also have "a AND 15 = d mod 16 + d div 16"
    using take_bit_eq_mask [of 4 a] a by (simp add: mask_eq_exp_minus_1 take_bit_eq_mod)
  also have "(?v + ?v div 16) AND of_bytes (replicate (length ds) 15) = of_bytes (map (\<lambda>d. d mod 16 + d div 16) ds)"
    using Cons by (simp add: drop_bit_eq_div)
  finally show ?case by simp
qed simp

text \<open>Multiplying by 1 in every byte gathers the sum of the bytes in the uppermost byte.\<close>

lemma gather:
  fixes v low p hi :: nat
  assumes "v = low + p * t + (p * 256) * hi" "low < p" "t < 256"
  shows "v mod (p * 256) div p = t"
proof -
  have "p * t \<le> p * 255" using assms(3) by simp
  then have "low + p * t < p * 256" using assms(2) by linarith
  then have "v mod (p * 256) = low + p * t" using assms(1) by simp
  then show ?thesis using assms(2) by simp
qed

lemma gather4:
  assumes "length ds = 4" "\<forall>d \<in> set ds. d \<le> 8"
  shows "of_bytes ds * 0x1010101 mod 2 ^ 32 div 2 ^ 24 = sum_list ds"
proof -
  obtain a b c d where ds: "ds = [a, b, c, d]" using assms(1) by (auto simp: numeral_eq_Suc length_Suc_conv)
  have "of_bytes ds * 0x1010101 mod (2 ^ 24 * 256) div 2 ^ 24 = sum_list ds"
    using assms(2) unfolding ds
    by (intro gather [where low = "a + (a + b) * 256 + (a + b + c) * 256 ^ 2"
          and hi = "(b + c + d) + (c + d) * 256 + d * 256 ^ 2"]) simp_all
  then show ?thesis by simp
qed

lemma gather8:
  assumes "length ds = 8" "\<forall>d \<in> set ds. d \<le> 8"
  shows "of_bytes ds * 0x101010101010101 mod 2 ^ 64 div 2 ^ 56 = sum_list ds"
proof -
  obtain a b c d e f g h where ds: "ds = [a, b, c, d, e, f, g, h]"
    using assms(1) by (auto simp: numeral_eq_Suc length_Suc_conv)
  have "of_bytes ds * 0x101010101010101 mod (2 ^ 56 * 256) div 2 ^ 56 = sum_list ds"
    using assms(2) unfolding ds
    by (intro gather [where low = "a + (a + b) * 256 + (a + b + c) * 256 ^ 2 + (a + b + c + d) * 256 ^ 3
            + (a + b + c + d + e) * 256 ^ 4 + (a + b + c + d + e + f) * 256 ^ 5 + (a + b + c + d + e + f + g) * 256 ^ 6"
          and hi = "(b + c + d + e + f + g + h) + (c + d + e + f + g + h) * 256 + (d + e + f + g + h) * 256 ^ 2
            + (e + f + g + h) * 256 ^ 3 + (f + g + h) * 256 ^ 4 + (g + h) * 256 ^ 5 + h * 256 ^ 6"]) simp_all
  then show ?thesis by simp
qed

text \<open>The three steps on one byte.\<close>

definition pop1 :: "nat \<Rightarrow> nat" where
  "pop1 d = d - (drop_bit 1 d AND 0x55)"

definition pop2 :: "nat \<Rightarrow> nat" where
  "pop2 d = (drop_bit 2 d AND 0x33) + (d AND 0x33)"

definition pop_byte :: "nat \<Rightarrow> nat" where
  "pop_byte d = (let e = pop2 (pop1 d) in e mod 16 + e div 16)"

lemma pop_byte_all:
  "\<forall>d \<in> set [0..255::int]. (drop_bit 1 d AND 0x55) \<le> d \<and>
     (let d1 = d - (drop_bit 1 d AND 0x55); e = (drop_bit 2 d1 AND 0x33) + (d1 AND 0x33)
      in e mod 16 \<le> 4 \<and> e div 16 \<le> 4 \<and> e mod 16 + e div 16 = int (length (filter (bit d) [0..<8])))"
  by code_simp

lemma pop_byteD:
  assumes "d < 256"
  shows "(drop_bit 1 d AND 0x55) \<le> d" "pop1 d < 256" "nibbles_small (pop2 (pop1 d))"
    "pop_byte d = length (filter (bit d) [0..<8])" "pop_byte d \<le> 8"
proof -
  have and_int: "int (m AND n) = int m AND int n" for m n by (rule of_nat_and_eq)
  have drop_int: "int (drop_bit n m) = drop_bit n (int m)" for m n by (rule drop_bit_of_nat [symmetric])
  have "int d \<in> set [0..255]" using assms by simp
  note all = bspec [OF pop_byte_all this]
  have "int (drop_bit 1 d AND 0x55) \<le> int d" using all by (simp add: and_int drop_int)
  then show le: "(drop_bit 1 d AND 0x55) \<le> d" by simp
  have p1: "int (pop1 d) = int d - (drop_bit 1 (int d) AND 0x55)"
    unfolding pop1_def of_nat_diff [OF le] and_int drop_int by simp
  have p2: "int (pop2 e) = (drop_bit 2 (int e) AND 0x33) + (int e AND 0x33)" for e
    unfolding pop2_def of_nat_add and_int drop_int by simp
  let ?e = "pop2 (pop1 d)"
  have e: "int ?e mod 16 \<le> 4" "int ?e div 16 \<le> 4"
    "int ?e mod 16 + int ?e div 16 = int (length (filter (bit (int d)) [0..<8]))"
    using all unfolding p2 p1 Let_def by blast+
  have "int (?e mod 16) \<le> 4" "int (?e div 16) \<le> 4" using e(1,2) by (simp_all only: of_nat_mod of_nat_div of_nat_numeral)
  then show "nibbles_small ?e" by (simp add: nibbles_small_def)
  have "int (pop_byte d) = int (length (filter (bit (int d)) [0..<8]))"
    using e(3) by (simp only: pop_byte_def Let_def of_nat_add of_nat_mod of_nat_div of_nat_numeral)
  then show *: "pop_byte d = length (filter (bit d) [0..<8])" by (simp only: of_nat_eq_iff bit_of_nat_iff_bit cong: filter_cong)
  show "pop1 d < 256" using assms by (simp add: pop1_def)
  show "pop_byte d \<le> 8" unfolding * using length_filter_le [of "bit d" "[0..<8]"] by simp
qed

lemma count_of_bytes:
  assumes "\<forall>d \<in> set ds. d < 256"
  shows "length (filter (bit (of_bytes ds)) [0..<8 * length ds]) = sum_list (map (\<lambda>d. length (filter (bit d) [0..<8])) ds)"
  using assms
proof (induction ds)
  case (Cons d ds)
  have "[0..<8 * length (d # ds)] = [0..<8] @ map (\<lambda>i. i + 8) [0..<8 * length ds]"
    using upt_add_eq_append [of 0 8 "8 * length ds"] by (simp add: map_add_upt add.commute del: upt_rec_numeral)
  moreover have "filter (bit (of_bytes (d # ds))) [0..<8] = filter (bit d) [0..<8]"
    using Cons.prems by (intro filter_cong) (simp_all add: byte_bits del: upt_rec_numeral)
  moreover have "filter (bit (of_bytes (d # ds))) (map (\<lambda>i. i + 8) is) = map (\<lambda>i. i + 8) (filter (bit (of_bytes ds)) is)" for "is"
    using Cons.prems by (simp add: filter_map comp_def byte_bits)
  ultimately show ?case using Cons by (simp del: upt_rec_numeral)
qed simp

lemma bit_count_bytes:
  fixes x :: "'a::len word"
  assumes "LENGTH('a) = 8 * n"
  shows "bit_count x = sum_list (map pop_byte (to_bytes n (unat x)))"
proof -
  let ?ds = "to_bytes n (unat x)"
  have small: "\<forall>d \<in> set ?ds. d < 256" by (simp add: to_bytes_less)
  have "unat x < 256 ^ n" using unsigned_less [of x] assms by (simp add: power_mult)
  then have "of_bytes ?ds = unat x" by (rule of_to_bytes)
  then have "filter (bit x) [0..<LENGTH('a)] = filter (bit (of_bytes ?ds)) [0..<8 * length ?ds]"
    using assms by (intro filter_cong) (simp_all add: bit_unsigned_iff)
  moreover have "map (\<lambda>d. length (filter (bit d) [0..<8])) ?ds = map pop_byte ?ds"
    using small by (intro map_cong) (simp_all add: pop_byteD(4) del: upt_rec_numeral)
  ultimately show ?thesis using count_of_bytes [OF small] by (simp only: bit_count_def)
qed

lemma of_bytes_bound: "\<forall>d \<in> set ds. nibbles_small d \<Longrightarrow> 2 * of_bytes ds < 256 ^ length ds"
proof (induction ds)
  case (Cons d ds)
  have "2 * of_bytes ds < 256 ^ length ds" using Cons by simp
  moreover have "d < 128" using Cons.prems div_less_iff_less_mult [of 16 d 8] by (auto simp: nibbles_small_def)
  ultimately show ?case by simp
qed simp

text \<open>The value of the word after the step that adds the halves of the bytes.\<close>

lemma swar_steps:
  fixes x :: "'a::len word"
  assumes len: "LENGTH('a) = 8 * n"
    and m5: "unat m5 = of_bytes (replicate n 0x55)"
    and m3: "unat m3 = of_bytes (replicate n 0x33)"
    and mF: "unat mF = of_bytes (replicate n 15)"
  defines "y \<equiv> x - (drop_bit 1 x AND m5)"
  defines "z \<equiv> (drop_bit 2 y AND m3) + (y AND m3)"
  shows "unat ((z + drop_bit 4 z) AND mF) = of_bytes (map pop_byte (to_bytes n (unat x)))"
proof -
  define ds where "ds = to_bytes n (unat x)"
  have n: "length ds = n" by (simp add: ds_def)
  have pow: "256 ^ n = (2::nat) ^ LENGTH('a)" by (simp add: len power_mult)
  have small: "\<forall>d \<in> set ds. d < 256" by (simp add: ds_def to_bytes_less)
  have x: "unat x = of_bytes ds" using unsigned_less [of x] by (simp add: ds_def of_to_bytes pow)
  have "unat (drop_bit 1 x AND m5) = of_bytes (map (\<lambda>d. drop_bit 1 d AND 0x55) ds)"
    using of_bytes_shift_mask [OF small, of 85 1] by (simp add: unsigned_and_eq unat_drop_bit_eq x m5 n)
  moreover have "\<forall>d \<in> set ds. drop_bit 1 d AND 0x55 \<le> d" using small pop_byteD(1) by blast
  note of_bytes_sub [OF this]
  ultimately have y: "unat y = of_bytes (map pop1 ds)"
    by (simp add: y_def unat_sub word_le_nat_alt x pop1_def [abs_def])
  have small1: "\<forall>d \<in> set (map pop1 ds). d < 256" using small pop_byteD(2) by auto
  have z1: "unat (drop_bit 2 y AND m3) = of_bytes (map (\<lambda>d. drop_bit 2 d AND 0x33) (map pop1 ds))"
    using of_bytes_shift_mask [OF small1, of 51 2] by (simp add: unsigned_and_eq unat_drop_bit_eq y m3 n)
  have z2: "unat (y AND m3) = of_bytes (map (\<lambda>d. d AND 0x33) (map pop1 ds))"
    using of_bytes_shift_mask [OF small1, of 51 0] by (simp add: unsigned_and_eq y m3 n)
  have nib: "\<forall>d \<in> set (map (pop2 \<circ> pop1) ds). nibbles_small d" using small pop_byteD(3) by auto
  have lt: "2 * of_bytes (map (pop2 \<circ> pop1) ds) < 2 ^ LENGTH('a)"
    using of_bytes_bound [OF nib] by (simp add: pow n)
  have sum: "unat (drop_bit 2 y AND m3) + unat (y AND m3) = of_bytes (map (pop2 \<circ> pop1) ds)"
    unfolding z1 z2 of_bytes_add by (simp add: comp_def pop2_def)
  then have z: "unat z = of_bytes (map (pop2 \<circ> pop1) ds)"
    unfolding z_def using lt unat_add_lem [of "drop_bit 2 y AND m3" "y AND m3"] by linarith
  have "unat z div 16 \<le> unat z" by simp
  then have "unat z + unat (drop_bit 4 z) < 2 ^ LENGTH('a)"
    using lt unfolding z [symmetric] unat_drop_div by simp
  then have "unat (z + drop_bit 4 z) = unat z + drop_bit 4 (unat z)"
    by (simp add: unat_add_lem [THEN iffD1] unat_drop_bit_eq)
  then have "unat ((z + drop_bit 4 z) AND mF) = (unat z + drop_bit 4 (unat z)) AND of_bytes (replicate n 15)"
    by (simp add: unsigned_and_eq mF)
  also have "\<dots> = of_bytes (map pop_byte ds)"
    using of_bytes_fold_halves [OF nib] by (simp add: z n comp_def pop_byte_def [abs_def] Let_def)
  finally show ?thesis by (simp add: ds_def)
qed

lemma popcount_from_steps:
  fixes w :: "'a::len word"
  assumes "unat (w * k) = unat w * c mod 2 ^ LENGTH('a)" "LENGTH('a) = 8 * n" 
    and w: "unat w = of_bytes (map pop_byte (to_bytes n (unat (x :: 'a word))))"
    and g: "\<And>ds. length ds = n \<Longrightarrow> \<forall>d \<in> set ds. d \<le> 8 \<Longrightarrow> of_bytes ds * c mod 2 ^ LENGTH('a) div 2 ^ s = sum_list ds"
  shows "uint (drop_bit s (w * k)) = int (bit_count x)"
proof -
  have "unat (drop_bit s (w * k)) = sum_list (map pop_byte (to_bytes n (unat x)))"
    unfolding unat_drop_div assms(1) w using pop_byteD(5) by (intro g) (auto dest: to_bytes_less)
  moreover have "uint u = int (unat u)" for u :: "'a word" by simp
  ultimately show ?thesis by (simp only: bit_count_bytes [OF assms(2)])
qed

lemma swar_masks:
  "of_bytes (replicate 4 0x55) = 0x55555555" "of_bytes (replicate 4 0x33) = 0x33333333"
  "of_bytes (replicate 4 15) = 0xF0F0F0F" "of_bytes (replicate 8 0x55) = 0x5555555555555555"
  "of_bytes (replicate 8 0x33) = 0x3333333333333333" "of_bytes (replicate 8 15) = 0xF0F0F0F0F0F0F0F"
proof -
  have "replicate 4 v = [v, v, v, v]" "replicate 8 v = [v, v, v, v, v, v, v, v]" for v :: nat
    by (simp_all add: eval_nat_numeral)
  note rep = this
  show "of_bytes (replicate 4 0x55) = 0x55555555" "of_bytes (replicate 4 0x33) = 0x33333333"
    "of_bytes (replicate 4 15) = 0xF0F0F0F" "of_bytes (replicate 8 0x55) = 0x5555555555555555"
    "of_bytes (replicate 8 0x33) = 0x3333333333333333" "of_bytes (replicate 8 15) = 0xF0F0F0F0F0F0F0F"
    by (simp_all only: rep) simp_all
qed

lemma Popcount32_eq: "Popcount32 x = int (bit_count x)"
proof -
  have len: "LENGTH(32) = 8 * 4" by simp
  note steps = swar_steps [OF len, of "0x55555555" "0x33333333" "0xF0F0F0F" x, unfolded swar_masks]
  show ?thesis unfolding Popcount32_def Let_def
    by (rule popcount_from_steps [where c = "0x1010101", OF _ len steps]) (simp_all add: gather4 [simplified] unat_word_ariths)
qed

lemma Popcount64_eq: "Popcount64 x = int (bit_count x)"
proof -
  have len: "LENGTH(64) = 8 * 8" by simp
  note steps = swar_steps [OF len, of "0x5555555555555555" "0x3333333333333333" "0xF0F0F0F0F0F0F0F" x, unfolded swar_masks]
  show ?thesis unfolding Popcount64_def Let_def
    by (rule popcount_from_steps [where c = "0x101010101010101", OF _ len steps]) (simp_all add: gather8 [simplified] unat_word_ariths)
qed

lemma bit_count_ucast:
  assumes "LENGTH('a) \<le> LENGTH('b)"
  shows "bit_count (ucast (x :: 'a::len word) :: 'b::len word) = bit_count x"
proof -
  have "[0..<LENGTH('b)] = [0..<LENGTH('a)] @ [LENGTH('a)..<LENGTH('b)]"
    using assms by (metis le_add_diff_inverse upt_add_eq_append zero_le)
  moreover have "filter (bit (ucast x :: 'b word)) [0..<LENGTH('a)] = filter (bit x) [0..<LENGTH('a)]"
    using assms by (intro filter_cong) (simp_all add: bit_ucast_iff)
  moreover have "filter (bit (ucast x :: 'b word)) [LENGTH('a)..<LENGTH('b)] = []"
    using bit_imp_le_length [of x] by (force simp: filter_empty_conv bit_ucast_iff)
  ultimately show ?thesis by (simp add: bit_count_def)
qed

lemma Popcount_eq:
  fixes x :: "'a::len word"
  assumes "unsigned_type LENGTH('a)"
  shows "Popcount x = int (bit_count x)"
  using assms by (auto simp: unsigned_type_def Popcount_def Popcount32_eq Popcount64_eq bit_count_ucast)


section \<open>Rotations\<close>

lemma and_digits:
  assumes "LENGTH('a::len) = 2 ^ k"
  shows "nat (s AND (int LENGTH('a) - 1)) = nat (s mod int LENGTH('a))"
  using assms by (simp add: take_bit_eq_mask [symmetric] take_bit_eq_mod mask_eq_exp_minus_1 [symmetric] flip: mask_eq_exp_minus_1)

lemma unsigned_type_power: "unsigned_type n \<Longrightarrow> \<exists>k. n = 2 ^ k \<and> 3 \<le> k \<and> k \<le> 6"
  unfolding unsigned_type_def
  by (elim insertE) (rule exI [of _ 3], simp, rule exI [of _ 4], simp, rule exI [of _ 5], simp, rule exI [of _ 6], simp, simp)

lemma neg_mod_digits:
  fixes s :: int
  assumes "0 < (n::nat)"
  shows "nat (- s mod int n) = (n - nat (s mod int n)) mod n"
proof -
  have "- s mod int n = (int n - s mod int n) mod int n" by (simp add: mod_minus_eq)
  moreover have "int n - s mod int n = int (n - nat (s mod int n))"
  proof -
    obtain r where r: "s mod int n = int r" using pos_mod_sign [of "int n" s] assms by (metis nonneg_int_cases of_nat_0_less_iff)
    then have "r \<le> n" using pos_mod_bound [of "int n" s] assms by simp
    then show ?thesis by (simp add: r of_nat_diff)
  qed
  ultimately have "- s mod int n = int ((n - nat (s mod int n)) mod n)" by (simp only: of_nat_mod)
  then show ?thesis by (simp only: nat_int)
qed

text \<open>Shifting both ways and joining the parts is the rotation.\<close>

lemma shifts_rotl:
  fixes x :: "'a::len word"
  assumes "m < LENGTH('a)"
  shows "push_bit m x OR drop_bit ((LENGTH('a) - m) mod LENGTH('a)) x = word_rotl m x"
proof (rule bit_word_eqI)
  fix i assume i: "i < LENGTH('a)"
  show "bit (push_bit m x OR drop_bit ((LENGTH('a) - m) mod LENGTH('a)) x) i = bit (word_rotl m x) i"
  proof (cases "m = 0")
    case True
    then show ?thesis using i by (simp add: bit_simps)
  next
    case False
    then have w: "(LENGTH('a) - m) mod LENGTH('a) = LENGTH('a) - m" using assms by simp
    show ?thesis
    proof (cases "m \<le> i")
      case True
      have "(i + (LENGTH('a) - m)) mod LENGTH('a) = i - m"
      proof -
        have "i + (LENGTH('a) - m) = (i - m) + LENGTH('a)" using True assms by simp
        then show ?thesis using i by (simp only: mod_add_self2) simp
      qed
      moreover have "\<not> bit x (LENGTH('a) - m + i)" using True assms bit_imp_le_length [of x] by force
      ultimately show ?thesis using True i assms by (simp add: w bit_simps bit_word_rotl_iff)
    next
      case False
      then show ?thesis using i assms by (simp add: w bit_simps bit_word_rotl_iff add.commute)
    qed
  qed
qed

lemma shifts_rotr:
  fixes x :: "'a::len word"
  assumes "m < LENGTH('a)"
  shows "drop_bit m x OR push_bit ((LENGTH('a) - m) mod LENGTH('a)) x = word_rotr m x"
proof -
  let ?n = "(LENGTH('a) - m) mod LENGTH('a)"
  have "m = (LENGTH('a) - ?n) mod LENGTH('a)" using assms by (cases "m = 0") simp_all
  moreover have "word_rotl ?n x = word_rotr m x"
    by (rule bit_word_eqI) (use assms in \<open>cases "m = 0"; simp add: bit_word_rotl_iff bit_word_rotr_iff add.commute\<close>)
  ultimately show ?thesis using shifts_rotl [of ?n x] by (simp add: or.commute)
qed

lemma Rotate_eq:
  fixes x :: "'a::len word"
  assumes "unsigned_type LENGTH('a)" "int_range s" "s \<noteq> - (2 ^ 31)"
  shows "RotateLeft x s = Inr (word_rotl (nat (s mod int LENGTH('a))) x)"
    and "RotateRight x s = Inr (word_rotr (nat (s mod int LENGTH('a))) x)"
proof -
  obtain k where k: "LENGTH('a) = 2 ^ k" using unsigned_type_power [OF assms(1)] by blast
  have neg: "to_int (- s) = Inr (- s)" using assms(2,3) by (intro to_int_ok) (auto simp: int_range_def)
  have m: "nat (s mod int LENGTH('a)) < LENGTH('a)" by (simp add: nat_less_iff)
  note d = and_digits [OF k] neg_mod_digits [OF len_gt_0 [where 'a = 'a]]
  show "RotateLeft x s = Inr (word_rotl (nat (s mod int LENGTH('a))) x)"
    unfolding RotateLeft_def neg rbind_simps d shifts_rotl [OF m] ..
  show "RotateRight x s = Inr (word_rotr (nat (s mod int LENGTH('a))) x)"
    unfolding RotateRight_def neg rbind_simps d shifts_rotr [OF m] ..
qed

lemma rotate_int_min: "RotateLeft x (- (2 ^ 31)) = Inl SignedOverflow \<and> RotateRight x (- (2 ^ 31)) = Inl SignedOverflow"
  by (simp add: RotateLeft_def RotateRight_def to_int_def int_range_def)


section \<open>Powers of two\<close>

lemma has_single_bit_iff: "has_single_bit x \<longleftrightarrow> (\<exists>k < LENGTH('a). x = 2 ^ k)" for x :: "'a::len word"
proof
  assume h: "has_single_bit x"
  then have nz: "x \<noteq> 0" by (simp add: has_single_bit_def)
  note low = countr_zero_lowest [OF nz]
  have "bit x i \<longleftrightarrow> i = countr_zero x" for i
    using bit_clear_lowest [OF nz, of i] low(2) h by (auto simp: has_single_bit_def)
  then have "x = 2 ^ countr_zero x" using low(1) by (intro bit_word_eqI) (auto simp: bit_exp_iff)
  then show "\<exists>k < LENGTH('a). x = 2 ^ k" using low(1) by blast
next
  assume "\<exists>k < LENGTH('a). x = 2 ^ k"
  then obtain k where k: "k < LENGTH('a)" "x = 2 ^ k" by blast
  then have nz: "x \<noteq> 0" by simp
  have "countr_zero x = k" using k by (intro countr_zero_unique) (auto simp: bit_exp_iff)
  then have "x AND (x - 1) = 0"
    using bit_clear_lowest [OF nz] k by (intro bit_word_eqI) (auto simp: bit_exp_iff)
  then show "has_single_bit x" using nz by (simp add: has_single_bit_def)
qed

lemma IsPowerOf2_iff: "IsPowerOf2 x \<longleftrightarrow> (\<exists>k < 32. x = 2 ^ k)"
  using has_single_bit_iff [of x] by (simp add: IsPowerOf2_def has_single_bit_def)

lemma unat_exp: "k < LENGTH('a) \<Longrightarrow> unat (2 ^ k :: 'a::len word) = 2 ^ k"
  using unat_of_nat [where 'a = 'a, of "2 ^ k"] by (simp add: take_bit_nat_eq_self)

lemma bit_width_exp: "k < LENGTH('a) \<Longrightarrow> bit_width (2 ^ k :: 'a::len word) = Suc k"
  by (rule bit_width_highest) (auto simp: bit_exp_iff)

lemma bit_width_le_length: "bit_width x \<le> LENGTH('a)" for x :: "'a::len word"
  by (simp add: bit_width_def)

lemma portable_bit_width_eq:
  fixes x :: "'a::len word"
  assumes "unsigned_type LENGTH('a)"
  shows "portable_bit_width x = Inr (int (bit_width x))"
  by (simp add: portable_bit_width_def CountLeadingZeroes_eq [OF assms] countl_zero_width)

lemma shift_one_eq:
  assumes "n < LENGTH('a)"
  shows "shift_one (int n) = Inr (2 ^ n :: 'a::len word)"
proof -
  have "(ucast (push_bit n (1 :: i32)) :: 'a word) = 2 ^ n" if "LENGTH('a) < 32"
    using assms that by (intro bit_word_eqI) (auto simp: bit_simps)
  then show ?thesis using assms by (simp add: shift_one_def push_bit_eq_mult)
qed

lemma bit_floor_eq:
  fixes x :: "'a::len word"
  assumes "unsigned_type LENGTH('a)" "x \<noteq> 0"
  shows "bit_floor x = Inr (2 ^ (bit_width x - 1))"
proof -
  have w: "0 < bit_width x" using bit_width_le_iff [of x 0] assms(2) by (simp add: unat_eq_0 [symmetric])
  then have "int (bit_width x) - 1 = int (bit_width x - 1)" by simp
  moreover have "bit_width x - 1 < LENGTH('a)" using w bit_width_le_length [of x] by simp
  ultimately show ?thesis using assms(2)
    by (simp only: bit_floor_def portable_bit_width_eq [OF assms(1)] rbind_simps shift_one_eq if_False)
qed

lemma promotion_helper_eq:
  fixes p :: "'a::len word"
  assumes "unat p = 32 - LENGTH('a)" "w \<le> LENGTH('a)"
  shows "BitCeilPromotionHelper (of_nat w) p
           = (if w < LENGTH('a) then Inr (2 ^ w) else Inl ShiftTooLarge)"
proof -
  have "w < 2 ^ LENGTH('a)" using assms(2) less_exp [of "LENGTH('a)"] by linarith
  then have u: "unat (of_nat w :: 'a word) = w" by (simp add: unat_of_nat take_bit_nat_eq_self)
  have "(ucast (signed_drop_bit (32 - LENGTH('a)) (push_bit (w + (32 - LENGTH('a))) (1 :: i32))) :: 'a word) = 2 ^ w"
    if "LENGTH('a) < 32" "w < LENGTH('a)"
    using that by (intro bit_word_eqI) (auto simp: bit_simps)
  then show ?thesis using assms by (auto simp: BitCeilPromotionHelper_def u Let_def push_bit_eq_mult)
qed

lemma BitCeilNonPowerOf2_eq:
  fixes x :: "'a::len word"
  assumes "unsigned_type LENGTH('a)"
  shows "BitCeilNonPowerOf2 x = (if bit_width x < LENGTH('a) then Inr (2 ^ bit_width x) else Inl ShiftTooLarge)"
proof -
  let ?p = "if 32 \<le> LENGTH('a) then 0 else of_nat (32 - LENGTH('a)) :: 'a word"
  have p: "unat ?p = 32 - LENGTH('a)"
    using assms by (auto simp: unsigned_type_def unat_of_nat take_bit_eq_mod)
  have "of_int (int LENGTH('a) - int (countl_zero x)) = (of_nat (bit_width x) :: 'a word)"
    by (simp add: countl_zero_width)
  then show ?thesis
    unfolding BitCeilNonPowerOf2_def CountLeadingZeroes_eq [OF assms] rbind_simps
    using promotion_helper_eq [OF p bit_width_le_length [of x]] by simp
qed

lemma bit_ceil_single:
  assumes "unsigned_type LENGTH('a)" "k < LENGTH('a)"
  shows "bit_ceil (2 ^ k :: 'a::len word) = Inr (2 ^ k)"
proof -
  have "int (Suc k) - 1 = int k" by simp
  moreover have "has_single_bit (2 ^ k :: 'a word)" using assms(2) by (auto simp: has_single_bit_iff)
  ultimately show ?thesis
    by (simp only: bit_ceil_def portable_bit_width_eq [OF assms(1)] rbind_simps bit_width_exp [OF assms(2)]
        shift_one_eq [OF assms(2)] if_True)
qed

text \<open>The exponent of the smallest power of two that is not below \<open>x\<close>.\<close>

definition ceil_exponent :: "'a::len word \<Rightarrow> nat" where
  "ceil_exponent x = (if has_single_bit x then bit_width x - 1 else bit_width x)"

lemma bit_ceil_cases:
  fixes x :: "'a::len word"
  assumes "unsigned_type LENGTH('a)"
  shows "bit_ceil x = (if ceil_exponent x < LENGTH('a) then Inr (2 ^ ceil_exponent x) else Inl ShiftTooLarge)"
proof (cases "has_single_bit x")
  case True
  then obtain k where "k < LENGTH('a)" "x = 2 ^ k" by (auto simp: has_single_bit_iff)
  then show ?thesis using True bit_ceil_single [OF assms, of k] by (simp add: ceil_exponent_def bit_width_exp)
next
  case False
  then show ?thesis by (simp add: bit_ceil_def ceil_exponent_def BitCeilNonPowerOf2_eq [OF assms])
qed

lemma ceil_exponent_le_iff: "ceil_exponent x \<le> k \<longleftrightarrow> unat x \<le> 2 ^ k" for x :: "'a::len word"
proof (cases "has_single_bit x")
  case True
  then obtain j where j: "j < LENGTH('a)" "x = 2 ^ j" by (auto simp: has_single_bit_iff)
  then show ?thesis using True by (simp add: ceil_exponent_def bit_width_exp unat_exp)
next
  case False
  have "unat x \<noteq> 2 ^ k"
  proof
    assume eq: "unat x = 2 ^ k"
    then have "k < LENGTH('a)" using unsigned_less [of x] by (metis power_less_imp_less_exp one_less_numeral_iff semiring_norm(76))
    moreover have "x = 2 ^ k" using eq unat_exp [OF calculation] by (metis word_unat_eq_iff)
    ultimately show False using False by (auto simp: has_single_bit_iff)
  qed
  then show ?thesis using False by (auto simp: ceil_exponent_def bit_width_le_iff)
qed


lemma exp_le_iff: "j < LENGTH('a) \<Longrightarrow> x \<le> (2 ^ j :: 'a::len word) \<longleftrightarrow> unat x \<le> 2 ^ j" for x :: "'a::len word"
  by (simp add: word_le_nat_alt unat_exp)

lemma le_exp_iff: "j < LENGTH('a) \<Longrightarrow> (2 ^ j :: 'a::len word) \<le> x \<longleftrightarrow> 2 ^ j \<le> unat x" for x :: "'a::len word"
  by (simp add: word_le_nat_alt unat_exp)

lemma exp_mono: "i \<le> j \<Longrightarrow> j < LENGTH('a) \<Longrightarrow> (2 ^ i :: 'a::len word) \<le> 2 ^ j"
  by (simp add: word_le_nat_alt unat_exp)

lemma bit_ceil_least:
  fixes x :: "'a::len word"
  assumes "ceil_exponent x < LENGTH('a)"
  shows "has_single_bit (2 ^ ceil_exponent x :: 'a word)" "x \<le> 2 ^ ceil_exponent x"
    "has_single_bit z \<Longrightarrow> x \<le> z \<Longrightarrow> 2 ^ ceil_exponent x \<le> z"
proof -
  show "has_single_bit (2 ^ ceil_exponent x :: 'a word)" using assms by (auto simp: has_single_bit_iff)
  show "x \<le> 2 ^ ceil_exponent x" using ceil_exponent_le_iff [of x "ceil_exponent x"] by (simp add: exp_le_iff [OF assms])
  assume "has_single_bit z" "x \<le> z"
  then obtain j where j: "j < LENGTH('a)" "z = 2 ^ j" "unat x \<le> 2 ^ j" by (auto simp: has_single_bit_iff exp_le_iff)
  then show "2 ^ ceil_exponent x \<le> z" using ceil_exponent_le_iff [of x j] by (simp add: exp_mono)
qed

lemma bit_floor_greatest:
  fixes x :: "'a::len word"
  assumes "x \<noteq> 0"
  defines "k \<equiv> bit_width x - 1"
  shows "has_single_bit (2 ^ k :: 'a word)" "2 ^ k \<le> x" "has_single_bit z \<Longrightarrow> z \<le> x \<Longrightarrow> z \<le> 2 ^ k"
proof -
  have w: "0 < bit_width x" using bit_width_le_iff [of x 0] assms(1) by (simp add: unat_eq_0 [symmetric])
  then have k: "k < LENGTH('a)" using bit_width_le_length [of x] by (simp add: k_def)
  then show "has_single_bit (2 ^ k :: 'a word)" by (auto simp: has_single_bit_iff)
  have "\<not> bit_width x \<le> k" using w by (simp add: k_def)
  then show "2 ^ k \<le> x" using bit_width_le_iff [of x k] by (simp add: le_exp_iff [OF k])
  assume "has_single_bit z" "z \<le> x"
  then obtain j where j: "j < LENGTH('a)" "z = 2 ^ j" "2 ^ j \<le> unat x" by (auto simp: has_single_bit_iff le_exp_iff)
  then have "\<not> bit_width x \<le> j" using bit_width_le_iff [of x j] by simp
  then show "z \<le> 2 ^ k" using j(2) k by (simp add: k_def exp_mono)
qed


section \<open>The routines implement their specification\<close>

text \<open>C28. The portable branches of the counting routines, which halve the word and look the rest up in
  a string literal, isolate a bit and test it against masks, or add up the bits of all bytes in
  parallel, return for every unsigned type and every value the number of leading zeroes, of
  trailing zeroes and of set bits, counted one by one, and never read the table outside.\<close>

theorem portable_counting:
  fixes x :: "'a::len word"
  assumes "unsigned_type LENGTH('a)"
  shows "CountLeadingZeroes x = Inr (int (countl_zero x)) \<and> CountTrailingZeroes x = int (countr_zero x)
    \<and> popcount x = int (bit_count x) \<and> portable_bit_width x = Inr (int (bit_width x))
    \<and> countl_one x = Inr (int (length (takeWhile (bit x) (rev [0..<LENGTH('a)]))))
    \<and> countr_one x = int (length (takeWhile (bit x) [0..<LENGTH('a)]))"
proof -
  have "takeWhile (\<lambda>i. \<not> bit (NOT x) i) is = takeWhile (bit x) is" if "set is \<subseteq> {..<LENGTH('a)}" for "is"
    using that by (intro takeWhile_cong) (auto simp: bit_not_iff)
  note inverted = this [of "rev [0..<LENGTH('a)]"] this [of "[0..<LENGTH('a)]"]
  have "countl_zero (NOT x) = length (takeWhile (bit x) (rev [0..<LENGTH('a)]))"
    "countr_zero (NOT x) = length (takeWhile (bit x) [0..<LENGTH('a)])"
    using inverted by (simp_all add: countl_zero_def countr_zero_def subset_eq)
  then show ?thesis
    by (simp add: countl_one_def countr_one_def popcount_def CountLeadingZeroes_eq [OF assms]
        CountTrailingZeroes_eq [OF assms] Popcount_eq [OF assms] portable_bit_width_eq [OF assms])
qed

theorem portable_counting_witness:
  "CountLeadingZeroes (0x0A00 :: 16 word) = Inr 4 \<and> CountTrailingZeroes (0x0A00 :: 16 word) = 9
     \<and> popcount (0x0A00 :: 16 word) = 2"
proof -
  have "unsigned_type LENGTH(16)" by (simp add: unsigned_type_def)
  from portable_counting [OF this, of "0x0A00"] show ?thesis
    by (simp add: countl_zero_def countr_zero_def bit_count_def upt_rec)
qed

text \<open>\<open>bit_ceil\<close> returns the smallest power of two that is at least its argument whenever the type
  has one, also for the types that are promoted to \<open>int\<close> before the shift, and otherwise shifts by
  too much; \<open>bit_floor\<close> returns the largest power of two that is at most its argument.\<close>

theorem bit_ceil_floor:
  fixes x :: "'a::len word"
  assumes "unsigned_type LENGTH('a)"
  shows "(case bit_ceil x of
      Inl e \<Rightarrow> e = ShiftTooLarge \<and> 2 ^ (LENGTH('a) - 1) < unat x
    | Inr y \<Rightarrow> has_single_bit y \<and> x \<le> y \<and> (\<forall>z. has_single_bit z \<and> x \<le> z \<longrightarrow> y \<le> z)) \<and>
    (if x = 0 then bit_floor x = Inr 0
     else \<exists>y. bit_floor x = Inr y \<and> has_single_bit y \<and> y \<le> x \<and> (\<forall>z. has_single_bit z \<and> z \<le> x \<longrightarrow> z \<le> y))"
proof -
  have "2 ^ (LENGTH('a) - 1) < unat x" if "\<not> ceil_exponent x < LENGTH('a)"
    using that ceil_exponent_le_iff [of x "LENGTH('a) - 1"] by (simp add: not_less)
  moreover have "bit_floor (0 :: 'a word) = Inr 0" by (simp add: bit_floor_def)
  ultimately show ?thesis
    using bit_ceil_least [of x] bit_floor_greatest [of x] bit_floor_eq [OF assms, of x]
    by (auto simp: bit_ceil_cases [OF assms])
qed

end
