(* ===== verification/Low_Level_Hash.thy ===== *)
theory Low_Level_Hash
  imports Bit_Routines
begin

text \<open>
  The hash of long byte sequences in builds with 128-bit integers (\<open>absl/hash/internal/low_level_hash.cc\<close>) and the unaligned
  loads it is made of, in the little-endian build. A buffer is the list of its bytes; reading outside
  is an error.
\<close>

section \<open>Loads\<close>

definition UnalignedLoad64 :: "i8 list \<Rightarrow> nat \<Rightarrow> u64 result" where
  "UnalignedLoad64 bs p = (if p + 8 \<le> length bs then Inr (Load64 (take 8 (drop p bs))) else Inl OutOfBounds)"

definition UnalignedLoad32 :: "i8 list \<Rightarrow> nat \<Rightarrow> 32 word result" where
  "UnalignedLoad32 bs p = (if p + 4 \<le> length bs then Inr (ucast (Load64 (take 4 (drop p bs)))) else Inl OutOfBounds)"

text \<open>The bytes of an integer in memory, least significant byte first.\<close>

definition value_bytes :: "'a::len word \<Rightarrow> i8 list" where
  "value_bytes w = map (\<lambda>i. ucast (drop_bit (8 * i) w)) [0..<LENGTH('a) div 8]"

lemma length_value_bytes [simp]: "length (value_bytes (w :: 'a::len word)) = LENGTH('a) div 8"
  by (simp add: value_bytes_def)

section \<open>The low level hash\<close>

definition low_level_Mix :: "u64 \<Rightarrow> u64 \<Rightarrow> u64" where
  "low_level_Mix v0 v1 =
     (let p = (ucast v0 :: 128 word) * ucast v1 in ucast p XOR ucast (drop_bit 64 p))"

text \<open>The body of the loop over 64 bytes: the new \<open>current_state\<close> and \<open>duplicated_state\<close>.\<close>

definition hash_chunk64 :: "u64 list \<Rightarrow> i8 list \<Rightarrow> nat \<Rightarrow> u64 \<Rightarrow> u64 \<Rightarrow> (u64 \<times> u64) result" where
  "hash_chunk64 salt bs p current duplicated =
     rbind (UnalignedLoad64 bs p) (\<lambda>a.
     rbind (UnalignedLoad64 bs (p + 8)) (\<lambda>b.
     rbind (UnalignedLoad64 bs (p + 16)) (\<lambda>c.
     rbind (UnalignedLoad64 bs (p + 24)) (\<lambda>d.
     rbind (UnalignedLoad64 bs (p + 32)) (\<lambda>e.
     rbind (UnalignedLoad64 bs (p + 40)) (\<lambda>f.
     rbind (UnalignedLoad64 bs (p + 48)) (\<lambda>g.
     rbind (UnalignedLoad64 bs (p + 56)) (\<lambda>h.
     let cs0 = low_level_Mix (a XOR salt ! 1) (b XOR current);
         cs1 = low_level_Mix (c XOR salt ! 2) (d XOR current);
         ds0 = low_level_Mix (e XOR salt ! 3) (f XOR duplicated);
         ds1 = low_level_Mix (g XOR salt ! 4) (h XOR duplicated)
     in Inr (cs0 XOR cs1, ds0 XOR ds1)))))))))"

text \<open>\<open>do \<dots> while (len > 64)\<close>: the position, the remaining length and the two states.\<close>

function loop64 :: "u64 list \<Rightarrow> i8 list \<Rightarrow> nat \<Rightarrow> nat \<Rightarrow> u64 \<Rightarrow> u64 \<Rightarrow> (nat \<times> nat \<times> u64 \<times> u64) result" where
  "loop64 salt bs p len current duplicated =
     (case hash_chunk64 salt bs p current duplicated of
        Inl e \<Rightarrow> Inl e
      | Inr st \<Rightarrow>
          if len - 64 > 64 then loop64 salt bs (p + 64) (len - 64) (fst st) (snd st)
          else Inr (p + 64, len - 64, st))"
  by pat_completeness auto
termination by (relation "measure (\<lambda>(salt, bs, p, len, current, duplicated). len)") auto

function loop16 :: "u64 list \<Rightarrow> i8 list \<Rightarrow> nat \<Rightarrow> nat \<Rightarrow> u64 \<Rightarrow> (nat \<times> nat \<times> u64) result" where
  "loop16 salt bs p len current =
     (if len > 16
      then (case UnalignedLoad64 bs p of
              Inl e \<Rightarrow> Inl e
            | Inr a \<Rightarrow>
                (case UnalignedLoad64 bs (p + 8) of
                   Inl e \<Rightarrow> Inl e
                 | Inr b \<Rightarrow> loop16 salt bs (p + 16) (len - 16) (low_level_Mix (a XOR salt ! 1) (b XOR current))))
      else Inr (p, len, current))"
  by pat_completeness auto
termination by (relation "measure (\<lambda>(salt, bs, p, len, current). len)") auto

text \<open>The last bytes, at most 16. Three bytes are put together in \<open>int\<close> arithmetic.\<close>

definition hash_tail :: "i8 list \<Rightarrow> nat \<Rightarrow> nat \<Rightarrow> (u64 \<times> u64) result" where
  "hash_tail bs p len =
     (if len > 8 then rbind (UnalignedLoad64 bs p) (\<lambda>a. rbind (UnalignedLoad64 bs (p + len - 8)) (\<lambda>b. Inr (a, b)))
      else if len > 3
      then rbind (UnalignedLoad32 bs p) (\<lambda>a. rbind (UnalignedLoad32 bs (p + len - 4)) (\<lambda>b. Inr (ucast a, ucast b)))
      else if len > 0
      then rbind (array_get bs p) (\<lambda>x. rbind (array_get bs (p + drop_bit 1 len)) (\<lambda>y. rbind (array_get bs (p + len - 1)) (\<lambda>z.
             Inr (ucast ((push_bit 16 (ucast x) OR push_bit 8 (ucast y) OR ucast z) :: i32), 0))))
      else Inr (0, 0))"

definition LowLevelHash :: "i8 list \<Rightarrow> u64 \<Rightarrow> u64 list \<Rightarrow> u64 result" where
  "LowLevelHash data seed salt =
     (let len = length data; starting_length = of_nat len; current = seed XOR salt ! 0
      in rbind (if len > 64
                then rbind (loop64 salt data 0 len current current) (\<lambda>(p, n, c, d). Inr (p, n, c XOR d))
                else Inr (0, len, current)) (\<lambda>(p, n, c).
         rbind (loop16 salt data p n c) (\<lambda>(p', n', c').
         rbind (hash_tail data p' n') (\<lambda>(a, b).
         let w = low_level_Mix (a XOR salt ! 1) (b XOR c'); z = salt ! 1 XOR starting_length
         in Inr (low_level_Mix w z)))))"

section \<open>The reads stay inside\<close>

text \<open>Every read of the hash functions stays inside the buffer, so that each of them returns a value.\<close>

lemma UnalignedLoad64_in [simp]: "p + 8 \<le> length bs \<Longrightarrow> UnalignedLoad64 bs p = Inr (Load64 (take 8 (drop p bs)))"
  by (simp add: UnalignedLoad64_def)

lemma UnalignedLoad32_in [simp]: "p + 4 \<le> length bs \<Longrightarrow> UnalignedLoad32 bs p = Inr (ucast (Load64 (take 4 (drop p bs))))"
  by (simp add: UnalignedLoad32_def)

lemma hash_chunk64_returns: "p + 64 \<le> length bs \<Longrightarrow> \<exists>c' d'. hash_chunk64 salt bs p c d = Inr (c', d')"
  by (simp add: hash_chunk64_def Let_def)

declare loop64.simps [simp del] loop16.simps [simp del]

lemma loop64_returns:
  "p + len = length bs \<Longrightarrow> 64 < len \<Longrightarrow>
     \<exists>p' n c' d'. loop64 salt bs p len c d = Inr (p', n, c', d') \<and> p' + n = length bs \<and> n \<le> 64"
proof (induction salt bs p len c d rule: loop64.induct)
  case (1 salt bs p len c d)
  obtain c' d' where step: "hash_chunk64 salt bs p c d = Inr (c', d')"
    using hash_chunk64_returns [of p bs salt c d] "1.prems" by auto
  show ?case
  proof (cases "64 < len - 64")
    case True
    then show ?thesis using "1.IH" [OF step True] "1.prems" step by (subst loop64.simps) simp
  next
    case False
    then show ?thesis using "1.prems" step by (subst loop64.simps) simp
  qed
qed

lemma loop16_returns:
  "p + len = length bs \<Longrightarrow> \<exists>p' n c'. loop16 salt bs p len c = Inr (p', n, c') \<and> p' + n = length bs \<and> n \<le> 16"
proof (induction salt bs p len c rule: loop16.induct)
  case (1 salt bs p len c)
  show ?case
  proof (cases "16 < len")
    case True
    then have reads: "UnalignedLoad64 bs p = Inr (Load64 (take 8 (drop p bs)))"
      "UnalignedLoad64 bs (p + 8) = Inr (Load64 (take 8 (drop (p + 8) bs)))" using "1.prems" by simp_all
    then show ?thesis using "1.IH" [OF True reads] "1.prems" True by (subst loop16.simps) simp
  next
    case False
    then show ?thesis using "1.prems" by (subst loop16.simps) simp
  qed
qed

lemma hash_tail_returns: "p + len = length bs \<Longrightarrow> \<exists>a b. hash_tail bs p len = Inr (a, b)"
  by (auto simp: hash_tail_def drop_bit_eq_div)

lemma LowLevelHash_returns: "\<exists>h. LowLevelHash data seed salt = Inr h"
proof -
  obtain p n c where first: "(if length data > 64
      then rbind (loop64 salt data 0 (length data) (seed XOR salt ! 0) (seed XOR salt ! 0)) (\<lambda>(p, n, c, d). Inr (p, n, c XOR d))
      else Inr (0, length data, seed XOR salt ! 0)) = Inr (p, n, c)" "p + n = length data"
  proof (cases "64 < length data")
    case True
    then show ?thesis
      using loop64_returns [of 0 "length data" data salt "seed XOR salt ! 0" "seed XOR salt ! 0"]
      by (auto intro: that)
  qed (auto intro: that)
  obtain p' n' c' where "loop16 salt data p n c = Inr (p', n', c')" "p' + n' = length data"
    using loop16_returns [OF first(2)] by blast
  moreover then obtain a b where "hash_tail data p' n' = Inr (a, b)" using hash_tail_returns by blast
  ultimately show ?thesis by (simp add: LowLevelHash_def Let_def first(1))
qed

end
