(* ===== verification/City_Hash.thy ===== *)
theory City_Hash
  imports Low_Level_Hash
begin

text \<open>
  CityHash (\<open>absl/hash/internal/city.cc\<close>), the hash of long byte sequences in 32-bit builds and in builds without 128-bit
  integers, and the byte swaps of \<open>absl/base/internal/endian.h\<close> in the branch without compiler builtins. Pointers are
  positions in the list of bytes.
\<close>

section \<open>Byte swaps\<close>

definition gbswap_64 :: "u64 \<Rightarrow> u64" where
  "gbswap_64 host_int =
     push_bit 56 (host_int AND 0xFF) OR push_bit 40 (host_int AND 0xFF00) OR
     push_bit 24 (host_int AND 0xFF0000) OR push_bit 8 (host_int AND 0xFF000000) OR
     drop_bit 8 (host_int AND 0xFF00000000) OR drop_bit 24 (host_int AND 0xFF0000000000) OR
     drop_bit 40 (host_int AND 0xFF000000000000) OR drop_bit 56 (host_int AND 0xFF00000000000000)"

definition gbswap_32 :: "32 word \<Rightarrow> 32 word" where
  "gbswap_32 host_int =
     push_bit 24 (host_int AND 0xFF) OR push_bit 8 (host_int AND 0xFF00) OR
     drop_bit 8 (host_int AND 0xFF0000) OR drop_bit 24 (host_int AND 0xFF000000)"

section \<open>Constants and mixing\<close>

definition Fetch64 :: "i8 list \<Rightarrow> nat \<Rightarrow> u64 result" where
  "Fetch64 s p = UnalignedLoad64 s p"

definition Fetch32 :: "i8 list \<Rightarrow> nat \<Rightarrow> 32 word result" where
  "Fetch32 s p = UnalignedLoad32 s p"

definition k0 :: u64 where "k0 = 0xc3a5c85c97cb3127"
definition k1 :: u64 where "k1 = 0xb492b66fbe98f273"
definition k2 :: u64 where "k2 = 0x9ae16a3b2f90404f"
definition c1 :: "32 word" where "c1 = 0xcc9e2d51"
definition c2 :: "32 word" where "c2 = 0x1b873593"

definition fmix :: "32 word \<Rightarrow> 32 word" where
  "fmix h =
     (let h = h XOR drop_bit 16 h;
          h = h * 0x85ebca6b;
          h = h XOR drop_bit 13 h;
          h = h * 0xc2b2ae35
      in h XOR drop_bit 16 h)"

definition Rotate32 :: "32 word \<Rightarrow> nat \<Rightarrow> 32 word" where
  "Rotate32 val shift = (if shift = 0 then val else drop_bit shift val OR push_bit (32 - shift) val)"

definition Mur :: "32 word \<Rightarrow> 32 word \<Rightarrow> 32 word" where
  "Mur a h =
     (let a = a * c1;
          a = Rotate32 a 17;
          a = a * c2;
          h = h XOR a;
          h = Rotate32 h 19
      in h * 5 + 0xe6546b64)"

section \<open>The 32-bit hash\<close>

definition Hash32Len13to24 :: "i8 list \<Rightarrow> 32 word result" where
  "Hash32Len13to24 s =
     (let len = length s
      in rbind (Fetch32 s (len div 2 - 4)) (\<lambda>a.
         rbind (Fetch32 s 4) (\<lambda>b.
         rbind (Fetch32 s (len - 8)) (\<lambda>c.
         rbind (Fetch32 s (len div 2)) (\<lambda>d.
         rbind (Fetch32 s 0) (\<lambda>e.
         rbind (Fetch32 s (len - 4)) (\<lambda>f.
         Inr (fmix (Mur f (Mur e (Mur d (Mur c (Mur b (Mur a (of_nat len)))))))))))))))"

definition Hash32Len0to4 :: "i8 list \<Rightarrow> 32 word" where
  "Hash32Len0to4 s =
     (let (b, c) = fold (\<lambda>v (b, c). let b = b * c1 + scast v in (b, c XOR b)) s (0, 9)
      in fmix (Mur b (Mur (of_nat (length s)) c)))"

definition Hash32Len5to12 :: "i8 list \<Rightarrow> 32 word result" where
  "Hash32Len5to12 s =
     (let len = length s; a = of_nat len; b = a * 5; c = 9; d = b
      in rbind (Fetch32 s 0) (\<lambda>x.
         rbind (Fetch32 s (len - 4)) (\<lambda>y.
         rbind (Fetch32 s (drop_bit 1 len AND 4)) (\<lambda>z.
         Inr (fmix (Mur (c + z) (Mur (b + y) (Mur (a + x) d))))))))"

text \<open>\<open>scramble\<close> names the product \<open>Rotate32(x * c1, 17) * c2\<close>, \<open>stir h n\<close> the two statements \<open>h = Rotate32(h, n); h = h * 5 + 0xe6546b64\<close>
  that the code repeats.\<close>

definition scramble :: "32 word \<Rightarrow> 32 word" where
  "scramble x = Rotate32 (x * c1) 17 * c2"

definition stir :: "32 word \<Rightarrow> nat \<Rightarrow> 32 word" where
  "stir h n = Rotate32 h n * 5 + 0xe6546b64"

text \<open>One turn of the loop over 20 bytes, ended by \<open>PERMUTE3(f, h, g)\<close>; the state is \<open>(h, g, f)\<close>.\<close>

definition city32_step :: "i8 list \<Rightarrow> nat \<Rightarrow> 32 word \<times> 32 word \<times> 32 word \<Rightarrow> (32 word \<times> 32 word \<times> 32 word) result" where
  "city32_step s p = (\<lambda>(h, g, f).
     rbind (Fetch32 s p) (\<lambda>x0.
     rbind (Fetch32 s (p + 4)) (\<lambda>b1.
     rbind (Fetch32 s (p + 8)) (\<lambda>x2.
     rbind (Fetch32 s (p + 12)) (\<lambda>x3.
     rbind (Fetch32 s (p + 16)) (\<lambda>b4.
     let b0 = scramble x0; b2 = scramble x2; b3 = scramble x3;
         h = stir (h XOR b0) 18;
         f = Rotate32 (f + b1) 19 * c1;
         g = stir (g + b2) 18;
         h = stir (h XOR (b3 + b1)) 19;
         g = gbswap_32 (g XOR b4) * 5;
         h = gbswap_32 (h + b4 * 5);
         f = f + b0
     in Inr (f, h, g)))))))"

text \<open>The loop runs \<open>iters\<close> times; there is at least one turn.\<close>

fun city32_loop :: "i8 list \<Rightarrow> nat \<Rightarrow> nat \<Rightarrow> 32 word \<times> 32 word \<times> 32 word \<Rightarrow> (32 word \<times> 32 word \<times> 32 word) result" where
  "city32_loop s p 0 st = Inr st"
| "city32_loop s p (Suc iters) st = rbind (city32_step s p st) (city32_loop s (p + 20) iters)"

definition CityHash32 :: "i8 list \<Rightarrow> 32 word result" where
  "CityHash32 s =
     (let len = length s
      in if len \<le> 24
         then if len \<le> 12 then (if len \<le> 4 then Inr (Hash32Len0to4 s) else Hash32Len5to12 s)
              else Hash32Len13to24 s
         else
           let h = of_nat len; g = c1 * h; f = g
           in rbind (Fetch32 s (len - 4)) (\<lambda>x0.
              rbind (Fetch32 s (len - 8)) (\<lambda>x1.
              rbind (Fetch32 s (len - 16)) (\<lambda>x2.
              rbind (Fetch32 s (len - 12)) (\<lambda>x3.
              rbind (Fetch32 s (len - 20)) (\<lambda>x4.
              let h = stir (h XOR scramble x0) 19;
                  h = stir (h XOR scramble x2) 19;
                  g = stir (g XOR scramble x1) 19;
                  g = stir (g XOR scramble x3) 19;
                  f = stir (f + scramble x4) 19
              in rbind (city32_loop s 0 ((len - 1) div 20) (h, g, f)) (\<lambda>(h, g, f).
                 let g = Rotate32 g 11 * c1;
                     g = Rotate32 g 17 * c1;
                     f = Rotate32 f 11 * c1;
                     f = Rotate32 f 17 * c1;
                     h = stir (h + g) 19;
                     h = Rotate32 h 17 * c1;
                     h = stir (h + f) 19
                 in Inr (Rotate32 h 17 * c1))))))))"

section \<open>The 64-bit hash\<close>

definition Rotate :: "u64 \<Rightarrow> nat \<Rightarrow> u64" where
  "Rotate val shift = (if shift = 0 then val else drop_bit shift val OR push_bit (64 - shift) val)"

definition ShiftMix :: "u64 \<Rightarrow> u64" where
  "ShiftMix val = val XOR drop_bit 47 val"

definition HashLen16 :: "u64 \<Rightarrow> u64 \<Rightarrow> u64 \<Rightarrow> u64" where
  "HashLen16 u v mul =
     (let a = (u XOR v) * mul;
          a = a XOR drop_bit 47 a;
          b = (v XOR a) * mul;
          b = b XOR drop_bit 47 b
      in b * mul)"

definition HashLen16_2 :: "u64 \<Rightarrow> u64 \<Rightarrow> u64" where
  "HashLen16_2 u v = HashLen16 u v 0x9ddfea08eb382d69"

definition HashLen0to16 :: "i8 list \<Rightarrow> u64 result" where
  "HashLen0to16 s =
     (let len = length s; mul = k2 + of_nat len * 2
      in if len \<ge> 8
         then rbind (Fetch64 s 0) (\<lambda>x.
              rbind (Fetch64 s (len - 8)) (\<lambda>b.
              let a = x + k2;
                  c = Rotate b 37 * mul + a;
                  d = (Rotate a 25 + b) * mul
              in Inr (HashLen16 c d mul)))
         else if len \<ge> 4
         then rbind (Fetch32 s 0) (\<lambda>x.
              rbind (Fetch32 s (len - 4)) (\<lambda>y.
              Inr (HashLen16 (of_nat len + push_bit 3 (ucast x)) (ucast y) mul)))
         else if len > 0
         then rbind (array_get s 0) (\<lambda>a.
              rbind (array_get s (drop_bit 1 len)) (\<lambda>b.
              rbind (array_get s (len - 1)) (\<lambda>c.
              let y = ucast a + push_bit 8 (ucast b) :: 32 word;
                  z = of_nat len + push_bit 2 (ucast c) :: 32 word
              in Inr (ShiftMix (ucast y * k2 XOR ucast z * k0) * k2))))
         else Inr k2)"

definition HashLen17to32 :: "i8 list \<Rightarrow> u64 result" where
  "HashLen17to32 s =
     (let len = length s; mul = k2 + of_nat len * 2
      in rbind (Fetch64 s 0) (\<lambda>w.
         rbind (Fetch64 s 8) (\<lambda>b.
         rbind (Fetch64 s (len - 8)) (\<lambda>x.
         rbind (Fetch64 s (len - 16)) (\<lambda>y.
         let a = w * k1; c = x * mul; d = y * k2
         in Inr (HashLen16 (Rotate (a + b) 43 + Rotate c 30 + d) (a + Rotate (b + k2) 18 + c) mul))))))"

definition WeakHashLen32 :: "u64 \<Rightarrow> u64 \<Rightarrow> u64 \<Rightarrow> u64 \<Rightarrow> u64 \<Rightarrow> u64 \<Rightarrow> u64 \<times> u64" where
  "WeakHashLen32 w x y z a b =
     (let a = a + w;
          b = Rotate (b + a + z) 21;
          c = a;
          a = a + x;
          a = a + y;
          b = b + Rotate a 44
      in (a + z, b + c))"

definition WeakHashLen32WithSeeds :: "i8 list \<Rightarrow> nat \<Rightarrow> u64 \<Rightarrow> u64 \<Rightarrow> (u64 \<times> u64) result" where
  "WeakHashLen32WithSeeds s p a b =
     rbind (Fetch64 s p) (\<lambda>w.
     rbind (Fetch64 s (p + 8)) (\<lambda>x.
     rbind (Fetch64 s (p + 16)) (\<lambda>y.
     rbind (Fetch64 s (p + 24)) (\<lambda>z. Inr (WeakHashLen32 w x y z a b)))))"

definition HashLen33to64 :: "i8 list \<Rightarrow> u64 result" where
  "HashLen33to64 s =
     (let len = length s; mul = k2 + of_nat len * 2
      in rbind (Fetch64 s 0) (\<lambda>x0.
         rbind (Fetch64 s 8) (\<lambda>b.
         rbind (Fetch64 s (len - 24)) (\<lambda>c.
         rbind (Fetch64 s (len - 32)) (\<lambda>d.
         rbind (Fetch64 s 16) (\<lambda>x4.
         rbind (Fetch64 s 24) (\<lambda>x5.
         rbind (Fetch64 s (len - 8)) (\<lambda>g.
         rbind (Fetch64 s (len - 16)) (\<lambda>x7.
         let a = x0 * k2; e = x4 * k2; f = x5 * 9; h = x7 * mul;
             u = Rotate (a + g) 43 + (Rotate b 30 + c) * 9;
             v = ((a + g) XOR d) + f + 1;
             w = gbswap_64 ((u + v) * mul) + h;
             x = Rotate (e + f) 42 + c;
             y = (gbswap_64 ((v + w) * mul) + g) * mul;
             z = e + f + c;
             a = gbswap_64 ((x + z) * mul + y) + b;
             b = ShiftMix ((z + a) * mul + d + h) * mul
         in Inr (b + x))))))))))"

text \<open>The 56 bytes of state of the loop over 64 bytes.\<close>

record city64 =
  cx :: u64
  cy :: u64
  cz :: u64
  cv :: "u64 \<times> u64"
  cw :: "u64 \<times> u64"

definition city64_step :: "i8 list \<Rightarrow> nat \<Rightarrow> city64 \<Rightarrow> city64 result" where
  "city64_step s p st =
     rbind (Fetch64 s (p + 8)) (\<lambda>f8.
     rbind (Fetch64 s (p + 48)) (\<lambda>f48.
     rbind (Fetch64 s (p + 40)) (\<lambda>f40.
     let x = Rotate (cx st + cy st + fst (cv st) + f8) 37 * k1;
         y = Rotate (cy st + snd (cv st) + f48) 42 * k1;
         x = x XOR snd (cw st);
         y = y + (fst (cv st) + f40);
         z = Rotate (cz st + fst (cw st)) 33 * k1
     in rbind (WeakHashLen32WithSeeds s p (snd (cv st) * k1) (x + fst (cw st))) (\<lambda>v.
        rbind (Fetch64 s (p + 16)) (\<lambda>f16.
        rbind (WeakHashLen32WithSeeds s (p + 32) (z + snd (cw st)) (y + f16)) (\<lambda>w.
        Inr \<lparr>cx = z, cy = y, cz = x, cv = v, cw = w\<rparr>))))))"

text \<open>\<open>do \<dots> while (len != 0)\<close>. The length is a positive multiple of 64, so that the subtraction does not wrap.\<close>

function city64_loop :: "i8 list \<Rightarrow> nat \<Rightarrow> nat \<Rightarrow> city64 \<Rightarrow> city64 result" where
  "city64_loop s p len st =
     (case city64_step s p st of
        Inl e \<Rightarrow> Inl e
      | Inr st' \<Rightarrow> if len - 64 \<noteq> 0 then city64_loop s (p + 64) (len - 64) st' else Inr st')"
  by pat_completeness auto
termination by (relation "measure (\<lambda>(s, p, len, st). len)") auto

definition CityHash64 :: "i8 list \<Rightarrow> u64 result" where
  "CityHash64 s =
     (let len = length s
      in if len \<le> 32 then (if len \<le> 16 then HashLen0to16 s else HashLen17to32 s)
         else if len \<le> 64 then HashLen33to64 s
         else rbind (Fetch64 s (len - 40)) (\<lambda>x.
              rbind (Fetch64 s (len - 16)) (\<lambda>y1.
              rbind (Fetch64 s (len - 56)) (\<lambda>y2.
              rbind (Fetch64 s (len - 48)) (\<lambda>z1.
              rbind (Fetch64 s (len - 24)) (\<lambda>z2.
              let y = y1 + y2; z = HashLen16_2 (z1 + of_nat len) z2
              in rbind (WeakHashLen32WithSeeds s (len - 64) (of_nat len) z) (\<lambda>v.
                 rbind (WeakHashLen32WithSeeds s (len - 32) (y + k1) x) (\<lambda>w.
                 rbind (Fetch64 s 0) (\<lambda>x0.
                 rbind (city64_loop s 0 ((len - 1) div 64 * 64) \<lparr>cx = x * k1 + x0, cy = y, cz = z, cv = v, cw = w\<rparr>) (\<lambda>st.
                 Inr (HashLen16_2 (HashLen16_2 (fst (cv st)) (fst (cw st)) + ShiftMix (cy st) * k1 + cz st)
                        (HashLen16_2 (snd (cv st)) (snd (cw st)) + cx st))))))))))))"

definition CityHash64WithSeeds :: "i8 list \<Rightarrow> u64 \<Rightarrow> u64 \<Rightarrow> u64 result" where
  "CityHash64WithSeeds s seed0 seed1 = rbind (CityHash64 s) (\<lambda>h. Inr (HashLen16_2 (h - seed0) seed1))"

definition CityHash64WithSeed :: "i8 list \<Rightarrow> u64 \<Rightarrow> u64 result" where
  "CityHash64WithSeed s seed = CityHash64WithSeeds s k2 seed"

section \<open>The reads stay inside\<close>

declare city64_loop.simps [simp del]

lemma Fetch_in [simp]:
  "p + 8 \<le> length s \<Longrightarrow> Fetch64 s p = Inr (Load64 (take 8 (drop p s)))"
  "p + 4 \<le> length s \<Longrightarrow> Fetch32 s p = Inr (ucast (Load64 (take 4 (drop p s))))"
  by (simp_all add: Fetch64_def Fetch32_def)

lemma WeakHashLen32_returns: "p + 32 \<le> length s \<Longrightarrow> \<exists>v. WeakHashLen32WithSeeds s p a b = Inr v"
  by (simp add: WeakHashLen32WithSeeds_def)

lemma city32_loop_returns: "p + 20 * iters \<le> length s \<Longrightarrow> \<exists>st'. city32_loop s p iters st = Inr st'"
proof (induction iters arbitrary: p st)
  case 0
  then show ?case by (cases st) simp
next
  case (Suc iters)
  obtain h g f where st: "st = (h, g, f)" by (cases st)
  have "\<exists>st'. city32_step s p st = Inr st'" using Suc.prems by (simp add: city32_step_def st Let_def)
  then show ?case using Suc.IH [of "p + 20"] Suc.prems by auto
qed

lemma CityHash32_short:
  "4 < length s \<Longrightarrow> length s \<le> 12 \<Longrightarrow> \<exists>h. Hash32Len5to12 s = Inr h"
  "12 < length s \<Longrightarrow> length s \<le> 24 \<Longrightarrow> \<exists>h. Hash32Len13to24 s = Inr h"
proof -
  assume len: "4 < length s" "length s \<le> 12"
  have "length s = 5 \<or> length s = 6 \<or> length s = 7 \<or> length s = 8 \<or> length s = 9 \<or> length s = 10 \<or> length s = 11 \<or> length s = 12"
    using len by linarith
  then have "(drop_bit 1 (length s) AND 4 :: nat) + 4 \<le> length s" by (elim disjE) (simp_all add: drop_bit_eq_div)
  then show "\<exists>h. Hash32Len5to12 s = Inr h" using len by (simp add: Hash32Len5to12_def Let_def)
next
  assume "12 < length s" "length s \<le> 24"
  then show "\<exists>h. Hash32Len13to24 s = Inr h" by (simp add: Hash32Len13to24_def Let_def)
qed

theorem CityHash32_returns: "\<exists>h. CityHash32 s = Inr h"
proof (cases "length s \<le> 24")
  case True
  then show ?thesis using CityHash32_short [of s] by (auto simp: CityHash32_def Let_def)
next
  case False
  have "0 + 20 * ((length s - 1) div 20) \<le> length s" using False by linarith
  then have "\<exists>st'. city32_loop s 0 ((length s - 1) div 20) st = Inr st'" for st by (rule city32_loop_returns)
  then obtain L where "\<And>st. city32_loop s 0 ((length s - 1) div 20) st = Inr (L st)" by metis
  then show ?thesis using False by (simp add: CityHash32_def Let_def case_prod_unfold)
qed

lemma city64_step_returns:
  assumes "p + 64 \<le> length s"
  shows "\<exists>st'. city64_step s p st = Inr st'"
proof -
  have "\<exists>v. WeakHashLen32WithSeeds s p a b = Inr v" "\<exists>v. WeakHashLen32WithSeeds s (p + 32) a b = Inr v" for a b
    by (rule WeakHashLen32_returns, use assms in simp)+
  then obtain V W where "\<And>a b. WeakHashLen32WithSeeds s p a b = Inr (V a b)" "\<And>a b. WeakHashLen32WithSeeds s (p + 32) a b = Inr (W a b)"
    by metis
  then show ?thesis using assms by (simp add: city64_step_def Let_def)
qed

lemma city64_loop_returns: "p + len \<le> length s \<Longrightarrow> 64 dvd len \<Longrightarrow> 0 < len \<Longrightarrow> \<exists>st'. city64_loop s p len st = Inr st'"
proof (induction s p len st rule: city64_loop.induct)
  case (1 s p len st)
  have "64 \<le> len" using "1.prems" by (simp add: dvd_imp_le)
  then obtain st' where step: "city64_step s p st = Inr st'" using city64_step_returns [of p s st] "1.prems" by auto
  show ?case
  proof (cases "len - 64 = 0")
    case False
    then show ?thesis using "1.IH" [OF step False] step "1.prems" by (subst city64_loop.simps) (simp add: dvd_diff_nat)
  qed (use step in \<open>subst city64_loop.simps, simp\<close>)
qed

theorem CityHash64_returns: "\<exists>h. CityHash64 s = Inr h"
proof (cases "length s \<le> 64")
  case True
  then show ?thesis
    by (auto simp: CityHash64_def HashLen0to16_def HashLen17to32_def HashLen33to64_def Let_def drop_bit_eq_div)
next
  case False
  let ?n = "(length s - 1) div 64 * 64"
  have "0 + ?n \<le> length s" "64 dvd ?n" "0 < ?n" using False by auto
  then have "\<exists>st'. city64_loop s 0 ?n st = Inr st'" for st by (rule city64_loop_returns)
  then obtain L where loop: "\<And>st. city64_loop s 0 ?n st = Inr (L st)" by metis
  have "\<exists>v. WeakHashLen32WithSeeds s (length s - 64) a b = Inr v" "\<exists>v. WeakHashLen32WithSeeds s (length s - 32) a b = Inr v" for a b
    by (rule WeakHashLen32_returns, use False in simp)+
  then obtain V W where "\<And>a b. WeakHashLen32WithSeeds s (length s - 64) a b = Inr (V a b)"
    "\<And>a b. WeakHashLen32WithSeeds s (length s - 32) a b = Inr (W a b)" by metis
  then show ?thesis using False loop by (simp add: CityHash64_def Let_def)
qed

section \<open>Rotations and swaps\<close>

text \<open>The byte swaps reverse the bytes in memory, so that swapping twice changes nothing.\<close>

lemma byte_masks:
  "(0xFF :: 'a::len word) = mask 8" "(0xFF00 :: 'a word) = push_bit 8 (mask 8)" "(0xFF0000 :: 'a word) = push_bit 16 (mask 8)"
  "(0xFF000000 :: 'a word) = push_bit 24 (mask 8)" "(0xFF00000000 :: 'a word) = push_bit 32 (mask 8)"
  "(0xFF0000000000 :: 'a word) = push_bit 40 (mask 8)" "(0xFF000000000000 :: 'a word) = push_bit 48 (mask 8)"
  "(0xFF00000000000000 :: 'a word) = push_bit 56 (mask 8)"
  by (simp_all add: mask_eq_exp_minus_1 push_bit_eq_mult)

lemma gbswap_64_byte:
  assumes "k < 8"
  shows "i < 8 \<Longrightarrow> bit (gbswap_64 w) (8 * i + k) \<longleftrightarrow> bit w (8 * (7 - i) + k)"
proof -
  assume "i < 8"
  then have "i = 0 \<or> i = 1 \<or> i = 2 \<or> i = 3 \<or> i = 4 \<or> i = 5 \<or> i = 6 \<or> i = 7" by linarith
  then show ?thesis using assms
    by (elim disjE) (simp_all add: gbswap_64_def byte_masks bit_simps)
qed

lemma gbswap_32_byte:
  assumes "k < 8"
  shows "i < 4 \<Longrightarrow> bit (gbswap_32 w) (8 * i + k) \<longleftrightarrow> bit w (8 * (3 - i) + k)"
proof -
  assume "i < 4"
  then have "i = 0 \<or> i = 1 \<or> i = 2 \<or> i = 3" by linarith
  then show ?thesis using assms
    by (elim disjE) (simp_all add: gbswap_32_def byte_masks bit_simps)
qed

theorem gbswap_reverses_bytes:
  "value_bytes (gbswap_64 w) = rev (value_bytes w)" "value_bytes (gbswap_32 v) = rev (value_bytes v)"
proof -
  show "value_bytes (gbswap_64 w) = rev (value_bytes w)"
    by (rule nth_equalityI) (auto simp: value_bytes_def rev_nth bit_simps gbswap_64_byte intro!: bit_word_eqI)
  show "value_bytes (gbswap_32 v) = rev (value_bytes v)"
    by (rule nth_equalityI) (auto simp: value_bytes_def rev_nth bit_simps gbswap_32_byte intro!: bit_word_eqI)
qed

text \<open>The rotations are the rotations of the word.\<close>

lemma Rotate_word: "shift < 64 \<Longrightarrow> Rotate val shift = word_rotr shift val"
  using shifts_rotr [of shift val] by (cases "shift = 0") (simp_all add: Rotate_def)

lemma Rotate32_word: "shift < 32 \<Longrightarrow> Rotate32 val shift = word_rotr shift val"
  using shifts_rotr [of shift val] by (cases "shift = 0") (simp_all add: Rotate32_def)

end
