(* ===== verification/Swiss_Probing.thy ===== *)
theory Swiss_Probing
  imports Swiss_Groups "HOL-Library.Signed_Division"
begin

text \<open>
  Capacities, load factor and probe sequence of the Swiss table
  (\<open>absl/container/internal/raw_hash_set.h\<close>): the capacity is \<open>2 ^ m - 1\<close> and serves as the index
  mask, seven eighths of it may be filled, and a triangular progression of offsets visits the groups.
\<close>

section \<open>Capacity and growth\<close>

text \<open>\<open>size_t\<close> as a natural number; \<open>sz\<close> is the wrap-around of its arithmetic.\<close>

definition sz :: "nat \<Rightarrow> nat" where
  "sz x = x mod 2 ^ 64"

lemma sz_less [simp]: "x < 2 ^ 64 \<Longrightarrow> sz x = x"
  by (simp add: sz_def)

lemma sz_diff: "b \<le> a \<Longrightarrow> a < 2 ^ 64 \<Longrightarrow> sz (a + 2 ^ 64 - b) = a - b"
proof -
  assume a: "b \<le> a" "a < 2 ^ 64"
  then have "a + 2 ^ 64 - b = (a - b) + 2 ^ 64" by linarith
  then show ?thesis using a by (simp only: sz_def mod_add_self2) simp
qed

definition IsValidCapacity :: "nat \<Rightarrow> bool" where
  "IsValidCapacity n \<longleftrightarrow> sz (n + 1) AND n = 0 \<and> n > 0"

definition NextCapacity :: "nat \<Rightarrow> nat result" where
  "NextCapacity n = (if IsValidCapacity n \<or> n = 0 then Inr (sz (n * 2 + 1)) else Inl AssertionFailure)"

definition NormalizeCapacity :: "nat \<Rightarrow> nat" where
  "NormalizeCapacity n = (if n \<noteq> 0 then unat (drop_bit (countl_zero (of_nat n :: u64)) (- 1 :: u64)) else 1)"

definition CapacityToGrowth :: "group_ops \<Rightarrow> nat \<Rightarrow> nat result" where
  "CapacityToGrowth G capacity =
     (if \<not> IsValidCapacity capacity then Inl AssertionFailure
      else if kWidth G = 8 \<and> capacity = 7 then Inr 6
      else Inr (capacity - capacity div 8))"

definition GrowthToLowerboundCapacity :: "group_ops \<Rightarrow> nat \<Rightarrow> nat result" where
  "GrowthToLowerboundCapacity G growth =
     (if kWidth G = 8 \<and> growth = 7 then Inr 8
      else rbind (to_long (sint (of_nat growth :: u64) - 1)) (\<lambda>pred.
             Inr (nat ((int growth + pred sdiv 7) mod 2 ^ 64))))"

definition SelectBucketCountForIterRange :: "group_ops \<Rightarrow> bool \<Rightarrow> nat \<Rightarrow> nat \<Rightarrow> nat result" where
  "SelectBucketCountForIterRange G random_access distance bucket_count =
     (if bucket_count \<noteq> 0 then Inr bucket_count
      else if random_access then GrowthToLowerboundCapacity G distance
      else Inr 0)"

text \<open>\<open>mask_capacity k c\<close>: the capacity \<open>c\<close> is the mask of \<open>k\<close> bits.\<close>

definition mask_capacity :: "nat \<Rightarrow> nat \<Rightarrow> bool" where
  "mask_capacity k c \<longleftrightarrow> Suc c = 2 ^ k \<and> k \<le> 64"

lemma mask_capacity_and: "mask_capacity k c \<Longrightarrow> x AND c = x mod 2 ^ k"
  using nat_and_power2_pred [of x k] unfolding mask_capacity_def by (metis diff_Suc_1)

lemma mask_capacity_sz_and: "mask_capacity k c \<Longrightarrow> sz x AND c = x mod 2 ^ k"
proof -
  assume "mask_capacity k c"
  then have "(2::nat) ^ k dvd 2 ^ 64" "sz x AND c = sz x mod 2 ^ k"
    by (auto simp: mask_capacity_def le_imp_power_dvd mask_capacity_and simp del: power_numeral)
  then show ?thesis unfolding sz_def by (metis mod_mod_cancel)
qed

lemma IsValidCapacity_iff: "c < 2 ^ 64 \<Longrightarrow> IsValidCapacity c \<longleftrightarrow> 0 < c \<and> (\<exists>k. mask_capacity k c)"
proof
  assume c: "c < 2 ^ 64" and v: "IsValidCapacity c"
  show "0 < c \<and> (\<exists>k. mask_capacity k c)"
  proof (cases "Suc c = 2 ^ 64")
    case True
    then have "mask_capacity 64 c" by (simp add: mask_capacity_def)
    then show ?thesis using v by (auto simp: IsValidCapacity_def)
  next
    case False
    with c have lt: "Suc c < 2 ^ 64" by simp
    with v have "Suc c AND (Suc c - 1) = 0" by (simp add: IsValidCapacity_def)
    then obtain k where k: "Suc c = 2 ^ k" using nat_and_pred_zero_power2 [of "Suc c"] by auto
    with lt have "k < 64" by (metis less_imp_neq linorder_neqE_nat not_less_iff_gr_or_eq one_less_numeral_iff
          power_strict_increasing semiring_norm(76))
    then show ?thesis using k v by (auto simp: mask_capacity_def IsValidCapacity_def intro!: exI [of _ k])
  qed
next
  assume c: "c < 2 ^ 64" and "0 < c \<and> (\<exists>k. mask_capacity k c)"
  then obtain k where k: "mask_capacity k c" "0 < c" by blast
  have "sz (c + 1) AND c = Suc c mod 2 ^ k" using mask_capacity_sz_and [OF k(1), of "Suc c"] by simp
  then show "IsValidCapacity c" using k by (simp add: IsValidCapacity_def mask_capacity_def)
qed

lemma mask_capacity_less: "mask_capacity k c \<Longrightarrow> c < 2 ^ 64"
proof -
  assume "mask_capacity k c"
  then have "Suc c \<le> 2 ^ 64" unfolding mask_capacity_def by (metis one_le_numeral power_increasing)
  then show ?thesis by simp
qed

lemma mask_capacity_valid: "mask_capacity k c \<Longrightarrow> 0 < c \<Longrightarrow> IsValidCapacity c"
  using IsValidCapacity_iff mask_capacity_less by blast

lemma NormalizeCapacity_round_up:
  assumes "0 < n" "2 ^ k \<le> n" "n < 2 ^ Suc k" "k < 64"
  shows "NormalizeCapacity n = 2 ^ Suc k - 1"
proof -
  have n: "n < 2 ^ 64" using assms(3,4) by (metis Suc_leI less_le_trans one_le_numeral power_increasing)
  let ?w = "of_nat n :: u64"
  have bit: "bit ?w i \<longleftrightarrow> bit n i" for i
  proof -
    have "bit ?w i \<longleftrightarrow> i < 64 \<and> bit n i" by (simp add: bit_simps)
    moreover have "i < 64" if "bit n i"
      using that n bit_below_power2 [of n i] by (metis less_le_trans not_less one_le_numeral power_increasing)
    ultimately show ?thesis by blast
  qed
  have "n div 2 ^ k = 1" using assms(2,3) by (simp add: div_nat_eqI)
  then have "bit n k" by (simp add: bit_iff_odd)
  moreover have "\<not> bit n i" if "k < i" for i
    using that assms(3) by (intro bit_below_power2) (metis Suc_leI less_le_trans one_le_numeral power_increasing)
  ultimately have "countl_zero ?w = 64 - Suc k" using bit_width_highest(2) [of ?w k] by (simp add: bit)
  moreover have "drop_bit (64 - Suc k) (- 1 :: u64) = mask (Suc k)"
    by (rule bit_word_eqI) (use assms(4) in \<open>auto simp: bit_simps\<close>)
  moreover have "unat (mask (Suc k) :: u64) = mask (Suc k)"
    by (rule bit_eqI) (use assms(4) in \<open>auto simp: bit_simps\<close>)
  ultimately show ?thesis using assms(1) unfolding NormalizeCapacity_def by (simp add: mask_eq_exp_minus_1)
qed


text \<open>Every positive number lies between two neighbouring powers of two.\<close>

lemma between_powers: "0 < n \<Longrightarrow> \<exists>k. 2 ^ k \<le> n \<and> n < 2 ^ Suc k" for n :: nat
proof (induction n rule: less_induct)
  case (less n)
  show ?case
  proof (cases "n = 1")
    case True
    then show ?thesis by (intro exI [of _ 0]) simp
  next
    case False
    with less.prems have "0 < n div 2" "n div 2 < n" by auto
    with less.IH obtain k where "2 ^ k \<le> n div 2" "n div 2 < 2 ^ Suc k" by blast
    then show ?thesis by (intro exI [of _ "Suc k"]) auto
  qed
qed

text \<open>\<open>NormalizeCapacity\<close> is the least valid capacity that is not smaller.\<close>

lemma NormalizeCapacity_least:
  assumes "n < 2 ^ 64"
  shows "IsValidCapacity (NormalizeCapacity n)" "n \<le> NormalizeCapacity n" "NormalizeCapacity n < 2 ^ 64"
    "\<And>c. IsValidCapacity c \<Longrightarrow> c < 2 ^ 64 \<Longrightarrow> n \<le> c \<Longrightarrow> NormalizeCapacity n \<le> c"
    "0 < n \<Longrightarrow> NormalizeCapacity n < 2 * n"
proof -
  obtain k where k: "NormalizeCapacity n = 2 ^ Suc k - 1" "n < 2 ^ Suc k" "k < 64"
    "\<And>j. n < 2 ^ j \<Longrightarrow> 0 < j \<Longrightarrow> Suc k \<le> j" "0 < n \<Longrightarrow> 2 ^ k \<le> n"
  proof (cases "n = 0")
    case True
    then show ?thesis by (intro that [of 0]) (simp_all add: NormalizeCapacity_def)
  next
    case False
    then obtain k where k: "2 ^ k \<le> n" "n < 2 ^ Suc k" using between_powers by blast
    have k64: "k < 64" using k(1) assms by (metis le_less_trans not_less one_le_numeral power_increasing)
    show ?thesis
    proof (rule that [OF NormalizeCapacity_round_up [OF _ k k64] k(2) k64])
      show "Suc k \<le> j" if "n < 2 ^ j" for j
        using k(1) that by (metis Suc_leI le_less_trans not_less one_le_numeral power_increasing)
    qed (use False k in simp_all)
  qed
  have m: "mask_capacity (Suc k) (NormalizeCapacity n)" using k(1,3) by (simp add: mask_capacity_def)
  have "1 < (2::nat) ^ Suc k" by (rule one_less_power) simp_all
  then show "IsValidCapacity (NormalizeCapacity n)" unfolding k(1) by (intro mask_capacity_valid [OF m [unfolded k(1)]]) linarith
  show "n \<le> NormalizeCapacity n" using k(1,2) by simp
  show "NormalizeCapacity n < 2 ^ 64" using m by (rule mask_capacity_less)
  show "NormalizeCapacity n < 2 * n" if "0 < n" using k(1,5) that by simp
  show "NormalizeCapacity n \<le> c" if c: "IsValidCapacity c" "c < 2 ^ 64" "n \<le> c" for c
  proof -
    obtain j where j: "mask_capacity j c" "0 < c" using c(1,2) IsValidCapacity_iff by blast
    then have "0 < j" by (cases j) (simp_all add: mask_capacity_def)
    with k(4) [of j] j(1) c(3) have "Suc k \<le> j" by (simp add: mask_capacity_def)
    then have "(2::nat) ^ Suc k \<le> 2 ^ j" by (intro power_increasing) simp_all
    moreover have "Suc c = 2 ^ j" using j(1) by (simp add: mask_capacity_def)
    ultimately show ?thesis using k(1) by linarith
  qed
qed


lemma GrowthToLowerboundCapacity_small:
  assumes "growth < 2 ^ 62"
  shows "GrowthToLowerboundCapacity G growth =
    Inr (if kWidth G = 8 \<and> growth = 7 then 8 else growth + (growth - 1) div 7)"
proof (cases "growth = 0")
  case True
  then show ?thesis by (simp add: GrowthToLowerboundCapacity_def to_long_def signed_divide_int_def)
next
  case False
  have s: "sint (of_nat growth :: u64) = int growth" using assms by (intro sint_of_nat_small) simp
  have "(int growth - 1) sdiv 7 = int ((growth - 1) div 7)"
    using False by (simp add: signed_divide_int_def zdiv_int of_nat_diff sgn_if)
  moreover have "growth + (growth - 1) div 7 < 2 ^ 64" using assms by simp
  then have "nat ((int growth + int ((growth - 1) div 7)) mod 2 ^ 64) = growth + (growth - 1) div 7"
    by (simp flip: of_nat_add)
  moreover have "to_long (int growth - 1) = Inr (int growth - 1)" using assms by (intro to_long_ok) simp_all
  ultimately show ?thesis by (simp add: GrowthToLowerboundCapacity_def s)
qed

lemma mask_capacity_div8: "mask_capacity k c \<Longrightarrow> 3 \<le> k \<Longrightarrow> \<exists>q. c = 8 * q + 7"
proof -
  assume k: "mask_capacity k c" "3 \<le> k"
  have "(2::nat) ^ k = 2 ^ (3 + (k - 3))" using k(2) by simp
  also have "\<dots> = 8 * 2 ^ (k - 3)" by (simp only: power_add) simp
  finally have "Suc c = 8 * 2 ^ (k - 3)" using k(1) by (simp add: mask_capacity_def)
  then show ?thesis by (intro exI [of _ "2 ^ (k - 3) - 1"]) simp
qed

text \<open>The load factor and its inverse form a Galois connection on the valid capacities.\<close>

lemma growth_galois:
  assumes "IsValidCapacity c" "c < 2 ^ 64" "growth < 2 ^ 62"
    and "CapacityToGrowth G c = Inr cg" "GrowthToLowerboundCapacity G growth = Inr lb"
  shows "growth \<le> cg \<longleftrightarrow> lb \<le> c"
proof -
  obtain k where k: "mask_capacity k c" "0 < c" using assms(1,2) IsValidCapacity_iff by blast
  have cg: "cg = (if kWidth G = 8 \<and> c = 7 then 6 else c - c div 8)"
    using assms(1,4) by (auto simp: CapacityToGrowth_def split: if_splits)
  have lb: "lb = (if kWidth G = 8 \<and> growth = 7 then 8 else growth + (growth - 1) div 7)"
    using assms(5) GrowthToLowerboundCapacity_small [OF assms(3)] by simp
  consider "c = 1" | "c = 3" | q where "c = 8 * q + 7"
  proof -
    consider "k = 0" | "k = 1" | "k = 2" | "3 \<le> k" by linarith
    then show ?thesis
      using k that mask_capacity_div8 [OF k(1)] by cases (auto simp: mask_capacity_def)
  qed
  then show ?thesis
  proof cases
    case (3 q)
    then have "c - c div 8 = 7 * q + 7" by simp
    then show ?thesis using 3 unfolding cg lb by (auto split: if_splits)
  qed (auto simp: cg lb)
qed


section \<open>The probe sequence\<close>

record probe_seq =
  ps_mask :: nat
  ps_offset :: nat
  ps_index :: nat

definition probe_seq_init :: "nat \<Rightarrow> nat \<Rightarrow> probe_seq result" where
  "probe_seq_init hash m =
     (if sz (m + 1) AND m = 0 then Inr \<lparr>ps_mask = m, ps_offset = hash AND m, ps_index = 0\<rparr>
      else Inl AssertionFailure)"

definition seq_offset :: "probe_seq \<Rightarrow> nat \<Rightarrow> nat" where
  "seq_offset seq i = sz (ps_offset seq + i) AND ps_mask seq"

definition probe_next :: "nat \<Rightarrow> probe_seq \<Rightarrow> probe_seq" where
  "probe_next Width seq =
     (let index = sz (ps_index seq + Width)
      in seq\<lparr>ps_index := index, ps_offset := sz (ps_offset seq + index) AND ps_mask seq\<rparr>)"

text \<open>The hash is split into \<open>H1\<close>, mixed with the address of the control bytes, and the seven bits \<open>H2\<close>.\<close>

definition PerTableSalt :: "u64 \<Rightarrow> u64" where
  "PerTableSalt ctrl = drop_bit 12 ctrl"

definition H1 :: "u64 \<Rightarrow> u64 \<Rightarrow> u64" where
  "H1 hash ctrl = drop_bit 7 hash XOR PerTableSalt ctrl"

definition H2 :: "u64 \<Rightarrow> i8" where
  "H2 hash = ucast (hash AND 0x7F)"

definition probe :: "u64 \<Rightarrow> nat \<Rightarrow> u64 \<Rightarrow> probe_seq result" where
  "probe ctrl capacity hash = probe_seq_init (unat (H1 hash ctrl)) capacity"

lemma H2_full [simp]: "IsFull (H2 hash)"
  by (simp add: IsFull_bit H2_def bit_simps)

text \<open>The \<open>n\<close>th offset in closed form: triangular numbers times the width.\<close>

definition triangle :: "nat \<Rightarrow> nat" where
  "triangle n = n * Suc n div 2"

lemma triangle_Suc: "triangle (Suc n) = triangle n + Suc n"
proof -
  have "Suc n * Suc (Suc n) = n * Suc n + Suc n * 2" by (simp add: algebra_simps)
  then show ?thesis unfolding triangle_def by (simp only: div_mult_self1 [of 2] numeral_neq_zero) simp
qed

definition probe_state :: "nat \<Rightarrow> nat \<Rightarrow> nat \<Rightarrow> nat \<Rightarrow> probe_seq" where
  "probe_state c W h n = \<lparr>ps_mask = c, ps_offset = (h + W * triangle n) mod Suc c, ps_index = n * W\<rparr>"

lemma probe_seq_init_state:
  "mask_capacity k c \<Longrightarrow> probe_seq_init h c = Inr (probe_state c W h 0)"
  using mask_capacity_sz_and [of k c "Suc c"] mask_capacity_and [of k c h]
  by (simp add: probe_seq_init_def probe_state_def triangle_def mask_capacity_def)

lemma probe_next_state:
  assumes "mask_capacity k c" "Suc n * W < 2 ^ 64"
  shows "probe_next W (probe_state c W h n) = probe_state c W h (Suc n)"
proof -
  have "sz (n * W + W) = Suc n * W" using assms(2) by (simp add: add.commute)
  moreover have "((h + W * triangle n) mod Suc c + Suc n * W) mod Suc c = (h + W * triangle (Suc n)) mod Suc c"
    unfolding mod_add_left_eq by (simp add: triangle_Suc algebra_simps)
  ultimately show ?thesis
    using assms(1) mask_capacity_sz_and [OF assms(1)] by (simp add: probe_next_def probe_state_def mask_capacity_def)
qed

lemma seq_offset_state:
  assumes "mask_capacity k c"
  shows "seq_offset (probe_state c W h n) i = (h + W * triangle n + i) mod Suc c"
  using assms mask_capacity_sz_and [OF assms]
  by (simp add: seq_offset_def probe_state_def mask_capacity_def mod_simps)

text \<open>The triangular numbers are distinct modulo a power of two, so that they take every residue.\<close>

lemma triangle_inj:
  assumes "m < n" "n < 2 ^ j"
  shows "triangle m mod 2 ^ j \<noteq> triangle n mod 2 ^ j"
proof
  assume eq: "triangle m mod 2 ^ j = triangle n mod 2 ^ j"
  have twice: "2 * triangle k = k * Suc k" for k by (simp add: triangle_def)
  have "int (2 ^ j) dvd int (triangle n) - int (triangle m)"
    using eq by (metis mod_eq_dvd_iff of_nat_mod)
  then have "2 * int (2 ^ j) dvd 2 * (int (triangle n) - int (triangle m))" by (rule mult_dvd_mono [OF dvd_refl])
  also have "2 * (int (triangle n) - int (triangle m)) = int (2 * triangle n) - int (2 * triangle m)" by simp
  also have "\<dots> = (int n - int m) * (int n + int m + 1)" unfolding twice by (simp add: algebra_simps)
  finally have d: "2 ^ Suc j dvd (int n - int m) * (int n + int m + 1)" by simp
  have "odd (int n - int m) \<or> odd (int n + int m + 1)" by presburger
  then have "2 ^ Suc j dvd int n + int m + 1 \<or> 2 ^ Suc j dvd int n - int m"
    using d by (metis coprime_dvd_mult_left_iff coprime_dvd_mult_right_iff coprime_left_2_iff_odd
        coprime_power_left_iff)
  then have "2 ^ Suc j \<le> int n + int m + 1"
    using assms by (auto dest!: zdvd_imp_le)
  moreover have "int n < 2 ^ j" using assms(2) by (metis of_nat_less_iff of_nat_numeral of_nat_power)
  ultimately show False using assms(1) by simp
qed

lemma triangle_surj: "r < 2 ^ j \<Longrightarrow> \<exists>n < 2 ^ j. triangle n mod 2 ^ j = r"
proof -
  assume r: "r < 2 ^ j"
  let ?f = "\<lambda>n. triangle n mod 2 ^ j" and ?A = "{..<2 ^ j::nat}"
  have "inj_on ?f ?A"
    by (rule inj_onI) (metis lessThan_iff linorder_neqE_nat triangle_inj)
  moreover have "?f ` ?A \<subseteq> ?A" by auto
  ultimately have "?f ` ?A = ?A" by (simp add: endo_inj_surj)
  then show ?thesis using r by (metis (no_types, lifting) imageE lessThan_iff)
qed

lemma probe_visits_position:
  assumes M: "Suc c = 2 ^ k" and W: "W = 2 ^ w" "w \<le> k" and p: "p < Suc c"
  shows "\<exists>n < Suc c div W. \<exists>i < W. (h + W * triangle n + i) mod Suc c = p"
proof -
  define d where "d = (p + (Suc c - h mod Suc c)) mod Suc c"
  have "(h + d) mod Suc c = (h mod Suc c + (p + (Suc c - h mod Suc c))) mod Suc c" by (simp add: d_def mod_simps)
  also have "\<dots> = (p + Suc c) mod Suc c"
    using mod_less_divisor [of "Suc c" h] by (intro arg_cong [of _ _ "\<lambda>x. x mod Suc c"]) linarith
  also have "\<dots> = p" using p by (simp only: mod_add_self2 mod_less)
  finally have d: "(h + d) mod Suc c = p" .
  have groups: "Suc c div W = 2 ^ (k - w)" using M W by (simp add: power_diff)
  have Wpos: "0 < W" using W by simp
  have split: "Suc c = 2 ^ (k - w) * W" using M W by (simp flip: power_add)
  have "d < Suc c" by (simp add: d_def)
  then have "d div W < 2 ^ (k - w)" unfolding split by (rule less_mult_imp_div_less)
  then obtain n where n: "n < 2 ^ (k - w)" "triangle n mod 2 ^ (k - w) = d div W" using triangle_surj by blast
  have "W * triangle n mod Suc c = W * (triangle n mod 2 ^ (k - w))" 
    unfolding split mult.commute [of "2 ^ (k - w)" W] by (rule mult_mod_right [symmetric])
  then have "(W * triangle n + d mod W) mod Suc c = (W * (d div W) + d mod W) mod Suc c"
    using n(2) by (metis mod_add_left_eq)
  then have "(W * triangle n + d mod W) mod Suc c = d mod Suc c" by simp
  then have "(h + (W * triangle n + d mod W)) mod Suc c = (h + d) mod Suc c" by (metis mod_add_right_eq)
  then show ?thesis using n(1) d Wpos groups
    by (intro exI [of _ n] conjI exI [of _ "d mod W"]) (simp_all add: add.assoc)
qed

text \<open>Counting turns this into a bijection between the positions of the groups and those of the table.\<close>

lemma probe_groups_bij:
  assumes M: "Suc c = 2 ^ k" and W: "W = 2 ^ w" "w \<le> k"
  shows "bij_betw (\<lambda>(n, i). (h + W * triangle n + i) mod Suc c) ({..<Suc c div W} \<times> {..<W}) {..<Suc c}"
proof -
  let ?f = "\<lambda>(n, i). (h + W * triangle n + i) mod Suc c" and ?A = "{..<Suc c div W} \<times> {..<W}"
  have onto: "?f ` ?A = {..<Suc c}"
  proof
    show "{..<Suc c} \<subseteq> ?f ` ?A"
    proof
      fix p assume "p \<in> {..<Suc c}"
      then obtain n i where "n < Suc c div W" "i < W" "(h + W * triangle n + i) mod Suc c = p"
        using probe_visits_position [OF M W, of p h] by auto
      then show "p \<in> ?f ` ?A" by (intro image_eqI [of _ _ "(n, i)"]) simp_all
    qed
  qed auto
  have "W dvd Suc c" using M W by (simp add: le_imp_power_dvd)
  then have "card ?A = Suc c" by (simp add: card_cartesian_product del: mult_Suc)
  then have "inj_on ?f ?A" using onto by (intro eq_card_imp_inj_on) simp_all
  then show ?thesis using onto by (simp add: bij_betw_def)
qed

end
