(* ===== verification/Swiss_Table.thy ===== *)
theory Swiss_Table
  imports Swiss_Probing
begin

text \<open>
  The Swiss table \<open>raw_hash_set\<close> of \<open>absl/container/internal/raw_hash_set.h\<close> and \<open>raw_hash_set.cc\<close>:
  its state and its operations, in the build of the repository (assertions enabled, generations
  disabled). The group implementation, the hash function, the allocator and the address of the counter
  behind \<open>RandomSeed\<close> are arguments.
\<close>

section \<open>State and environment\<close>

text \<open>An operation may run into undefined behaviour or a failed assertion (\<open>Inl\<close>), or not return (\<open>None\<close>).\<close>

type_synonym 'a run = "'a result option"

definition run_bind :: "'a run \<Rightarrow> ('a \<Rightarrow> 'b run) \<Rightarrow> 'b run" where
  "run_bind r f = (case r of None \<Rightarrow> None | Some (Inl e) \<Rightarrow> Some (Inl e) | Some (Inr x) \<Rightarrow> f x)"

lemma run_bind_simps [simp]:
  "run_bind None f = None" "run_bind (Some (Inl e)) f = Some (Inl e)" "run_bind (Some (Inr x)) f = f x"
  by (simp_all add: run_bind_def)

text \<open>\<open>CommonFields\<close>, with the arrays its pointers refer to. A slot is \<open>None\<close> while no element is
  constructed in it. \<open>control_addr\<close> is the value of the pointer \<open>control_\<close>; \<open>allocations\<close> counts the
  calls of the allocator and \<open>seed_counter\<close> is the static counter of \<open>RandomSeed\<close>.\<close>

record 'a common_fields =
  cf_control :: "ctrl_t list"
  cf_slots :: "'a option list"
  cf_size :: nat
  cf_capacity :: nat
  cf_growth_left :: nat
  control_addr :: u64
  allocations :: nat
  seed_counter :: u64

record 'a table_env =
  Group :: group_ops
  hash_ref :: "'a \<Rightarrow> u64"
  allocate :: "nat \<Rightarrow> nat \<Rightarrow> u64"
  slot_size :: nat
  slot_align :: nat
  counter_address :: u64
  empty_group_address :: u64

definition CommonFields :: "'a table_env \<Rightarrow> 'a common_fields" where
  "CommonFields E =
     \<lparr>cf_control = kEmptyGroup, cf_slots = [], cf_size = 0, cf_capacity = 0, cf_growth_left = 0,
      control_addr = empty_group_address E, allocations = 0, seed_counter = 0\<rparr>"

definition NumClonedBytes :: "'a table_env \<Rightarrow> nat" where
  "NumClonedBytes E = kWidth (Group E) - 1"

definition is_small :: "'a table_env \<Rightarrow> nat \<Rightarrow> bool" where
  "is_small E capacity \<longleftrightarrow> capacity < kWidth (Group E) - 1"

text \<open>\<open>Group g{ctrl + pos}\<close>: loading a group reads \<open>kWidth\<close> control bytes.\<close>

definition load_group :: "'a table_env \<Rightarrow> 'a common_fields \<Rightarrow> nat \<Rightarrow> ctrl_t list result" where
  "load_group E t pos =
     (if pos + kWidth (Group E) \<le> length (cf_control t) then Inr (take (kWidth (Group E)) (drop pos (cf_control t)))
      else Inl OutOfBounds)"

definition slot_read :: "'a common_fields \<Rightarrow> nat \<Rightarrow> 'a result" where
  "slot_read t i = rbind (array_get (cf_slots t) i) (\<lambda>s. case s of None \<Rightarrow> Inl Uninitialised | Some x \<Rightarrow> Inr x)"

definition slot_write :: "'a common_fields \<Rightarrow> nat \<Rightarrow> 'a option \<Rightarrow> 'a common_fields result" where
  "slot_write t i v = rbind (array_set (cf_slots t) i v) (\<lambda>s. Inr (t\<lparr>cf_slots := s\<rparr>))"

definition probe_table :: "'a common_fields \<Rightarrow> u64 \<Rightarrow> probe_seq result" where
  "probe_table t hash = probe (control_addr t) (cf_capacity t) hash"

section \<open>Finding a slot\<close>

definition RandomSeed :: "'a table_env \<Rightarrow> 'a common_fields \<Rightarrow> 'a common_fields \<times> u64" where
  "RandomSeed E t =
     (let counter = seed_counter t + 1
      in (t\<lparr>seed_counter := counter\<rparr>, counter XOR counter_address E))"

definition ShouldInsertBackwards :: "'a table_env \<Rightarrow> u64 \<Rightarrow> 'a common_fields \<Rightarrow> 'a common_fields \<times> bool" where
  "ShouldInsertBackwards E hash t =
     (let (t', seed) = RandomSeed E t
      in (t', 6 < (H1 hash (control_addr t) XOR seed) mod 13))"

record find_info =
  fi_offset :: nat
  fi_probe_length :: nat

partial_function (option) first_non_full_loop ::
    "'a table_env \<Rightarrow> 'a common_fields \<Rightarrow> u64 \<Rightarrow> probe_seq \<Rightarrow> (find_info \<times> 'a common_fields) run" where
  "first_non_full_loop E t hash seq =
     (case load_group E t (ps_offset seq) of
        Inl e \<Rightarrow> Some (Inl e)
      | Inr g \<Rightarrow>
          let mask = MaskEmptyOrDeleted (Group E) g
          in if mask_nonzero mask
             then let (t', backwards) =
                        (if \<not> is_small E (cf_capacity t) then ShouldInsertBackwards E hash t else (t, False))
                  in Some (Inr (\<lparr>fi_offset = seq_offset seq (if backwards then HighestBitSet mask else LowestBitSet mask),
                                 fi_probe_length = ps_index seq\<rparr>, t'))
             else let seq' = probe_next (kWidth (Group E)) seq
                  in if ps_index seq' \<le> cf_capacity t then first_non_full_loop E t hash seq'
                     else Some (Inl AssertionFailure))"

definition find_first_non_full ::
    "'a table_env \<Rightarrow> 'a common_fields \<Rightarrow> u64 \<Rightarrow> (find_info \<times> 'a common_fields) run" where
  "find_first_non_full E t hash =
     run_bind (Some (probe_table t hash)) (\<lambda>seq. first_non_full_loop E t hash seq)"

section \<open>Control bytes of a table\<close>

definition ResetGrowthLeft :: "'a table_env \<Rightarrow> 'a common_fields \<Rightarrow> 'a common_fields result" where
  "ResetGrowthLeft E t =
     rbind (CapacityToGrowth (Group E) (cf_capacity t)) (\<lambda>growth.
       Inr (t\<lparr>cf_growth_left := sz (growth + 2 ^ 64 - cf_size t)\<rparr>))"

definition ResetCtrl :: "'a table_env \<Rightarrow> 'a common_fields \<Rightarrow> 'a common_fields result" where
  "ResetCtrl E t =
     (let capacity = cf_capacity t;
          bytes = replicate (capacity + 1 + NumClonedBytes E) kEmpty
      in ResetGrowthLeft E (t\<lparr>cf_control := bytes[capacity := kSentinel]\<rparr>))"

definition SetCtrl :: "'a table_env \<Rightarrow> 'a common_fields \<Rightarrow> nat \<Rightarrow> ctrl_t \<Rightarrow> 'a common_fields result" where
  "SetCtrl E t i h =
     (let capacity = cf_capacity t;
          mirror = (sz (i + 2 ^ 64 - NumClonedBytes E) AND capacity) + (NumClonedBytes E AND capacity)
      in if i < capacity
         then rbind (array_set (cf_control t) i h) (\<lambda>ctrl.
              rbind (array_set ctrl mirror h) (\<lambda>ctrl'.
              Inr (t\<lparr>cf_control := ctrl'\<rparr>)))
         else Inl AssertionFailure)"

text \<open>The layout of the backing array: control bytes, then the slots at their alignment.\<close>

definition NumGenerationBytes :: nat where
  "NumGenerationBytes = 0"

definition GenerationOffset :: "'a table_env \<Rightarrow> nat \<Rightarrow> nat result" where
  "GenerationOffset E capacity =
     (if IsValidCapacity capacity then Inr (sz (capacity + 1 + NumClonedBytes E)) else Inl AssertionFailure)"

definition SlotOffset :: "'a table_env \<Rightarrow> nat \<Rightarrow> nat result" where
  "SlotOffset E capacity =
     (if IsValidCapacity capacity
      then let num_control_bytes = of_nat (capacity + 1 + NumClonedBytes E) :: u64;
               align = of_nat (slot_align E)
           in Inr (unat ((num_control_bytes + of_nat NumGenerationBytes + align - 1) AND (NOT align + 1)))
      else Inl AssertionFailure)"

definition AllocSize :: "'a table_env \<Rightarrow> nat \<Rightarrow> nat result" where
  "AllocSize E capacity =
     rbind (SlotOffset E capacity) (\<lambda>offset. Inr (sz (offset + capacity * slot_size E)))"

definition InitializeSlots :: "'a table_env \<Rightarrow> 'a common_fields \<Rightarrow> 'a common_fields result" where
  "InitializeSlots E t =
     (if cf_capacity t = 0 then Inl AssertionFailure
      else rbind (AllocSize E (cf_capacity t)) (\<lambda>bytes.
           let mem = allocate E (allocations t) bytes
           in ResetCtrl E (t\<lparr>allocations := Suc (allocations t), control_addr := mem,
                             cf_slots := replicate (cf_capacity t) None\<rparr>)))"


section \<open>Iterators\<close>

text \<open>An iterator is the position it points to; \<open>end()\<close>, whose control pointer is null, is \<open>None\<close>. The control
  pointer of position 0 of a table without slots is \<open>EmptyGroup()\<close>. Debug builds check the iterators they
  dereference and compare.\<close>

definition AssertIsFull :: "'a table_env \<Rightarrow> 'a common_fields \<Rightarrow> nat option \<Rightarrow> nat result" where
  "AssertIsFull E t it =
     (case it of
        None \<Rightarrow> Inl AssertionFailure
      | Some i \<Rightarrow>
          if cf_capacity t = 0 \<and> i = 0 then Inl AssertionFailure
          else rbind (array_get (cf_control t) i) (\<lambda>c. if IsFull c then Inr i else Inl AssertionFailure))"

definition AssertIsValidForComparison :: "'a common_fields \<Rightarrow> nat option \<Rightarrow> unit result" where
  "AssertIsValidForComparison t it =
     (case it of
        None \<Rightarrow> Inr ()
      | Some i \<Rightarrow>
          if cf_capacity t = 0 \<and> i = 0 then Inr ()
          else rbind (array_get (cf_control t) i) (\<lambda>c. if IsFull c then Inr () else Inl AssertionFailure))"

text \<open>The addresses of control byte and slot of an iterator interleave within one table.\<close>

definition AreItersFromSameContainer :: "nat option \<Rightarrow> nat option \<Rightarrow> nat \<Rightarrow> nat \<Rightarrow> bool" where
  "AreItersFromSameContainer ctrl_a ctrl_b slot_a slot_b =
     (case (ctrl_a, ctrl_b) of
        (Some a, Some b) \<Rightarrow>
          let (high_ctrl, low_slot, hi_slot) = (if a > b then (a, slot_b, slot_a) else (b, slot_a, slot_b))
          in high_ctrl < low_slot \<and> low_slot \<le> hi_slot
      | _ \<Rightarrow> True)"

definition slots_address :: "'a table_env \<Rightarrow> 'a common_fields \<Rightarrow> nat result" where
  "slots_address E t =
     (if cf_capacity t = 0 then Inr 0
      else rbind (SlotOffset E (cf_capacity t)) (\<lambda>offset. Inr (unat (control_addr t) + offset)))"

definition AssertSameContainer :: "'a table_env \<Rightarrow> 'a common_fields \<Rightarrow> nat option \<Rightarrow> nat option \<Rightarrow> unit result" where
  "AssertSameContainer E t a b =
     (let a_is_default = (cf_capacity t = 0 \<and> a = Some 0);
          b_is_default = (cf_capacity t = 0 \<and> b = Some 0);
          ctrl = map_option (\<lambda>i. unat (control_addr t) + i);
          index = case_option 0 (\<lambda>i. i)
      in if a_is_default \<noteq> b_is_default then Inl AssertionFailure
         else if a_is_default \<and> b_is_default then Inr ()
         else rbind (slots_address E t) (\<lambda>slots.
              if AreItersFromSameContainer (ctrl a) (ctrl b) (slots + index a * slot_size E) (slots + index b * slot_size E)
              then Inr () else Inl AssertionFailure))"

definition it_eq :: "'a table_env \<Rightarrow> 'a common_fields \<Rightarrow> nat option \<Rightarrow> nat option \<Rightarrow> bool result" where
  "it_eq E t a b =
     rbind (AssertIsValidForComparison t a) (\<lambda>_.
     rbind (AssertIsValidForComparison t b) (\<lambda>_.
     rbind (AssertSameContainer E t a b) (\<lambda>_. Inr (a = b))))"

section \<open>Lookup\<close>

text \<open>\<open>for (uint32_t i : g.Match(H2(hash)))\<close>: the first candidate whose element equals the key.\<close>

fun match_loop :: "'a common_fields \<Rightarrow> 'a \<Rightarrow> probe_seq \<Rightarrow> nat list \<Rightarrow> nat option result" where
  "match_loop t key seq [] = Inr None"
| "match_loop t key seq (i # is) =
     rbind (slot_read t (seq_offset seq i)) (\<lambda>x.
       if x = key then Inr (Some (seq_offset seq i)) else match_loop t key seq is)"

partial_function (option) probe_loop ::
    "'a table_env \<Rightarrow> 'a common_fields \<Rightarrow> 'a \<Rightarrow> u64 \<Rightarrow> probe_seq \<Rightarrow> nat option run" where
  "probe_loop E t key hash seq =
     (case load_group E t (ps_offset seq) of
        Inl e \<Rightarrow> Some (Inl e)
      | Inr g \<Rightarrow>
          case match_loop t key seq (Match (Group E) g (H2 hash)) of
            Inl e \<Rightarrow> Some (Inl e)
          | Inr (Some p) \<Rightarrow> Some (Inr (Some p))
          | Inr None \<Rightarrow>
              if mask_nonzero (MaskEmpty (Group E) g) then Some (Inr None)
              else let seq' = probe_next (kWidth (Group E)) seq
                   in if ps_index seq' \<le> cf_capacity t then probe_loop E t key hash seq'
                      else Some (Inl AssertionFailure))"

definition find_hash :: "'a table_env \<Rightarrow> 'a common_fields \<Rightarrow> 'a \<Rightarrow> u64 \<Rightarrow> nat option run" where
  "find_hash E t key hash = run_bind (Some (probe_table t hash)) (\<lambda>seq. probe_loop E t key hash seq)"

definition find_key :: "'a table_env \<Rightarrow> 'a common_fields \<Rightarrow> 'a \<Rightarrow> nat option run" where
  "find_key E t key = find_hash E t key (hash_ref E key)"

definition contains :: "'a table_env \<Rightarrow> 'a common_fields \<Rightarrow> 'a \<Rightarrow> bool run" where
  "contains E t key =
     run_bind (find_key E t key) (\<lambda>it. run_bind (Some (it_eq E t it None)) (\<lambda>at_end. Some (Inr (\<not> at_end))))"

definition count_key :: "'a table_env \<Rightarrow> 'a common_fields \<Rightarrow> 'a \<Rightarrow> nat run" where
  "count_key E t key =
     run_bind (find_key E t key) (\<lambda>it. run_bind (Some (it_eq E t it None)) (\<lambda>at_end. Some (Inr (if at_end then 0 else 1))))"

definition has_element :: "'a table_env \<Rightarrow> 'a common_fields \<Rightarrow> 'a \<Rightarrow> bool run" where
  "has_element E t elem =
     run_bind (Some (probe_table t (hash_ref E elem))) (\<lambda>seq.
     run_bind (probe_loop E t elem (hash_ref E elem) seq) (\<lambda>it. Some (Inr (it \<noteq> None))))"

section \<open>Growing\<close>

text \<open>The loop of \<open>resize\<close> moves the elements of the old arrays into the new ones.\<close>

definition resize_move ::
    "'a table_env \<Rightarrow> ctrl_t list \<Rightarrow> 'a option list \<Rightarrow> nat \<Rightarrow> 'a common_fields \<Rightarrow> 'a common_fields run" where
  "resize_move E old_ctrl old_slots i t =
     run_bind (Some (array_get old_ctrl i)) (\<lambda>c.
       if IsFull c
       then run_bind (Some (slot_read (t\<lparr>cf_slots := old_slots\<rparr>) i)) (\<lambda>x.
            let hash = hash_ref E x
            in run_bind (find_first_non_full E t hash) (\<lambda>(target, t1).
               run_bind (Some (SetCtrl E t1 (fi_offset target) (H2 hash))) (\<lambda>t2.
               Some (slot_write t2 (fi_offset target) (Some x)))))
       else Some (Inr t))"

fun run_each :: "('i \<Rightarrow> 's \<Rightarrow> 's run) \<Rightarrow> 'i list \<Rightarrow> 's \<Rightarrow> 's run" where
  "run_each body [] s = Some (Inr s)"
| "run_each body (i # is) s = run_bind (body i s) (run_each body is)"

definition resize :: "'a table_env \<Rightarrow> 'a common_fields \<Rightarrow> nat \<Rightarrow> 'a common_fields run" where
  "resize E t new_capacity =
     (if IsValidCapacity new_capacity
      then let old_ctrl = cf_control t;
               old_slots = cf_slots t;
               old_capacity = cf_capacity t
           in run_bind (Some (InitializeSlots E (t\<lparr>cf_capacity := new_capacity\<rparr>)))
                (run_each (resize_move E old_ctrl old_slots) [0..<old_capacity])
      else Some (Inl AssertionFailure))"

text \<open>\<open>DropDeletesWithoutResize\<close> squeezes out the tombstones in place: \<open>kDeleted\<close> marks the elements
  still to be placed.\<close>

fun convert_groups :: "'a table_env \<Rightarrow> nat list \<Rightarrow> 'a common_fields \<Rightarrow> 'a common_fields result" where
  "convert_groups E [] t = Inr t"
| "convert_groups E (pos # ps) t =
     rbind (load_group E t pos) (\<lambda>g.
       convert_groups E ps
         (t\<lparr>cf_control := take pos (cf_control t) @ ConvertSpecialToEmptyAndFullToDeleted (Group E) g
                          @ drop (pos + kWidth (Group E)) (cf_control t)\<rparr>))"

definition ConvertDeletedToEmptyAndFullToDeleted ::
    "'a table_env \<Rightarrow> 'a common_fields \<Rightarrow> 'a common_fields result" where
  "ConvertDeletedToEmptyAndFullToDeleted E t =
     (let capacity = cf_capacity t
      in rbind (array_get (cf_control t) capacity) (\<lambda>last.
         if last = kSentinel \<and> IsValidCapacity capacity
         then rbind (convert_groups E (upto_by (kWidth (Group E)) 0 capacity) t) (\<lambda>t1.
              let ctrl = cf_control t1;
                  cloned = take (capacity + 1) ctrl @ take (NumClonedBytes E) ctrl
              in if capacity + 1 + NumClonedBytes E \<le> length ctrl
                 then Inr (t1\<lparr>cf_control := cloned[capacity := kSentinel]\<rparr>)
                 else Inl OutOfBounds)
         else Inl AssertionFailure))"

text \<open>The position relative to the start of the probe, in groups.\<close>

definition probe_index :: "'a table_env \<Rightarrow> nat \<Rightarrow> nat \<Rightarrow> nat \<Rightarrow> nat" where
  "probe_index E capacity probe_offset pos =
     (sz (pos + 2 ^ 64 - probe_offset) AND capacity) div kWidth (Group E)"

text \<open>One round of the loop: the table and whether \<open>i\<close> moves on.\<close>

definition drop_deletes_step ::
    "'a table_env \<Rightarrow> 'a common_fields \<Rightarrow> nat \<Rightarrow> ('a common_fields \<times> bool) run" where
  "drop_deletes_step E t i =
     run_bind (Some (array_get (cf_control t) i)) (\<lambda>c.
     if \<not> IsDeleted c then Some (Inr (t, True))
     else
       run_bind (Some (slot_read t i)) (\<lambda>x.
       let hash = hash_ref E x
       in run_bind (find_first_non_full E t hash) (\<lambda>(target, t1).
          run_bind (Some (probe_table t1 hash)) (\<lambda>seq.
          let new_i = fi_offset target;
              index = probe_index E (cf_capacity t1) (ps_offset seq)
          in if index new_i = index i
             then run_bind (Some (SetCtrl E t1 i (H2 hash))) (\<lambda>t2. Some (Inr (t2, True)))
             else run_bind (Some (array_get (cf_control t1) new_i)) (\<lambda>c'.
                  if IsEmpty c'
                  then run_bind (Some (SetCtrl E t1 new_i (H2 hash))) (\<lambda>t2.
                       run_bind (Some (slot_write t2 new_i (Some x))) (\<lambda>t3.
                       run_bind (Some (slot_write t3 i None)) (\<lambda>t4.
                       run_bind (Some (SetCtrl E t4 i kEmpty)) (\<lambda>t5. Some (Inr (t5, True))))))
                  else if IsDeleted c'
                  then run_bind (Some (SetCtrl E t1 new_i (H2 hash))) (\<lambda>t2.
                       run_bind (Some (slot_read t2 new_i)) (\<lambda>y.
                       run_bind (Some (slot_write t2 new_i (Some x))) (\<lambda>t3.
                       run_bind (Some (slot_write t3 i (Some y))) (\<lambda>t4. Some (Inr (t4, False))))))
                  else Some (Inl AssertionFailure))))))"

partial_function (option) drop_deletes_loop ::
    "'a table_env \<Rightarrow> 'a common_fields \<Rightarrow> nat \<Rightarrow> 'a common_fields run" where
  "drop_deletes_loop E t i =
     (if i = cf_capacity t then Some (Inr t)
      else case drop_deletes_step E t i of
             None \<Rightarrow> None
           | Some r \<Rightarrow> (case r of
               Inl e \<Rightarrow> Some (Inl e)
             | Inr tb \<Rightarrow> drop_deletes_loop E (fst tb) (if snd tb then Suc i else i)))"

definition DropDeletesWithoutResize :: "'a table_env \<Rightarrow> 'a common_fields \<Rightarrow> 'a common_fields run" where
  "DropDeletesWithoutResize E t =
     (if IsValidCapacity (cf_capacity t) \<and> \<not> is_small E (cf_capacity t)
      then run_bind (Some (ConvertDeletedToEmptyAndFullToDeleted E t)) (\<lambda>t1.
           run_bind (drop_deletes_loop E t1 0) (\<lambda>t2.
           Some (ResetGrowthLeft E t2)))
      else Some (Inl AssertionFailure))"

definition rehash_and_grow_if_necessary :: "'a table_env \<Rightarrow> 'a common_fields \<Rightarrow> 'a common_fields run" where
  "rehash_and_grow_if_necessary E t =
     (let cap = cf_capacity t
      in if cap > kWidth (Group E) \<and> sz (cf_size t * 32) \<le> sz (cap * 25)
         then DropDeletesWithoutResize E t
         else run_bind (Some (NextCapacity cap)) (resize E t))"

section \<open>Insertion\<close>

definition prepare_insert :: "'a table_env \<Rightarrow> 'a common_fields \<Rightarrow> u64 \<Rightarrow> (nat \<times> 'a common_fields) run" where
  "prepare_insert E t hash =
     run_bind (find_first_non_full E t hash) (\<lambda>(target, t1).
     run_bind (Some (array_get (cf_control t1) (fi_offset target))) (\<lambda>c.
     run_bind (if cf_growth_left t1 = 0 \<and> \<not> IsDeleted c
               then run_bind (rehash_and_grow_if_necessary E t1) (\<lambda>t2. find_first_non_full E t2 hash)
               else Some (Inr (target, t1))) (\<lambda>(target', t3).
     let t4 = t3\<lparr>cf_size := sz (cf_size t3 + 1)\<rparr>
     in run_bind (Some (array_get (cf_control t4) (fi_offset target'))) (\<lambda>c'.
        let t5 = t4\<lparr>cf_growth_left := sz (cf_growth_left t4 + 2 ^ 64 - of_bool (IsEmpty c'))\<rparr>
        in run_bind (Some (SetCtrl E t5 (fi_offset target') (H2 hash))) (\<lambda>t6.
           Some (Inr (fi_offset target', t6)))))))"

definition find_or_prepare_insert ::
    "'a table_env \<Rightarrow> 'a common_fields \<Rightarrow> 'a \<Rightarrow> (nat \<times> bool \<times> 'a common_fields) run" where
  "find_or_prepare_insert E t key =
     (let hash = hash_ref E key
      in run_bind (Some (probe_table t hash)) (\<lambda>seq.
         run_bind (probe_loop E t key hash seq) (\<lambda>it.
           case it of
             Some p \<Rightarrow> Some (Inr (p, False, t))
           | None \<Rightarrow> run_bind (prepare_insert E t hash) (\<lambda>(p, t'). Some (Inr (p, True, t'))))))"

text \<open>\<open>emplace_at\<close> constructs the element and asserts that a lookup finds it there.\<close>

definition emplace_at :: "'a table_env \<Rightarrow> 'a common_fields \<Rightarrow> nat \<Rightarrow> 'a \<Rightarrow> 'a common_fields run" where
  "emplace_at E t i v =
     run_bind (Some (slot_write t i (Some v))) (\<lambda>t'.
     run_bind (find_key E t' v) (\<lambda>it.
     run_bind (Some (it_eq E t' it (Some i))) (\<lambda>found.
     if found then Some (Inr t') else Some (Inl AssertionFailure))))"

definition emplace :: "'a table_env \<Rightarrow> 'a common_fields \<Rightarrow> 'a \<Rightarrow> (nat \<times> bool \<times> 'a common_fields) run" where
  "emplace E t v =
     run_bind (find_or_prepare_insert E t v) (\<lambda>(p, inserted, t1).
       if inserted then run_bind (emplace_at E t1 p v) (\<lambda>t2. Some (Inr (p, True, t2)))
       else Some (Inr (p, False, t1)))"

definition insert_range :: "'a table_env \<Rightarrow> 'a list \<Rightarrow> 'a common_fields \<Rightarrow> 'a common_fields run" where
  "insert_range E xs t =
     run_each (\<lambda>x t. run_bind (emplace E t x) (\<lambda>(p, inserted, t'). Some (Inr t'))) xs t"

section \<open>Construction and capacity\<close>

definition raw_hash_set_bucket :: "'a table_env \<Rightarrow> nat \<Rightarrow> 'a common_fields result" where
  "raw_hash_set_bucket E bucket_count =
     (if bucket_count \<noteq> 0
      then InitializeSlots E ((CommonFields E)\<lparr>cf_capacity := NormalizeCapacity bucket_count\<rparr>)
      else Inr (CommonFields E))"

text \<open>The constructor from a range; \<open>random_access\<close> is the category of its iterators.\<close>

definition raw_hash_set_range :: "'a table_env \<Rightarrow> bool \<Rightarrow> 'a list \<Rightarrow> nat \<Rightarrow> 'a common_fields run" where
  "raw_hash_set_range E random_access xs bucket_count =
     run_bind (Some (SelectBucketCountForIterRange (Group E) random_access (length xs) bucket_count)) (\<lambda>n.
     run_bind (Some (raw_hash_set_bucket E n)) (insert_range E xs))"

definition ClearBackingArray :: "'a table_env \<Rightarrow> 'a common_fields \<Rightarrow> bool \<Rightarrow> 'a common_fields result" where
  "ClearBackingArray E t reuse =
     (let t0 = t\<lparr>cf_size := 0\<rparr>
      in if reuse then ResetCtrl E t0
         else Inr (t0\<lparr>cf_control := kEmptyGroup, control_addr := empty_group_address E, cf_slots := [],
                      cf_capacity := 0, cf_growth_left := 0\<rparr>))"

definition destroy_slot :: "nat \<Rightarrow> 'a common_fields \<Rightarrow> 'a common_fields result" where
  "destroy_slot i t =
     rbind (array_get (cf_control t) i) (\<lambda>c.
       if IsFull c then rbind (slot_read t i) (\<lambda>x. slot_write t i None) else Inr t)"

definition destroy_slots :: "'a common_fields \<Rightarrow> 'a common_fields result" where
  "destroy_slots t = for_each destroy_slot [0..<cf_capacity t] t"

definition clear :: "'a table_env \<Rightarrow> 'a common_fields \<Rightarrow> 'a common_fields result" where
  "clear E t =
     (let cap = cf_capacity t
      in if cap = 0 then Inr t
         else rbind (destroy_slots t) (\<lambda>t1. ClearBackingArray E t1 (cap < 128)))"

definition rehash :: "'a table_env \<Rightarrow> 'a common_fields \<Rightarrow> nat \<Rightarrow> 'a common_fields run" where
  "rehash E t n =
     (if n = 0 \<and> cf_capacity t = 0 then Some (Inr t)
      else if n = 0 \<and> cf_size t = 0 then Some (ClearBackingArray E t False)
      else run_bind (Some (GrowthToLowerboundCapacity (Group E) (cf_size t))) (\<lambda>lower.
           let m = NormalizeCapacity (n OR lower)
           in if n = 0 \<or> m > cf_capacity t then resize E t m else Some (Inr t)))"

definition reserve :: "'a table_env \<Rightarrow> 'a common_fields \<Rightarrow> nat \<Rightarrow> 'a common_fields run" where
  "reserve E t n =
     (if n > sz (cf_size t + cf_growth_left t)
      then run_bind (Some (GrowthToLowerboundCapacity (Group E) n)) (\<lambda>m. resize E t (NormalizeCapacity m))
      else Some (Inr t))"

section \<open>Erasing\<close>

definition EraseMetaOnly :: "'a table_env \<Rightarrow> 'a common_fields \<Rightarrow> nat \<Rightarrow> 'a common_fields result" where
  "EraseMetaOnly E t index =
     rbind (array_get (cf_control t) index) (\<lambda>c.
     if \<not> IsFull c then Inl AssertionFailure
     else
       let t1 = t\<lparr>cf_size := sz (cf_size t + 2 ^ 64 - 1)\<rparr>;
           W = kWidth (Group E);
           index_before = sz (index + 2 ^ 64 - W) AND cf_capacity t1
       in rbind (load_group E t1 index) (\<lambda>after.
          rbind (load_group E t1 index_before) (\<lambda>before.
          let empty_after = MaskEmpty (Group E) after;
              empty_before = MaskEmpty (Group E) before;
              was_never_full = (mask_nonzero empty_before \<and> mask_nonzero empty_after \<and>
                 TrailingZeros empty_after + LeadingZeros empty_before < W)
          in rbind (SetCtrl E t1 index (if was_never_full then kEmpty else kDeleted)) (\<lambda>t2.
             Inr (t2\<lparr>cf_growth_left := sz (cf_growth_left t2 + (if was_never_full then 1 else 0))\<rparr>)))))"

text \<open>\<open>erase(iterator)\<close>: the check of the iterator, the destructor, the control byte.\<close>

definition erase_at :: "'a table_env \<Rightarrow> 'a common_fields \<Rightarrow> nat option \<Rightarrow> 'a common_fields result" where
  "erase_at E t it =
     rbind (AssertIsFull E t it) (\<lambda>i.
     rbind (slot_read t i) (\<lambda>x.
     rbind (slot_write t i None) (\<lambda>t1. EraseMetaOnly E t1 i)))"

definition erase_key :: "'a table_env \<Rightarrow> 'a common_fields \<Rightarrow> 'a \<Rightarrow> (nat \<times> 'a common_fields) run" where
  "erase_key E t key =
     run_bind (find_key E t key) (\<lambda>it.
     run_bind (Some (it_eq E t it None)) (\<lambda>at_end.
       if at_end then Some (Inr (0, t))
       else run_bind (Some (erase_at E t it)) (\<lambda>t'. Some (Inr (1, t')))))"

section \<open>Iteration\<close>

partial_function (option) skip_loop :: "'a table_env \<Rightarrow> 'a common_fields \<Rightarrow> nat \<Rightarrow> nat run" where
  "skip_loop E t pos =
     (case array_get (cf_control t) pos of
        Inl e \<Rightarrow> Some (Inl e)
      | Inr c \<Rightarrow>
          if IsEmptyOrDeleted c
          then (case load_group E t pos of
                  Inl e \<Rightarrow> Some (Inl e)
                | Inr g \<Rightarrow> skip_loop E t (pos + CountLeadingEmptyOrDeleted (Group E) g))
          else Some (Inr pos))"

definition skip_empty_or_deleted :: "'a table_env \<Rightarrow> 'a common_fields \<Rightarrow> nat \<Rightarrow> nat option run" where
  "skip_empty_or_deleted E t pos =
     run_bind (skip_loop E t pos) (\<lambda>pos'.
     run_bind (Some (array_get (cf_control t) pos')) (\<lambda>c.
     Some (Inr (if c = kSentinel then None else Some pos'))))"

definition begin_it :: "'a table_env \<Rightarrow> 'a common_fields \<Rightarrow> nat option run" where
  "begin_it E t = skip_empty_or_deleted E t 0"

definition next_it :: "'a table_env \<Rightarrow> 'a common_fields \<Rightarrow> nat option \<Rightarrow> nat option run" where
  "next_it E t it = run_bind (Some (AssertIsFull E t it)) (\<lambda>i. skip_empty_or_deleted E t (i + 1))"

definition deref_it :: "'a table_env \<Rightarrow> 'a common_fields \<Rightarrow> nat option \<Rightarrow> 'a result" where
  "deref_it E t it = rbind (AssertIsFull E t it) (slot_read t)"


text \<open>A range-based \<open>for\<close> over a table, with the state the body works on; the body may leave the loop
  (\<open>stop\<close>), as a \<open>return\<close> does.\<close>

partial_function (option) iterate_from ::
    "'a table_env \<Rightarrow> 'a common_fields \<Rightarrow> ('a \<Rightarrow> 's \<Rightarrow> 's run) \<Rightarrow> ('s \<Rightarrow> bool) \<Rightarrow> nat option \<Rightarrow> 's \<Rightarrow> 's run" where
  "iterate_from E t body stop it s =
     (case it_eq E t it None of
        Inl e \<Rightarrow> Some (Inl e)
      | Inr at_end \<Rightarrow>
          if at_end then Some (Inr s)
          else (case deref_it E t it of
             Inl e \<Rightarrow> Some (Inl e)
           | Inr x \<Rightarrow>
               (case body x s of
                  None \<Rightarrow> None
                | Some r \<Rightarrow>
                    (case r of
                       Inl e \<Rightarrow> Some (Inl e)
                     | Inr s' \<Rightarrow>
                         if stop s' then Some (Inr s')
                         else (case next_it E t it of
                                 None \<Rightarrow> None
                               | Some n \<Rightarrow>
                                   (case n of Inl e \<Rightarrow> Some (Inl e) | Inr it' \<Rightarrow> iterate_from E t body stop it' s'))))))"

definition iterate ::
    "'a table_env \<Rightarrow> 'a common_fields \<Rightarrow> ('a \<Rightarrow> 's \<Rightarrow> 's run) \<Rightarrow> ('s \<Rightarrow> bool) \<Rightarrow> 's \<Rightarrow> 's run" where
  "iterate E t body stop s = run_bind (begin_it E t) (\<lambda>it. iterate_from E t body stop it s)"

text \<open>The copy constructor: the table is known to be empty, so every element is placed without a lookup.\<close>

definition copy_element :: "'a table_env \<Rightarrow> 'a \<Rightarrow> 'a common_fields \<Rightarrow> 'a common_fields run" where
  "copy_element E v t =
     (let hash = hash_ref E v
      in run_bind (find_first_non_full E t hash) (\<lambda>(target, t1).
         run_bind (Some (SetCtrl E t1 (fi_offset target) (H2 hash))) (\<lambda>t2.
         emplace_at E t2 (fi_offset target) v)))"

definition raw_hash_set_copy :: "'a table_env \<Rightarrow> 'a common_fields \<Rightarrow> 'a common_fields run" where
  "raw_hash_set_copy E that =
     (let t0 = (CommonFields E)\<lparr>allocations := allocations that, seed_counter := seed_counter that\<rparr>
      in run_bind (reserve E t0 (cf_size that)) (\<lambda>t1.
         run_bind (iterate E that (copy_element E) (\<lambda>_. False) t1) (\<lambda>t2.
         Some (Inr (t2\<lparr>cf_size := cf_size that,
                       cf_growth_left := sz (cf_growth_left t2 + 2 ^ 64 - cf_size that)\<rparr>)))))"

text \<open>\<open>operator==\<close>: the loop stops at the first element the other table lacks.\<close>

definition table_eq :: "'a table_env \<Rightarrow> 'a common_fields \<Rightarrow> 'a common_fields \<Rightarrow> bool run" where
  "table_eq E a b =
     (if cf_size a \<noteq> cf_size b then Some (Inr False)
      else let (outer, inner) = (if cf_capacity a > cf_capacity b then (b, a) else (a, b))
           in iterate E outer (\<lambda>elem equal. has_element E inner elem) Not True)"

text \<open>\<open>EraseIf\<close>: the iterator moves on before its element is erased.\<close>

partial_function (option) erase_if_loop ::
    "'a table_env \<Rightarrow> ('a \<Rightarrow> bool) \<Rightarrow> nat option \<Rightarrow> 'a common_fields \<Rightarrow> 'a common_fields run" where
  "erase_if_loop E pred it t =
     (case it_eq E t it None of
        Inl e \<Rightarrow> Some (Inl e)
      | Inr at_end \<Rightarrow>
          if at_end then Some (Inr t)
          else (case deref_it E t it of
             Inl e \<Rightarrow> Some (Inl e)
           | Inr x \<Rightarrow>
               (case next_it E t it of
                  None \<Rightarrow> None
                | Some n \<Rightarrow>
                    (case n of
                       Inl e \<Rightarrow> Some (Inl e)
                     | Inr it' \<Rightarrow>
                         if pred x
                         then (case erase_at E t it of Inl e \<Rightarrow> Some (Inl e) | Inr t' \<Rightarrow> erase_if_loop E pred it' t')
                         else erase_if_loop E pred it' t))))"

definition EraseIf :: "'a table_env \<Rightarrow> ('a \<Rightarrow> bool) \<Rightarrow> 'a common_fields \<Rightarrow> (nat \<times> 'a common_fields) run" where
  "EraseIf E pred t =
     run_bind (begin_it E t) (\<lambda>it.
     run_bind (erase_if_loop E pred it t) (\<lambda>t'.
     Some (Inr (sz (cf_size t + 2 ^ 64 - cf_size t'), t'))))"

end
