(* ===== verification/Swiss_Invariant.thy ===== *)
theory Swiss_Invariant
  imports Swiss_Table
begin

text \<open>
  The invariant of the Swiss table and the correctness of its lookup and of the search for a free slot,
  for every group implementation that meets \<open>control_group\<close>.
\<close>

section \<open>The invariant\<close>

text \<open>Control bytes: a valid capacity, the sentinel after the slots, and the cloned bytes after it. A small
  table has more cloned bytes than slots; the rest stays empty.\<close>

definition table_shape :: "'a table_env \<Rightarrow> 'a common_fields \<Rightarrow> bool" where
  "table_shape E t \<longleftrightarrow>
     (\<exists>k. mask_capacity k (cf_capacity t)) \<and> 0 < cf_capacity t \<and> cf_capacity t < 2 ^ 62 \<and>
     length (cf_control t) = cf_capacity t + kWidth (Group E) \<and> length (cf_slots t) = cf_capacity t \<and>
     cf_control t ! cf_capacity t = kSentinel \<and>
     (\<forall>p < cf_capacity t. valid_ctrl (cf_control t ! p) \<and> cf_control t ! p \<noteq> kSentinel) \<and>
     (\<forall>j < kWidth (Group E) - 1. cf_control t ! (Suc (cf_capacity t) + j) =
        (if j < cf_capacity t then cf_control t ! j else kEmpty))"

text \<open>Byte \<open>i\<close> of the group loaded at offset \<open>pos\<close>, and the offset of the \<open>n\<close>th group of a probe.\<close>

definition window :: "'a common_fields \<Rightarrow> nat \<Rightarrow> nat \<Rightarrow> ctrl_t" where
  "window t pos i =
     (if pos + i < 2 * cf_capacity t + 1 then cf_control t ! ((pos + i) mod Suc (cf_capacity t)) else kEmpty)"

definition group_offset :: "'a table_env \<Rightarrow> 'a common_fields \<Rightarrow> u64 \<Rightarrow> nat \<Rightarrow> nat" where
  "group_offset E t hash n =
     (unat (H1 hash (control_addr t)) + kWidth (Group E) * triangle n) mod Suc (cf_capacity t)"

text \<open>A probe for \<open>hash\<close> comes to position \<open>p\<close> before it sees a group with an empty byte.\<close>

definition reaches :: "'a table_env \<Rightarrow> 'a common_fields \<Rightarrow> u64 \<Rightarrow> nat \<Rightarrow> bool" where
  "reaches E t hash p \<longleftrightarrow>
     (\<exists>n i. n * kWidth (Group E) \<le> cf_capacity t \<and> i < kWidth (Group E) \<and>
        group_offset E t hash n + i < 2 * cf_capacity t + 1 \<and>
        (group_offset E t hash n + i) mod Suc (cf_capacity t) = p \<and>
        (\<forall>m < n. \<forall>j < kWidth (Group E). \<not> IsEmpty (window t (group_offset E t hash m) j)))"

definition full_at :: "'a common_fields \<Rightarrow> nat \<Rightarrow> bool" where
  "full_at t p \<longleftrightarrow> p < cf_capacity t \<and> IsFull (cf_control t ! p)"

definition elems :: "'a common_fields \<Rightarrow> 'a set" where
  "elems t = {x. \<exists>p. full_at t p \<and> cf_slots t ! p = Some x}"

definition swiss_core :: "'a table_env \<Rightarrow> 'a common_fields \<Rightarrow> bool" where
  "swiss_core E t \<longleftrightarrow>
     table_shape E t \<and>
     (\<forall>p. full_at t p \<longrightarrow> (\<exists>x. cf_slots t ! p = Some x \<and> cf_control t ! p = H2 (hash_ref E x) \<and>
        reaches E t (hash_ref E x) p)) \<and>
     (\<forall>p q. full_at t p \<longrightarrow> full_at t q \<longrightarrow> cf_slots t ! p = cf_slots t ! q \<longrightarrow> p = q)"

text \<open>The bookkeeping: \<open>growth_left\<close> counts the slots that may still be filled, tombstones being used up.\<close>

definition swiss_counts :: "'a table_env \<Rightarrow> 'a common_fields \<Rightarrow> bool" where
  "swiss_counts E t \<longleftrightarrow>
     cf_size t = card {p. full_at t p} \<and>
     CapacityToGrowth (Group E) (cf_capacity t) =
       Inr (cf_size t + card {p. p < cf_capacity t \<and> IsDeleted (cf_control t ! p)} + cf_growth_left t)"

definition swiss_empty :: "'a common_fields \<Rightarrow> bool" where
  "swiss_empty t \<longleftrightarrow>
     cf_capacity t = 0 \<and> cf_control t = kEmptyGroup \<and> cf_slots t = [] \<and> cf_size t = 0 \<and> cf_growth_left t = 0"

definition swiss_inv :: "'a table_env \<Rightarrow> 'a common_fields \<Rightarrow> bool" where
  "swiss_inv E t \<longleftrightarrow> swiss_empty t \<or> swiss_core E t \<and> swiss_counts E t"

lemma table_shapeD:
  assumes "table_shape E t"
  shows "0 < cf_capacity t" "cf_capacity t < 2 ^ 62" "length (cf_control t) = cf_capacity t + kWidth (Group E)"
    "length (cf_slots t) = cf_capacity t" "cf_control t ! cf_capacity t = kSentinel"
    "\<And>p. p < cf_capacity t \<Longrightarrow> valid_ctrl (cf_control t ! p)"
    "\<And>p. p < cf_capacity t \<Longrightarrow> cf_control t ! p \<noteq> kSentinel"
  using assms by (auto simp: table_shape_def)

text \<open>The state of the probe in a table.\<close>

abbreviation probe_at :: "'a table_env \<Rightarrow> 'a common_fields \<Rightarrow> u64 \<Rightarrow> nat \<Rightarrow> probe_seq" where
  "probe_at E t hash n \<equiv>
     probe_state (cf_capacity t) (kWidth (Group E)) (unat (H1 hash (control_addr t))) n"

section \<open>The layout of the backing array\<close>

lemma unat_and_not_mask: "unat ((x::u64) AND NOT (mask a)) = unat x - unat x mod 2 ^ a"
proof -
  have d: "(x AND mask a) + (x AND NOT (mask a)) = x" 
    by (subst disjunctive_add_eq_or; intro bit_eqI) (auto simp: bit_simps)
  have m: "unat (x AND mask a) = unat x mod 2 ^ a"
    by (simp add: unsigned_take_bit_eq flip: take_bit_eq_mask) (simp add: take_bit_eq_mod)
  have "x AND NOT (mask a) = x - (x AND mask a)" using d by (metis add_diff_cancel_left')
  moreover have "unat (x - (x AND mask a)) = unat x - unat (x AND mask a)"
    by (rule unat_sub) (simp add: word_and_le2 word_and_le1)
  ultimately show ?thesis using m by simp
qed

lemma SlotOffset_value:
  assumes v: "IsValidCapacity c" "c < 2 ^ 62" and a: "slot_align E = 2 ^ a" "a \<le> 12" and w: "kWidth (Group E) \<le> 16"
  defines "n \<equiv> c + 1 + NumClonedBytes E"
  obtains off where "SlotOffset E c = Inr off" "n \<le> off" "off < n + 2 ^ a" "2 ^ a dvd off"
proof -
  let ?x = "n + 2 ^ a - 1"
  have "(2::nat) ^ a \<le> 2 ^ 12" using a(2) by (rule power_increasing) simp
  then have small: "?x < 2 ^ 64" "1 \<le> n + 2 ^ a" using v(2) w by (simp_all add: n_def NumClonedBytes_def)
  have al: "(of_nat (slot_align E) :: u64) = 2 ^ a" using a(1) by simp
  have "NOT (2 ^ a :: u64) + 1 = - (2 ^ a)" by (simp add: minus_eq_not_plus_1)
  also have "\<dots> = NOT (mask a)" by (rule minus_exp_eq_not_mask)
  finally have n1: "NOT (2 ^ a :: u64) + 1 = NOT (mask a)" .
  have x: "(of_nat n :: u64) + of_nat NumGenerationBytes + 2 ^ a - 1 = of_nat ?x"
    using small(2) by (simp add: NumGenerationBytes_def of_nat_diff)
  have "unat (of_nat ?x :: u64) = ?x" using small(1) by (simp add: unat_of_nat)
  then have val: "SlotOffset E c = Inr (?x - ?x mod 2 ^ a)"
    using v(1) by (simp only: SlotOffset_def Let_def if_True al n1 n_def [symmetric] x unat_and_not_mask)
  show ?thesis
  proof (rule that [OF val])
    have pos: "0 < (2::nat) ^ a" by simp
    then have "?x mod 2 ^ a < 2 ^ a" by (rule mod_less_divisor)
    then show "n \<le> ?x - ?x mod 2 ^ a" by linarith
    show "?x - ?x mod 2 ^ a < n + 2 ^ a" using pos small(2) by linarith
    show "2 ^ a dvd ?x - ?x mod 2 ^ a" by (rule dvd_minus_mod)
  qed
qed

section \<open>Groups of a table\<close>

text \<open>What the table relies on: a group implementation that meets its contract, and the alignment of the slots,
  which in C++ is a power of two.\<close>

locale swiss =
  fixes E :: "'a table_env"
  assumes group: "control_group (Group E)"
    and alignment: "\<exists>a \<le> 12. slot_align E = 2 ^ a"
begin

abbreviation W where "W \<equiv> kWidth (Group E)"

lemmas grp_width = control_group.width [OF group]
lemmas grp_match_full = control_group.match_full [OF group]
lemmas grp_match_complete = control_group.match_complete [OF group]
lemmas grp_empty = control_group.empty_mask [OF group]
lemmas grp_empty_or_deleted = control_group.empty_or_deleted_mask [OF group]
lemmas grp_count_leading = control_group.count_leading [OF group]
lemmas grp_convert = control_group.convert [OF group]

lemma W_power: obtains w where "W = 2 ^ w" "3 \<le> w" "w \<le> 4"
proof -
  have "W = 2 ^ 3 \<or> W = 2 ^ 4" using grp_width by auto
  then show ?thesis using that [of 3] that [of 4] by auto
qed

lemma shape_mask: "table_shape E t \<Longrightarrow> \<exists>k. mask_capacity k (cf_capacity t)"
  by (simp add: table_shape_def)

lemma not_small_le:
  assumes "table_shape E t" "\<not> is_small E (cf_capacity t)"
  shows "W \<le> Suc (cf_capacity t)"
  using assms grp_width by (auto simp: is_small_def)

lemma small_double:
  assumes "table_shape E t" "is_small E (cf_capacity t)"
  shows "2 * Suc (cf_capacity t) \<le> W"
proof -
  obtain k where k: "Suc (cf_capacity t) = 2 ^ k" using shape_mask [OF assms(1)] by (auto simp: mask_capacity_def)
  obtain w where w: "W = 2 ^ w" by (rule W_power)
  have "(2::nat) ^ k < 2 ^ w" using assms(2) k w unfolding is_small_def by linarith
  then have "Suc k \<le> w" by (simp add: Suc_le_eq)
  then have "(2::nat) ^ Suc k \<le> 2 ^ w" by (rule power_increasing) simp
  then show ?thesis using k w by simp
qed

lemma window_real_not_small:
  assumes "table_shape E t" "\<not> is_small E (cf_capacity t)" "pos \<le> cf_capacity t" "i < W"
  shows "pos + i < 2 * cf_capacity t + 1"
  using not_small_le [OF assms(1,2)] assms(3,4) by linarith

lemma load_group_window:
  assumes s: "table_shape E t" and pos: "pos \<le> cf_capacity t"
  shows "load_group E t pos = Inr (map (window t pos) [0..<W])"
proof -
  let ?c = "cf_capacity t"
  have len: "length (cf_control t) = ?c + W" using table_shapeD(3) [OF s] .
  have "cf_control t ! (pos + i) = window t pos i" if i: "i < W" for i
  proof (cases "pos + i \<le> ?c")
    case True
    then show ?thesis by (simp add: window_def)
  next
    case False
    define j where "j = pos + i - Suc ?c"
    have j: "pos + i = Suc ?c + j" "j < W - 1" using False pos i unfolding j_def by linarith+
    have "cf_control t ! (Suc ?c + j) = (if j < ?c then cf_control t ! j else kEmpty)"
      using s j(2) by (simp add: table_shape_def)
    moreover have "(Suc ?c + j) mod Suc ?c = j mod Suc ?c" by (simp only: mod_add_self1)
    ultimately show ?thesis unfolding window_def j(1) by simp
  qed
  then have "take W (drop pos (cf_control t)) = map (window t pos) [0..<W]"
    using pos len by (intro nth_equalityI) auto
  then show ?thesis using pos len by (simp add: load_group_def)
qed

lemma window_valid:
  assumes "table_shape E t"
  shows "valid_ctrl (window t pos i)"
proof -
  have "(pos + i) mod Suc (cf_capacity t) \<le> cf_capacity t" by (metis lessI less_Suc_eq_le mod_less_divisor zero_less_Suc)
  then show ?thesis
    using table_shapeD(5,6) [OF assms] by (auto simp: window_def le_less)
qed

lemma windows_valid: "table_shape E t \<Longrightarrow> list_all valid_ctrl (map (window t pos) [0..<W])"
  by (simp add: list_all_length window_valid)

lemma group_offset_le: "group_offset E t hash n \<le> cf_capacity t"
  unfolding group_offset_def by (metis less_Suc_eq_le mod_less_divisor zero_less_Suc)

lemma probe_at_offset [simp]: "ps_offset (probe_at E t hash n) = group_offset E t hash n"
  by (simp add: probe_state_def group_offset_def)

lemma probe_at_index [simp]: "ps_index (probe_at E t hash n) = n * W"
  by (simp add: probe_state_def)

lemma probe_at_seq_offset:
  assumes "table_shape E t"
  shows "seq_offset (probe_at E t hash n) i = (group_offset E t hash n + i) mod Suc (cf_capacity t)"
proof -
  obtain k where "mask_capacity k (cf_capacity t)" using shape_mask [OF assms] by blast
  from seq_offset_state [OF this] show ?thesis unfolding group_offset_def by (simp add: mod_simps)
qed

lemma probe_table_init: "table_shape E t \<Longrightarrow> probe_table t hash = Inr (probe_at E t hash 0)"
  using shape_mask probe_seq_init_state unfolding probe_table_def probe_def by blast

lemma probe_at_next:
  assumes "table_shape E t" "n * W \<le> cf_capacity t"
  shows "probe_next W (probe_at E t hash n) = probe_at E t hash (Suc n)"
proof -
  obtain k where k: "mask_capacity k (cf_capacity t)" using shape_mask [OF assms(1)] by blast
  have "Suc n * W < 2 ^ 64"
    using assms(2) table_shapeD(2) [OF assms(1)] grp_width by auto
  then show ?thesis by (rule probe_next_state [OF k])
qed

text \<open>Every position of the table is in some group of a probe, before the assertion on the index.\<close>

lemma position_in_probe:
  assumes s: "table_shape E t" and p: "p \<le> cf_capacity t"
  shows "\<exists>n i. n * W \<le> cf_capacity t \<and> i < W \<and> (is_small E (cf_capacity t) \<longrightarrow> n = 0) \<and>
    (p < cf_capacity t \<longrightarrow> group_offset E t hash n + i < 2 * cf_capacity t + 1) \<and>
    (group_offset E t hash n + i) mod Suc (cf_capacity t) = p"
proof (cases "is_small E (cf_capacity t)")
  case True
  let ?c = "cf_capacity t" and ?o = "group_offset E t hash 0"
  define i where "i = (if ?o \<le> p then p - ?o else p + Suc ?c - ?o)"
  have o: "?o \<le> ?c" by (rule group_offset_le)
  have "i < W" using small_double [OF s True] p o by (auto simp: i_def)
  moreover have "?o + i = p \<or> ?o + i = p + Suc ?c" using o by (auto simp: i_def)
  moreover have "(?o + i) mod Suc ?c = p" using p calculation(2) by (auto simp: mod_add_self2 simp del: add_Suc_right)
  ultimately show ?thesis using p o
    by (intro exI [of _ 0] exI [of _ i]) (auto simp del: add_Suc_right)
next
  case False
  let ?c = "cf_capacity t"
  obtain k where k: "Suc ?c = 2 ^ k" using shape_mask [OF s] by (auto simp: mask_capacity_def)
  obtain w where w: "W = 2 ^ w" by (rule W_power)
  have "(2::nat) ^ w \<le> 2 ^ k" using not_small_le [OF s False] k w by simp
  then have "w \<le> k" by (simp add: power_increasing_iff)
  then obtain n i where ni: "n < Suc ?c div W" "i < W"
      "(unat (H1 hash (control_addr t)) + W * triangle n + i) mod Suc ?c = p"
    using probe_visits_position [OF k w, of p "unat (H1 hash (control_addr t))"] p by (auto simp: less_Suc_eq_le)
  have "n * W \<le> ?c"
  proof -
    have "Suc n * W \<le> Suc ?c" using ni(1) by (metis Suc_leI div_times_less_eq_dividend le_trans mult_le_mono1)
    then show ?thesis using grp_width by auto
  qed
  moreover have "(group_offset E t hash n + i) mod Suc ?c = p" using ni(3) by (simp add: group_offset_def mod_simps)
  ultimately show ?thesis
    using False ni(2) window_real_not_small [OF s False group_offset_le ni(2)] by blast
qed

end


section \<open>Lookup\<close>

text \<open>What a lookup answers: the position of the key, or that there is none.\<close>

definition key_pos :: "'a common_fields \<Rightarrow> 'a \<Rightarrow> nat option \<Rightarrow> bool" where
  "key_pos t key r \<longleftrightarrow>
     (case r of None \<Rightarrow> key \<notin> elems t | Some p \<Rightarrow> full_at t p \<and> cf_slots t ! p = Some key)"

lemma key_pos_iff: "key_pos t key r \<Longrightarrow> r \<noteq> None \<longleftrightarrow> key \<in> elems t"
  by (auto simp: key_pos_def elems_def split: option.splits)

text \<open>A probe always meets an empty byte: a small table has one after its cloned bytes, another table
  because its load factor leaves one.\<close>

definition has_room :: "'a table_env \<Rightarrow> 'a common_fields \<Rightarrow> bool" where
  "has_room E t \<longleftrightarrow> is_small E (cf_capacity t) \<or> (\<exists>e < cf_capacity t. IsEmpty (cf_control t ! e))"

context swiss
begin

lemma coreD:
  assumes "swiss_core E t"
  shows "table_shape E t"
    "\<And>p. full_at t p \<Longrightarrow> \<exists>x. cf_slots t ! p = Some x \<and> cf_control t ! p = H2 (hash_ref E x) \<and> reaches E t (hash_ref E x) p"
    "\<And>p q. full_at t p \<Longrightarrow> full_at t q \<Longrightarrow> cf_slots t ! p = cf_slots t ! q \<Longrightarrow> p = q"
  using assms unfolding swiss_core_def by blast+

lemma slot_read_full:
  assumes "table_shape E t" "full_at t p" "cf_slots t ! p = Some x"
  shows "slot_read t p = Inr x"
  using assms table_shapeD(4) [OF assms(1)] by (simp add: slot_read_def full_at_def)

text \<open>Comparing iterators of the table: the debug checks hold.\<close>

lemma shape_valid: "table_shape E t \<Longrightarrow> IsValidCapacity (cf_capacity t)"
  using shape_mask mask_capacity_valid table_shapeD(1) by blast

lemma slots_address_past_control:
  assumes s: "table_shape E t"
  obtains base where "slots_address E t = Inr base" "unat (control_addr t) + cf_capacity t < base"
proof -
  obtain a where a: "slot_align E = 2 ^ a" "a \<le> 12" using alignment by blast
  have w: "kWidth (Group E) \<le> 16" using grp_width by auto
  obtain off where off: "SlotOffset E (cf_capacity t) = Inr off" "cf_capacity t + 1 + NumClonedBytes E \<le> off"
    by (rule SlotOffset_value [OF shape_valid [OF s] table_shapeD(2) [OF s] a w])
  have "slots_address E t = Inr (unat (control_addr t) + off)"
    using off(1) table_shapeD(1) [OF s] by (simp add: slots_address_def)
  moreover have "unat (control_addr t) + cf_capacity t < unat (control_addr t) + off" using off(2) by linarith
  ultimately show ?thesis by (rule that)
qed

lemma it_eq_end:
  assumes "cf_capacity t = 0 \<or> table_shape E t"
  shows "it_eq E t None None = Inr True"
proof -
  obtain base where "slots_address E t = Inr base"
    using assms slots_address_past_control [of t] by (auto simp: slots_address_def)
  then show ?thesis
    by (simp add: it_eq_def AssertIsValidForComparison_def AssertSameContainer_def AreItersFromSameContainer_def Let_def)
qed

lemma it_eq_full:
  assumes s: "table_shape E t" and p: "full_at t p" and q: "\<And>q'. q = Some q' \<Longrightarrow> full_at t q'"
  shows "it_eq E t (Some p) q = Inr (q = Some p)"
proof -
  obtain base where base: "slots_address E t = Inr base" "unat (control_addr t) + cf_capacity t < base"
    by (rule slots_address_past_control [OF s])
  have valid: "AssertIsValidForComparison t (Some i) = Inr ()" "i < cf_capacity t" if "full_at t i" for i
    using that table_shapeD(3) [OF s] by (auto simp: AssertIsValidForComparison_def full_at_def)
  have none: "AssertIsValidForComparison t None = Inr ()" by (simp add: AssertIsValidForComparison_def)
  have "cf_capacity t \<noteq> 0" using table_shapeD(1) [OF s] by simp
  moreover have "unat (control_addr t) + i < base + k" if "full_at t i" for i k
    using valid(2) [OF that] base(2) by linarith
  ultimately have "AssertSameContainer E t (Some p) q = Inr ()"
    using base p q
    by (cases q) (auto simp: AssertSameContainer_def AreItersFromSameContainer_def Let_def intro!: add_mono mult_le_mono1)
  then show ?thesis
    using valid(1) [OF p] valid(1) q none by (cases q) (auto simp: it_eq_def)
qed

lemma match_loop_full:
  assumes "swiss_core E t" and "\<And>i. i \<in> set is \<Longrightarrow> full_at t (seq_offset seq i)"
  shows "\<exists>r. match_loop t key seq is = Inr r \<and> (\<forall>q. r = Some q \<longrightarrow> full_at t q \<and> cf_slots t ! q = Some key) \<and>
    (r = None \<longrightarrow> (\<forall>i \<in> set is. cf_slots t ! seq_offset seq i \<noteq> Some key))"
  using assms(2)
proof (induction "is")
  case (Cons i "is")
  have f: "full_at t (seq_offset seq i)" using Cons.prems by simp
  then obtain x where x: "cf_slots t ! seq_offset seq i = Some x" using coreD(2) [OF assms(1)] by blast
  then have "slot_read t (seq_offset seq i) = Inr x" using slot_read_full coreD(1) [OF assms(1)] f by blast
  then show ?case using Cons f x by auto
qed simp

lemma window_full:
  assumes "table_shape E t" "IsFull (window t pos i)"
  shows "full_at t ((pos + i) mod Suc (cf_capacity t))"
proof -
  let ?p = "(pos + i) mod Suc (cf_capacity t)"
  have "IsFull (cf_control t ! ?p)" using assms(2) by (auto simp: window_def split: if_splits)
  moreover have "?p \<noteq> cf_capacity t" using calculation table_shapeD(5) [OF assms(1)] by auto
  moreover have "?p < Suc (cf_capacity t)" by simp
  ultimately show ?thesis unfolding full_at_def by linarith
qed

lemma match_group:
  assumes core: "swiss_core E t"
  obtains r where "match_loop t key (probe_at E t hash n)
      (Match (Group E) (map (window t (group_offset E t hash n)) [0..<W]) (H2 hash)) = Inr r"
    "\<And>q. r = Some q \<Longrightarrow> full_at t q \<and> cf_slots t ! q = Some key"
    "\<And>i p. r = None \<Longrightarrow> i < W \<Longrightarrow> group_offset E t hash n + i < 2 * cf_capacity t + 1 \<Longrightarrow>
      (group_offset E t hash n + i) mod Suc (cf_capacity t) = p \<Longrightarrow> cf_control t ! p = H2 hash \<Longrightarrow>
      cf_slots t ! p \<noteq> Some key"
proof -
  note shape = coreD(1) [OF core]
  let ?o = "group_offset E t hash n"
  let ?g = "map (window t ?o) [0..<W]"
  let ?seq = "probe_at E t hash n"
  note laws = grp_match_full [of ?g "H2 hash"] grp_match_complete [of ?g "H2 hash"]
  have "full_at t (seq_offset ?seq i)" if "i \<in> set (Match (Group E) ?g (H2 hash))" for i
    using that laws(1) [of i] windows_valid [OF shape] window_full [OF shape]
    by (auto simp: probe_at_seq_offset [OF shape])
  from match_loop_full [OF core this] obtain r where r: "match_loop t key ?seq (Match (Group E) ?g (H2 hash)) = Inr r"
    "\<forall>q. r = Some q \<longrightarrow> full_at t q \<and> cf_slots t ! q = Some key"
    "r = None \<longrightarrow> (\<forall>i \<in> set (Match (Group E) ?g (H2 hash)). cf_slots t ! seq_offset ?seq i \<noteq> Some key)" by blast
  show ?thesis
  proof (rule that [OF r(1)])
    fix i p
    assume i: "r = None" "i < W" "?o + i < 2 * cf_capacity t + 1" "(?o + i) mod Suc (cf_capacity t) = p"
      "cf_control t ! p = H2 hash"
    then have "window t ?o i = H2 hash" by (simp add: window_def)
    then have "i \<in> set (Match (Group E) ?g (H2 hash))" using laws(2) [of i] windows_valid [OF shape] i(2) by simp
    then show "cf_slots t ! p \<noteq> Some key" using r(3) i(1,4) by (auto simp: probe_at_seq_offset [OF shape])
  qed (use r in auto)
qed

lemma empty_mask_window:
  assumes "table_shape E t"
  shows "mask_nonzero (MaskEmpty (Group E) (map (window t pos) [0..<W])) \<longleftrightarrow> (\<exists>i < W. IsEmpty (window t pos i))"
proof -
  let ?g = "map (window t pos) [0..<W]"
  have "mask_of W (\<lambda>i. IsEmpty (?g ! i)) (MaskEmpty (Group E) ?g)" using grp_empty [of ?g] windows_valid [OF assms] by simp
  then show ?thesis by (auto simp: mask_of_def)
qed

text \<open>One round of a lookup.\<close>

lemma probe_loop_round:
  assumes core: "swiss_core E t" and n: "n * W \<le> cf_capacity t"
    and r: "match_loop t key (probe_at E t hash n)
      (Match (Group E) (map (window t (group_offset E t hash n)) [0..<W]) (H2 hash)) = Inr r"
  shows "probe_loop E t key hash (probe_at E t hash n) =
    (case r of Some p \<Rightarrow> Some (Inr (Some p))
     | None \<Rightarrow> if \<exists>i < W. IsEmpty (window t (group_offset E t hash n) i) then Some (Inr None)
       else if Suc n * W \<le> cf_capacity t then probe_loop E t key hash (probe_at E t hash (Suc n))
       else Some (Inl AssertionFailure))"
  using r empty_mask_window [OF coreD(1) [OF core]] probe_at_next [OF coreD(1) [OF core] n]
  by (subst probe_loop.simps)
     (simp add: load_group_window [OF coreD(1) [OF core] group_offset_le] Let_def split: option.splits; blast)

lemma probe_loop_present:
  assumes core: "swiss_core E t" and p: "full_at t p" "cf_slots t ! p = Some key" "cf_control t ! p = H2 hash"
    and n0: "n0 * W \<le> cf_capacity t" "i0 < W" "group_offset E t hash n0 + i0 < 2 * cf_capacity t + 1"
      "(group_offset E t hash n0 + i0) mod Suc (cf_capacity t) = p"
      "\<And>m j. m < n0 \<Longrightarrow> j < W \<Longrightarrow> \<not> IsEmpty (window t (group_offset E t hash m) j)"
    and n: "n \<le> n0"
  shows "probe_loop E t key hash (probe_at E t hash n) = Some (Inr (Some p))"
  using n
proof (induction n rule: inc_induct)
  case base
  obtain r where r: "match_loop t key (probe_at E t hash n0)
      (Match (Group E) (map (window t (group_offset E t hash n0)) [0..<W]) (H2 hash)) = Inr r"
    "\<And>q. r = Some q \<Longrightarrow> full_at t q \<and> cf_slots t ! q = Some key" "r \<noteq> None"
    using match_group [OF core, of key hash n0] n0(2,3,4) p(2,3) by metis
  then have "r = Some p" using coreD(3) [OF core] p(1,2) by (metis not_None_eq)
  then show ?case using probe_loop_round [OF core n0(1) r(1)] by simp
next
  case (step n)
  have le: "n * W \<le> cf_capacity t" "Suc n * W \<le> cf_capacity t"
    using step(2) n0(1) by (metis Suc_leI le_trans less_imp_le_nat mult_le_mono1)+
  obtain r where r: "match_loop t key (probe_at E t hash n)
      (Match (Group E) (map (window t (group_offset E t hash n)) [0..<W]) (H2 hash)) = Inr r"
    "\<And>q. r = Some q \<Longrightarrow> full_at t q \<and> cf_slots t ! q = Some key"
    using match_group [OF core, of key hash n] by metis
  have "r = None \<or> r = Some p" using r(2) coreD(3) [OF core] p(1,2) by (metis not_None_eq)
  then show ?case
    using probe_loop_round [OF core le(1) r(1)] step.IH n0(5) [OF step(2)] le(2) by auto
qed

lemma probe_loop_absent:
  assumes core: "swiss_core E t" and a: "key \<notin> elems t"
    and N: "N * W \<le> cf_capacity t" "j < W" "IsEmpty (window t (group_offset E t hash N) j)"
    and n: "n \<le> N"
  shows "probe_loop E t key hash (probe_at E t hash n) = Some (Inr None)"
  using n
proof (induction n rule: inc_induct)
  case base
  obtain r where r: "match_loop t key (probe_at E t hash N)
      (Match (Group E) (map (window t (group_offset E t hash N)) [0..<W]) (H2 hash)) = Inr r"
    "\<And>q. r = Some q \<Longrightarrow> full_at t q \<and> cf_slots t ! q = Some key"
    using match_group [OF core, of key hash N] by metis
  have "r = None" using r(2) a by (cases r) (auto simp: elems_def)
  then show ?case using probe_loop_round [OF core N(1) r(1)] N(2,3) by auto
next
  case (step n)
  have le: "n * W \<le> cf_capacity t" "Suc n * W \<le> cf_capacity t"
    using step(2) N(1) by (metis Suc_leI le_trans less_imp_le_nat mult_le_mono1)+
  obtain r where r: "match_loop t key (probe_at E t hash n)
      (Match (Group E) (map (window t (group_offset E t hash n)) [0..<W]) (H2 hash)) = Inr r"
    "\<And>q. r = Some q \<Longrightarrow> full_at t q \<and> cf_slots t ! q = Some key"
    using match_group [OF core, of key hash n] by metis
  have "r = None" using r(2) a by (cases r) (auto simp: elems_def)
  then show ?case using probe_loop_round [OF core le(1) r(1)] step.IH le(2) by auto
qed

lemma small_window_empty:
  assumes "table_shape E t" "is_small E (cf_capacity t)" "pos \<le> cf_capacity t"
  shows "\<exists>j < W. window t pos j = kEmpty"
  using small_double [OF assms(1,2)] assms(3)
  by (intro exI [of _ "2 * cf_capacity t + 1 - pos"]) (auto simp: window_def)

lemma probe_meets_empty:
  assumes s: "table_shape E t" and room: "has_room E t"
  shows "\<exists>N j. N * W \<le> cf_capacity t \<and> j < W \<and> IsEmpty (window t (group_offset E t hash N) j)"
proof (cases "is_small E (cf_capacity t)")
  case True
  obtain j where "j < W" "window t (group_offset E t hash 0) j = kEmpty"
    using small_window_empty [OF s True group_offset_le, of hash 0] by blast
  then show ?thesis by (intro exI [of _ 0] exI [of _ j]) simp
next
  case False
  with room obtain e where e: "e < cf_capacity t" "IsEmpty (cf_control t ! e)" by (auto simp: has_room_def)
  then obtain n i where "n * W \<le> cf_capacity t" "i < W" "group_offset E t hash n + i < 2 * cf_capacity t + 1"
    "(group_offset E t hash n + i) mod Suc (cf_capacity t) = e"
    using position_in_probe [OF s, of e hash] by auto
  then show ?thesis using e(2) by (intro exI [of _ n] exI [of _ i]) (simp add: window_def)
qed

theorem find_key_correct:
  assumes core: "swiss_core E t" and room: "has_room E t"
  shows "\<exists>r. find_key E t key = Some (Inr r) \<and> key_pos t key r"
proof -
  let ?h = "hash_ref E key"
  have start: "find_key E t key = probe_loop E t key ?h (probe_at E t ?h 0)"
    by (simp add: find_key_def find_hash_def probe_table_init [OF coreD(1) [OF core]])
  show ?thesis
  proof (cases "key \<in> elems t")
    case True
    then obtain p where p: "full_at t p" "cf_slots t ! p = Some key" by (auto simp: elems_def)
    with coreD(2) [OF core p(1)] have c: "cf_control t ! p = H2 ?h" "reaches E t ?h p" by auto
    from c(2) obtain n i where "n * W \<le> cf_capacity t" "i < W" "group_offset E t ?h n + i < 2 * cf_capacity t + 1"
      "(group_offset E t ?h n + i) mod Suc (cf_capacity t) = p"
      "\<And>m j. m < n \<Longrightarrow> j < W \<Longrightarrow> \<not> IsEmpty (window t (group_offset E t ?h m) j)" unfolding reaches_def by blast
    from probe_loop_present [OF core p c(1) this, of 0] show ?thesis using p by (auto simp: start key_pos_def)
  next
    case False
    obtain N j where "N * W \<le> cf_capacity t" "j < W" "IsEmpty (window t (group_offset E t ?h N) j)"
      using probe_meets_empty [OF coreD(1) [OF core] room] by blast
    from probe_loop_absent [OF core False this, of 0] show ?thesis using False by (simp add: start key_pos_def)
  qed
qed

end


section \<open>The search for a free slot\<close>

context swiss
begin

lemma non_full_mask_window:
  assumes "table_shape E t"
  shows "mask_of W (\<lambda>i. IsEmptyOrDeleted (window t pos i)) (MaskEmptyOrDeleted (Group E) (map (window t pos) [0..<W]))"
proof -
  let ?g = "map (window t pos) [0..<W]"
  have "mask_of W (\<lambda>i. IsEmptyOrDeleted (?g ! i)) (MaskEmptyOrDeleted (Group E) ?g)"
    using grp_empty_or_deleted [of ?g] windows_valid [OF assms] by simp
  then show ?thesis by (rule mask_of_mono [rotated]) simp
qed

text \<open>What \<open>find_first_non_full\<close> returns: a free byte of the first group that has one; in a small table the
  first such byte. Only the counter behind the random seed changes.\<close>

definition first_non_full_at :: "'a common_fields \<Rightarrow> u64 \<Rightarrow> nat \<Rightarrow> nat \<Rightarrow> bool" where
  "first_non_full_at t hash n i \<longleftrightarrow>
     n * W \<le> cf_capacity t \<and> i < W \<and> IsEmptyOrDeleted (window t (group_offset E t hash n) i) \<and>
     (\<forall>m < n. \<forall>j < W. \<not> IsEmptyOrDeleted (window t (group_offset E t hash m) j)) \<and>
     (is_small E (cf_capacity t) \<longrightarrow> (\<forall>j < i. \<not> IsEmptyOrDeleted (window t (group_offset E t hash n) j)))"

lemma first_non_full_loop_from:
  assumes s: "table_shape E t"
    and N: "N * W \<le> cf_capacity t" "\<exists>j < W. IsEmptyOrDeleted (window t (group_offset E t hash N) j)"
      "\<And>m j. m < N \<Longrightarrow> j < W \<Longrightarrow> \<not> IsEmptyOrDeleted (window t (group_offset E t hash m) j)"
    and n: "n \<le> N"
  shows "\<exists>i c. first_non_full_loop E t hash (probe_at E t hash n) =
      Some (Inr (\<lparr>fi_offset = (group_offset E t hash N + i) mod Suc (cf_capacity t), fi_probe_length = N * W\<rparr>,
        t\<lparr>seed_counter := c\<rparr>)) \<and> first_non_full_at t hash N i"
  using n
proof (induction n rule: inc_induct)
  case base
  let ?g = "map (window t (group_offset E t hash N)) [0..<W]"
  let ?m = "MaskEmptyOrDeleted (Group E) ?g"
  have m: "mask_of W (\<lambda>i. IsEmptyOrDeleted (window t (group_offset E t hash N) i)) ?m"
    by (rule non_full_mask_window [OF s])
  then have nz: "mask_nonzero ?m" using N(2) by (simp add: mask_of_def)
  obtain t' b where tb: "(if \<not> is_small E (cf_capacity t) then ShouldInsertBackwards E hash t else (t, False)) = (t', b)"
    by fastforce
  then have t': "\<exists>c. t' = t\<lparr>seed_counter := c\<rparr>" "is_small E (cf_capacity t) \<Longrightarrow> \<not> b"
    by (auto simp: ShouldInsertBackwards_def RandomSeed_def Let_def split: if_splits intro: exI [of _ "seed_counter t"])
  let ?i = "if b then HighestBitSet ?m else LowestBitSet ?m"
  have at: "first_non_full_at t hash N ?i"
    using m nz N t'(2) unfolding first_non_full_at_def mask_of_def by auto
  have "first_non_full_loop E t hash (probe_at E t hash N) =
      Some (Inr (\<lparr>fi_offset = (group_offset E t hash N + ?i) mod Suc (cf_capacity t), fi_probe_length = N * W\<rparr>, t'))"
    by (subst first_non_full_loop.simps)
       (simp add: load_group_window [OF s group_offset_le] Let_def nz tb probe_at_seq_offset [OF s])
  then show ?case using at t'(1) by blast
next
  case (step n)
  have le: "n * W \<le> cf_capacity t" "Suc n * W \<le> cf_capacity t"
    using step(2) N(1) by (metis Suc_leI le_trans less_imp_le_nat mult_le_mono1)+
  have "\<not> mask_nonzero (MaskEmptyOrDeleted (Group E) (map (window t (group_offset E t hash n)) [0..<W]))"
    using non_full_mask_window [OF s, of "group_offset E t hash n"] N(3) [OF step(2)] by (auto simp: mask_of_def)
  then have "first_non_full_loop E t hash (probe_at E t hash n) = first_non_full_loop E t hash (probe_at E t hash (Suc n))"
    using le probe_at_next [OF s le(1)]
    by (subst first_non_full_loop.simps) (simp add: load_group_window [OF s group_offset_le] Let_def)
  then show ?case using step.IH by simp
qed

lemma find_first_non_full_window:
  assumes s: "table_shape E t"
    and N: "N * W \<le> cf_capacity t" "j < W" "IsEmptyOrDeleted (window t (group_offset E t hash N) j)"
  shows "\<exists>n i c. find_first_non_full E t hash =
      Some (Inr (\<lparr>fi_offset = (group_offset E t hash n + i) mod Suc (cf_capacity t), fi_probe_length = n * W\<rparr>,
        t\<lparr>seed_counter := c\<rparr>)) \<and> first_non_full_at t hash n i"
proof -
  let ?P = "\<lambda>n. \<exists>j < W. IsEmptyOrDeleted (window t (group_offset E t hash n) j)"
  have PN: "?P N" using N(2,3) by blast
  define n where "n = (LEAST n. ?P n)"
  have P: "?P n" unfolding n_def by (rule LeastI [of ?P, OF PN])
  have le: "n \<le> N" unfolding n_def by (rule Least_le [of ?P, OF PN])
  then have "n * W \<le> cf_capacity t" using N(1) by (metis le_trans mult_le_mono1)
  moreover have "\<not> IsEmptyOrDeleted (window t (group_offset E t hash m) j)" if "m < n" "j < W" for m j
    using that not_less_Least [of m ?P] unfolding n_def by blast
  ultimately have "\<exists>i c. first_non_full_loop E t hash (probe_at E t hash 0) =
      Some (Inr (\<lparr>fi_offset = (group_offset E t hash n + i) mod Suc (cf_capacity t), fi_probe_length = n * W\<rparr>,
        t\<lparr>seed_counter := c\<rparr>)) \<and> first_non_full_at t hash n i"
    by (intro first_non_full_loop_from [OF s _ P]) simp_all
  moreover have "find_first_non_full E t hash = first_non_full_loop E t hash (probe_at E t hash 0)"
    by (simp add: find_first_non_full_def probe_table_init [OF s])
  ultimately show ?thesis by metis
qed

text \<open>When some slot is free, the result is a free slot.\<close>

lemma first_non_full_real:
  assumes s: "table_shape E t" and f: "first_non_full_at t hash n i"
    and e: "e < cf_capacity t" "IsEmptyOrDeleted (cf_control t ! e)"
  defines "p \<equiv> (group_offset E t hash n + i) mod Suc (cf_capacity t)"
  shows "p < cf_capacity t" "IsEmptyOrDeleted (cf_control t ! p)" "group_offset E t hash n + i < 2 * cf_capacity t + 1"
proof -
  show real: "group_offset E t hash n + i < 2 * cf_capacity t + 1"
  proof (cases "is_small E (cf_capacity t)")
    case True
    have "n * W \<le> cf_capacity t" using f by (simp add: first_non_full_at_def)
    moreover have "cf_capacity t < W" using small_double [OF s True] by simp
    ultimately have n: "n = 0" by (cases n) auto
    obtain j where j: "j < W" "group_offset E t hash 0 + j < 2 * cf_capacity t + 1"
      "(group_offset E t hash 0 + j) mod Suc (cf_capacity t) = e"
      using position_in_probe [OF s less_imp_le_nat [OF e(1)], of hash] True e(1) by auto
    then have "IsEmptyOrDeleted (window t (group_offset E t hash 0) j)" using e(2) by (simp add: window_def)
    then have "i \<le> j" using f True n by (auto simp: first_non_full_at_def not_less [symmetric])
    then show ?thesis using j(2) n by simp
  next
    case False
    then show ?thesis using window_real_not_small [OF s False group_offset_le] f by (simp add: first_non_full_at_def)
  qed
  then show free: "IsEmptyOrDeleted (cf_control t ! p)"
    using f by (simp add: first_non_full_at_def window_def p_def)
  then have "p \<noteq> cf_capacity t" using table_shapeD(5) [OF s] by auto
  moreover have "p < Suc (cf_capacity t)" unfolding p_def by simp
  ultimately show "p < cf_capacity t" by linarith
qed

end


section \<open>Writing a control byte\<close>

context swiss
begin

lemma mirror_index:
  assumes s: "table_shape E t" and i: "i < cf_capacity t"
  shows "(sz (i + 2 ^ 64 - NumClonedBytes E) AND cf_capacity t) + (NumClonedBytes E AND cf_capacity t) =
    (if i < W - 1 then Suc (cf_capacity t) + i else i)"
proof -
  let ?c = "cf_capacity t"
  obtain k where k: "mask_capacity k ?c" using shape_mask [OF s] by blast
  then have M: "Suc ?c = 2 ^ k" and k64: "k \<le> 64" by (simp_all add: mask_capacity_def)
  have dvd: "Suc ?c dvd 2 ^ 64" unfolding M using k64 by (rule le_imp_power_dvd)
  have big: "W \<le> 2 ^ 64" using grp_width by auto
  have mod: "x AND ?c = x mod Suc ?c" "sz x AND ?c = x mod Suc ?c" for x
    using mask_capacity_and [OF k] mask_capacity_sz_and [OF k] by (simp_all add: M)
  have drop: "(a + 2 ^ 64) mod Suc ?c = a mod Suc ?c" for a using dvd by (metis dvd_eq_mod_eq_0 mod_add_right_eq add_0_right)
  show ?thesis
  proof (cases "is_small E ?c")
    case True
    obtain w where w: "W = 2 ^ w" by (rule W_power)
    have "2 * 2 ^ k \<le> (2::nat) ^ w" using small_double [OF s True] unfolding M w .
    then have "(2::nat) ^ k \<le> 2 ^ w" by (rule order_trans [rotated]) simp
    then have "k \<le> w" by (rule power_le_imp_le_exp [rotated]) simp
    then obtain q where q: "W = Suc ?c * q" unfolding M w using le_imp_power_dvd by (metis dvdE)
    have "0 < q" using q grp_width by (cases q) auto
    then obtain r where r: "q = Suc r" using gr0_implies_Suc by blast
    have "W - 1 = ?c + Suc ?c * r" using q r by simp
    then have "(W - 1) mod Suc ?c = ?c" by (simp only: mod_mult_self2 mod_less lessI)
    moreover have "(i + 2 ^ 64 - (W - 1)) mod Suc ?c = Suc i"
    proof -
      have "i + 2 ^ 64 - (W - 1) + W = Suc i + 2 ^ 64" using big grp_width by linarith
      then have "(i + 2 ^ 64 - (W - 1) + Suc ?c * q) mod Suc ?c = (Suc i + 2 ^ 64) mod Suc ?c" using q by simp
      then have "(i + 2 ^ 64 - (W - 1)) mod Suc ?c = Suc i mod Suc ?c" unfolding drop mod_mult_self2 .
      then show ?thesis using i by simp
    qed
    moreover have "i < W - 1" using small_double [OF s True] i by simp
    ultimately show ?thesis unfolding NumClonedBytes_def mod(2) unfolding mod(1) by (simp del: One_nat_def)
  next
    case False
    have W: "W - 1 < Suc ?c" using not_small_le [OF s False] grp_width by linarith
    have "(i + 2 ^ 64 - (W - 1)) mod Suc ?c = (if i < W - 1 then Suc ?c + i - (W - 1) else i - (W - 1))"
    proof (cases "i < W - 1")
      case True
      have "i + 2 ^ 64 - (W - 1) + Suc ?c = (Suc ?c + i - (W - 1)) + 2 ^ 64" using big W by linarith
      then have "(i + 2 ^ 64 - (W - 1)) mod Suc ?c = (Suc ?c + i - (W - 1)) mod Suc ?c"
        using drop by (metis mod_add_self2)
      then show ?thesis using True W by simp
    next
      case F: False
      then have "i + 2 ^ 64 - (W - 1) = (i - (W - 1)) + 2 ^ 64" by linarith
      then have "(i + 2 ^ 64 - (W - 1)) mod Suc ?c = (i - (W - 1)) mod Suc ?c" by (simp only: drop)
      then show ?thesis using F i by simp
    qed
    moreover have "(W - 1) mod Suc ?c = W - 1" using W by (rule mod_less)
    ultimately have "(sz (i + 2 ^ 64 - NumClonedBytes E) AND ?c) + (NumClonedBytes E AND ?c) =
        (if i < W - 1 then Suc ?c + i - (W - 1) else i - (W - 1)) + (W - 1)"
      unfolding NumClonedBytes_def mod(2) by (simp only: mod(1))
    then show ?thesis using W by (auto simp only: split: if_splits)
  qed
qed

text \<open>\<open>SetCtrl\<close> changes one byte and keeps the clone of it.\<close>

lemma SetCtrl_shape:
  assumes s: "table_shape E t" and i: "i < cf_capacity t" and h: "valid_ctrl h" "h \<noteq> kSentinel"
  obtains c where "SetCtrl E t i h = Inr (t\<lparr>cf_control := c\<rparr>)" "table_shape E (t\<lparr>cf_control := c\<rparr>)"
    "\<And>p. p \<le> cf_capacity t \<Longrightarrow> c ! p = (if p = i then h else cf_control t ! p)"
proof -
  let ?c = "cf_capacity t"
  let ?m = "if i < W - 1 then Suc ?c + i else i"
  let ?new = "(cf_control t)[i := h, ?m := h]"
  have len: "length (cf_control t) = ?c + W" using table_shapeD(3) [OF s] .
  have W: "0 < W" using grp_width by auto
  have bounds: "i < length (cf_control t)" "?m < length (cf_control t)" using len i W by auto
  have "SetCtrl E t i h = Inr (t\<lparr>cf_control := ?new\<rparr>)"
    using i bounds unfolding SetCtrl_def Let_def mirror_index [OF s i] by simp
  moreover have nth: "?new ! p = (if p = i \<or> p = ?m then h else cf_control t ! p)" for p
    using bounds by (auto simp: nth_list_update)
  then have low: "?new ! p = (if p = i then h else cf_control t ! p)" if "p \<le> ?c" for p
    using that i by (simp add: nth)
  have "?new ! (Suc ?c + j) = (if j < ?c then ?new ! j else kEmpty)" if j: "j < W - 1" for j
  proof -
    have "cf_control t ! (Suc ?c + j) = (if j < ?c then cf_control t ! j else kEmpty)"
      using s j by (simp add: table_shape_def)
    then show ?thesis using i j unfolding nth by auto
  qed
  then have "table_shape E (t\<lparr>cf_control := ?new\<rparr>)"
    using s i h low [of ?c] low bounds by (auto simp: table_shape_def simp del: list_update.simps)
  ultimately show ?thesis using that low by blast
qed

end


section \<open>Placing an element\<close>

text \<open>The invariant does not depend on the counters.\<close>

lemma window_irrelevant [simp]:
  "window (t\<lparr>cf_size := a\<rparr>) = window t" "window (t\<lparr>cf_growth_left := a\<rparr>) = window t"
  "window (t\<lparr>seed_counter := s\<rparr>) = window t" "window (t\<lparr>allocations := a\<rparr>) = window t"
  "window (t\<lparr>cf_slots := sl\<rparr>) = window t"
  by (simp_all add: window_def fun_eq_iff)

lemma group_offset_irrelevant [simp]:
  "group_offset E (t\<lparr>cf_size := a\<rparr>) = group_offset E t" "group_offset E (t\<lparr>cf_growth_left := a\<rparr>) = group_offset E t"
  "group_offset E (t\<lparr>seed_counter := s\<rparr>) = group_offset E t" "group_offset E (t\<lparr>allocations := a\<rparr>) = group_offset E t"
  "group_offset E (t\<lparr>cf_slots := sl\<rparr>) = group_offset E t" "group_offset E (t\<lparr>cf_control := c\<rparr>) = group_offset E t"
  by (simp_all add: group_offset_def fun_eq_iff)

lemma reaches_irrelevant [simp]:
  "reaches E (t\<lparr>cf_size := a\<rparr>) = reaches E t" "reaches E (t\<lparr>cf_growth_left := a\<rparr>) = reaches E t"
  "reaches E (t\<lparr>seed_counter := s\<rparr>) = reaches E t" "reaches E (t\<lparr>allocations := a\<rparr>) = reaches E t"
  "reaches E (t\<lparr>cf_slots := sl\<rparr>) = reaches E t"
  by (simp_all add: reaches_def fun_eq_iff)

lemma full_at_irrelevant [simp]:
  "full_at (t\<lparr>cf_size := a\<rparr>) = full_at t" "full_at (t\<lparr>cf_growth_left := a\<rparr>) = full_at t"
  "full_at (t\<lparr>seed_counter := s\<rparr>) = full_at t" "full_at (t\<lparr>allocations := a\<rparr>) = full_at t"
  "full_at (t\<lparr>cf_slots := sl\<rparr>) = full_at t"
  by (simp_all add: full_at_def fun_eq_iff)

lemma shape_irrelevant [simp]:
  "table_shape E (t\<lparr>cf_size := a\<rparr>) = table_shape E t" "table_shape E (t\<lparr>cf_growth_left := a\<rparr>) = table_shape E t"
  "table_shape E (t\<lparr>seed_counter := s\<rparr>) = table_shape E t" "table_shape E (t\<lparr>allocations := a\<rparr>) = table_shape E t"
  by (simp_all add: table_shape_def)

lemma core_irrelevant [simp]:
  "swiss_core E (t\<lparr>cf_size := a\<rparr>) = swiss_core E t" "swiss_core E (t\<lparr>cf_growth_left := a\<rparr>) = swiss_core E t"
  "swiss_core E (t\<lparr>seed_counter := s\<rparr>) = swiss_core E t" "swiss_core E (t\<lparr>allocations := a\<rparr>) = swiss_core E t"
  by (simp_all add: swiss_core_def)

lemma elems_irrelevant [simp]:
  "elems (t\<lparr>cf_size := a\<rparr>) = elems t" "elems (t\<lparr>cf_growth_left := a\<rparr>) = elems t"
  "elems (t\<lparr>seed_counter := s\<rparr>) = elems t" "elems (t\<lparr>allocations := a\<rparr>) = elems t"
  by (simp_all add: elems_def)

lemma counts_irrelevant [simp]: "swiss_counts E (t\<lparr>seed_counter := s\<rparr>) = swiss_counts E t"
  by (simp add: swiss_counts_def)

text \<open>Fewer empty bytes only help a probe.\<close>

lemma reaches_mono:
  assumes "reaches E t hash p"
    and "\<And>q. q \<le> cf_capacity t \<Longrightarrow> IsEmpty (c ! q) \<Longrightarrow> IsEmpty (cf_control t ! q)"
  shows "reaches E (t\<lparr>cf_control := c\<rparr>) hash p"
proof -
  have q: "r mod Suc (cf_capacity t) \<le> cf_capacity t" for r
    by (metis less_Suc_eq_le mod_less_divisor zero_less_Suc)
  have "IsEmpty (window t pos j)" if "IsEmpty (window (t\<lparr>cf_control := c\<rparr>) pos j)" for pos j
    using that assms(2) [OF q] by (auto simp: window_def split: if_splits)
  then show ?thesis using assms(1) unfolding reaches_def by (simp del: not_all) metis
qed

context swiss
begin

lemma place_core:
  assumes core: "swiss_core E t" and x: "x \<notin> elems t" and p: "p < cf_capacity t" "\<not> full_at t p"
    and path: "reaches E t (hash_ref E x) p"
  obtains c where "SetCtrl E t p (H2 (hash_ref E x)) = Inr (t\<lparr>cf_control := c\<rparr>)"
    "swiss_core E (t\<lparr>cf_control := c, cf_slots := (cf_slots t)[p := Some x]\<rparr>)"
    "\<And>q. q \<le> cf_capacity t \<Longrightarrow> c ! q = (if q = p then H2 (hash_ref E x) else cf_control t ! q)"
proof -
  let ?h = "hash_ref E x"
  note s = coreD(1) [OF core]
  obtain c where c: "SetCtrl E t p (H2 ?h) = Inr (t\<lparr>cf_control := c\<rparr>)" "table_shape E (t\<lparr>cf_control := c\<rparr>)"
    "\<And>q. q \<le> cf_capacity t \<Longrightarrow> c ! q = (if q = p then H2 ?h else cf_control t ! q)"
    using SetCtrl_shape [OF s p(1), of "H2 ?h"] by auto
  let ?t = "t\<lparr>cf_control := c, cf_slots := (cf_slots t)[p := Some x]\<rparr>"
  have full: "full_at ?t q \<longleftrightarrow> q = p \<or> full_at t q" for q
    using c(3) [of q] p(1) by (auto simp: full_at_def)
  have slot: "cf_slots ?t ! q = (if q = p then Some x else cf_slots t ! q)" for q
    using p(1) table_shapeD(4) [OF s] by (auto simp: nth_list_update)
  have reach: "reaches E ?t h q" if "reaches E t h q" for h q
  proof -
    have "reaches E (t\<lparr>cf_control := c\<rparr>) h q"
      by (rule reaches_mono [OF that]) (use c(3) in \<open>auto split: if_splits\<close>)
    then show ?thesis by (simp add: reaches_def window_def group_offset_def)
  qed
  have "table_shape E ?t" using c(2) by (simp add: table_shape_def)
  moreover have "\<exists>y. cf_slots ?t ! q = Some y \<and> cf_control ?t ! q = H2 (hash_ref E y) \<and> reaches E ?t (hash_ref E y) q"
    if q: "full_at ?t q" for q
  proof (cases "q = p")
    case True
    then show ?thesis using slot c(3) [of p] p(1) reach [OF path] by auto
  next
    case False
    then have "full_at t q" using q full by blast
    moreover from this have "q \<le> cf_capacity t" by (simp add: full_at_def)
    ultimately show ?thesis using False slot c(3) [of q] coreD(2) [OF core, of q] reach by auto
  qed
  moreover have "q = r" if "full_at ?t q" "full_at ?t r" "cf_slots ?t ! q = cf_slots ?t ! r" for q r
    using that x coreD(3) [OF core, of q r] p(2) unfolding full slot
    by (auto simp: elems_def split: if_splits)
  ultimately have "swiss_core E ?t" unfolding swiss_core_def by blast
  with c show ?thesis using that by blast
qed

end


context swiss
begin

lemma first_non_full_reaches:
  assumes "first_non_full_at t hash n i" "group_offset E t hash n + i < 2 * cf_capacity t + 1"
  shows "reaches E t hash ((group_offset E t hash n + i) mod Suc (cf_capacity t))"
proof -
  have "\<not> IsEmpty c" if "\<not> IsEmptyOrDeleted c" for c using that by (auto simp: IsEmpty_def)
  then show ?thesis using assms unfolding first_non_full_at_def reaches_def by blast
qed

lemma find_settled_slot:
  assumes s: "table_shape E t" and e: "e < cf_capacity t" "IsEmptyOrDeleted (cf_control t ! e)"
  obtains n j l c where "find_first_non_full E t hash =
      Some (Inr (\<lparr>fi_offset = (group_offset E t hash n + j) mod Suc (cf_capacity t), fi_probe_length = l\<rparr>, t\<lparr>seed_counter := c\<rparr>))"
    "(group_offset E t hash n + j) mod Suc (cf_capacity t) < cf_capacity t"
    "IsEmptyOrDeleted (cf_control t ! ((group_offset E t hash n + j) mod Suc (cf_capacity t)))"
    "group_offset E t hash n + j < 2 * cf_capacity t + 1" "first_non_full_at t hash n j"
proof -
  obtain N j where "N * W \<le> cf_capacity t" "j < W" "group_offset E t hash N + j < 2 * cf_capacity t + 1"
    "(group_offset E t hash N + j) mod Suc (cf_capacity t) = e"
    using position_in_probe [OF s less_imp_le_nat [OF e(1)], of hash] e(1) by auto
  moreover from this have "IsEmptyOrDeleted (window t (group_offset E t hash N) j)" using e(2) by (simp add: window_def)
  ultimately obtain n i c where f: "find_first_non_full E t hash =
      Some (Inr (\<lparr>fi_offset = (group_offset E t hash n + i) mod Suc (cf_capacity t), fi_probe_length = n * W\<rparr>,
        t\<lparr>seed_counter := c\<rparr>))" "first_non_full_at t hash n i"
    using find_first_non_full_window [OF s] by blast
  note real = first_non_full_real [OF s f(2) e]
  show ?thesis by (rule that [OF f(1) real f(2)])
qed

lemma find_free_slot:
  assumes s: "table_shape E t" and e: "e < cf_capacity t" "IsEmptyOrDeleted (cf_control t ! e)"
  obtains p l c where "find_first_non_full E t hash = Some (Inr (\<lparr>fi_offset = p, fi_probe_length = l\<rparr>, t\<lparr>seed_counter := c\<rparr>))"
    "p < cf_capacity t" "IsEmptyOrDeleted (cf_control t ! p)" "reaches E t hash p"
  by (rule find_settled_slot [OF s e, of hash]) (rule that, assumption+, rule first_non_full_reaches)

end

section \<open>Resizing\<close>

lemma run_each_append: "run_each body (xs @ ys) s = run_bind (run_each body xs s) (run_each body ys)"
proof (induction xs arbitrary: s)
  case (Cons x xs)
  show ?case
  proof (cases "body x s")
    case (Some r)
    then show ?thesis using Cons by (cases r) simp_all
  qed simp
qed simp

lemma run_each_upt:
  assumes "P 0 s" and "\<And>i s. i < n \<Longrightarrow> P i s \<Longrightarrow> \<exists>s'. body i s = Some (Inr s') \<and> P (Suc i) s'"
  shows "\<exists>s'. run_each body [0..<n] s = Some (Inr s') \<and> P n s'"
  using assms(2)
proof (induction n)
  case (Suc n)
  then obtain s1 where "run_each body [0..<n] s = Some (Inr s1)" "P n s1" by force
  moreover from this Suc.prems [of n s1] obtain s2 where "body n s1 = Some (Inr s2)" "P (Suc n) s2" by blast
  ultimately show ?case by (simp add: run_each_append)
qed (use assms(1) in simp)

text \<open>The number of filled slots bounds where a free one must be.\<close>

lemma finite_full [simp]: "finite {p. full_at t p}"
  by (rule finite_subset [of _ "{..<cf_capacity t}"]) (auto simp: full_at_def)

lemma free_slot_exists:
  assumes s: "table_shape E t" and n: "card {p. full_at t p} < cf_capacity t"
  shows "\<exists>e < cf_capacity t. IsEmptyOrDeleted (cf_control t ! e)"
proof -
  have "{p. full_at t p} \<noteq> {..<cf_capacity t}" using n by (metis card_lessThan less_irrefl)
  then obtain e where "e < cf_capacity t" "\<not> IsFull (cf_control t ! e)" by (auto simp: full_at_def)
  moreover from this have "IsEmptyOrDeleted (cf_control t ! e)"
    using table_shapeD(6,7) [OF s, of e] by (auto simp: valid_ctrl_def)
  ultimately show ?thesis by blast
qed

context swiss
begin

lemma ResetCtrl_fresh:
  assumes v: "IsValidCapacity (cf_capacity t)" "cf_capacity t < 2 ^ 62" "length (cf_slots t) = cf_capacity t"
    and g: "CapacityToGrowth (Group E) (cf_capacity t) = Inr g" "cf_size t \<le> g"
  obtains t' where "ResetCtrl E t = Inr t'" "swiss_core E t'" "\<And>p. \<not> full_at t' p"
    "\<And>p. p < cf_capacity t \<Longrightarrow> cf_control t' ! p = kEmpty"
    "cf_capacity t' = cf_capacity t" "cf_size t' = cf_size t" "cf_growth_left t' = g - cf_size t"
proof -
  let ?c = "cf_capacity t"
  let ?bytes = "(replicate (?c + 1 + NumClonedBytes E) kEmpty)[?c := kSentinel]"
  have W: "0 < W" using grp_width by auto
  have c0: "0 < ?c" and k: "\<exists>k. mask_capacity k ?c"
    using v IsValidCapacity_iff [of ?c] by (auto simp: IsValidCapacity_def)
  define t' where "t' = t\<lparr>cf_control := ?bytes, cf_growth_left := g - cf_size t\<rparr>"
  have "g < 2 ^ 64" using g(1) v(2) by (auto simp: CapacityToGrowth_def split: if_splits)
  then have "sz (g + 2 ^ 64 - cf_size t) = g - cf_size t" using g(2) by (intro sz_diff)
  then have init: "ResetCtrl E t = Inr t'"
    using g(1) by (simp add: ResetCtrl_def ResetGrowthLeft_def Let_def t'_def)
  have byte: "?bytes ! p = (if p = ?c then kSentinel else kEmpty)" if "p < ?c + W" for p
    using that W by (auto simp: nth_list_update NumClonedBytes_def)
  have shape: "table_shape E t'"
    using k c0 v(2,3) W byte by (auto simp: table_shape_def t'_def NumClonedBytes_def)
  have nofull: "\<not> full_at t' p" for p using byte by (auto simp: full_at_def t'_def)
  then have "swiss_core E t'" using shape by (simp add: swiss_core_def)
  with init nofull show ?thesis using byte by (intro that [of t']) (simp_all add: t'_def)
qed

lemma InitializeSlots_fresh:
  assumes v: "IsValidCapacity (cf_capacity t)" "cf_capacity t < 2 ^ 62"
    and g: "CapacityToGrowth (Group E) (cf_capacity t) = Inr g" "cf_size t \<le> g"
  obtains t' where "InitializeSlots E t = Inr t'" "swiss_core E t'" "\<And>p. \<not> full_at t' p"
    "\<And>p. p < cf_capacity t \<Longrightarrow> cf_control t' ! p = kEmpty"
    "cf_capacity t' = cf_capacity t" "cf_size t' = cf_size t" "cf_growth_left t' = g - cf_size t"
proof -
  obtain bytes where mem: "AllocSize E (cf_capacity t) = Inr bytes" using v(1) by (simp add: AllocSize_def SlotOffset_def Let_def)
  define t0 where "t0 = t\<lparr>allocations := Suc (allocations t), control_addr := allocate E (allocations t) bytes,
      cf_slots := replicate (cf_capacity t) None\<rparr>"
  have "cf_capacity t \<noteq> 0" using v(1) by (auto simp: IsValidCapacity_def)
  then have init: "InitializeSlots E t = ResetCtrl E t0" using mem by (simp add: InitializeSlots_def Let_def t0_def)
  show ?thesis
    by (rule ResetCtrl_fresh [of t0 g]) (use v g init in \<open>auto simp: t0_def intro: that\<close>)
qed

text \<open>Placing an element that is not in the table, as \<open>resize\<close> and the copy constructor do.\<close>

lemma place_free:
  assumes core: "swiss_core E t" and fresh: "x \<notin> elems t" and n: "card {p. full_at t p} < cf_capacity t"
  obtains p l c t1 t' where
    "find_first_non_full E t (hash_ref E x) = Some (Inr (\<lparr>fi_offset = p, fi_probe_length = l\<rparr>, t\<lparr>seed_counter := c\<rparr>))"
    "SetCtrl E (t\<lparr>seed_counter := c\<rparr>) p (H2 (hash_ref E x)) = Inr t1" "slot_write t1 p (Some x) = Inr t'"
    "swiss_core E t'" "elems t' = insert x (elems t)" "card {q. full_at t' q} = Suc (card {q. full_at t q})"
    "full_at t' p \<and> cf_slots t' ! p = Some x"
    "\<forall>q < cf_capacity t. IsDeleted (cf_control t' ! q) \<longrightarrow> IsDeleted (cf_control t ! q)"
    "cf_capacity t' = cf_capacity t" "cf_size t' = cf_size t" "cf_growth_left t' = cf_growth_left t"
proof -
  note s = coreD(1) [OF core]
  obtain e where e: "e < cf_capacity t" "IsEmptyOrDeleted (cf_control t ! e)" using free_slot_exists [OF s n] by blast
  obtain p l c where p: "find_first_non_full E t (hash_ref E x) =
      Some (Inr (\<lparr>fi_offset = p, fi_probe_length = l\<rparr>, t\<lparr>seed_counter := c\<rparr>))"
    "p < cf_capacity t" "IsEmptyOrDeleted (cf_control t ! p)" "reaches E t (hash_ref E x) p"
    using find_free_slot [OF s e, of "hash_ref E x"] by blast
  then have free: "\<not> full_at t p" by (auto simp: full_at_def)
  define t0 where "t0 = t\<lparr>seed_counter := c\<rparr>"
  have t0: "swiss_core E t0" "x \<notin> elems t0" "p < cf_capacity t0" "\<not> full_at t0 p" "reaches E t0 (hash_ref E x) p"
    using core fresh p(2,4) free by (simp_all add: t0_def)
  obtain b where b: "SetCtrl E t0 p (H2 (hash_ref E x)) = Inr (t0\<lparr>cf_control := b\<rparr>)"
    "swiss_core E (t0\<lparr>cf_control := b, cf_slots := (cf_slots t0)[p := Some x]\<rparr>)"
    "\<And>q. q \<le> cf_capacity t0 \<Longrightarrow> b ! q = (if q = p then H2 (hash_ref E x) else cf_control t0 ! q)"
    using place_core [OF t0] by blast
  define t' where "t' = t0\<lparr>cf_control := b, cf_slots := (cf_slots t0)[p := Some x]\<rparr>"
  have len: "length (cf_slots t) = cf_capacity t" by (rule table_shapeD(4) [OF s])
  have full: "full_at t' q \<longleftrightarrow> q = p \<or> full_at t q" for q
    using b(3) [of q] p(2) by (auto simp: full_at_def t'_def t0_def)
  have "{q. full_at t' q} = insert p {q. full_at t q}" using full by auto
  then have card: "card {q. full_at t' q} = Suc (card {q. full_at t q})" using free by simp
  have el: "elems t' = insert x (elems t)"
    using free p(2) len unfolding elems_def full by (auto simp: t'_def t0_def nth_list_update)
  have wr: "slot_write (t0\<lparr>cf_control := b\<rparr>) p (Some x) = Inr t'"
    using p(2) len by (simp add: slot_write_def t'_def t0_def)
  show ?thesis
  proof (rule that [OF p(1) b(1) [unfolded t0_def] wr [unfolded t0_def] _ el card])
    show "swiss_core E t'" using b(2) by (simp add: t'_def)
    show "full_at t' p \<and> cf_slots t' ! p = Some x" using full p(2) len by (simp add: t'_def t0_def)
    show "\<forall>q < cf_capacity t. IsDeleted (cf_control t' ! q) \<longrightarrow> IsDeleted (cf_control t ! q)"
      using b(3) by (auto simp: t'_def t0_def)
  qed (simp_all add: t'_def t0_def)
qed

text \<open>The loop of \<open>resize\<close>, after the positions below \<open>i\<close> of the old table.\<close>

definition moved_below :: "'a common_fields \<Rightarrow> nat \<Rightarrow> 'a common_fields \<Rightarrow> 'a common_fields \<Rightarrow> bool" where
  "moved_below old i new t \<longleftrightarrow>
     swiss_core E t \<and> elems t = {x. \<exists>p < i. full_at old p \<and> cf_slots old ! p = Some x} \<and>
     card {p. full_at t p} = card {p. p < i \<and> full_at old p} \<and>
     (\<forall>p < cf_capacity t. \<not> IsDeleted (cf_control t ! p)) \<and>
     cf_capacity t = cf_capacity new \<and> cf_size t = cf_size new \<and> cf_growth_left t = cf_growth_left new"

lemma resize_move_step:
  assumes old: "swiss_core E old" and i: "i < cf_capacity old" and m: "moved_below old i new t"
    and room: "card {p. full_at old p} \<le> cf_capacity new"
  shows "\<exists>t'. resize_move E (cf_control old) (cf_slots old) i t = Some (Inr t') \<and> moved_below old (Suc i) new t'"
proof (cases "full_at old i")
  case False
  then have "\<not> IsFull (cf_control old ! i)" using i by (simp add: full_at_def)
  moreover have "i < length (cf_control old)" using table_shapeD(3) [OF coreD(1) [OF old]] i by simp
  moreover have "{x. \<exists>p < Suc i. full_at old p \<and> Q x p} = {x. \<exists>p < i. full_at old p \<and> Q x p}" for Q :: "'a \<Rightarrow> nat \<Rightarrow> bool"
    using False by (auto simp: less_Suc_eq)
  moreover have "{p. p < Suc i \<and> full_at old p} = {p. p < i \<and> full_at old p}" using False by (auto simp: less_Suc_eq)
  ultimately show ?thesis using m by (simp add: resize_move_def moved_below_def)
next
  case True
  let ?F = "\<lambda>i. {p. p < i \<and> full_at old p}"
  obtain x where x: "cf_slots old ! i = Some x" using coreD(2) [OF old True] by blast
  have fin: "finite (?F j)" for j by (rule finite_subset [OF _ finite_full]) auto
  have F: "?F (Suc i) = insert i (?F i)" "i \<notin> ?F i" using True by (auto simp: less_Suc_eq)
  have core: "swiss_core E t" and el: "elems t = {x. \<exists>p < i. full_at old p \<and> cf_slots old ! p = Some x}"
    and n: "card {p. full_at t p} = card (?F i)" and nd: "\<And>p. p < cf_capacity t \<Longrightarrow> \<not> IsDeleted (cf_control t ! p)"
    and cap: "cf_capacity t = cf_capacity new"
    using m by (auto simp: moved_below_def)
  have "card (?F (Suc i)) \<le> card {p. full_at old p}" by (rule card_mono) auto
  then have lt: "card {p. full_at t p} < cf_capacity t" using F fin n room cap by simp
  have fresh: "x \<notin> elems t" using el x coreD(3) [OF old True] by force
  obtain p l c t1 t' where t':
    "find_first_non_full E t (hash_ref E x) = Some (Inr (\<lparr>fi_offset = p, fi_probe_length = l\<rparr>, t\<lparr>seed_counter := c\<rparr>))"
    "SetCtrl E (t\<lparr>seed_counter := c\<rparr>) p (H2 (hash_ref E x)) = Inr t1" "slot_write t1 p (Some x) = Inr t'"
    "swiss_core E t'" "elems t' = insert x (elems t)" "card {q. full_at t' q} = Suc (card {q. full_at t q})"
    "\<forall>q < cf_capacity t. IsDeleted (cf_control t' ! q) \<longrightarrow> IsDeleted (cf_control t ! q)"
    "cf_capacity t' = cf_capacity t" "cf_size t' = cf_size t" "cf_growth_left t' = cf_growth_left t"
    by (rule place_free [OF core fresh lt]) (rule that)
  have len: "i < length (cf_control old)" "i < length (cf_slots old)"
    using table_shapeD(3,4) [OF coreD(1) [OF old]] i by auto
  have "IsFull (cf_control old ! i)" using True by (simp add: full_at_def)
  then have "resize_move E (cf_control old) (cf_slots old) i t = Some (Inr t')"
    using len x t'(1-3) by (simp add: resize_move_def slot_read_def Let_def)
  moreover have "elems t' = {x. \<exists>p < Suc i. full_at old p \<and> cf_slots old ! p = Some x}"
    using t'(5) el x True by (auto simp: less_Suc_eq)
  then have "moved_below old (Suc i) new t'"
    using t'(4,6-10) m n nd F fin cap by (auto simp: moved_below_def)
  ultimately show ?thesis by blast
qed

theorem resize_correct:
  assumes t: "swiss_inv E t" and v: "IsValidCapacity new_capacity" "new_capacity < 2 ^ 62"
    and g: "CapacityToGrowth (Group E) new_capacity = Inr g" "cf_size t \<le> g"
  shows "\<exists>t'. resize E t new_capacity = Some (Inr t') \<and> swiss_core E t' \<and> swiss_counts E t' \<and> elems t' = elems t \<and>
    cf_capacity t' = new_capacity \<and> cf_size t' = cf_size t \<and> cf_growth_left t' = g - cf_size t"
proof -
  have gc: "g \<le> new_capacity" using g(1) v(1) by (auto simp: CapacityToGrowth_def split: if_splits)
  obtain t0 where t0: "InitializeSlots E (t\<lparr>cf_capacity := new_capacity\<rparr>) = Inr t0" "swiss_core E t0"
    "\<And>p. \<not> full_at t0 p" "\<And>p. p < new_capacity \<Longrightarrow> cf_control t0 ! p = kEmpty"
    "cf_capacity t0 = new_capacity" "cf_size t0 = cf_size t" "cf_growth_left t0 = g - cf_size t"
    using InitializeSlots_fresh [of "t\<lparr>cf_capacity := new_capacity\<rparr>" g] v g by auto
  have start: "moved_below t 0 t0 t0" using t0 by (auto simp: moved_below_def elems_def)
  obtain t' where t': "run_each (resize_move E (cf_control t) (cf_slots t)) [0..<cf_capacity t] t0 = Some (Inr t')"
    "moved_below t (cf_capacity t) t0 t'"
  proof (cases "swiss_empty t")
    case True
    then show ?thesis using that [of t0] start by (simp add: swiss_empty_def)
  next
    case False
    then have inv: "swiss_core E t" "cf_size t = card {p. full_at t p}" using t by (auto simp: swiss_inv_def swiss_counts_def)
    then have "card {p. full_at t p} \<le> cf_capacity t0" using g(2) gc t0(5) by simp
    then show ?thesis
      using run_each_upt [of "\<lambda>i. moved_below t i t0", OF start] resize_move_step [OF inv(1)] that by blast
  qed
  have all: "{p. p < cf_capacity t \<and> full_at t p} = {p. full_at t p}" by (auto simp: full_at_def)
  have size: "cf_size t = card {p. full_at t p}" using t by (auto simp: swiss_inv_def swiss_counts_def swiss_empty_def full_at_def)
  have nd: "{p. p < cf_capacity t' \<and> IsDeleted (cf_control t' ! p)} = {}" using t'(2) by (auto simp: moved_below_def)
  have "elems t = {x. \<exists>p < cf_capacity t. full_at t p \<and> cf_slots t ! p = Some x}"
    by (auto simp: elems_def full_at_def)
  then have "elems t' = elems t" using t'(2) by (simp add: moved_below_def)
  moreover have "swiss_counts E t'"
    using t'(2) t0(5-7) all size g nd by (simp add: swiss_counts_def moved_below_def)
  moreover have "resize E t new_capacity = Some (Inr t')" using v(1) t0(1) t'(1) by (simp add: resize_def Let_def)
  ultimately show ?thesis using t'(2) t0(5-7) by (auto simp: moved_below_def)
qed

end

end
