(* ===== verification/Swiss_Rehash.thy ===== *)
theory Swiss_Rehash
  imports Swiss_Invariant
begin

text \<open>
  \<open>DropDeletesWithoutResize\<close> (\<open>raw_hash_set.cc\<close>): the in-place rehash ends, keeps the elements and
  removes every tombstone. While it runs, \<open>kDeleted\<close> marks an element that still has to be placed.
\<close>

section \<open>Turning the control bytes over\<close>

definition turned :: "ctrl_t \<Rightarrow> ctrl_t" where
  "turned c = (if IsFull c then kDeleted else kEmpty)"

lemma convert_groups_append:
  "convert_groups E (ps @ qs) t = rbind (convert_groups E ps t) (convert_groups E qs)"
proof (induction ps arbitrary: t)
  case (Cons p ps)
  then show ?case by (cases "load_group E t p") simp_all
qed simp

lemma table_shape_control:
  assumes "table_shape E t" "length c = cf_capacity t + kWidth (Group E)" "c ! cf_capacity t = kSentinel"
    and "\<And>p. p < cf_capacity t \<Longrightarrow> valid_ctrl (c ! p) \<and> c ! p \<noteq> kSentinel"
    and "\<And>j. j < kWidth (Group E) - 1 \<Longrightarrow> c ! (Suc (cf_capacity t) + j) = (if j < cf_capacity t then c ! j else kEmpty)"
  shows "table_shape E (t\<lparr>cf_control := c\<rparr>)"
  using assms by (simp add: table_shape_def)

context swiss
begin

lemma convert_groups_turned:
  assumes "n * W \<le> length (cf_control t)" and "\<And>p. p < n * W \<Longrightarrow> valid_ctrl (cf_control t ! p)"
  shows "convert_groups E (map (\<lambda>i. i * W) [0..<n]) t =
    Inr (t\<lparr>cf_control := map turned (take (n * W) (cf_control t)) @ drop (n * W) (cf_control t)\<rparr>)"
  using assms
proof (induction n)
  case (Suc n)
  let ?c = "cf_control t"
  let ?t = "t\<lparr>cf_control := map turned (take (n * W) ?c) @ drop (n * W) ?c\<rparr>"
  let ?g = "take W (drop (n * W) ?c)"
  have le: "n * W + W \<le> length ?c" using Suc.prems(1) by simp
  have IH: "convert_groups E (map (\<lambda>i. i * W) [0..<n]) t = Inr ?t" using Suc.prems le by (intro Suc.IH) simp_all
  have len: "length (map turned (take (n * W) ?c)) = n * W" using le by simp
  have load: "load_group E ?t (n * W) = Inr ?g" using le len by (simp add: load_group_def)
  have "list_all valid_ctrl ?g" "length ?g = W" using le Suc.prems(2) by (auto simp: list_all_length)
  then have conv: "ConvertSpecialToEmptyAndFullToDeleted (Group E) ?g = map turned ?g"
    using grp_convert [of ?g] by (simp add: turned_def)
  have "take (n * W) (cf_control ?t) @ map turned ?g @ drop (n * W + W) (cf_control ?t) =
      map turned (take (Suc n * W) ?c) @ drop (Suc n * W) ?c"
    using le len by (simp add: add.commute [of W] take_add)
  then have "convert_groups E [n * W] ?t =
      Inr (t\<lparr>cf_control := map turned (take (Suc n * W) ?c) @ drop (Suc n * W) ?c\<rparr>)"
    using load conv by simp
  then show ?case using IH by (simp add: convert_groups_append)
qed simp

lemma ConvertDeletedToEmptyAndFullToDeleted_turned:
  assumes s: "table_shape E t" and big: "\<not> is_small E (cf_capacity t)"
  obtains c where "ConvertDeletedToEmptyAndFullToDeleted E t = Inr (t\<lparr>cf_control := c\<rparr>)"
    "table_shape E (t\<lparr>cf_control := c\<rparr>)" "\<And>p. p < cf_capacity t \<Longrightarrow> c ! p = turned (cf_control t ! p)"
proof -
  let ?c = "cf_capacity t" and ?b = "cf_control t"
  note D = table_shapeD [OF s]
  have W: "0 < W" "W \<le> Suc ?c" using grp_width not_small_le [OF s big] by auto
  obtain k where k: "Suc ?c = 2 ^ k" using shape_mask [OF s] by (auto simp: mask_capacity_def)
  obtain w where w: "W = 2 ^ w" "3 \<le> w" by (rule W_power)
  have "(2::nat) ^ w \<le> 2 ^ k" using W(2) unfolding k w .
  then have "w \<le> k" by (rule power_le_imp_le_exp [rotated]) simp
  then have "W dvd Suc ?c" unfolding k w by (rule le_imp_power_dvd)
  then obtain n where n: "Suc ?c = n * W" by (metis dvd_div_mult_self)
  have "?c + W - 1 = n * W + (W - 2)" using n W grp_width by linarith
  also have "\<dots> div W = n" using W grp_width by (auto simp: div_mult_self3)
  finally have up: "upto_by W 0 ?c = map (\<lambda>i. i * W) [0..<n]" using upto_by_round [OF W(1), of ?c] by simp
  have valid: "valid_ctrl (?b ! p)" if "p < n * W" for p
    using that D(5,6) unfolding n [symmetric] by (auto simp: less_Suc_eq)
  have len: "length ?b = n * W + (W - 1)" using D(3) n W by linarith
  let ?m = "map turned (take (n * W) ?b) @ drop (n * W) ?b"
  have conv: "convert_groups E (upto_by W 0 ?c) t = Inr (t\<lparr>cf_control := ?m\<rparr>)"
    unfolding up using len valid by (intro convert_groups_turned) simp_all
  let ?t = "map turned (take (n * W) ?b)"
  define new where "new = (take (?c + 1) ?m @ take (W - 1) ?m)[?c := kSentinel]"
  have tlen: "length ?t = n * W" using len by simp
  have take1: "take (?c + 1) ?m = ?t" using n tlen by simp
  have "W - 1 \<le> length ?t" using W(2) unfolding tlen n by linarith
  then have take2: "take (W - 1) ?m = take (W - 1) ?t" by (simp only: take_append diff_is_0_eq' take_0 append_Nil2)
  have "ConvertDeletedToEmptyAndFullToDeleted E t = Inr (t\<lparr>cf_control := new\<rparr>)"
  proof -
    have "IsValidCapacity ?c" using shape_mask [OF s] mask_capacity_valid D(1) by blast
    moreover have "?c + 1 + NumClonedBytes E \<le> length ?m" using len n W by (simp add: NumClonedBytes_def)
    moreover have "?c < length ?b" using D(3) W by simp
    ultimately show ?thesis
      unfolding ConvertDeletedToEmptyAndFullToDeleted_def Let_def using conv D(5) by (simp add: NumClonedBytes_def new_def)
  qed
  moreover have nth: "new ! p = (if p < ?c then turned (?b ! p) else if p = ?c then kSentinel
      else turned (?b ! (p - Suc ?c)))" if "p < ?c + W" for p
  proof -
    have tn: "?t ! q = turned (?b ! q)" if "q < n * W" for q using that len by simp
    consider "p < ?c" | "p = ?c" | "Suc ?c \<le> p" by linarith
    then show ?thesis
    proof cases
      case 3
      then have "p - n * W < W - 1" "p - n * W < n * W" "n * W \<le> p" using that W n by linarith+
      then show ?thesis using 3 n tlen tn unfolding new_def take1 take2 by (simp add: nth_append del: nth_map)
    qed (use n tlen tn take1 take2 in \<open>simp_all add: new_def nth_append del: nth_map\<close>)
  qed
  moreover have "table_shape E (t\<lparr>cf_control := new\<rparr>)"
  proof -
    have "length (take (W - 1) ?t) = W - 1" using \<open>W - 1 \<le> length ?t\<close> by simp
    then have "length new = ?c + W"
      using n tlen W unfolding new_def take1 take2 length_list_update length_append by linarith
    moreover have "new ! (Suc ?c + j) = (if j < ?c then new ! j else kEmpty)" if "j < W - 1" for j
      using that W nth [of "Suc ?c + j"] nth [of j] by auto
    moreover have "new ! ?c = kSentinel" using nth [of ?c] W by simp
    moreover have "valid_ctrl (new ! p) \<and> new ! p \<noteq> kSentinel" if "p < ?c" for p
      using nth [of p] that by (simp add: turned_def)
    ultimately show ?thesis
      by (intro table_shape_control [OF s])
  qed
  moreover have "new ! p = turned (?b ! p)" if "p < ?c" for p using nth [of p] that by simp
  ultimately show ?thesis by (intro that)
qed

end


section \<open>The invariant of the loop\<close>

text \<open>\<open>settled\<close>: every group a probe sees before the position is full.\<close>

definition settled :: "'a table_env \<Rightarrow> 'a common_fields \<Rightarrow> u64 \<Rightarrow> nat \<Rightarrow> bool" where
  "settled E t hash p \<longleftrightarrow>
     (\<exists>n i. n * kWidth (Group E) \<le> cf_capacity t \<and> i < kWidth (Group E) \<and>
        group_offset E t hash n + i < 2 * cf_capacity t + 1 \<and>
        (group_offset E t hash n + i) mod Suc (cf_capacity t) = p \<and>
        (\<forall>m < n. \<forall>j < kWidth (Group E). \<not> IsEmptyOrDeleted (window t (group_offset E t hash m) j)))"

lemma settled_reaches: "settled E t hash p \<Longrightarrow> reaches E t hash p"
proof -
  have "\<not> IsEmpty c" if "\<not> IsEmptyOrDeleted c" for c using that by (auto simp: IsEmpty_def)
  then show "settled E t hash p \<Longrightarrow> reaches E t hash p" unfolding settled_def reaches_def by blast
qed

lemma settled_mono:
  assumes "settled E t hash p" and same: "cf_capacity t' = cf_capacity t" "control_addr t' = control_addr t"
    and free: "\<And>q. q \<le> cf_capacity t \<Longrightarrow> IsEmptyOrDeleted (cf_control t' ! q) \<Longrightarrow> IsEmptyOrDeleted (cf_control t ! q)"
  shows "settled E t' hash p"
proof -
  have q: "r mod Suc (cf_capacity t) \<le> cf_capacity t" for r
    by (metis less_Suc_eq_le mod_less_divisor zero_less_Suc)
  have "IsEmptyOrDeleted (window t pos j)" if "IsEmptyOrDeleted (window t' pos j)" for pos j
    using that free [OF q] by (auto simp: window_def same split: if_splits)
  moreover have "group_offset E t' = group_offset E t" by (simp add: group_offset_def same fun_eq_iff)
  ultimately show ?thesis using assms(1) unfolding settled_def same by metis
qed

definition live :: "'a common_fields \<Rightarrow> nat \<Rightarrow> bool" where
  "live t p \<longleftrightarrow> p < cf_capacity t \<and> \<not> IsEmpty (cf_control t ! p)"

definition dropping :: "'a table_env \<Rightarrow> nat \<Rightarrow> 'a set \<Rightarrow> nat \<Rightarrow> 'a common_fields \<Rightarrow> bool" where
  "dropping E i S n t \<longleftrightarrow>
     table_shape E t \<and> \<not> is_small E (cf_capacity t) \<and>
     (\<forall>p. full_at t p \<longrightarrow> (\<exists>x. cf_slots t ! p = Some x \<and> cf_control t ! p = H2 (hash_ref E x) \<and>
        settled E t (hash_ref E x) p)) \<and>
     (\<forall>p < cf_capacity t. IsDeleted (cf_control t ! p) \<longrightarrow> i \<le> p \<and> cf_slots t ! p \<noteq> None) \<and>
     (\<forall>p q. live t p \<longrightarrow> live t q \<longrightarrow> cf_slots t ! p = cf_slots t ! q \<longrightarrow> p = q) \<and>
     {x. \<exists>p. live t p \<and> cf_slots t ! p = Some x} = S \<and> card {p. live t p} = n"

definition pending :: "'a common_fields \<Rightarrow> nat set" where
  "pending t = {p. p < cf_capacity t \<and> IsDeleted (cf_control t ! p)}"

lemma finite_pending [simp]: "finite (pending t)"
  by (simp add: pending_def)

lemma live_slot:
  assumes "dropping E i S n t" "live t p"
  shows "cf_slots t ! p \<noteq> None"
proof -
  have s: "table_shape E t" using assms(1) by (simp add: dropping_def)
  have "full_at t p \<or> IsDeleted (cf_control t ! p)"
    using table_shapeD(6,7) [OF s, of p] assms(2) by (auto simp: live_def full_at_def valid_ctrl_def)
  then show ?thesis using assms unfolding dropping_def live_def by fastforce
qed

text \<open>One round moves elements between positions; \<open>f\<close> says where each of them was.\<close>

lemma dropping_round:
  assumes d: "dropping E i S n t" and s: "table_shape E t'"
    and same: "cf_capacity t' = cf_capacity t" "control_addr t' = control_addr t"
    and f: "bij_betw f {p. live t' p} {p. live t p}" "\<And>q. live t' q \<Longrightarrow> cf_slots t' ! q = cf_slots t ! f q"
    and new: "cf_slots t' ! r = Some x" "cf_control t' ! r = H2 (hash_ref E x)" "settled E t' (hash_ref E x) r"
    and old: "\<And>q. q \<noteq> r \<Longrightarrow> full_at t' q \<Longrightarrow> full_at t q \<and> cf_slots t' ! q = cf_slots t ! q \<and> cf_control t' ! q = cf_control t ! q"
    and free: "\<And>q. q \<le> cf_capacity t \<Longrightarrow> IsEmptyOrDeleted (cf_control t' ! q) \<Longrightarrow> IsEmptyOrDeleted (cf_control t ! q)"
    and del: "\<And>q. q < cf_capacity t \<Longrightarrow> IsDeleted (cf_control t' ! q) \<Longrightarrow> i' \<le> q"
  shows "dropping E i' S n t'"
proof -
  have mem: "live t (f q)" if "live t' q" for q using f(1) that by (auto simp: bij_betw_def)
  have inj: "q = q'" if "live t' q" "live t' q'" "f q = f q'" for q q'
    using f(1) that by (auto simp: bij_betw_def inj_on_def)
  have "\<exists>x. cf_slots t' ! q = Some x \<and> cf_control t' ! q = H2 (hash_ref E x) \<and> settled E t' (hash_ref E x) q"
    if q: "full_at t' q" for q
  proof (cases "q = r")
    case False
    with old [OF _ q] d obtain y where "cf_slots t' ! q = Some y" "cf_control t' ! q = H2 (hash_ref E y)"
      "settled E t (hash_ref E y) q" unfolding dropping_def by fastforce
    then show ?thesis using settled_mono [OF _ same free] by blast
  qed (use new in blast)
  moreover have "i' \<le> q \<and> cf_slots t' ! q \<noteq> None" if "q < cf_capacity t'" "IsDeleted (cf_control t' ! q)" for q
  proof -
    have "live t' q" using that by (auto simp: live_def IsDeleted_def)
    then show ?thesis using f(2) [of q] live_slot [OF d mem] del that same by simp
  qed
  moreover have "q = q'" if "live t' q" "live t' q'" "cf_slots t' ! q = cf_slots t' ! q'" for q q'
    using that f(2) mem inj d unfolding dropping_def by metis
  moreover have "{x. \<exists>p. live t' p \<and> cf_slots t' ! p = Some x} = S"
  proof -
    have "(\<exists>p. live t' p \<and> cf_slots t' ! p = Some x) \<longleftrightarrow> (\<exists>p. live t p \<and> cf_slots t ! p = Some x)" for x
      using f mem unfolding bij_betw_def by (metis (no_types, lifting) imageE mem_Collect_eq)
    then show ?thesis using d by (simp add: dropping_def)
  qed
  moreover have "card {p. live t' p} = n" using bij_betw_same_card [OF f(1)] d by (simp add: dropping_def)
  ultimately show ?thesis using s d same unfolding dropping_def by simp
qed


section \<open>One round of the loop\<close>

lemma mod_add_parts: "(a mod m + (b mod m + c)) mod m = (a + b + c) mod (m::nat)"
proof -
  have "(b mod m + c) mod m = (b + c) mod m" by (rule mod_add_left_eq)
  then have "(a + (b mod m + c)) mod m = (a + (b + c)) mod m" by (metis mod_add_right_eq)
  then show ?thesis by (simp only: mod_add_left_eq add.assoc)
qed

context swiss
begin

lemma probe_index_offset:
  assumes s: "table_shape E t" and o: "base \<le> cf_capacity t"
  shows "probe_index E (cf_capacity t) base pos = ((pos + (Suc (cf_capacity t) - base)) mod Suc (cf_capacity t)) div W"
proof -
  let ?M = "Suc (cf_capacity t)"
  obtain k where k: "mask_capacity k (cf_capacity t)" using shape_mask [OF s] by blast
  then have M: "?M = 2 ^ k" "?M dvd 2 ^ 64" by (auto simp: mask_capacity_def intro: le_imp_power_dvd simp del: power_numeral)
  then obtain q where q: "2 ^ 64 = ?M * q" by (auto elim: dvdE)
  have "?M \<le> 2 ^ 64" using M(2) by (rule dvd_imp_le) simp
  then have "pos + 2 ^ 64 - base = (pos + (?M - base)) + (2 ^ 64 - ?M)" using o by linarith
  also have "2 ^ 64 - ?M = ?M * (q - 1)" unfolding q diff_mult_distrib2 by (simp only: mult_1_right)
  finally have "sz (pos + 2 ^ 64 - base) AND cf_capacity t = (pos + (?M - base)) mod ?M"
    unfolding mask_capacity_sz_and [OF k] M(1) [symmetric] by (simp only: mod_mult_self2)
  then show ?thesis by (simp only: probe_index_def)
qed

text \<open>Two positions with the same index are in the same group of the probe.\<close>

lemma same_probe_index:
  assumes s: "table_shape E t" and big: "\<not> is_small E (cf_capacity t)" and i: "i \<le> cf_capacity t" and j: "j < W"
    and eq: "probe_index E (cf_capacity t) (group_offset E t hash 0)
        ((group_offset E t hash n + j) mod Suc (cf_capacity t)) =
      probe_index E (cf_capacity t) (group_offset E t hash 0) i"
  shows "\<exists>j' < W. (group_offset E t hash n + j') mod Suc (cf_capacity t) = i"
proof -
  let ?M = "Suc (cf_capacity t)" and ?h = "unat (H1 hash (control_addr t))"
  let ?o = "group_offset E t hash 0"
  have o: "?o = ?h mod ?M" "?o < ?M" by (simp_all add: group_offset_def triangle_def)
  obtain k where k: "?M = 2 ^ k" using shape_mask [OF s] by (auto simp: mask_capacity_def)
  obtain w where w: "W = 2 ^ w" by (rule W_power)
  have "(2::nat) ^ w \<le> 2 ^ k" using not_small_le [OF s big] unfolding k w .
  then have "w \<le> k" by (rule power_le_imp_le_exp [rotated]) simp
  then have "W dvd ?M" unfolding k w by (rule le_imp_power_dvd)
  then obtain q where q: "?M = W * q" by (rule dvdE)
  define di where "di = (i + (?M - ?o)) mod ?M"
  define block where "block = triangle n mod q"
  have "((?h + W * triangle n + j) mod ?M + (?M - ?o)) mod ?M = (W * triangle n + j) mod ?M"
  proof -
    have "((?h + W * triangle n + j) mod ?M + (?M - ?o)) mod ?M = (?h + W * triangle n + j + (?M - ?o)) mod ?M"
      by (rule mod_add_left_eq)
    also have "?h + W * triangle n + j + (?M - ?o) = ?h + ((?M - ?o) + (W * triangle n + j))" by (simp only: ac_simps)
    also have "\<dots> mod ?M = (?h mod ?M + ((?M - ?o) + (W * triangle n + j))) mod ?M" by (rule mod_add_left_eq [symmetric])
    also have "?h mod ?M + ((?M - ?o) + (W * triangle n + j)) = ?M + (W * triangle n + j)" using o by linarith
    finally show ?thesis by (simp only: mod_add_self1)
  qed
  also have "\<dots> = W * block + j"
  proof -
    have "W * triangle n mod ?M = W * block" unfolding q block_def by (rule mult_mod_right [symmetric])
    then have "(W * triangle n + j) mod ?M = (W * block + j) mod ?M" by (metis mod_add_left_eq)
    moreover have "block < q" using q by (cases q) (simp_all add: block_def)
    then have "W * block + j < ?M" unfolding q using j by (metis Suc_leI add_less_cancel_left less_le_trans
          mult_Suc_right mult_le_mono2 add.commute)
    ultimately show ?thesis by simp
  qed
  finally have "((group_offset E t hash n + j) mod ?M + (?M - ?o)) mod ?M div W = block"
    using j unfolding group_offset_def mod_add_left_eq by (simp add: add.assoc)
  then have "di div W = block"
    using eq unfolding probe_index_offset [OF s group_offset_le] by (simp add: di_def)
  then have di: "di = W * block + di mod W" by (metis mult_div_mod_eq)
  have "(group_offset E t hash n + di mod W) mod ?M = (?h + W * triangle n + di mod W) mod ?M"
    by (simp add: group_offset_def mod_simps)
  also have "\<dots> = (?h mod ?M + (W * triangle n mod ?M + di mod W)) mod ?M"
    by (rule mod_add_parts [symmetric])
  also have "W * triangle n mod ?M = W * block" unfolding q block_def by (rule mult_mod_right [symmetric])
  also have "(?h mod ?M + (W * block + di mod W)) mod ?M = (?o + di) mod ?M" using di o by simp
  also have "\<dots> = (?o + (i + (?M - ?o))) mod ?M" unfolding di_def by (simp only: mod_add_right_eq)
  also have "?o + (i + (?M - ?o)) = i + ?M" using o by linarith
  also have "(i + ?M) mod ?M = i" using i by (simp only: mod_add_self2) simp
  finally show ?thesis using W_power by (intro exI [of _ "di mod W"]) (metis grp_width mod_less_divisor zero_less_numeral)
qed

lemma first_non_full_settled:
  assumes "first_non_full_at t hash n j" "j' < W" "group_offset E t hash n + j' < 2 * cf_capacity t + 1"
  shows "settled E t hash ((group_offset E t hash n + j') mod Suc (cf_capacity t))"
  using assms unfolding first_non_full_at_def settled_def by blast

end


text \<open>What a round leaves: progress of the index or one pending element fewer.\<close>

definition round_ok :: "'a table_env \<Rightarrow> nat \<Rightarrow> 'a set \<Rightarrow> nat \<Rightarrow> 'a common_fields \<Rightarrow> 'a common_fields \<Rightarrow> bool \<Rightarrow> bool" where
  "round_ok E i S n t t' moved_on \<longleftrightarrow>
     dropping E (if moved_on then Suc i else i) S n t' \<and> cf_capacity t' = cf_capacity t \<and> cf_size t' = cf_size t \<and>
     card (pending t') \<le> card (pending t) \<and> (\<not> moved_on \<longrightarrow> card (pending t') < card (pending t))"

context swiss
begin

lemma dropping_seed: "dropping E i S n (t\<lparr>seed_counter := c\<rparr>) = dropping E i S n t"
proof -
  have "settled E (t\<lparr>seed_counter := c\<rparr>) = settled E t" by (simp add: settled_def fun_eq_iff)
  moreover have "live (t\<lparr>seed_counter := c\<rparr>) = live t" by (simp add: live_def fun_eq_iff)
  ultimately show ?thesis by (simp add: dropping_def)
qed

lemma round_stays:
  assumes d: "dropping E i S n t" and i: "i < cf_capacity t" "IsDeleted (cf_control t ! i)"
    and x: "cf_slots t ! i = Some x" and path: "settled E t (hash_ref E x) i"
  obtains t' where "SetCtrl E t i (H2 (hash_ref E x)) = Inr t'" "round_ok E i S n t t' True"
proof -
  have s: "table_shape E t" using d by (simp add: dropping_def)
  obtain c where c: "SetCtrl E t i (H2 (hash_ref E x)) = Inr (t\<lparr>cf_control := c\<rparr>)" "table_shape E (t\<lparr>cf_control := c\<rparr>)"
    "\<And>q. q \<le> cf_capacity t \<Longrightarrow> c ! q = (if q = i then H2 (hash_ref E x) else cf_control t ! q)"
    using SetCtrl_shape [OF s i(1), of "H2 (hash_ref E x)"] by auto
  let ?t = "t\<lparr>cf_control := c\<rparr>"
  have live: "live ?t q \<longleftrightarrow> live t q" for q
    using c(3) [of q] i by (auto simp: live_def IsDeleted_def split: if_splits)
  have free: "IsEmptyOrDeleted (cf_control t ! q)" if "q \<le> cf_capacity t" "IsEmptyOrDeleted (cf_control ?t ! q)" for q
    using that c(3) [of q] by (simp split: if_splits)
  have "dropping E (Suc i) S n ?t"
  proof (rule dropping_round [OF d c(2), where f = id and r = i and x = x])
    show "full_at t q \<and> cf_slots ?t ! q = cf_slots t ! q \<and> cf_control ?t ! q = cf_control t ! q"
      if "q \<noteq> i" "full_at ?t q" for q
      using that c(3) [of q] by (auto simp: full_at_def)
    show "settled E ?t (hash_ref E x) i" by (rule settled_mono [OF path _ _ free]) simp_all
    show "Suc i \<le> q" if "q < cf_capacity t" "IsDeleted (cf_control ?t ! q)" for q
    proof -
      have "IsDeleted (cf_control t ! q)" "q \<noteq> i" using that c(3) [of q] by (auto split: if_splits)
      then show ?thesis using d that(1) by (auto simp: dropping_def Suc_le_eq le_neq_implies_less)
    qed
  qed (use live x c(3) [of i] i free in \<open>auto simp: bij_betw_def\<close>)
  moreover have "pending ?t \<subseteq> pending t" using c(3) by (auto simp: pending_def split: if_splits)
  then have "card (pending ?t) \<le> card (pending t)" by (rule card_mono [OF finite_pending])
  ultimately show ?thesis using c(1) by (intro that [of ?t]) (simp_all add: round_ok_def)
qed

lemma round_moves:
  assumes d: "dropping E i S n t" and i: "i < cf_capacity t" "IsDeleted (cf_control t ! i)"
    and x: "cf_slots t ! i = Some x" and p: "p < cf_capacity t" "IsEmpty (cf_control t ! p)"
    and path: "settled E t (hash_ref E x) p"
  obtains t1 t' where "SetCtrl E t p (H2 (hash_ref E x)) = Inr t1" "cf_slots t1 = cf_slots t" "length (cf_slots t) = cf_capacity t"
    "SetCtrl E (t1\<lparr>cf_slots := (cf_slots t)[p := Some x, i := None]\<rparr>) i kEmpty = Inr t'" "round_ok E i S n t t' True"
proof -
  have s: "table_shape E t" using d by (simp add: dropping_def)
  note len = table_shapeD(4) [OF s]
  have ne: "p \<noteq> i" using i(2) p(2) by (auto simp: IsDeleted_def IsEmpty_def)
  obtain c where c: "SetCtrl E t p (H2 (hash_ref E x)) = Inr (t\<lparr>cf_control := c\<rparr>)" "table_shape E (t\<lparr>cf_control := c\<rparr>)"
    "\<And>q. q \<le> cf_capacity t \<Longrightarrow> c ! q = (if q = p then H2 (hash_ref E x) else cf_control t ! q)"
    using SetCtrl_shape [OF s p(1), of "H2 (hash_ref E x)"] by auto
  define t1 where "t1 = t\<lparr>cf_control := c, cf_slots := (cf_slots t)[p := Some x, i := None]\<rparr>"
  have s1: "table_shape E t1" using c(2) by (simp add: table_shape_def t1_def)
  have cap1: "cf_capacity t1 = cf_capacity t" "cf_control t1 = c" by (simp_all add: t1_def)
  obtain b where b: "SetCtrl E t1 i kEmpty = Inr (t1\<lparr>cf_control := b\<rparr>)" "table_shape E (t1\<lparr>cf_control := b\<rparr>)"
    "\<And>q. q \<le> cf_capacity t \<Longrightarrow> b ! q = (if q = i then kEmpty else c ! q)"
    using SetCtrl_shape [OF s1, of i kEmpty] i(1) cap1 by auto
  define t' where "t' = t1\<lparr>cf_control := b\<rparr>"
  have byte: "cf_control t' ! q = (if q = i then kEmpty else if q = p then H2 (hash_ref E x) else cf_control t ! q)"
    if "q \<le> cf_capacity t" for q using b(3) [OF that] c(3) [OF that] by (simp add: t'_def)
  have slot: "cf_slots t' ! q = (if q = i then None else if q = p then Some x else cf_slots t ! q)" if "q < cf_capacity t" for q
    using that i(1) p(1) len by (simp add: t'_def t1_def nth_list_update)
  have same: "cf_capacity t' = cf_capacity t" "control_addr t' = control_addr t" "cf_size t' = cf_size t"
    by (simp_all add: t'_def t1_def)
  have live: "live t' q \<longleftrightarrow> q = p \<or> live t q \<and> q \<noteq> i" for q
    using byte [of q] p ne by (auto simp: live_def same split: if_splits)
  have livei: "live t i" "\<not> live t p" using i p by (auto simp: live_def IsDeleted_def)
  have free: "IsEmptyOrDeleted (cf_control t ! q)" if "q \<le> cf_capacity t" "IsEmptyOrDeleted (cf_control t' ! q)" for q
    using that byte [of q] i(2) by (auto simp: IsDeleted_def split: if_splits)
  have "dropping E (Suc i) S n t'"
  proof (rule dropping_round [OF d, where f = "\<lambda>q. if q = p then i else q" and r = p and x = x])
    show "bij_betw (\<lambda>q. if q = p then i else q) {q. live t' q} {q. live t q}"
      unfolding bij_betw_def inj_on_def using live livei ne by (auto simp: image_def)
    show "cf_slots t' ! q = cf_slots t ! (if q = p then i else q)" if "live t' q" for q
      using that live [of q] slot [of q] x p(1) ne by (auto simp: live_def)
    show "full_at t q \<and> cf_slots t' ! q = cf_slots t ! q \<and> cf_control t' ! q = cf_control t ! q"
      if "q \<noteq> p" "full_at t' q" for q
      using that byte [of q] slot [of q] by (auto simp: full_at_def same split: if_splits)
    show "settled E t' (hash_ref E x) p" by (rule settled_mono [OF path same(1,2) free])
    show "Suc i \<le> q" if "q < cf_capacity t" "IsDeleted (cf_control t' ! q)" for q
    proof -
      have "IsDeleted (cf_control t ! q)" "q \<noteq> i" using that byte [of q] by (auto split: if_splits)
      then show ?thesis using d that(1) by (auto simp: dropping_def Suc_le_eq le_neq_implies_less)
    qed
  qed (use b(2) slot [of p] byte [of p] p ne same free in \<open>auto simp: t'_def\<close>)
  moreover have "pending t' \<subseteq> pending t" using byte by (auto simp: pending_def same split: if_splits)
  then have "card (pending t') \<le> card (pending t)" by (rule card_mono [OF finite_pending])
  ultimately have "round_ok E i S n t t' True" using same by (simp add: round_ok_def)
  then show ?thesis using that [OF c(1) _ len] b(1) by (simp add: t1_def t'_def)
qed

lemma round_swaps:
  assumes d: "dropping E i S n t" and i: "i < cf_capacity t" "IsDeleted (cf_control t ! i)"
    and x: "cf_slots t ! i = Some x" and p: "p < cf_capacity t" "IsDeleted (cf_control t ! p)" "p \<noteq> i"
    and path: "settled E t (hash_ref E x) p"
  obtains t1 y where "SetCtrl E t p (H2 (hash_ref E x)) = Inr t1" "cf_slots t1 = cf_slots t" "length (cf_slots t) = cf_capacity t"
    "cf_slots t ! p = Some y"
    "round_ok E i S n t (t1\<lparr>cf_slots := (cf_slots t)[p := Some x, i := Some y]\<rparr>) False"
proof -
  have s: "table_shape E t" using d by (simp add: dropping_def)
  note len = table_shapeD(4) [OF s]
  obtain y where y: "cf_slots t ! p = Some y" using d p(1,2) by (auto simp: dropping_def)
  obtain c where c: "SetCtrl E t p (H2 (hash_ref E x)) = Inr (t\<lparr>cf_control := c\<rparr>)" "table_shape E (t\<lparr>cf_control := c\<rparr>)"
    "\<And>q. q \<le> cf_capacity t \<Longrightarrow> c ! q = (if q = p then H2 (hash_ref E x) else cf_control t ! q)"
    using SetCtrl_shape [OF s p(1), of "H2 (hash_ref E x)"] by auto
  define t' where "t' = t\<lparr>cf_control := c, cf_slots := (cf_slots t)[p := Some x, i := Some y]\<rparr>"
  have s': "table_shape E t'" using c(2) by (simp add: table_shape_def t'_def)
  have byte: "cf_control t' ! q = (if q = p then H2 (hash_ref E x) else cf_control t ! q)" if "q \<le> cf_capacity t" for q
    using c(3) [OF that] by (simp add: t'_def)
  have slot: "cf_slots t' ! q = (if q = i then Some y else if q = p then Some x else cf_slots t ! q)" if "q < cf_capacity t" for q
    using that i(1) p(1) len by (simp add: t'_def nth_list_update)
  have same: "cf_capacity t' = cf_capacity t" "control_addr t' = control_addr t" "cf_size t' = cf_size t"
    by (simp_all add: t'_def)
  have live: "live t' q \<longleftrightarrow> live t q" for q
    using byte [of q] p by (auto simp: live_def same IsDeleted_def split: if_splits)
  have livei: "live t i" "live t p" using i p by (auto simp: live_def IsDeleted_def)
  have free: "IsEmptyOrDeleted (cf_control t ! q)" if "q \<le> cf_capacity t" "IsEmptyOrDeleted (cf_control t' ! q)" for q
    using that byte [of q] by (auto split: if_splits)
  let ?f = "\<lambda>q. if q = p then i else if q = i then p else q"
  have "dropping E i S n t'"
  proof (rule dropping_round [OF d s' same(1,2), where f = ?f and r = p and x = x])
    show "bij_betw ?f {q. live t' q} {q. live t q}"
      unfolding bij_betw_def inj_on_def using live livei p(3) by (auto simp: image_def)
    show "cf_slots t' ! q = cf_slots t ! ?f q" if "live t' q" for q
      using that live [of q] slot [of q] x y p(3) by (auto simp: live_def)
    show "full_at t q \<and> cf_slots t' ! q = cf_slots t ! q \<and> cf_control t' ! q = cf_control t ! q"
      if "q \<noteq> p" "full_at t' q" for q
      using that byte [of q] slot [of q] i(2) by (auto simp: full_at_def same IsDeleted_def split: if_splits)
    show "settled E t' (hash_ref E x) p" by (rule settled_mono [OF path same(1,2) free])
    show "i \<le> q" if "q < cf_capacity t" "IsDeleted (cf_control t' ! q)" for q
      using that byte [of q] d by (auto simp: dropping_def split: if_splits)
  qed (use slot [of p] byte [of p] p free in auto)
  moreover have "pending t' = pending t - {p}" using byte p by (auto simp: pending_def same split: if_splits)
  moreover have "p \<in> pending t" using p by (simp add: pending_def)
  ultimately have "card (pending t') < card (pending t)" using card_Diff1_less [OF finite_pending] by metis
  with \<open>dropping E i S n t'\<close> have "round_ok E i S n t t' False" using same by (simp add: round_ok_def)
  then show ?thesis using that [OF c(1) _ len y] by (simp add: t'_def)
qed


text \<open>The whole round.\<close>

lemma drop_deletes_step_round:
  assumes d: "dropping E i S n t" and i: "i < cf_capacity t"
  shows "\<exists>t' moved_on. drop_deletes_step E t i = Some (Inr (t', moved_on)) \<and> round_ok E i S n t t' moved_on"
proof -
  have s: "table_shape E t" and big: "\<not> is_small E (cf_capacity t)" using d by (simp_all add: dropping_def)
  have len: "i < length (cf_control t)" "length (cf_slots t) = cf_capacity t"
    using table_shapeD(3,4) [OF s] i by simp_all
  show ?thesis
  proof (cases "IsDeleted (cf_control t ! i)")
    case False
    have "dropping E (Suc i) S n t"
    proof -
      have "Suc i \<le> p" if "p < cf_capacity t" "IsDeleted (cf_control t ! p)" for p
      proof -
        have "i \<le> p" using d that by (simp add: dropping_def)
        moreover have "p \<noteq> i" using that False by auto
        ultimately show ?thesis by simp
      qed
      then show ?thesis using d by (simp add: dropping_def)
    qed
    then show ?thesis using False len
      by (intro exI [of _ t] exI [of _ True]) (simp add: drop_deletes_step_def round_ok_def)
  next
    case True
    then obtain x where x: "cf_slots t ! i = Some x" using d i by (auto simp: dropping_def)
    let ?h = "hash_ref E x"
    have "IsEmptyOrDeleted (cf_control t ! i)" using True by (simp add: IsDeleted_def)
    then obtain m j l c where f: "find_first_non_full E t ?h =
        Some (Inr (\<lparr>fi_offset = (group_offset E t ?h m + j) mod Suc (cf_capacity t), fi_probe_length = l\<rparr>, t\<lparr>seed_counter := c\<rparr>))"
      "(group_offset E t ?h m + j) mod Suc (cf_capacity t) < cf_capacity t"
      "IsEmptyOrDeleted (cf_control t ! ((group_offset E t ?h m + j) mod Suc (cf_capacity t)))"
      "group_offset E t ?h m + j < 2 * cf_capacity t + 1" "first_non_full_at t ?h m j"
      using find_settled_slot [OF s i, of ?h] by blast
    define p where "p = (group_offset E t ?h m + j) mod Suc (cf_capacity t)"
    define t1 where "t1 = t\<lparr>seed_counter := c\<rparr>"
    have j: "j < W" using f(5) by (simp add: first_non_full_at_def)
    have t1: "dropping E i S n t1" "cf_control t1 = cf_control t" "cf_slots t1 = cf_slots t" "cf_capacity t1 = cf_capacity t"
      "cf_size t1 = cf_size t" "pending t1 = pending t" "\<And>q. settled E t1 ?h q = settled E t ?h q"
      using d dropping_seed by (simp_all add: t1_def pending_def settled_def)
    have path: "settled E t1 ?h p" unfolding p_def t1(7) by (rule first_non_full_settled [OF f(5) j f(4)])
    have seq: "probe_table t1 ?h = Inr (probe_at E t1 ?h 0)" by (rule probe_table_init) (use s in \<open>simp add: t1_def\<close>)
    have off: "group_offset E t1 ?h 0 = group_offset E t ?h 0" by (simp add: t1_def)
    let ?index = "probe_index E (cf_capacity t) (group_offset E t ?h 0)"
    have step: "drop_deletes_step E t i =
      (if ?index p = ?index i
       then run_bind (Some (SetCtrl E t1 i (H2 ?h))) (\<lambda>t2. Some (Inr (t2, True)))
       else run_bind (Some (array_get (cf_control t1) p)) (\<lambda>c'.
            if IsEmpty c'
            then run_bind (Some (SetCtrl E t1 p (H2 ?h))) (\<lambda>t2.
                 run_bind (Some (slot_write t2 p (Some x))) (\<lambda>t3.
                 run_bind (Some (slot_write t3 i None)) (\<lambda>t4.
                 run_bind (Some (SetCtrl E t4 i kEmpty)) (\<lambda>t5. Some (Inr (t5, True))))))
            else if IsDeleted c'
            then run_bind (Some (SetCtrl E t1 p (H2 ?h))) (\<lambda>t2.
                 run_bind (Some (slot_read t2 p)) (\<lambda>y.
                 run_bind (Some (slot_write t2 p (Some x))) (\<lambda>t3.
                 run_bind (Some (slot_write t3 i (Some y))) (\<lambda>t4. Some (Inr (t4, False))))))
            else Some (Inl AssertionFailure)))"
    proof -
      have rd: "slot_read t i = Inr x" using len i x by (simp add: slot_read_def)
      have f1: "find_first_non_full E t ?h = Some (Inr (\<lparr>fi_offset = p, fi_probe_length = l\<rparr>, t1))"
        using f(1) by (simp add: p_def t1_def)
      have o: "ps_offset (probe_state (cf_capacity t) W (unat (H1 ?h (control_addr t1))) 0) = group_offset E t ?h 0"
        using probe_at_offset [of t1 ?h 0] off t1(4) by simp
      show ?thesis
        unfolding drop_deletes_step_def using True len(1)
        by (simp add: rd f1 seq Let_def o t1(4) split del: if_split cong: if_cong)
    qed
    have r: "\<And>t' b. round_ok E i S n t1 t' b \<Longrightarrow> round_ok E i S n t t' b" using t1(4-6) by (simp add: round_ok_def)
    show ?thesis
    proof (cases "?index p = ?index i")
      case same: True
      obtain j' where j': "j' < W" "(group_offset E t ?h m + j') mod Suc (cf_capacity t) = i"
        using same_probe_index [OF s big _ j, of i ?h m] same i unfolding p_def by auto
      have "settled E t1 ?h i"
        using first_non_full_settled [OF f(5) j'(1) window_real_not_small [OF s big group_offset_le j'(1)]]
        unfolding t1(7) j'(2) .
      then obtain t' where "SetCtrl E t1 i (H2 ?h) = Inr t'" "round_ok E i S n t1 t' True"
        using round_stays [OF t1(1)] i True x unfolding t1(2-4) by metis
      then show ?thesis using step same r by auto
    next
      case diff: False
      then have ne: "p \<noteq> i" by auto
      have p: "p < cf_capacity t1" "p < length (cf_control t1)" using f(2) table_shapeD(3) [OF s] t1(2,4) by (simp_all add: p_def)
      consider "IsEmpty (cf_control t1 ! p)" | "IsDeleted (cf_control t1 ! p)" "\<not> IsEmpty (cf_control t1 ! p)"
        using f(2,3) table_shapeD(6) [OF s, of p] IsEmptyOrDeleted_iff unfolding t1(2) p_def [symmetric]
        by (auto simp: IsEmpty_def IsDeleted_def)
      then show ?thesis
      proof cases
        case 1
        obtain t2 t' where "SetCtrl E t1 p (H2 ?h) = Inr t2" "cf_slots t2 = cf_slots t1" "length (cf_slots t1) = cf_capacity t1"
          "SetCtrl E (t2\<lparr>cf_slots := (cf_slots t1)[p := Some x, i := None]\<rparr>) i kEmpty = Inr t'" "round_ok E i S n t1 t' True"
          using round_moves [OF t1(1) _ _ _ p(1) 1 path] i True x unfolding t1(2-4) by metis
        then show ?thesis using step diff 1 p i r t1(3,4) by (auto simp: slot_write_def)
      next
        case 2
        obtain t2 y where "SetCtrl E t1 p (H2 ?h) = Inr t2" "cf_slots t2 = cf_slots t1" "length (cf_slots t1) = cf_capacity t1"
          "cf_slots t1 ! p = Some y" "round_ok E i S n t1 (t2\<lparr>cf_slots := (cf_slots t1)[p := Some x, i := Some y]\<rparr>) False"
          using round_swaps [OF t1(1) _ _ _ p(1) 2(1) ne path] i True x unfolding t1(2-4) by metis
        then show ?thesis using step diff 2 p i r t1(3,4) by (auto simp: slot_write_def slot_read_def)
      qed
    qed
  qed
qed

lemma drop_deletes_loop_ends:
  assumes "dropping E i S n t" "i \<le> cf_capacity t"
  shows "\<exists>t'. drop_deletes_loop E t i = Some (Inr t') \<and> dropping E (cf_capacity t) S n t' \<and>
    cf_capacity t' = cf_capacity t \<and> cf_size t' = cf_size t"
  using assms
proof (induction "cf_capacity t - i + card (pending t)" arbitrary: t i rule: less_induct)
  case less
  show ?case
  proof (cases "i = cf_capacity t")
    case True
    then show ?thesis using less.prems by (subst drop_deletes_loop.simps) simp
  next
    case False
    then have i: "i < cf_capacity t" using less.prems(2) by simp
    obtain t' b where r: "drop_deletes_step E t i = Some (Inr (t', b))" "round_ok E i S n t t' b"
      using drop_deletes_step_round [OF less.prems(1) i] by blast
    let ?i = "if b then Suc i else i"
    have cap: "cf_capacity t' = cf_capacity t" "cf_size t' = cf_size t" "dropping E ?i S n t'" using r(2) by (simp_all add: round_ok_def)
    have "cf_capacity t' - ?i + card (pending t') < cf_capacity t - i + card (pending t)"
      using r(2) i by (auto simp: round_ok_def)
    moreover have "?i \<le> cf_capacity t'" using i cap by simp
    ultimately obtain t'' where "drop_deletes_loop E t' ?i = Some (Inr t'')" "dropping E (cf_capacity t') S n t''"
      "cf_capacity t'' = cf_capacity t'" "cf_size t'' = cf_size t'"
      using less.hyps [OF _ cap(3)] by blast
    moreover have "drop_deletes_loop E t i = drop_deletes_loop E t' ?i"
      using False r(1) by (subst drop_deletes_loop.simps) simp
    ultimately show ?thesis using cap by simp
  qed
qed


theorem DropDeletesWithoutResize_correct:
  assumes core: "swiss_core E t" and counts: "swiss_counts E t" and big: "\<not> is_small E (cf_capacity t)"
  shows "\<exists>t'. DropDeletesWithoutResize E t = Some (Inr t') \<and> swiss_core E t' \<and> swiss_counts E t' \<and> elems t' = elems t \<and>
    cf_capacity t' = cf_capacity t \<and> cf_size t' = cf_size t \<and>
    CapacityToGrowth (Group E) (cf_capacity t) = Inr (cf_size t + cf_growth_left t')"
proof -
  note s = coreD(1) [OF core]
  obtain c where c: "ConvertDeletedToEmptyAndFullToDeleted E t = Inr (t\<lparr>cf_control := c\<rparr>)"
    "table_shape E (t\<lparr>cf_control := c\<rparr>)" "\<And>p. p < cf_capacity t \<Longrightarrow> c ! p = turned (cf_control t ! p)"
    using ConvertDeletedToEmptyAndFullToDeleted_turned [OF s big] by blast
  let ?t = "t\<lparr>cf_control := c\<rparr>"
  have live: "live ?t p \<longleftrightarrow> full_at t p" for p
    using c(3) [of p] by (auto simp: live_def full_at_def turned_def split: if_splits)
  have nofull: "\<not> full_at ?t p" for p
    using c(3) [of p] by (auto simp: full_at_def turned_def split: if_splits)
  have "cf_slots t ! p \<noteq> None" if "p < cf_capacity t" "IsDeleted (c ! p)" for p
    using coreD(2) [OF core, of p] c(3) [OF that(1)] that by (auto simp: full_at_def turned_def split: if_splits)
  then have d: "dropping E 0 (elems t) (cf_size t) ?t"
    using c(2) big nofull coreD(3) [OF core] counts unfolding dropping_def live by (simp add: elems_def swiss_counts_def)
  obtain t2 where t2: "drop_deletes_loop E ?t 0 = Some (Inr t2)" "dropping E (cf_capacity t) (elems t) (cf_size t) t2"
    "cf_capacity t2 = cf_capacity t" "cf_size t2 = cf_size t"
    using drop_deletes_loop_ends [OF d] by auto
  obtain g where g: "CapacityToGrowth (Group E) (cf_capacity t) = Inr g" "cf_size t \<le> g" using counts by (auto simp: swiss_counts_def)
  then have "g < 2 ^ 64" using table_shapeD(2) [OF s] by (auto simp: CapacityToGrowth_def split: if_splits)
  then have diff: "sz (g + 2 ^ 64 - cf_size t2) = g - cf_size t" using g(2) t2(4) by (simp only: sz_diff)
  let ?t' = "t2\<lparr>cf_growth_left := g - cf_size t\<rparr>"
  have s2: "table_shape E t2" using t2(2) by (simp add: dropping_def)
  have none: "\<not> IsDeleted (cf_control t2 ! p)" if "p < cf_capacity t2" for p
    using t2(2,3) that unfolding dropping_def by (metis not_le)
  have full: "live t2 p \<longleftrightarrow> full_at t2 p" for p
    using none [of p] table_shapeD(6,7) [OF s2, of p] by (auto simp: live_def full_at_def valid_ctrl_def)
  have "swiss_core E t2"
    using t2(2) unfolding dropping_def swiss_core_def full by (metis settled_reaches)
  moreover have "elems t2 = elems t" using t2(2) unfolding dropping_def full by (simp add: elems_def)
  moreover have "cf_size t = card {p. full_at t2 p}" using t2(2) unfolding dropping_def full by simp
  moreover have "{p. p < cf_capacity t2 \<and> IsDeleted (cf_control t2 ! p)} = {}" using none by auto
  ultimately have "swiss_core E ?t' \<and> swiss_counts E ?t' \<and> elems ?t' = elems t"
    using g t2(3,4) by (simp add: swiss_counts_def)
  moreover have "IsValidCapacity (cf_capacity t)" using shape_mask [OF s] mask_capacity_valid table_shapeD(1) [OF s] by blast
  then have "DropDeletesWithoutResize E t = Some (Inr ?t')"
    using big c(1) t2(1) g(1) diff by (simp add: DropDeletesWithoutResize_def ResetGrowthLeft_def t2(3))
  ultimately show ?thesis using g t2(3,4) by simp
qed

end

end
