(* ===== verification/Swiss_Set.thy ===== *)
theory Swiss_Set
  imports Swiss_Rehash
begin

text \<open>
  The operations of the Swiss table as a set: insertion with its rehash, lookup, erasure, \<open>clear\<close>,
  \<open>rehash\<close> and \<open>reserve\<close> keep the invariant and act on the set of elements as their names say, without
  undefined behaviour and without a failing assertion.
\<close>

section \<open>Counting\<close>

context swiss
begin

lemma growth_value:
  assumes "table_shape E t" "CapacityToGrowth (Group E) (cf_capacity t) = Inr g"
  shows "g \<le> cf_capacity t" "\<not> is_small E (cf_capacity t) \<Longrightarrow> g < cf_capacity t"
    "cf_capacity t - cf_capacity t div 8 \<le> Suc g" "8 < cf_capacity t \<Longrightarrow> g = cf_capacity t - cf_capacity t div 8"
  using assms(2) table_shapeD(1) [OF assms(1)] grp_width
  by (auto simp: CapacityToGrowth_def is_small_def split: if_splits)

lemma size_le_capacity:
  assumes "swiss_inv E t"
  shows "cf_size t \<le> cf_capacity t"
proof (cases "swiss_empty t")
  case False
  then have "swiss_core E t" "swiss_counts E t" using assms by (auto simp: swiss_inv_def)
  then show ?thesis using growth_value(1) [OF coreD(1)] by (fastforce simp: swiss_counts_def)
qed (simp add: swiss_empty_def)

lemma deleted_full_disjoint: "{p. full_at t p} \<inter> {p. p < cf_capacity t \<and> IsDeleted (cf_control t ! p)} = {}"
  by (auto simp: full_at_def)

text \<open>An empty slot is left as long as fewer slots are used than there are.\<close>

lemma empty_slot_exists:
  assumes s: "table_shape E t"
    and n: "card {p. full_at t p} + card {p. p < cf_capacity t \<and> IsDeleted (cf_control t ! p)} < cf_capacity t"
  shows "\<exists>e < cf_capacity t. IsEmpty (cf_control t ! e)"
proof -
  let ?F = "{p. full_at t p}" and ?D = "{p. p < cf_capacity t \<and> IsDeleted (cf_control t ! p)}"
  have "card (?F \<union> ?D) < cf_capacity t" using n by (simp add: card_Un_disjoint deleted_full_disjoint)
  then have "?F \<union> ?D \<noteq> {..<cf_capacity t}" by (metis card_lessThan less_irrefl)
  then obtain e where e: "e < cf_capacity t" "e \<notin> ?F" "e \<notin> ?D" by (auto simp: full_at_def)
  then have "IsEmpty (cf_control t ! e)"
    using table_shapeD(6,7) [OF s, of e] by (auto simp: full_at_def valid_ctrl_def)
  then show ?thesis using e(1) by blast
qed

lemma counts_room:
  assumes "swiss_core E t" "swiss_counts E t"
  shows "has_room E t"
proof (cases "is_small E (cf_capacity t)")
  case False
  note s = coreD(1) [OF assms(1)]
  obtain g where g: "CapacityToGrowth (Group E) (cf_capacity t) = Inr g"
    "card {p. full_at t p} + card {p. p < cf_capacity t \<and> IsDeleted (cf_control t ! p)} \<le> g"
    using assms(2) by (auto simp: swiss_counts_def)
  then show ?thesis using empty_slot_exists [OF s] growth_value(2) [OF s g(1) False] by (simp add: has_room_def)
qed (simp add: has_room_def)

lemma growth_left_slot:
  assumes "swiss_core E t" "swiss_counts E t" "0 < cf_growth_left t"
  shows "\<exists>e < cf_capacity t. IsEmpty (cf_control t ! e)"
proof -
  note s = coreD(1) [OF assms(1)]
  obtain g where g: "CapacityToGrowth (Group E) (cf_capacity t) = Inr g"
    "card {p. full_at t p} + card {p. p < cf_capacity t \<and> IsDeleted (cf_control t ! p)} < g"
    using assms(2,3) by (auto simp: swiss_counts_def)
  then show ?thesis using empty_slot_exists [OF s] growth_value(1) [OF s g(1)] by simp
qed

section \<open>The table without slots\<close>

lemma empty_table_probe:
  assumes "swiss_empty t"
  shows "probe_table t hash = Inr \<lparr>ps_mask = 0, ps_offset = 0, ps_index = 0\<rparr>"
    "load_group E t 0 = Inr (kSentinel # replicate (W - 1) kEmpty)"
proof -
  show "probe_table t hash = Inr \<lparr>ps_mask = 0, ps_offset = 0, ps_index = 0\<rparr>"
    using assms by (simp add: swiss_empty_def probe_table_def probe_def probe_seq_init_def)
  show "load_group E t 0 = Inr (kSentinel # replicate (W - 1) kEmpty)"
    using assms grp_width by (auto simp: swiss_empty_def load_group_def kEmptyGroup_def take_Cons')
qed

lemma empty_group_valid: "list_all valid_ctrl (kSentinel # replicate (W - 1) kEmpty)"
  by (simp add: list_all_length nth_Cons split: nat.split)

lemma find_key_empty:
  assumes "swiss_empty t"
  shows "find_key E t key = Some (Inr None)"
proof -
  let ?g = "kSentinel # replicate (W - 1) kEmpty" and ?h = "hash_ref E key"
  have len: "length ?g = W" using grp_width by auto
  have nofull: "\<not> IsFull (?g ! i)" if "i < W" for i using that by (auto simp: nth_Cons split: nat.split)
  have "set (Match (Group E) ?g (H2 ?h)) = {}"
    by (rule equals0I) (use grp_match_full [OF len empty_group_valid H2_full] nofull in blast)
  moreover have "mask_nonzero (MaskEmpty (Group E) ?g)"
  proof -
    have "1 < W" "IsEmpty (?g ! 1)" using grp_width by auto
    then show ?thesis using grp_empty [OF len empty_group_valid] by (auto simp: mask_of_def)
  qed
  ultimately show ?thesis
    using empty_table_probe [OF assms]
    by (simp add: find_key_def find_hash_def) (subst probe_loop.simps, simp)
qed

lemma find_first_non_full_empty:
  assumes "swiss_empty t"
  shows "\<exists>l. find_first_non_full E t hash = Some (Inr (\<lparr>fi_offset = 0, fi_probe_length = l\<rparr>, t))"
proof -
  let ?g = "kSentinel # replicate (W - 1) kEmpty"
  have len: "length ?g = W" using grp_width by auto
  have "mask_nonzero (MaskEmptyOrDeleted (Group E) ?g)"
  proof -
    have "1 < W" "IsEmptyOrDeleted (?g ! 1)" using grp_width by auto
    then show ?thesis using grp_empty_or_deleted [OF len empty_group_valid] by (auto simp: mask_of_def)
  qed
  moreover have "is_small E (cf_capacity t)" using assms grp_width by (auto simp: swiss_empty_def is_small_def)
  ultimately show ?thesis
    using empty_table_probe [OF assms]
    by (simp add: find_first_non_full_def) (subst first_non_full_loop.simps, simp add: Let_def seq_offset_def)
qed

lemma elems_empty: "swiss_empty t \<Longrightarrow> elems t = {}"
  by (simp add: elems_def full_at_def swiss_empty_def)

theorem find_key_inv:
  assumes "swiss_inv E t"
  shows "\<exists>r. find_key E t key = Some (Inr r) \<and> key_pos t key r"
  using assms find_key_correct counts_room find_key_empty elems_empty
  unfolding swiss_inv_def by (metis (no_types, lifting) key_pos_def option.case(1) empty_iff)

lemma inv_shape: "swiss_inv E t \<Longrightarrow> cf_capacity t = 0 \<or> table_shape E t"
  using coreD(1) by (auto simp: swiss_inv_def swiss_empty_def)

lemma found_is_end:
  assumes "swiss_inv E t" "key_pos t key r"
  shows "it_eq E t r None = Inr (key \<notin> elems t)"
proof (cases r)
  case None
  then show ?thesis using it_eq_end [OF inv_shape [OF assms(1)]] assms(2) by (simp add: key_pos_def)
next
  case (Some p)
  then have p: "full_at t p" "cf_slots t ! p = Some key" using assms(2) by (simp_all add: key_pos_def)
  then have "table_shape E t" using inv_shape [OF assms(1)] by (auto simp: full_at_def)
  moreover have "key \<in> elems t" using p by (auto simp: elems_def)
  ultimately show ?thesis using it_eq_full [OF _ p(1), of None] Some by simp
qed

end


section \<open>Insertion\<close>

text \<open>The operation left a good table with these elements.\<close>

definition holds :: "'a table_env \<Rightarrow> 'a set \<Rightarrow> 'a common_fields \<Rightarrow> bool" where
  "holds E S t \<longleftrightarrow> swiss_core E t \<and> swiss_counts E t \<and> elems t = S"

lemma holds_inv: "holds E S t \<Longrightarrow> swiss_inv E t \<and> elems t = S"
  by (simp add: holds_def swiss_inv_def)

context swiss
begin

lemma next_capacity:
  assumes "IsValidCapacity c \<or> c = 0" "c < 2 ^ 58"
  shows "NextCapacity c = Inr (2 * c + 1)" "IsValidCapacity (2 * c + 1)"
    "\<exists>g. CapacityToGrowth (Group E) (2 * c + 1) = Inr g \<and> c < g"
proof -
  have "mask_capacity 0 0" by (simp add: mask_capacity_def)
  then obtain k where k: "mask_capacity k c" using assms IsValidCapacity_iff [of c] by (cases "c = 0") auto
  have "(2::nat) ^ k < 2 ^ 64" using k assms(2) unfolding mask_capacity_def by simp
  then have "k < 64" by (rule power_less_imp_less_exp [rotated]) simp
  then have m: "mask_capacity (Suc k) (2 * c + 1)" using k by (simp add: mask_capacity_def)
  then show valid: "IsValidCapacity (2 * c + 1)" by (rule mask_capacity_valid) simp
  show "NextCapacity c = Inr (2 * c + 1)" using assms by (simp add: NextCapacity_def mult.commute)
  show "\<exists>g. CapacityToGrowth (Group E) (2 * c + 1) = Inr g \<and> c < g"
    using valid by (auto simp: CapacityToGrowth_def)
qed

text \<open>After \<open>rehash_and_grow_if_necessary\<close> there is room for another element.\<close>

lemma rehash_and_grow_room:
  assumes inv: "swiss_inv E t" and cap: "cf_capacity t < 2 ^ 58"
  shows "\<exists>t'. rehash_and_grow_if_necessary E t = Some (Inr t') \<and> holds E (elems t) t' \<and> 0 < cf_growth_left t' \<and>
    cf_size t' = cf_size t \<and> cf_capacity t' \<le> max (cf_capacity t) (3 * cf_size t + 33)"
proof (cases "cf_capacity t > W \<and> sz (cf_size t * 32) \<le> sz (cf_capacity t * 25)")
  case True
  then have ne: "\<not> swiss_empty t" by (auto simp: swiss_empty_def)
  with inv have core: "swiss_core E t" and counts: "swiss_counts E t" by (auto simp: swiss_inv_def)
  have big: "\<not> is_small E (cf_capacity t)" using True by (auto simp: is_small_def)
  obtain t' where t': "DropDeletesWithoutResize E t = Some (Inr t')" "swiss_core E t'" "swiss_counts E t'"
    "elems t' = elems t" "cf_capacity t' = cf_capacity t" "cf_size t' = cf_size t"
    "CapacityToGrowth (Group E) (cf_capacity t) = Inr (cf_size t + cf_growth_left t')"
    using DropDeletesWithoutResize_correct [OF core counts big] by blast
  have le: "cf_size t \<le> cf_capacity t" using growth_value(1) [OF coreD(1) [OF core] t'(7)] by simp
  have "cf_size t * 32 \<le> cf_capacity t * 25"
  proof -
    have "cf_size t * 32 < 2 ^ 64" "cf_capacity t * 25 < 2 ^ 64" using le cap by simp_all
    then show ?thesis using True by simp
  qed
  moreover have "8 < cf_capacity t" using True grp_width by auto
  then have "cf_size t + cf_growth_left t' = cf_capacity t - cf_capacity t div 8"
    by (rule growth_value(4) [OF coreD(1) [OF core] t'(7)])
  ultimately have "0 < cf_growth_left t'" using \<open>8 < cf_capacity t\<close> by linarith
  then show ?thesis using True t' by (simp add: rehash_and_grow_if_necessary_def Let_def holds_def)
next
  case False
  have valid: "IsValidCapacity (cf_capacity t) \<or> cf_capacity t = 0"
    using inv shape_mask mask_capacity_valid table_shapeD(1) unfolding swiss_inv_def swiss_empty_def
    by (metis coreD(1))
  obtain g where g: "CapacityToGrowth (Group E) (2 * cf_capacity t + 1) = Inr g" "cf_capacity t < g"
    using next_capacity(3) [OF valid cap] by blast
  note size = size_le_capacity [OF inv]
  obtain t' where "resize E t (2 * cf_capacity t + 1) = Some (Inr t')" "swiss_core E t'" "swiss_counts E t'"
    "elems t' = elems t" "cf_capacity t' = 2 * cf_capacity t + 1" "cf_size t' = cf_size t" "cf_growth_left t' = g - cf_size t"
    using resize_correct [OF inv next_capacity(2) [OF valid cap] _ g(1)] g(2) size cap by auto
  moreover have "2 * cf_capacity t + 1 \<le> 3 * cf_size t + 33"
  proof (cases "cf_capacity t > W")
    case True
    have "cf_size t * 32 < 2 ^ 64" "cf_capacity t * 25 < 2 ^ 64" using size cap by simp_all
    then have "cf_capacity t * 25 < cf_size t * 32" using False True by simp
    then show ?thesis by linarith
  qed (use grp_width in auto)
  ultimately show ?thesis
    using False next_capacity(1) [OF valid cap] g(2) size
    by (auto simp: rehash_and_grow_if_necessary_def Let_def holds_def)
qed

text \<open>Filling the slot that the search returned: the bookkeeping of \<open>prepare_insert\<close>.\<close>

lemma fill_slot:
  assumes h: "holds E S t" and x: "x \<notin> S" and p: "p < cf_capacity t" "IsEmptyOrDeleted (cf_control t ! p)"
    and path: "reaches E t (hash_ref E x) p" and room: "0 < cf_growth_left t \<or> IsDeleted (cf_control t ! p)"
  obtains t' where
    "SetCtrl E (t\<lparr>cf_size := cf_size t + 1, cf_growth_left := cf_growth_left t - of_bool (IsEmpty (cf_control t ! p))\<rparr>) p
       (H2 (hash_ref E x)) = Inr t'"
    "slot_write t' p (Some x) = Inr (t'\<lparr>cf_slots := (cf_slots t)[p := Some x]\<rparr>)"
    "holds E (insert x S) (t'\<lparr>cf_slots := (cf_slots t)[p := Some x]\<rparr>)" "full_at t' p" "cf_capacity t' = cf_capacity t"
    "cf_growth_left t - 1 \<le> cf_growth_left t'"
proof -
  have core: "swiss_core E t" and counts: "swiss_counts E t" and el: "elems t = S" using h by (simp_all add: holds_def)
  note s = coreD(1) [OF core]
  let ?e = "of_bool (IsEmpty (cf_control t ! p)) :: nat"
  define t1 where "t1 = t\<lparr>cf_size := cf_size t + 1, cf_growth_left := cf_growth_left t - ?e\<rparr>"
  have free: "\<not> full_at t p" using p(2) by (auto simp: full_at_def)
  have t1: "swiss_core E t1" "x \<notin> elems t1" "p < cf_capacity t1" "\<not> full_at t1 p" "reaches E t1 (hash_ref E x) p"
    using core x el p(1) free path by (simp_all add: t1_def)
  obtain c where c: "SetCtrl E t1 p (H2 (hash_ref E x)) = Inr (t1\<lparr>cf_control := c\<rparr>)"
    "swiss_core E (t1\<lparr>cf_control := c, cf_slots := (cf_slots t1)[p := Some x]\<rparr>)"
    "\<And>q. q \<le> cf_capacity t1 \<Longrightarrow> c ! q = (if q = p then H2 (hash_ref E x) else cf_control t1 ! q)"
    using place_core [OF t1] by blast
  define t' where "t' = t1\<lparr>cf_control := c\<rparr>"
  define t2 where "t2 = t'\<lparr>cf_slots := (cf_slots t)[p := Some x]\<rparr>"
  have len: "length (cf_slots t) = cf_capacity t" using table_shapeD(4) [OF s] .
  have byte: "cf_control t2 ! q = (if q = p then H2 (hash_ref E x) else cf_control t ! q)" if "q \<le> cf_capacity t" for q
    using c(3) [of q] that by (simp add: t2_def t'_def t1_def)
  have cap: "cf_capacity t2 = cf_capacity t" by (simp add: t2_def t'_def t1_def)
  have full: "full_at t2 q \<longleftrightarrow> q = p \<or> full_at t q" for q
    using byte [of q] p(1) by (auto simp: full_at_def cap split: if_splits)
  have "elems t2 = insert x S"
    using free p(1) len unfolding el [symmetric] elems_def full by (auto simp: t2_def t'_def t1_def nth_list_update)
  moreover have "swiss_core E t2" using c(2) by (simp add: t2_def t'_def t1_def)
  moreover have "swiss_counts E t2"
  proof -
    let ?D = "\<lambda>t. {q. q < cf_capacity t \<and> IsDeleted (cf_control t ! q)}"
    have "{q. full_at t2 q} = insert p {q. full_at t q}" using full by auto
    then have n: "card {q. full_at t2 q} = Suc (card {q. full_at t q})" using free by simp
    have D: "?D t2 = ?D t - {p}" using byte by (auto simp: cap split: if_splits)
    have "card (?D t2) + (cf_growth_left t - ?e) + 1 = card (?D t) + cf_growth_left t"
    proof (cases "IsDeleted (cf_control t ! p)")
      case True
      then have "p \<in> ?D t" "?e = 0" using p(1) by (auto simp: IsDeleted_def)
      moreover from this have "0 < card (?D t)" by (auto simp: card_gt_0_iff)
      ultimately show ?thesis using D by simp
    next
      case False
      then have "?D t2 = ?D t" "?e = 1" "0 < cf_growth_left t"
        using D room p IsEmptyOrDeleted_iff [OF table_shapeD(6) [OF s p(1)]] by (auto simp: IsDeleted_def IsEmpty_def)
      then show ?thesis by simp
    qed
    moreover have "cf_growth_left t2 = cf_growth_left t - ?e" "cf_size t2 = cf_size t + 1"
      by (simp_all add: t2_def t'_def t1_def)
    ultimately show ?thesis using counts n cap unfolding swiss_counts_def by simp
  qed
  ultimately have "holds E (insert x S) t2" by (simp add: holds_def)
  moreover have "full_at t' p" using full [of p] by (simp add: t2_def)
  moreover have "slot_write t' p (Some x) = Inr t2" using p(1) len by (simp add: slot_write_def t2_def t'_def t1_def)
  moreover have "cf_growth_left t - 1 \<le> cf_growth_left t'" by (simp add: t'_def t1_def of_bool_def)
  ultimately show ?thesis using c(1) by (intro that [of t']) (simp_all add: t2_def t'_def t1_def)
qed

end


context swiss
begin

text \<open>What the search returns in any table: a free slot, or a byte that is neither free nor deleted.\<close>

lemma find_first_non_full_any:
  assumes inv: "swiss_inv E t"
  obtains p l c where "find_first_non_full E t hash = Some (Inr (\<lparr>fi_offset = p, fi_probe_length = l\<rparr>, t\<lparr>seed_counter := c\<rparr>))"
    "p < length (cf_control t)"
    "0 < cf_growth_left t \<or> IsDeleted (cf_control t ! p) \<longrightarrow>
      p < cf_capacity t \<and> IsEmptyOrDeleted (cf_control t ! p) \<and> reaches E t hash p"
proof (cases "swiss_empty t")
  case True
  obtain l where "find_first_non_full E t hash = Some (Inr (\<lparr>fi_offset = 0, fi_probe_length = l\<rparr>, t\<lparr>seed_counter := seed_counter t\<rparr>))"
    using find_first_non_full_empty [OF True] by auto
  then show ?thesis by (rule that) (use True in \<open>simp_all add: swiss_empty_def kEmptyGroup_def\<close>)
next
  case False
  then have core: "swiss_core E t" and counts: "swiss_counts E t" using inv by (auto simp: swiss_inv_def)
  note s = coreD(1) [OF core]
  obtain N j where N: "N * W \<le> cf_capacity t" "j < W" "IsEmpty (window t (group_offset E t hash N) j)"
    using probe_meets_empty [OF s counts_room [OF core counts]] by blast
  then have "IsEmptyOrDeleted (window t (group_offset E t hash N) j)" by (auto simp: IsEmpty_def)
  then obtain n i c where f: "find_first_non_full E t hash =
      Some (Inr (\<lparr>fi_offset = (group_offset E t hash n + i) mod Suc (cf_capacity t), fi_probe_length = n * W\<rparr>,
        t\<lparr>seed_counter := c\<rparr>))" "first_non_full_at t hash n i"
    using find_first_non_full_window [OF s N(1,2)] by blast
  let ?p = "(group_offset E t hash n + i) mod Suc (cf_capacity t)"
  have le: "?p < Suc (cf_capacity t)" by simp
  show ?thesis
  proof (rule that [OF f(1)])
    show "?p < length (cf_control t)" using le table_shapeD(3) [OF s] grp_width by linarith
    show "0 < cf_growth_left t \<or> IsDeleted (cf_control t ! ?p) \<longrightarrow>
        ?p < cf_capacity t \<and> IsEmptyOrDeleted (cf_control t ! ?p) \<and> reaches E t hash ?p"
    proof
      assume room: "0 < cf_growth_left t \<or> IsDeleted (cf_control t ! ?p)"
      have "\<exists>e < cf_capacity t. IsEmptyOrDeleted (cf_control t ! e)"
      proof (cases "IsDeleted (cf_control t ! ?p)")
        case True
        then have "?p \<noteq> cf_capacity t" using table_shapeD(5) [OF s] by (metis ctrl_values(11))
        then have "?p < cf_capacity t" using le by linarith
        then show ?thesis using True by (intro exI [of _ ?p]) (simp add: IsDeleted_def)
      next
        case False
        then obtain e where "e < cf_capacity t" "IsEmpty (cf_control t ! e)"
          using growth_left_slot [OF core counts] room by auto
        then show ?thesis by (intro exI [of _ e]) (simp add: IsEmpty_def)
      qed
      then obtain e where "e < cf_capacity t" "IsEmptyOrDeleted (cf_control t ! e)" by blast
      note real = first_non_full_real [OF s f(2) this]
      show "?p < cf_capacity t \<and> IsEmptyOrDeleted (cf_control t ! ?p) \<and> reaches E t hash ?p"
        using real first_non_full_reaches [OF f(2) real(3)] by blast
    qed
  qed
qed

text \<open>A slot for a new element is found, after growing when the table is full.\<close>

lemma find_slot_growing:
  assumes inv: "swiss_inv E t" and cap: "cf_capacity t < 2 ^ 58"
  obtains p0 l0 c0 p l t' where
    "find_first_non_full E t hash = Some (Inr (\<lparr>fi_offset = p0, fi_probe_length = l0\<rparr>, t\<lparr>seed_counter := c0\<rparr>))"
    "p0 < length (cf_control t)"
    "(if cf_growth_left t = 0 \<and> \<not> IsDeleted (cf_control t ! p0)
      then run_bind (rehash_and_grow_if_necessary E (t\<lparr>seed_counter := c0\<rparr>)) (\<lambda>t2. find_first_non_full E t2 hash)
      else Some (Inr (\<lparr>fi_offset = p0, fi_probe_length = l0\<rparr>, t\<lparr>seed_counter := c0\<rparr>))) =
     Some (Inr (\<lparr>fi_offset = p, fi_probe_length = l\<rparr>, t'))"
    "holds E (elems t) t'" "p < cf_capacity t'" "IsEmptyOrDeleted (cf_control t' ! p)" "reaches E t' hash p"
    "0 < cf_growth_left t' \<or> IsDeleted (cf_control t' ! p)" "cf_capacity t' \<le> max (cf_capacity t) (3 * cf_size t + 33)"
    "0 < cf_growth_left t \<longrightarrow> cf_capacity t' = cf_capacity t \<and> cf_growth_left t' = cf_growth_left t"
proof -
  obtain p0 l0 c0 where f: "find_first_non_full E t hash = Some (Inr (\<lparr>fi_offset = p0, fi_probe_length = l0\<rparr>, t\<lparr>seed_counter := c0\<rparr>))"
    "p0 < length (cf_control t)"
    "0 < cf_growth_left t \<or> IsDeleted (cf_control t ! p0) \<longrightarrow>
      p0 < cf_capacity t \<and> IsEmptyOrDeleted (cf_control t ! p0) \<and> reaches E t hash p0"
    by (rule find_first_non_full_any [OF inv, of hash]) (rule that)
  show ?thesis
  proof (cases "cf_growth_left t = 0 \<and> \<not> IsDeleted (cf_control t ! p0)")
    case True
    let ?t = "t\<lparr>seed_counter := c0\<rparr>"
    have "swiss_inv E ?t" using inv by (simp add: swiss_inv_def swiss_empty_def)
    then obtain t2 where t2: "rehash_and_grow_if_necessary E ?t = Some (Inr t2)" "holds E (elems t) t2" "0 < cf_growth_left t2"
      "cf_capacity t2 \<le> max (cf_capacity t) (3 * cf_size t + 33)"
      using rehash_and_grow_room [of ?t] cap by auto
    then have "swiss_inv E t2" by (simp add: holds_inv)
    then obtain p l c where p: "find_first_non_full E t2 hash = Some (Inr (\<lparr>fi_offset = p, fi_probe_length = l\<rparr>, t2\<lparr>seed_counter := c\<rparr>))"
      "0 < cf_growth_left t2 \<or> IsDeleted (cf_control t2 ! p) \<longrightarrow>
        p < cf_capacity t2 \<and> IsEmptyOrDeleted (cf_control t2 ! p) \<and> reaches E t2 hash p"
      by (rule find_first_non_full_any [of t2 hash]) (rule that)
    show ?thesis
      by (rule that [OF f(1,2), of p l "t2\<lparr>seed_counter := c\<rparr>"]) (use True t2 p in \<open>simp_all add: holds_def\<close>)
  next
    case False
    then have ne: "\<not> swiss_empty t" using f(2) by (auto simp: swiss_empty_def kEmptyGroup_def nth_Cons split: nat.splits)
    then have "holds E (elems t) t" using inv by (simp add: swiss_inv_def holds_def)
    moreover have "0 < cf_growth_left t \<or> IsDeleted (cf_control t ! p0)" using False by auto
    ultimately show ?thesis
      by (intro that [OF f(1,2), of p0 l0 "t\<lparr>seed_counter := c0\<rparr>"]) (use False f(3) in \<open>auto simp: holds_def\<close>)
  qed
qed

lemma prepare_insert_fills:
  assumes inv: "swiss_inv E t" and cap: "cf_capacity t < 2 ^ 58" and x: "x \<notin> elems t"
  obtains p t1 t2 where "prepare_insert E t (hash_ref E x) = Some (Inr (p, t1))" "slot_write t1 p (Some x) = Inr t2"
    "holds E (insert x (elems t)) t2" "full_at t2 p" "cf_slots t2 ! p = Some x" "cf_capacity t2 \<le> max (cf_capacity t) (3 * cf_size t + 33)"
    "0 < cf_growth_left t \<longrightarrow> cf_capacity t2 = cf_capacity t \<and> cf_growth_left t - 1 \<le> cf_growth_left t2"
proof -
  let ?h = "hash_ref E x"
  obtain p0 l0 c0 p l t' where f:
    "find_first_non_full E t ?h = Some (Inr (\<lparr>fi_offset = p0, fi_probe_length = l0\<rparr>, t\<lparr>seed_counter := c0\<rparr>))"
    "p0 < length (cf_control t)"
    "(if cf_growth_left t = 0 \<and> \<not> IsDeleted (cf_control t ! p0)
      then run_bind (rehash_and_grow_if_necessary E (t\<lparr>seed_counter := c0\<rparr>)) (\<lambda>t2. find_first_non_full E t2 ?h)
      else Some (Inr (\<lparr>fi_offset = p0, fi_probe_length = l0\<rparr>, t\<lparr>seed_counter := c0\<rparr>))) =
     Some (Inr (\<lparr>fi_offset = p, fi_probe_length = l\<rparr>, t'))"
    "holds E (elems t) t'" "p < cf_capacity t'" "IsEmptyOrDeleted (cf_control t' ! p)" "reaches E t' ?h p"
    "0 < cf_growth_left t' \<or> IsDeleted (cf_control t' ! p)" "cf_capacity t' \<le> max (cf_capacity t) (3 * cf_size t + 33)"
    "0 < cf_growth_left t \<longrightarrow> cf_capacity t' = cf_capacity t \<and> cf_growth_left t' = cf_growth_left t"
    by (rule find_slot_growing [OF inv cap, of ?h]) (rule that)
  let ?e = "of_bool (IsEmpty (cf_control t' ! p)) :: nat"
  have core: "swiss_core E t'" and counts: "swiss_counts E t'" using f(4) by (simp_all add: holds_def)
  note s = coreD(1) [OF core]
  obtain t1 where t1: "SetCtrl E (t'\<lparr>cf_size := cf_size t' + 1, cf_growth_left := cf_growth_left t' - ?e\<rparr>) p (H2 ?h) = Inr t1"
    "slot_write t1 p (Some x) = Inr (t1\<lparr>cf_slots := (cf_slots t')[p := Some x]\<rparr>)"
    "holds E (insert x (elems t)) (t1\<lparr>cf_slots := (cf_slots t')[p := Some x]\<rparr>)" "full_at t1 p" "cf_capacity t1 = cf_capacity t'"
    "cf_growth_left t' - 1 \<le> cf_growth_left t1"
    using fill_slot [OF f(4) x f(5-8)] by blast
  have "cf_size t' + cf_growth_left t' \<le> cf_capacity t'"
    using counts growth_value(1) [OF s] by (fastforce simp: swiss_counts_def)
  then have small: "cf_size t' + 1 < 2 ^ 64" "cf_growth_left t' < 2 ^ 64" using table_shapeD(2) [OF s] by simp_all
  have e: "?e \<le> cf_growth_left t'" using f(8) by (auto simp: IsDeleted_def)
  have sz: "sz (cf_size t' + 1) = cf_size t' + 1" "sz (cf_growth_left t' + 2 ^ 64 - ?e) = cf_growth_left t' - ?e"
    using small by simp (rule sz_diff [OF e small(2)])
  have len: "p < length (cf_control t')" "length (cf_slots t') = cf_capacity t'" using f(5) table_shapeD(3,4) [OF s] by simp_all
  have "prepare_insert E t ?h = Some (Inr (p, t1))"
    unfolding prepare_insert_def Let_def
    using f(1,2,3) t1(1) len(1) sz by simp
  then show ?thesis
    by (rule that [OF _ t1(2,3)]) (use t1(4-6) f(5,9,10) len(2) in \<open>auto simp: full_at_def\<close>)
qed

theorem emplace_correct:
  assumes inv: "swiss_inv E t" and cap: "cf_capacity t < 2 ^ 58"
  shows "\<exists>p t'. emplace E t x = Some (Inr (p, x \<notin> elems t, t')) \<and> swiss_inv E t' \<and> elems t' = insert x (elems t) \<and>
    full_at t' p \<and> cf_slots t' ! p = Some x \<and> (x \<in> elems t \<longrightarrow> t' = t) \<and> cf_capacity t' \<le> max (cf_capacity t) (3 * cf_size t + 33) \<and>
    (0 < cf_growth_left t \<longrightarrow> cf_capacity t' = cf_capacity t \<and> cf_growth_left t - 1 \<le> cf_growth_left t')"
proof -
  obtain r where r: "find_key E t x = Some (Inr r)" "key_pos t x r" using find_key_inv [OF inv] by blast
  have split: "run_bind (Some (probe_table t (hash_ref E x))) (\<lambda>seq. run_bind (probe_loop E t x (hash_ref E x) seq) k) =
      run_bind (find_key E t x) k" for k :: "nat option \<Rightarrow> (nat \<times> bool \<times> 'a common_fields) run"
    by (cases "probe_table t (hash_ref E x)") (simp_all add: find_key_def find_hash_def)
  show ?thesis
  proof (cases r)
    case (Some p)
    then have "find_or_prepare_insert E t x = Some (Inr (p, False, t))"
      unfolding find_or_prepare_insert_def Let_def split using r(1) by simp
    then show ?thesis using r(2) Some inv unfolding key_pos_def
      by (intro exI [of _ p] exI [of _ t]) (auto simp: emplace_def elems_def)
  next
    case None
    then have x: "x \<notin> elems t" using r(2) by (simp add: key_pos_def)
    obtain p t1 t2 where t: "prepare_insert E t (hash_ref E x) = Some (Inr (p, t1))" "slot_write t1 p (Some x) = Inr t2"
      "holds E (insert x (elems t)) t2" "full_at t2 p" "cf_slots t2 ! p = Some x" "cf_capacity t2 \<le> max (cf_capacity t) (3 * cf_size t + 33)"
      "0 < cf_growth_left t \<longrightarrow> cf_capacity t2 = cf_capacity t \<and> cf_growth_left t - 1 \<le> cf_growth_left t2"
      by (rule prepare_insert_fills [OF inv cap x]) (rule that)
    have inv2: "swiss_inv E t2" "elems t2 = insert x (elems t)" using holds_inv [OF t(3)] by simp_all
    obtain q where "find_key E t2 x = Some (Inr q)" "key_pos t2 x q" using find_key_inv [OF inv2(1)] by blast
    moreover from this have "q = Some p"
      using t(3,4,5) coreD(3) [of t2] by (cases q) (auto simp: key_pos_def holds_def elems_def)
    moreover have "find_or_prepare_insert E t x = Some (Inr (p, True, t1))"
      unfolding find_or_prepare_insert_def Let_def split using r(1) None t(1) by simp
    moreover have "it_eq E t2 (Some p) (Some p) = Inr True"
      using it_eq_full [OF _ t(4), of "Some p"] t(3,4) coreD(1) by (simp add: holds_def)
    ultimately have "emplace E t x = Some (Inr (p, True, t2))"
      using t(2) by (simp add: emplace_def emplace_at_def)
    then show ?thesis using x inv2 t(4-7) by (intro exI [of _ p] exI [of _ t2]) auto
  qed
qed

end


section \<open>Construction from a range\<close>

context swiss
begin

lemma insert_range_within_growth:
  assumes "swiss_inv E t" "cf_capacity t < 2 ^ 58" "length xs \<le> cf_growth_left t"
  shows "\<exists>t'. insert_range E xs t = Some (Inr t') \<and> swiss_inv E t' \<and> elems t' = elems t \<union> set xs \<and>
    cf_capacity t' = cf_capacity t"
  using assms
proof (induction xs arbitrary: t)
  case Nil
  then show ?case by (simp add: insert_range_def)
next
  case (Cons x xs)
  then have pos: "0 < cf_growth_left t" by simp
  obtain p t1 where t1: "emplace E t x = Some (Inr (p, x \<notin> elems t, t1))" "swiss_inv E t1" "elems t1 = insert x (elems t)"
    "cf_capacity t1 = cf_capacity t" "cf_growth_left t - 1 \<le> cf_growth_left t1"
    using emplace_correct [OF Cons.prems(1,2), of x] pos by blast
  have "cf_capacity t1 < 2 ^ 58" "length xs \<le> cf_growth_left t1" using Cons.prems(2,3) t1(4,5) by simp_all
  from Cons.IH [OF t1(2) this] t1 show ?case by (auto simp: insert_range_def)
qed

lemma CommonFields_empty: "swiss_empty (CommonFields E)"
  by (simp add: swiss_empty_def CommonFields_def)

theorem raw_hash_set_range_correct:
  assumes n: "length xs < 2 ^ 50"
  shows "\<exists>t. raw_hash_set_range E True xs 0 = Some (Inr t) \<and> swiss_inv E t \<and> elems t = set xs"
proof -
  have "length xs < 2 ^ 62" using n by simp
  note low = GrowthToLowerboundCapacity_small [OF this, of "Group E"]
  define lb where "lb = (if W = 8 \<and> length xs = 7 then 8 else length xs + (length xs - 1) div 7)"
  have "(length xs - 1) div 7 \<le> length xs" by simp
  then have lb: "GrowthToLowerboundCapacity (Group E) (length xs) = Inr lb" "lb \<le> 2 * length xs + 1" "lb = 0 \<longleftrightarrow> xs = []"
    using low by (auto simp: lb_def)
  have sel: "SelectBucketCountForIterRange (Group E) True (length xs) 0 = Inr lb"
    using lb(1) by (simp add: SelectBucketCountForIterRange_def)
  show ?thesis
  proof (cases "lb = 0")
    case True
    then show ?thesis using lb(3) sel CommonFields_empty elems_empty
      by (auto simp: raw_hash_set_range_def raw_hash_set_bucket_def insert_range_def swiss_inv_def)
  next
    case False
    let ?c = "NormalizeCapacity lb"
    have small: "lb < 2 ^ 64" using lb(2) n by simp
    note N = NormalizeCapacity_least [OF small]
    have c: "?c < 2 ^ 58" using N(5) False lb(2) n by simp
    obtain g where g: "CapacityToGrowth (Group E) ?c = Inr g"
      using N(1) by (cases "W = 8 \<and> ?c = 7") (auto simp: CapacityToGrowth_def)
    have "length xs \<le> g" using growth_galois [OF N(1,3) _ g lb(1)] N(2) n by simp
    moreover obtain t0 where t0: "InitializeSlots E ((CommonFields E)\<lparr>cf_capacity := ?c\<rparr>) = Inr t0" "swiss_core E t0"
      "\<And>p. \<not> full_at t0 p" "\<And>p. p < ?c \<Longrightarrow> cf_control t0 ! p = kEmpty" "cf_capacity t0 = ?c" "cf_size t0 = 0" "cf_growth_left t0 = g"
      using InitializeSlots_fresh [of "(CommonFields E)\<lparr>cf_capacity := ?c\<rparr>" g] N(1) c g by (auto simp: CommonFields_def)
    moreover have "{p. p < ?c \<and> IsDeleted (cf_control t0 ! p)} = {}" using t0(4) by auto
    then have "swiss_inv E t0" using t0(2-7) g by (simp add: swiss_inv_def swiss_counts_def)
    ultimately obtain t where "insert_range E xs t0 = Some (Inr t)" "swiss_inv E t" "elems t = elems t0 \<union> set xs"
      using insert_range_within_growth [of t0 xs] c by auto
    moreover have "elems t0 = {}" using t0(3) by (simp add: elems_def)
    ultimately show ?thesis using sel False t0(1) by (auto simp: raw_hash_set_range_def raw_hash_set_bucket_def)
  qed
qed

theorem contains_correct:
  assumes "swiss_inv E t"
  shows "contains E t key = Some (Inr (key \<in> elems t))"
proof -
  obtain r where "find_key E t key = Some (Inr r)" "key_pos t key r" using find_key_inv [OF assms] by blast
  then show ?thesis using found_is_end [OF assms] by (simp add: contains_def)
qed

end

section \<open>Erasing\<close>

lemma mod_diff_same:
  fixes a b k m :: nat
  assumes "a mod m = b mod m" "k \<le> a" "k \<le> b"
  shows "(a - k) mod m = (b - k) mod m"
proof -
  obtain q1 q2 where "a + m * q1 = b + m * q2" using assms(1) nat_mod_eq_iff by blast
  then have "(a - k) + m * q1 = (b - k) + m * q2" using assms(2,3) by linarith
  then show ?thesis using nat_mod_eq_iff by blast
qed

context swiss
begin

text \<open>The test of \<open>EraseMetaOnly\<close>: if it succeeds, every group that covers the position has an empty byte
  anyway, so that no probe relied on the position being full.\<close>

lemma was_never_full_windows:
  assumes s: "table_shape E t" and p: "p < cf_capacity t"
    and before: "before = sz (p + 2 ^ 64 - W) AND cf_capacity t"
    and a: "mask_nonzero (MaskEmpty (Group E) (map (window t p) [0..<W]))"
    and b: "mask_nonzero (MaskEmpty (Group E) (map (window t before) [0..<W]))"
    and few: "TrailingZeros (MaskEmpty (Group E) (map (window t p) [0..<W])) +
      LeadingZeros (MaskEmpty (Group E) (map (window t before) [0..<W])) < W"
    and pos: "pos \<le> cf_capacity t" "j < W" "(pos + j) mod Suc (cf_capacity t) = p"
  shows "\<exists>j' < W. IsEmpty (window t pos j')"
proof (cases "is_small E (cf_capacity t)")
  case True
  from small_window_empty [OF s True pos(1)] show ?thesis by (auto simp: IsEmpty_def)
next
  case False
  let ?M = "Suc (cf_capacity t)"
  let ?tz = "TrailingZeros (MaskEmpty (Group E) (map (window t p) [0..<W]))"
  let ?lz = "LeadingZeros (MaskEmpty (Group E) (map (window t before) [0..<W]))"
  have m: "mask_of W (\<lambda>i. IsEmpty (window t q i)) (MaskEmpty (Group E) (map (window t q) [0..<W]))" for q
  proof -
    have "mask_of W (\<lambda>i. IsEmpty (map (window t q) [0..<W] ! i)) (MaskEmpty (Group E) (map (window t q) [0..<W]))"
      using grp_empty windows_valid [OF s] by simp
    then show ?thesis by (rule mask_of_mono [rotated]) simp
  qed
  have tz: "?tz < W" "IsEmpty (window t p ?tz)" using m [of p] a by (auto simp: mask_of_def)
  have "\<exists>h < W. IsEmpty (window t before h) \<and> ?lz = W - 1 - h" using m [of before] b by (auto simp: mask_of_def)
  then obtain h where h: "h < W" "IsEmpty (window t before h)" "?lz = W - 1 - h" by blast
  obtain k where k: "mask_capacity k (cf_capacity t)" using shape_mask [OF s] by blast
  have M: "?M = 2 ^ k" "?M dvd 2 ^ 64" using k by (auto simp: mask_capacity_def intro: le_imp_power_dvd simp del: power_numeral)
  have bef: "before = (p + 2 ^ 64 - W) mod ?M" unfolding before M(1) by (rule mask_capacity_sz_and [OF k])
  have le: "before \<le> cf_capacity t" unfolding bef by (metis less_Suc_eq_le mod_less_divisor zero_less_Suc)
  have big: "W \<le> 2 ^ 64" using grp_width by auto
  have "(before + W) mod ?M = (p + 2 ^ 64 - W + W) mod ?M" unfolding bef by (rule mod_add_left_eq)
  also have "p + 2 ^ 64 - W + W = p + 2 ^ 64" using big by linarith
  also have "(p + 2 ^ 64) mod ?M = p mod ?M" using M(2) by (metis add_0_right dvd_eq_mod_eq_0 mod_add_right_eq)
  finally have left: "(before + W) mod ?M = (pos + j) mod ?M" using pos(3) p by simp
  note real = window_real_not_small [OF s False]
  show ?thesis
  proof (cases "j + ?tz < W")
    case True
    have "(pos + (j + ?tz)) mod ?M = ((pos + j) mod ?M + ?tz) mod ?M" by (simp add: add.assoc mod_simps)
    then have "window t pos (j + ?tz) = window t p ?tz"
      using real [OF pos(1) True] real [OF less_imp_le_nat [OF p] tz(1)] pos(3) by (simp add: window_def)
    then show ?thesis using True tz(2) by metis
  next
    case False
    then have lt: "Suc ?lz \<le> j" using few by linarith
    have "(before + W - Suc ?lz) mod ?M = (pos + j - Suc ?lz) mod ?M" using left lt h by (intro mod_diff_same) simp_all
    moreover have "before + W - Suc ?lz = before + h" "pos + j - Suc ?lz = pos + (j - Suc ?lz)" using h lt by linarith+
    ultimately have "(before + h) mod ?M = (pos + (j - Suc ?lz)) mod ?M" by (simp only:)
    moreover have "j - Suc ?lz < W" using pos(2) by linarith
    ultimately have "window t pos (j - Suc ?lz) = window t before h"
      using real [OF pos(1)] real [OF le h(1)] by (simp add: window_def)
    then show ?thesis using \<open>j - Suc ?lz < W\<close> h(2) by metis
  qed
qed

end


lemma EraseMetaOnly_step:
  assumes "array_get (cf_control t) i = Inr b" "IsFull b" "t1 = t\<lparr>cf_size := sz (cf_size t + 2 ^ 64 - 1)\<rparr>"
    "load_group E t1 i = Inr after" "load_group E t1 (sz (i + 2 ^ 64 - kWidth (Group E)) AND cf_capacity t) = Inr before"
    "never \<longleftrightarrow> mask_nonzero (MaskEmpty (Group E) before) \<and> mask_nonzero (MaskEmpty (Group E) after) \<and>
      TrailingZeros (MaskEmpty (Group E) after) + LeadingZeros (MaskEmpty (Group E) before) < kWidth (Group E)"
    "SetCtrl E t1 i (if never then kEmpty else kDeleted) = Inr t2"
  shows "EraseMetaOnly E t i = Inr (t2\<lparr>cf_growth_left := sz (cf_growth_left t2 + (if never then 1 else 0))\<rparr>)"
proof -
  have cap: "cf_capacity t1 = cf_capacity t" by (simp add: assms(3))
  show ?thesis
    unfolding EraseMetaOnly_def Let_def assms(1) assms(3) [symmetric] cap
    using assms(2) unfolding assms(4,5) assms(6) [symmetric] rbind_simps using assms(7) by simp
qed

context swiss
begin

text \<open>Emptying a position keeps the paths of the others, either because no empty byte appears or because no
  path passes over it.\<close>

lemma unplace_core:
  assumes core: "swiss_core E t" and p: "full_at t p" and h: "h = kEmpty \<or> h = kDeleted"
    and never: "\<And>pos j. h = kEmpty \<Longrightarrow> pos \<le> cf_capacity t \<Longrightarrow> j < W \<Longrightarrow> (pos + j) mod Suc (cf_capacity t) = p \<Longrightarrow>
      \<exists>j' < W. IsEmpty (window t pos j')"
    and sl: "\<And>q. q < cf_capacity t \<Longrightarrow> q \<noteq> p \<Longrightarrow> sl ! q = cf_slots t ! q" "length sl = length (cf_slots t)"
  obtains c where "SetCtrl E (t\<lparr>cf_slots := sl\<rparr>) p h = Inr (t\<lparr>cf_slots := sl, cf_control := c\<rparr>)"
    "swiss_core E (t\<lparr>cf_slots := sl, cf_control := c\<rparr>)"
    "\<And>q. q \<le> cf_capacity t \<Longrightarrow> c ! q = (if q = p then h else cf_control t ! q)"
proof -
  note s = coreD(1) [OF core]
  define t0 where "t0 = t\<lparr>cf_slots := sl\<rparr>"
  have s0: "table_shape E t0" using s sl(2) by (simp add: table_shape_def t0_def)
  have pc: "p < cf_capacity t0" using p by (simp add: full_at_def t0_def)
  have hv: "valid_ctrl h" "h \<noteq> kSentinel" using h by auto
  obtain c where c: "SetCtrl E t0 p h = Inr (t0\<lparr>cf_control := c\<rparr>)" "table_shape E (t0\<lparr>cf_control := c\<rparr>)"
    "\<And>q. q \<le> cf_capacity t0 \<Longrightarrow> c ! q = (if q = p then h else cf_control t0 ! q)"
    using SetCtrl_shape [OF s0 pc hv] by blast
  define t' where "t' = t0\<lparr>cf_control := c\<rparr>"
  have same: "cf_capacity t' = cf_capacity t" "cf_control t' = c" "cf_slots t' = sl" "group_offset E t' = group_offset E t"
    by (simp_all add: t'_def t0_def group_offset_def fun_eq_iff)
  have byte: "c ! q = (if q = p then h else cf_control t ! q)" if "q \<le> cf_capacity t" for q
    using c(3) [of q] that by (simp add: t0_def)
  have full: "full_at t' q \<longleftrightarrow> full_at t q \<and> q \<noteq> p" for q
    using byte [of q] h by (auto simp: full_at_def same split: if_splits)
  have keep: "\<not> (\<exists>j < W. IsEmpty (window t' pos j))" if pos: "pos \<le> cf_capacity t" and none: "\<not> (\<exists>j < W. IsEmpty (window t pos j))" for pos
  proof
    assume "\<exists>j < W. IsEmpty (window t' pos j)"
    then obtain j where j: "j < W" "IsEmpty (window t' pos j)" by blast
    let ?q = "(pos + j) mod Suc (cf_capacity t)"
    have q: "?q \<le> cf_capacity t" by (metis less_Suc_eq_le mod_less_divisor zero_less_Suc)
    have "\<not> IsEmpty (window t pos j)" using none j(1) by blast
    then have "?q = p" "h = kEmpty"
      using j(2) byte [OF q] h by (auto simp: window_def same split: if_splits)
    then show False using never [OF _ pos j(1)] none by blast
  qed
  have reach: "reaches E t' hash q" if "reaches E t hash q" for hash q
    using that keep [OF group_offset_le] unfolding reaches_def same by metis
  have "\<exists>x. cf_slots t' ! q = Some x \<and> cf_control t' ! q = H2 (hash_ref E x) \<and> reaches E t' (hash_ref E x) q"
    if q: "full_at t' q" for q
  proof -
    have "full_at t q" "q \<noteq> p" "q < cf_capacity t" using q full by (auto simp: full_at_def same)
    then show ?thesis using coreD(2) [OF core, of q] sl(1) byte [of q] reach by (auto simp: same)
  qed
  moreover have "q = r" if "full_at t' q" "full_at t' r" "cf_slots t' ! q = cf_slots t' ! r" for q r
    using that coreD(3) [OF core, of q r] sl(1) [of q] sl(1) [of r] unfolding full same by (auto simp: full_at_def)
  ultimately have "swiss_core E t'" using c(2) unfolding swiss_core_def t'_def by blast
  then show ?thesis using c(1) byte by (intro that [of c]) (simp_all add: t'_def t0_def)
qed

lemma erase_position:
  assumes inv: "swiss_inv E t" and p: "full_at t p" "cf_slots t ! p = Some x"
  shows "\<exists>t'. erase_at E t (Some p) = Inr t' \<and> swiss_inv E t' \<and> elems t' = elems t - {x} \<and> cf_capacity t' = cf_capacity t \<and>
    (\<forall>q. full_at t' q \<longleftrightarrow> full_at t q \<and> q \<noteq> p) \<and> (\<forall>q. q \<noteq> p \<longrightarrow> cf_slots t' ! q = cf_slots t ! q)"
proof -
  have "\<not> swiss_empty t" using p(1) by (auto simp: swiss_empty_def full_at_def)
  then have core: "swiss_core E t" and counts: "swiss_counts E t" using inv by (auto simp: swiss_inv_def)
  note s = coreD(1) [OF core]
  have pc: "p < cf_capacity t" "IsFull (cf_control t ! p)" using p(1) by (simp_all add: full_at_def)
  have len: "length (cf_slots t) = cf_capacity t" "p < length (cf_control t)" using table_shapeD(3,4) [OF s] pc by simp_all
  let ?sl = "(cf_slots t)[p := None]"
  define t0 where "t0 = t\<lparr>cf_size := cf_size t - 1\<rparr>"
  let ?before = "sz (p + 2 ^ 64 - W) AND cf_capacity t"
  let ?ea = "MaskEmpty (Group E) (map (window t p) [0..<W])"
  let ?eb = "MaskEmpty (Group E) (map (window t ?before) [0..<W])"
  define never where "never \<longleftrightarrow> mask_nonzero ?eb \<and> mask_nonzero ?ea \<and> TrailingZeros ?ea + LeadingZeros ?eb < W"
  define h where "h = (if never then kEmpty else kDeleted)"
  have t0: "swiss_core E t0" "full_at t0 p" "cf_capacity t0 = cf_capacity t" "cf_slots t0 = cf_slots t" "window t0 = window t"
    using core p(1) by (simp_all add: t0_def)
  have nv: "\<exists>j' < W. IsEmpty (window t0 pos j')" if "h = kEmpty" "pos \<le> cf_capacity t0" "j < W"
    "(pos + j) mod Suc (cf_capacity t0) = p" for pos j
  proof -
    have "never" using that(1) by (auto simp: h_def split: if_splits)
    then show ?thesis
      using was_never_full_windows [OF s pc(1) refl] that(2-4) unfolding t0(3,5) never_def by blast
  qed
  have h: "h = kEmpty \<or> h = kDeleted" by (simp add: h_def)
  have sl: "q < cf_capacity t0 \<Longrightarrow> q \<noteq> p \<Longrightarrow> ?sl ! q = cf_slots t0 ! q" "length ?sl = length (cf_slots t0)" for q
    by (simp_all add: t0(4))
  obtain c where c0: "SetCtrl E (t0\<lparr>cf_slots := ?sl\<rparr>) p h = Inr (t0\<lparr>cf_slots := ?sl, cf_control := c\<rparr>)"
    "swiss_core E (t0\<lparr>cf_slots := ?sl, cf_control := c\<rparr>)"
    "\<And>q. q \<le> cf_capacity t0 \<Longrightarrow> c ! q = (if q = p then h else cf_control t0 ! q)"
    by (rule unplace_core [OF t0(1,2) h, of ?sl]) (erule (3) nv, erule (1) sl(1), rule sl(2), rule that)
  have c3: "c ! q = (if q = p then h else cf_control t ! q)" if "q \<le> cf_capacity t" for q
    using c0(3) [of q] that by (simp add: t0_def)
  note c = c0(1,2) c3
  define g' where "g' = cf_growth_left t + (if never then 1 else 0)"
  define t' where "t' = t0\<lparr>cf_slots := ?sl, cf_control := c, cf_growth_left := g'\<rparr>"
  have byte: "cf_control t' ! q = (if q = p then h else cf_control t ! q)" if "q \<le> cf_capacity t" for q
    using c(3) [OF that] by (simp add: t'_def)
  have cap: "cf_capacity t' = cf_capacity t" "cf_size t' = cf_size t - 1" "cf_growth_left t' = g'" by (simp_all add: t'_def t0_def)
  have full: "full_at t' q \<longleftrightarrow> full_at t q \<and> q \<noteq> p" for q
    using byte [of q] by (auto simp: full_at_def cap h_def split: if_splits)
  obtain g where g: "CapacityToGrowth (Group E) (cf_capacity t) = Inr g"
    "g = cf_size t + card {q. q < cf_capacity t \<and> IsDeleted (cf_control t ! q)} + cf_growth_left t"
    "cf_size t = card {q. full_at t q}"
    using counts by (auto simp: swiss_counts_def)
  have pos: "0 < cf_size t" using p(1) g(3) by (auto simp: card_gt_0_iff)
  have counts': "swiss_counts E t'"
  proof -
    let ?D = "\<lambda>t. {q. q < cf_capacity t \<and> IsDeleted (cf_control t ! q)}"
    have "{q. full_at t' q} = {q. full_at t q} - {p}" using full by auto
    then have n: "card {q. full_at t' q} = cf_size t - 1" using p(1) g(3) by simp
    have np: "p \<notin> ?D t" using pc by auto
    have "?D t' = (if never then ?D t else insert p (?D t))"
      using byte pc by (auto simp: cap h_def split: if_splits)
    then have "card (?D t') + g' = card (?D t) + cf_growth_left t + 1" using np by (simp add: g'_def)
    then show ?thesis using g pos n cap unfolding swiss_counts_def by simp
  qed
  have core': "swiss_core E t'" using c(2) by (simp add: t'_def)
  have slot: "cf_slots t' ! q = cf_slots t ! q" if "q \<noteq> p" for q using that by (simp add: t'_def)
  have "elems t' = elems t - {x}"
  proof -
    have only: "q = p \<longleftrightarrow> y = x" if "full_at t q" "cf_slots t ! q = Some y" for q y
      using coreD(3) [OF core that(1) p(1)] that(2) p(2) by auto
    have "y \<in> elems t' \<longleftrightarrow> (\<exists>q. full_at t q \<and> q \<noteq> p \<and> cf_slots t ! q = Some y)" for y
      unfolding elems_def full mem_Collect_eq using slot by metis
    moreover have "(\<exists>q. full_at t q \<and> q \<noteq> p \<and> cf_slots t ! q = Some y) \<longleftrightarrow> y \<in> elems t \<and> y \<noteq> x" for y
      unfolding elems_def mem_Collect_eq using only by blast
    ultimately show ?thesis by blast
  qed
  moreover have "erase_at E t (Some p) = Inr t'"
  proof -
    have le: "?before \<le> cf_capacity t"
    proof -
      obtain k where "mask_capacity k (cf_capacity t)" using shape_mask [OF s] by blast
      from mask_capacity_sz_and [OF this] this show ?thesis
        by (simp only: mask_capacity_def) (metis less_Suc_eq_le mod_less_divisor zero_less_Suc)
    qed
    have bound: "g < 2 ^ 62" using growth_value(1) [OF s g(1)] table_shapeD(2) [OF s] by simp
    have sz: "sz (cf_size t + 2 ^ 64 - 1) = cf_size t - 1" using pos g(2) bound by (intro sz_diff) simp_all
    have sz2: "sz (cf_growth_left t + (if never then 1 else 0)) = g'" unfolding g'_def using g(2) bound by (intro sz_less) simp
    define u where "u = t0\<lparr>cf_slots := ?sl\<rparr>"
    have su: "table_shape E u" "cf_capacity u = cf_capacity t" "window u = window t" "cf_growth_left u = cf_growth_left t"
      using s by (simp_all add: u_def t0_def table_shape_def)
    have "EraseMetaOnly E (t\<lparr>cf_slots := ?sl\<rparr>) p = Inr t'"
    proof -
      have u: "(t\<lparr>cf_slots := ?sl\<rparr>)\<lparr>cf_size := sz (cf_size (t\<lparr>cf_slots := ?sl\<rparr>) + 2 ^ 64 - 1)\<rparr> = u"
        unfolding u_def t0_def using sz by simp
      have setc: "SetCtrl E u p h = Inr (u\<lparr>cf_control := c\<rparr>)" using c(1) by (simp add: u_def)
      have get: "array_get (cf_control (t\<lparr>cf_slots := ?sl\<rparr>)) p = Inr (cf_control t ! p)" using len(2) by simp
      have loads: "load_group E u p = Inr (map (window t p) [0..<W])"
        "load_group E u (sz (p + 2 ^ 64 - W) AND cf_capacity (t\<lparr>cf_slots := ?sl\<rparr>)) = Inr (map (window t ?before) [0..<W])"
        using load_group_window [OF su(1), of p] load_group_window [OF su(1), of ?before] le pc(1) su(2,3) by simp_all
      show ?thesis
        using EraseMetaOnly_step [OF get pc(2) u [symmetric] loads never_def setc [unfolded h_def]] sz2 su(4)
        by (simp add: t'_def u_def)
    qed
    moreover have "AssertIsFull E t (Some p) = Inr p" using pc len(2) by (simp add: AssertIsFull_def)
    moreover have "slot_read t p = Inr x" using p len pc by (simp add: slot_read_def)
    moreover have "slot_write t p None = Inr (t\<lparr>cf_slots := ?sl\<rparr>)" using len pc by (simp add: slot_write_def)
    ultimately show ?thesis by (simp add: erase_at_def)
  qed
  ultimately show ?thesis using core' counts' cap full slot by (auto simp: swiss_inv_def)
qed

theorem erase_key_correct:
  assumes inv: "swiss_inv E t"
  shows "\<exists>t'. erase_key E t x = Some (Inr (of_bool (x \<in> elems t), t')) \<and> swiss_inv E t' \<and> elems t' = elems t - {x} \<and>
    cf_capacity t' = cf_capacity t"
proof -
  obtain r where r: "find_key E t x = Some (Inr r)" "key_pos t x r" using find_key_inv [OF inv] by blast
  note at_end = found_is_end [OF inv r(2)]
  show ?thesis
  proof (cases r)
    case None
    then have "x \<notin> elems t" using r(2) by (simp add: key_pos_def)
    then show ?thesis using r(1) at_end inv by (auto simp: erase_key_def)
  next
    case (Some p)
    then have p: "full_at t p" "cf_slots t ! p = Some x" using r(2) by (simp_all add: key_pos_def)
    then have "x \<in> elems t" by (auto simp: elems_def)
    then show ?thesis using erase_position [OF inv p] r(1) at_end Some by (auto simp: erase_key_def)
  qed
qed

end

end
