(* ===== verification/Swiss_Iteration.thy ===== *)
theory Swiss_Iteration
  imports Swiss_Set
begin

text \<open>
  Iteration over a Swiss table and the operations built on it: the iterator visits every element once, in
  the order of the slots; \<open>operator==\<close> compares the sets of elements, the copy constructor makes a table
  with the same elements, and \<open>EraseIf\<close> keeps the elements that do not satisfy the predicate. The theory
  also has \<open>clear\<close>, \<open>rehash\<close> and \<open>reserve\<close>.
\<close>

section \<open>The iterator\<close>

text \<open>The next full position from \<open>pos\<close> on, and the elements from there on.\<close>

definition next_full :: "'a common_fields \<Rightarrow> nat \<Rightarrow> nat option" where
  "next_full t pos = find (full_at t) [pos..<cf_capacity t]"

definition elements_from :: "'a common_fields \<Rightarrow> nat \<Rightarrow> 'a list" where
  "elements_from t pos = map (\<lambda>p. the (cf_slots t ! p)) (filter (full_at t) [pos..<cf_capacity t])"

lemma next_full_skip:
  assumes "pos \<le> q" "\<And>r. pos \<le> r \<Longrightarrow> r < q \<Longrightarrow> \<not> full_at t r"
  shows "next_full t pos = next_full t q"
  using assms
proof (induction "q - pos" arbitrary: pos)
  case (Suc n)
  then have "next_full t (Suc pos) = next_full t q" by (intro Suc.hyps(1)) auto
  moreover have "\<not> full_at t pos" using Suc.prems Suc.hyps(2) by auto
  ultimately show ?case by (cases "pos < cf_capacity t") (auto simp: next_full_def upt_conv_Cons)
qed simp

lemma next_full_cases:
  obtains (none) "next_full t pos = None" "\<And>r. pos \<le> r \<Longrightarrow> \<not> full_at t r" "elements_from t pos = []"
  | (some) p where "next_full t pos = Some p" "pos \<le> p" "full_at t p" "\<And>r. pos \<le> r \<Longrightarrow> r < p \<Longrightarrow> \<not> full_at t r"
      "elements_from t pos = the (cf_slots t ! p) # elements_from t (Suc p)"
proof (induction "cf_capacity t - pos" arbitrary: pos thesis)
  case 0
  then show ?case by (intro 0(2)) (auto simp: next_full_def elements_from_def full_at_def)
next
  case (Suc n)
  then have lt: "pos < cf_capacity t" by simp
  show ?case
  proof (cases "full_at t pos")
    case True
    then show ?thesis using lt Suc.prems(2) [of pos] by (simp add: next_full_def elements_from_def upt_conv_Cons)
  next
    case False
    then have eq: "next_full t pos = next_full t (Suc pos)" "elements_from t pos = elements_from t (Suc pos)"
      using lt by (simp_all add: next_full_def elements_from_def upt_conv_Cons)
    have "n = cf_capacity t - Suc pos" using Suc.hyps(2) by simp
    then show ?thesis
    proof (rule Suc.hyps(1))
      assume "next_full t (Suc pos) = None" "\<And>r. Suc pos \<le> r \<Longrightarrow> \<not> full_at t r" "elements_from t (Suc pos) = []"
      then show ?thesis using Suc.prems(1) False eq by (metis le_less Suc_leI)
    next
      fix p assume "next_full t (Suc pos) = Some p" "Suc pos \<le> p" "full_at t p" "\<And>r. Suc pos \<le> r \<Longrightarrow> r < p \<Longrightarrow> \<not> full_at t r"
        "elements_from t (Suc pos) = the (cf_slots t ! p) # elements_from t (Suc p)"
      then show ?thesis using Suc.prems(2) [of p] False eq by (metis Suc_leD le_less Suc_leI)
    qed
  qed
qed

context swiss
begin

lemma skip_loop_correct:
  assumes s: "table_shape E t" and pos: "pos \<le> cf_capacity t"
  shows "\<exists>q. skip_loop E t pos = Some (Inr q) \<and> pos \<le> q \<and> q \<le> cf_capacity t \<and> \<not> IsEmptyOrDeleted (cf_control t ! q) \<and>
    (\<forall>r. pos \<le> r \<longrightarrow> r < q \<longrightarrow> \<not> full_at t r)"
  using pos
proof (induction "cf_capacity t - pos" arbitrary: pos rule: less_induct)
  case less
  have len: "pos < length (cf_control t)" using less.prems table_shapeD(3) [OF s] grp_width by auto
  show ?case
  proof (cases "IsEmptyOrDeleted (cf_control t ! pos)")
    case False
    then show ?thesis using less.prems len by (subst skip_loop.simps) auto
  next
    case True
    let ?g = "map (window t pos) [0..<W]"
    let ?n = "length (takeWhile IsEmptyOrDeleted ?g)"
    have W: "0 < W" using grp_width by auto
    have byte: "?g ! i = cf_control t ! (pos + i)" if "i < W" "pos + i \<le> cf_capacity t" for i
      using that by (simp add: window_def)
    have n: "CountLeadingEmptyOrDeleted (Group E) ?g = ?n" using grp_count_leading windows_valid [OF s] by simp
    have "IsEmptyOrDeleted (?g ! 0)" using True byte [of 0] W less.prems by simp
    then have "0 < ?n" using W by (cases ?g) (auto simp: takeWhile_eq_Nil_iff hd_conv_nth)
    have nW: "?n \<le> W" using length_takeWhile_le [of IsEmptyOrDeleted ?g] by simp
    have each: "IsEmptyOrDeleted (?g ! i)" if "i < ?n" for i
      using that by (metis nth_mem set_takeWhileD takeWhile_nth)
    have sentinel: "\<not> IsEmptyOrDeleted (cf_control t ! cf_capacity t)" using table_shapeD(5) [OF s] by simp
    have le: "pos + ?n \<le> cf_capacity t"
    proof (rule ccontr)
      assume "\<not> ?thesis"
      then have "cf_capacity t - pos < ?n" "pos + (cf_capacity t - pos) = cf_capacity t" using less.prems by linarith+
      then show False using each [of "cf_capacity t - pos"] byte [of "cf_capacity t - pos"] sentinel nW by simp
    qed
    have "cf_capacity t - (pos + ?n) < cf_capacity t - pos" using \<open>0 < ?n\<close> le by linarith
    from less.hyps [OF this le] obtain q where q: "skip_loop E t (pos + ?n) = Some (Inr q)" "pos + ?n \<le> q" "q \<le> cf_capacity t"
      "\<not> IsEmptyOrDeleted (cf_control t ! q)" "\<forall>r. pos + ?n \<le> r \<longrightarrow> r < q \<longrightarrow> \<not> full_at t r" by blast
    have "\<not> full_at t r" if "pos \<le> r" "r < pos + ?n" for r
    proof -
      have "r - pos < ?n" "r \<le> cf_capacity t" using that le by linarith+
      then show ?thesis using each [of "r - pos"] byte [of "r - pos"] that(1) nW by (auto simp: full_at_def)
    qed
    then have "\<forall>r. pos \<le> r \<longrightarrow> r < q \<longrightarrow> \<not> full_at t r" using q(5) by (meson not_le)
    moreover have "skip_loop E t pos = Some (Inr q)"
      using True len q(1) load_group_window [OF s less.prems] n by (subst skip_loop.simps) simp
    ultimately show ?thesis using q(2-4) by auto
  qed
qed

end


text \<open>A loop over a list with an exit.\<close>

fun run_until :: "('a \<Rightarrow> 's \<Rightarrow> 's run) \<Rightarrow> ('s \<Rightarrow> bool) \<Rightarrow> 'a list \<Rightarrow> 's \<Rightarrow> 's run" where
  "run_until body stop [] s = Some (Inr s)"
| "run_until body stop (x # xs) s =
     run_bind (body x s) (\<lambda>s'. if stop s' then Some (Inr s') else run_until body stop xs s')"

context swiss
begin

lemma skip_empty_or_deleted_correct:
  assumes "swiss_core E t" "pos \<le> cf_capacity t"
  shows "skip_empty_or_deleted E t pos = Some (Inr (next_full t pos))"
proof -
  note s = coreD(1) [OF assms(1)]
  obtain q where q: "skip_loop E t pos = Some (Inr q)" "pos \<le> q" "q \<le> cf_capacity t" "\<not> IsEmptyOrDeleted (cf_control t ! q)"
    "\<forall>r. pos \<le> r \<longrightarrow> r < q \<longrightarrow> \<not> full_at t r" using skip_loop_correct [OF s assms(2)] by blast
  have skip: "next_full t pos = next_full t q" using next_full_skip [OF q(2)] q(5) by blast
  have len: "q < length (cf_control t)" using q(3) table_shapeD(3) [OF s] grp_width by auto
  show ?thesis
  proof (cases "q = cf_capacity t")
    case True
    then show ?thesis using q(1) len skip table_shapeD(5) [OF s] by (simp add: skip_empty_or_deleted_def next_full_def)
  next
    case False
    then have lt: "q < cf_capacity t" using q(3) by simp
    then have "full_at t q" "cf_control t ! q \<noteq> kSentinel"
      using q(4) table_shapeD(6,7) [OF s lt] by (auto simp: full_at_def valid_ctrl_def)
    then show ?thesis using q(1) len skip lt by (simp add: skip_empty_or_deleted_def next_full_def upt_conv_Cons)
  qed
qed

lemma begin_it_correct:
  assumes "swiss_inv E t"
  shows "begin_it E t = Some (Inr (next_full t 0))"
proof (cases "swiss_empty t")
  case True
  then have "skip_loop E t 0 = Some (Inr 0)" by (subst skip_loop.simps) (simp add: swiss_empty_def kEmptyGroup_def)
  then show ?thesis using True by (simp add: begin_it_def skip_empty_or_deleted_def swiss_empty_def kEmptyGroup_def next_full_def)
qed (use assms skip_empty_or_deleted_correct in \<open>simp add: begin_it_def swiss_inv_def\<close>)

lemma iterator_at_full:
  assumes core: "swiss_core E t" and p: "full_at t p"
  shows "deref_it E t (Some p) = Inr (the (cf_slots t ! p))" "next_it E t (Some p) = Some (Inr (next_full t (Suc p)))"
    "it_eq E t (Some p) None = Inr False"
proof -
  note s = coreD(1) [OF core]
  obtain x where x: "cf_slots t ! p = Some x" using coreD(2) [OF core p] by blast
  have len: "p < length (cf_control t)" "p < cf_capacity t" "IsFull (cf_control t ! p)"
    using p table_shapeD(3) [OF s] by (auto simp: full_at_def)
  then have a: "AssertIsFull E t (Some p) = Inr p" by (simp add: AssertIsFull_def)
  then show "deref_it E t (Some p) = Inr (the (cf_slots t ! p))"
    using slot_read_full [OF s p x] x by (simp add: deref_it_def)
  show "next_it E t (Some p) = Some (Inr (next_full t (Suc p)))"
    using a skip_empty_or_deleted_correct [OF core, of "Suc p"] len by (simp add: next_it_def)
  show "it_eq E t (Some p) None = Inr False" using it_eq_full [OF s p, of None] by simp
qed

lemma iterate_from_correct:
  assumes core: "swiss_core E t"
  shows "iterate_from E t body stop (next_full t pos) s = run_until body stop (elements_from t pos) s"
proof (induction "cf_capacity t - pos" arbitrary: pos s rule: less_induct)
  case less
  show ?case
  proof (cases t pos rule: next_full_cases)
    case none
    then show ?thesis using it_eq_end coreD(1) [OF core] by (subst iterate_from.simps) simp
  next
    case (some p)
    have "cf_capacity t - Suc p < cf_capacity t - pos" using some(2,3) unfolding full_at_def by linarith
    then have IH: "iterate_from E t body stop (next_full t (Suc p)) s' = run_until body stop (elements_from t (Suc p)) s'" for s'
      by (rule less.hyps)
    show ?thesis
      unfolding some(1,5) using iterator_at_full [OF core some(3)] IH
      by (subst iterate_from.simps) (auto simp: run_bind_def split: option.splits sum.splits)
  qed
qed

lemma iterate_from_end: "swiss_inv E t \<Longrightarrow> iterate_from E t body stop None s = Some (Inr s)"
  using it_eq_end [OF inv_shape] by (subst iterate_from.simps) simp

text \<open>A range-based loop is the loop over the elements in the order of their slots.\<close>

theorem iterate_correct:
  assumes "swiss_inv E t"
  shows "iterate E t body stop s = run_until body stop (elements_from t 0) s"
proof (cases "swiss_empty t")
  case True
  then show ?thesis
    by (simp add: iterate_def begin_it_correct [OF assms] next_full_def elements_from_def swiss_empty_def iterate_from_end [OF assms])
next
  case False
  then show ?thesis using iterate_from_correct [of t body stop 0] assms by (simp add: iterate_def begin_it_correct swiss_inv_def)
qed

theorem elements_of_table:
  assumes "swiss_inv E t"
  shows "set (elements_from t 0) = elems t" "distinct (elements_from t 0)" "length (elements_from t 0) = cf_size t"
    "card (elems t) = cf_size t"
proof -
  let ?ps = "filter (full_at t) [0..<cf_capacity t]"
  have ps: "set ?ps = {p. full_at t p}" by (auto simp: full_at_def)
  have slot: "\<exists>x. cf_slots t ! p = Some x" if "full_at t p" for p
    using assms that coreD(2) by (fastforce simp: swiss_inv_def swiss_empty_def full_at_def)
  have inj: "p = q" if "full_at t p" "full_at t q" "cf_slots t ! p = cf_slots t ! q" for p q
    using assms that coreD(3) by (fastforce simp: swiss_inv_def swiss_empty_def full_at_def)
  have el: "the (cf_slots t ! p) = x \<longleftrightarrow> cf_slots t ! p = Some x" if "full_at t p" for p x using slot [OF that] by auto
  show set: "set (elements_from t 0) = elems t"
    using el unfolding elements_from_def set_map ps by (auto simp: elems_def image_iff) metis
  have "inj_on (\<lambda>p. the (cf_slots t ! p)) (set ?ps)"
    unfolding ps by (rule inj_onI) (metis inj el mem_Collect_eq slot)
  then show dist: "distinct (elements_from t 0)" by (simp add: elements_from_def distinct_map)
  have "length ?ps = card {p. full_at t p}" using distinct_card [of ?ps] unfolding ps by simp
  then show len: "length (elements_from t 0) = cf_size t"
    using assms by (auto simp: elements_from_def swiss_inv_def swiss_counts_def swiss_empty_def)
  show "card (elems t) = cf_size t" using distinct_card [OF dist] set len by simp
qed

end



section \<open>Comparison and conditional erasure\<close>

lemma has_element_find: "has_element E t x = run_bind (find_key E t x) (\<lambda>it. Some (Inr (it \<noteq> None)))"
  by (cases "probe_table t (hash_ref E x)") (simp_all add: has_element_def find_key_def find_hash_def)

lemma finite_elems: "finite (elems t)"
proof -
  have "elems t \<subseteq> (\<lambda>p. the (cf_slots t ! p)) ` {p. full_at t p}" by (force simp: elems_def)
  then show ?thesis by (rule finite_subset) simp
qed

lemma next_full_cong:
  assumes "cf_capacity t' = cf_capacity t" "\<And>q. pos \<le> q \<Longrightarrow> full_at t' q = full_at t q"
    "\<And>q. pos \<le> q \<Longrightarrow> cf_slots t' ! q = cf_slots t ! q"
  shows "next_full t' pos = next_full t pos" "elements_from t' pos = elements_from t pos"
proof -
  have "find (full_at t') [pos..<cf_capacity t] = find (full_at t) [pos..<cf_capacity t]"
    by (rule find_cong) (auto simp: assms(2))
  then show "next_full t' pos = next_full t pos" by (simp add: next_full_def assms(1))
  have "filter (full_at t') [pos..<cf_capacity t] = filter (full_at t) [pos..<cf_capacity t]"
    by (rule filter_cong) (auto simp: assms(2))
  then show "elements_from t' pos = elements_from t pos" using assms(1,3) by (auto simp: elements_from_def)
qed

context swiss
begin

lemma has_element_correct:
  assumes "swiss_inv E t"
  shows "has_element E t x = Some (Inr (x \<in> elems t))"
proof -
  obtain r where "find_key E t x = Some (Inr r)" "key_pos t x r" using find_key_inv [OF assms] by blast
  then show ?thesis using key_pos_iff [of t x r] by (simp add: has_element_find)
qed

lemma all_contained:
  assumes "swiss_inv E t"
  shows "run_until (\<lambda>elem equal. has_element E t elem) Not xs True = Some (Inr (set xs \<subseteq> elems t))"
  by (induction xs) (simp_all add: has_element_correct [OF assms])

theorem table_eq_correct:
  assumes a: "swiss_inv E a" and b: "swiss_inv E b"
  shows "table_eq E a b = Some (Inr (elems a = elems b))"
proof (cases "cf_size a = cf_size b")
  case False
  then show ?thesis using elements_of_table(4) [OF a] elements_of_table(4) [OF b] by (auto simp: table_eq_def)
next
  case True
  have card: "card (elems a) = card (elems b)" using True elements_of_table(4) [OF a] elements_of_table(4) [OF b] by simp
  then have "elems a \<subseteq> elems b \<longleftrightarrow> elems a = elems b" "elems b \<subseteq> elems a \<longleftrightarrow> elems a = elems b"
    using card_subset_eq [OF finite_elems] by (metis subset_refl)+
  then show ?thesis
    using True all_contained [OF a] all_contained [OF b] elements_of_table(1) [OF a] elements_of_table(1) [OF b]
    by (simp add: table_eq_def iterate_correct [OF a] iterate_correct [OF b])
qed

lemma erase_if_loop_end: "swiss_inv E t \<Longrightarrow> erase_if_loop E pred None t = Some (Inr t)"
  using it_eq_end [OF inv_shape] by (subst erase_if_loop.simps) simp

lemma erase_if_loop_correct:
  assumes "swiss_inv E t"
  shows "\<exists>t'. erase_if_loop E pred (next_full t pos) t = Some (Inr t') \<and> swiss_inv E t' \<and>
    elems t' = elems t - {x \<in> set (elements_from t pos). pred x}"
  using assms
proof (induction "cf_capacity t - pos" arbitrary: pos t rule: less_induct)
  case less
  show ?case
  proof (cases t pos rule: next_full_cases)
    case none
    then show ?thesis using less.prems by (simp add: erase_if_loop_end)
  next
    case (some p)
    have core: "swiss_core E t" using less.prems some(3) by (auto simp: swiss_inv_def swiss_empty_def full_at_def)
    obtain x where x: "cf_slots t ! p = Some x" using coreD(2) [OF core some(3)] by blast
    have dec: "cf_capacity t - Suc p < cf_capacity t - pos" using some(2,3) unfolding full_at_def by linarith
    note it = iterator_at_full [OF core some(3)]
    show ?thesis
    proof (cases "pred x")
      case False
      obtain t' where "erase_if_loop E pred (next_full t (Suc p)) t = Some (Inr t')" "swiss_inv E t'"
        "elems t' = elems t - {x \<in> set (elements_from t (Suc p)). pred x}"
        using less.hyps [OF dec less.prems] by blast
      moreover have "{y \<in> set (elements_from t pos). pred y} = {y \<in> set (elements_from t (Suc p)). pred y}"
        using some(5) x False by auto
      ultimately show ?thesis using it x False unfolding some(1) by (subst erase_if_loop.simps) simp
    next
      case True
      obtain t1 where t1: "erase_at E t (Some p) = Inr t1" "swiss_inv E t1" "elems t1 = elems t - {x}"
        "cf_capacity t1 = cf_capacity t" "\<And>q. full_at t1 q \<longleftrightarrow> full_at t q \<and> q \<noteq> p"
        "\<And>q. q \<noteq> p \<Longrightarrow> cf_slots t1 ! q = cf_slots t ! q"
        using erase_position [OF less.prems some(3) x] by blast
      have same: "next_full t1 (Suc p) = next_full t (Suc p)" "elements_from t1 (Suc p) = elements_from t (Suc p)"
        using next_full_cong [OF t1(4), of "Suc p"] t1(5,6) by auto
      have "cf_capacity t1 - Suc p < cf_capacity t - pos" using dec t1(4) by simp
      from less.hyps [OF this t1(2)] obtain t' where "erase_if_loop E pred (next_full t (Suc p)) t1 = Some (Inr t')" "swiss_inv E t'"
        "elems t' = elems t1 - {x \<in> set (elements_from t (Suc p)). pred x}"
        unfolding same by blast
      moreover have "{y \<in> set (elements_from t pos). pred y} = insert x {y \<in> set (elements_from t (Suc p)). pred y}"
        using some(5) x True by auto
      ultimately show ?thesis using it x True t1(1,3) unfolding some(1)
        by (subst erase_if_loop.simps) (simp add: Diff_insert2 [symmetric])
    qed
  qed
qed

lemma size_bound:
  assumes "swiss_inv E t"
  shows "cf_size t + cf_growth_left t \<le> cf_capacity t" "cf_capacity t < 2 ^ 62"
proof -
  show "cf_size t + cf_growth_left t \<le> cf_capacity t"
  proof (cases "swiss_empty t")
    case False
    then have "swiss_core E t" "swiss_counts E t" using assms by (auto simp: swiss_inv_def)
    then show ?thesis using growth_value(1) [OF coreD(1)] by (fastforce simp: swiss_counts_def)
  qed (simp add: swiss_empty_def)
  show "cf_capacity t < 2 ^ 62"
    using assms table_shapeD(2) [OF coreD(1)] by (auto simp: swiss_inv_def swiss_empty_def)
qed

theorem EraseIf_correct:
  assumes "swiss_inv E t"
  shows "\<exists>t'. EraseIf E pred t = Some (Inr (card {x \<in> elems t. pred x}, t')) \<and> swiss_inv E t' \<and>
    elems t' = {x \<in> elems t. \<not> pred x}"
proof -
  obtain t' where t': "erase_if_loop E pred (next_full t 0) t = Some (Inr t')" "swiss_inv E t'"
    "elems t' = elems t - {x \<in> elems t. pred x}"
    using erase_if_loop_correct [OF assms, of pred 0] elements_of_table(1) [OF assms] by auto
  have sub: "{x \<in> elems t. pred x} \<subseteq> elems t" by blast
  have fin: "finite {x \<in> elems t. pred x}" by (rule finite_subset [OF sub finite_elems])
  have "card (elems t') = card (elems t) - card {x \<in> elems t. pred x}"
    unfolding t'(3) by (rule card_Diff_subset [OF fin sub])
  then have "cf_size t' = cf_size t - card {x \<in> elems t. pred x}" "card {x \<in> elems t. pred x} \<le> cf_size t"
    using elements_of_table(4) [OF assms] elements_of_table(4) [OF t'(2)] card_mono [OF finite_elems sub] by simp_all
  moreover have "sz (cf_size t + 2 ^ 64 - cf_size t') = cf_size t - cf_size t'"
    using size_bound [OF assms] calculation by (intro sz_diff) simp_all
  ultimately have "EraseIf E pred t = Some (Inr (card {x \<in> elems t. pred x}, t'))"
    using t'(1) by (simp add: EraseIf_def begin_it_correct [OF assms])
  moreover have "elems t' = {x \<in> elems t. \<not> pred x}" using t'(3) by blast
  ultimately show ?thesis using t'(2) by blast
qed

end



section \<open>Clearing and reserving\<close>

lemma for_each_upt:
  assumes "P 0 s" and "\<And>i s. i < n \<Longrightarrow> P i s \<Longrightarrow> \<exists>s'. body i s = Inr s' \<and> P (Suc i) s'"
  shows "\<exists>s'. for_each body [0..<n] s = Inr s' \<and> P n s'"
  using assms(2)
proof (induction n)
  case (Suc n)
  then obtain s1 where "for_each body [0..<n] s = Inr s1" "P n s1" by force
  moreover from this Suc.prems [of n s1] obtain s2 where "body n s1 = Inr s2" "P (Suc n) s2" by blast
  ultimately show ?case by (simp add: for_each_append)
qed (use assms(1) in simp)

lemma or_nat_le: "(a::nat) \<le> a OR b" "b \<le> a OR b"
proof -
  have "int a \<le> int (a OR b)" by (simp add: of_nat_or_eq or_greater_eq)
  then show "a \<le> a OR b" by simp
  have "int b \<le> int (b OR a)" by (simp add: of_nat_or_eq or_greater_eq)
  then show "b \<le> a OR b" by (simp add: or.commute)
qed

lemma or_nat_less: "(a::nat) < 2 ^ n \<Longrightarrow> b < 2 ^ n \<Longrightarrow> a OR b < 2 ^ n"
proof -
  assume "a < 2 ^ n" "b < 2 ^ n"
  then have "int a < 2 ^ n" "int b < 2 ^ n" by simp_all
  then have "int a OR int b < 2 ^ n" by (intro OR_upper) simp_all
  then have "int (a OR b) < int (2 ^ n)" by (simp add: of_nat_or_eq)
  then show ?thesis by (simp only: of_nat_less_iff)
qed

context swiss
begin

lemma destroy_slots_total:
  assumes core: "swiss_core E t"
  shows "\<exists>s. destroy_slots t = Inr (t\<lparr>cf_slots := s\<rparr>) \<and> length s = cf_capacity t"
proof -
  note s = coreD(1) [OF core]
  define P where "P = (\<lambda>i u. \<exists>sl. u = t\<lparr>cf_slots := sl\<rparr> \<and> length sl = cf_capacity t \<and> (\<forall>q \<ge> i. sl ! q = cf_slots t ! q))"
  have "P 0 t" using table_shapeD(4) [OF s] unfolding P_def by (intro exI [of _ "cf_slots t"]) simp
  moreover have "\<exists>u'. destroy_slot i u = Inr u' \<and> P (Suc i) u'" if i: "i < cf_capacity t" and u: "P i u" for i u
  proof -
    obtain sl where sl: "u = t\<lparr>cf_slots := sl\<rparr>" "length sl = cf_capacity t" "\<forall>q \<ge> i. sl ! q = cf_slots t ! q"
      using u by (auto simp: P_def)
    have len: "i < length (cf_control t)" using i table_shapeD(3) [OF s] by simp
    show ?thesis
    proof (cases "IsFull (cf_control t ! i)")
      case True
      then obtain x where "cf_slots t ! i = Some x" using coreD(2) [OF core, of i] i by (auto simp: full_at_def)
      then have "destroy_slot i u = Inr (t\<lparr>cf_slots := sl[i := None]\<rparr>)"
        using True len i sl by (simp add: destroy_slot_def slot_read_def slot_write_def)
      moreover have "P (Suc i) (t\<lparr>cf_slots := sl[i := None]\<rparr>)"
        unfolding P_def using sl by (intro exI [of _ "sl[i := None]"]) simp
      ultimately show ?thesis by blast
    next
      case False
      then have "destroy_slot i u = Inr u" using len sl by (simp add: destroy_slot_def)
      moreover have "P (Suc i) u" using sl unfolding P_def by auto
      ultimately show ?thesis by blast
    qed
  qed
  ultimately have "\<exists>u. for_each destroy_slot [0..<cf_capacity t] t = Inr u \<and> P (cf_capacity t) u" by (rule for_each_upt)
  then show ?thesis by (auto simp: destroy_slots_def P_def)
qed

lemma fresh_counts:
  assumes "swiss_core E t" "\<And>p. \<not> full_at t p" "\<And>p. p < cf_capacity t \<Longrightarrow> cf_control t ! p = kEmpty" "cf_size t = 0"
    "CapacityToGrowth (Group E) (cf_capacity t) = Inr (cf_growth_left t)"
  shows "swiss_inv E t" "elems t = {}"
proof -
  have "{p. p < cf_capacity t \<and> IsDeleted (cf_control t ! p)} = {}" using assms(3) by auto
  then show "swiss_inv E t" using assms by (simp add: swiss_inv_def swiss_counts_def)
  show "elems t = {}" using assms(2) by (simp add: elems_def)
qed

theorem clear_correct:
  assumes inv: "swiss_inv E t"
  shows "\<exists>t'. clear E t = Inr t' \<and> swiss_inv E t' \<and> elems t' = {} \<and> cf_size t' = 0 \<and> cf_capacity t' \<le> cf_capacity t"
proof (cases "swiss_empty t")
  case True
  then show ?thesis using inv elems_empty by (auto simp: clear_def swiss_empty_def)
next
  case False
  then have core: "swiss_core E t" and counts: "swiss_counts E t" using inv by (auto simp: swiss_inv_def)
  note s = coreD(1) [OF core]
  obtain sl where sl: "destroy_slots t = Inr (t\<lparr>cf_slots := sl\<rparr>)" "length sl = cf_capacity t"
    using destroy_slots_total [OF core] by blast
  define t0 where "t0 = t\<lparr>cf_slots := sl, cf_size := 0\<rparr>"
  have pos: "0 < cf_capacity t" by (rule table_shapeD(1) [OF s])
  show ?thesis
  proof (cases "cf_capacity t < 128")
    case True
    obtain g where g: "CapacityToGrowth (Group E) (cf_capacity t) = Inr g" using counts by (auto simp: swiss_counts_def)
    obtain t' where t': "ResetCtrl E t0 = Inr t'" "swiss_core E t'" "\<And>p. \<not> full_at t' p"
      "\<And>p. p < cf_capacity t0 \<Longrightarrow> cf_control t' ! p = kEmpty" "cf_capacity t' = cf_capacity t0" "cf_size t' = cf_size t0"
      "cf_growth_left t' = g - cf_size t0"
      by (rule ResetCtrl_fresh [of t0 g])
        (use shape_valid [OF s] table_shapeD(2) [OF s] g sl(2) in \<open>simp_all add: t0_def\<close>)
    then have "swiss_inv E t'" "elems t' = {}" using fresh_counts [OF t'(2,3)] t'(4-7) g by (simp_all add: t0_def)
    moreover have "clear E t = Inr t'"
      using True pos sl(1) t'(1) by (simp add: clear_def Let_def ClearBackingArray_def t0_def)
    ultimately show ?thesis using t'(5,6) by (simp add: t0_def)
  next
    case False
    then show ?thesis using pos sl(1) elems_empty
      by (auto simp: clear_def Let_def ClearBackingArray_def swiss_inv_def swiss_empty_def elems_def full_at_def)
  qed
qed

lemma growth_exists: "IsValidCapacity c \<Longrightarrow> \<exists>g. CapacityToGrowth (Group E) c = Inr g"
  by (cases "W = 8 \<and> c = 7") (auto simp: CapacityToGrowth_def)

text \<open>A normalized capacity that is at least the lower bound for \<open>n\<close> elements has room for them.\<close>

lemma normalized_room:
  assumes "GrowthToLowerboundCapacity (Group E) n = Inr lb" "n < 2 ^ 58" "lb \<le> m" "m < 2 ^ 60"
  obtains g where "IsValidCapacity (NormalizeCapacity m)" "NormalizeCapacity m < 2 ^ 62" "m \<le> NormalizeCapacity m"
    "CapacityToGrowth (Group E) (NormalizeCapacity m) = Inr g" "n \<le> g"
proof -
  have m: "m < 2 ^ 64" using assms(4) by simp
  note N = NormalizeCapacity_least [OF m]
  obtain g where g: "CapacityToGrowth (Group E) (NormalizeCapacity m) = Inr g" using growth_exists [OF N(1)] by blast
  have "NormalizeCapacity m < 2 ^ 62"
    using N(5) assms(4) by (cases "m = 0") (auto simp: NormalizeCapacity_def)
  moreover have "n \<le> g" using growth_galois [OF N(1,3) _ g assms(1)] assms(2,3) N(2) by simp
  ultimately show ?thesis using that N(1,2) g by blast
qed

lemma lowerbound_small:
  assumes "n < 2 ^ 58"
  obtains lb where "GrowthToLowerboundCapacity (Group E) n = Inr lb" "lb < 2 ^ 60"
proof -
  have "n < 2 ^ 62" using assms by simp
  from GrowthToLowerboundCapacity_small [OF this, of "Group E"] show ?thesis
    using assms by (intro that) (auto split: if_splits)
qed

theorem rehash_correct:
  assumes inv: "swiss_inv E t" and cap: "cf_capacity t < 2 ^ 58" and n: "n < 2 ^ 58"
  shows "\<exists>t'. rehash E t n = Some (Inr t') \<and> swiss_inv E t' \<and> elems t' = elems t \<and> n \<le> cf_capacity t'"
proof -
  have size: "cf_size t < 2 ^ 58" using size_bound(1) [OF inv] cap by simp
  obtain lb where lb: "GrowthToLowerboundCapacity (Group E) (cf_size t) = Inr lb" "lb < 2 ^ 60"
    by (rule lowerbound_small [OF size])
  have or: "lb \<le> n OR lb" "n \<le> n OR lb" by (rule or_nat_le)+
  have "n OR lb < 2 ^ 60" using n lb(2) by (intro or_nat_less) simp_all
  then obtain g where g: "IsValidCapacity (NormalizeCapacity (n OR lb))" "NormalizeCapacity (n OR lb) < 2 ^ 62"
    "n OR lb \<le> NormalizeCapacity (n OR lb)" "CapacityToGrowth (Group E) (NormalizeCapacity (n OR lb)) = Inr g" "cf_size t \<le> g"
    by (rule normalized_room [OF lb(1) size or(1)]) (rule that)
  consider (a) "n = 0" "cf_capacity t = 0" | (b) "n = 0" "cf_capacity t \<noteq> 0" "cf_size t = 0"
    | (c) "\<not> (n = 0 \<and> (cf_capacity t = 0 \<or> cf_size t = 0))" by linarith
  then show ?thesis
  proof cases
    case a
    then show ?thesis using inv by (simp add: rehash_def)
  next
    case b
    then have "elems t = {}" using elements_of_table(4) [OF inv] finite_elems [of t] by simp
    then show ?thesis using b
      by (simp add: rehash_def ClearBackingArray_def Let_def swiss_inv_def swiss_empty_def elems_def full_at_def)
  next
    case c
    obtain t' where t': "resize E t (NormalizeCapacity (n OR lb)) = Some (Inr t')" "swiss_core E t'" "swiss_counts E t'"
      "elems t' = elems t" "cf_capacity t' = NormalizeCapacity (n OR lb)"
      using resize_correct [OF inv g(1,2,4,5)] by blast
    have r: "rehash E t n = (if n = 0 \<or> NormalizeCapacity (n OR lb) > cf_capacity t then Some (Inr t') else Some (Inr t))"
      using c lb(1) t'(1) by (auto simp: rehash_def Let_def)
    show ?thesis
    proof (cases "n = 0 \<or> NormalizeCapacity (n OR lb) > cf_capacity t")
      case True
      then show ?thesis using r t' or(2) g(3) by (auto simp: swiss_inv_def)
    next
      case False
      then show ?thesis using r inv or(2) g(3) by auto
    qed
  qed
qed

theorem reserve_correct:
  assumes inv: "swiss_inv E t" and n: "n < 2 ^ 58"
  shows "\<exists>t'. reserve E t n = Some (Inr t') \<and> swiss_inv E t' \<and> elems t' = elems t \<and> n \<le> cf_size t' + cf_growth_left t' \<and>
    cf_size t' = cf_size t \<and> cf_capacity t' \<le> max (cf_capacity t) (4 * n + 16) \<and> (cf_capacity t = 0 \<longrightarrow> 0 < n \<longrightarrow>
      swiss_core E t' \<and> CapacityToGrowth (Group E) (cf_capacity t') = Inr (cf_growth_left t'))"
proof -
  have sz: "sz (cf_size t + cf_growth_left t) = cf_size t + cf_growth_left t" using size_bound [OF inv] by (intro sz_less) simp
  show ?thesis
  proof (cases "n > cf_size t + cf_growth_left t")
    case False
    then show ?thesis using inv sz size_bound(1) [OF inv] by (auto simp: reserve_def)
  next
    case True
    obtain lb where lb: "GrowthToLowerboundCapacity (Group E) n = Inr lb" "lb < 2 ^ 60" by (rule lowerbound_small [OF n])
    obtain g where g: "IsValidCapacity (NormalizeCapacity lb)" "NormalizeCapacity lb < 2 ^ 62" "lb \<le> NormalizeCapacity lb"
      "CapacityToGrowth (Group E) (NormalizeCapacity lb) = Inr g" "n \<le> g"
      by (rule normalized_room [OF lb(1) n order_refl lb(2)]) (rule that)
    have "cf_size t \<le> g" using True g(5) by simp
    from resize_correct [OF inv g(1,2,4) this] obtain t' where "resize E t (NormalizeCapacity lb) = Some (Inr t')" "swiss_core E t'"
      "swiss_counts E t'" "elems t' = elems t" "cf_capacity t' = NormalizeCapacity lb" "cf_size t' = cf_size t"
      "cf_growth_left t' = g - cf_size t" by blast
    moreover have "NormalizeCapacity lb \<le> 4 * n + 16"
    proof -
      have "n < 2 ^ 62" "lb < 2 ^ 64" using n lb(2) by simp_all
      then show ?thesis using lb(1) GrowthToLowerboundCapacity_small [of n "Group E"] NormalizeCapacity_least(5) [of lb]
        by (cases "lb = 0") (auto simp: NormalizeCapacity_def split: if_splits)
    qed
    ultimately show ?thesis using True sz lb(1) g(4,5) size_bound(1) [OF inv] by (auto simp: reserve_def swiss_inv_def)
  qed
qed

end

section \<open>Copying\<close>

context swiss
begin

lemma copy_element_places:
  assumes core: "swiss_core E t" and fresh: "x \<notin> elems t" and nd: "\<forall>p < cf_capacity t. \<not> IsDeleted (cf_control t ! p)"
    and g: "CapacityToGrowth (Group E) (cf_capacity t) = Inr g" "card {p. full_at t p} < g"
  shows "\<exists>t'. copy_element E x t = Some (Inr t') \<and> swiss_core E t' \<and> elems t' = insert x (elems t) \<and>
    card {p. full_at t' p} = Suc (card {p. full_at t p}) \<and> (\<forall>p < cf_capacity t'. \<not> IsDeleted (cf_control t' ! p)) \<and>
    cf_capacity t' = cf_capacity t \<and> cf_size t' = cf_size t \<and> cf_growth_left t' = cf_growth_left t"
proof -
  note s = coreD(1) [OF core]
  have "card {p. full_at t p} < cf_capacity t" using g(2) growth_value(1) [OF s g(1)] by simp
  then obtain p l c t1 t' where t':
    "find_first_non_full E t (hash_ref E x) = Some (Inr (\<lparr>fi_offset = p, fi_probe_length = l\<rparr>, t\<lparr>seed_counter := c\<rparr>))"
    "SetCtrl E (t\<lparr>seed_counter := c\<rparr>) p (H2 (hash_ref E x)) = Inr t1" "slot_write t1 p (Some x) = Inr t'"
    "swiss_core E t'" "elems t' = insert x (elems t)" "card {q. full_at t' q} = Suc (card {q. full_at t q})"
    "full_at t' p \<and> cf_slots t' ! p = Some x"
    "\<forall>q < cf_capacity t. IsDeleted (cf_control t' ! q) \<longrightarrow> IsDeleted (cf_control t ! q)"
    "cf_capacity t' = cf_capacity t" "cf_size t' = cf_size t" "cf_growth_left t' = cf_growth_left t"
    by (rule place_free [OF core fresh]) (rule that)
  have nd': "\<forall>p < cf_capacity t'. \<not> IsDeleted (cf_control t' ! p)" using t'(8,9) nd by auto
  have "has_room E t'"
  proof (cases "is_small E (cf_capacity t)")
    case False
    have none: "{p. p < cf_capacity t' \<and> IsDeleted (cf_control t' ! p)} = {}" using nd' by blast
    have "card {p. full_at t' p} < cf_capacity t'" using t'(6,9) g(2) growth_value(2) [OF s g(1) False] by simp
    then show ?thesis
      using empty_slot_exists [OF coreD(1) [OF t'(4)], unfolded none] by (simp add: has_room_def)
  qed (simp add: has_room_def t'(9))
  then obtain r where r: "find_key E t' x = Some (Inr r)" "key_pos t' x r" using find_key_correct [OF t'(4)] by blast
  have "r = Some p"
    using r(2) t'(5,7) coreD(3) [OF t'(4)] by (cases r) (auto simp: key_pos_def)
  moreover have "it_eq E t' (Some p) (Some p) = Inr True"
    using it_eq_full [OF coreD(1) [OF t'(4)], of p "Some p"] t'(7) by simp
  ultimately have "copy_element E x t = Some (Inr t')"
    using t'(1-3) r(1) by (simp add: copy_element_def emplace_at_def Let_def)
  then show ?thesis using t'(4-6,9-11) nd' by blast
qed

lemma copy_elements:
  assumes "swiss_core E t" "\<forall>p < cf_capacity t. \<not> IsDeleted (cf_control t ! p)" "distinct xs" "set xs \<inter> elems t = {}"
    "CapacityToGrowth (Group E) (cf_capacity t) = Inr g" "card {p. full_at t p} + length xs \<le> g"
  shows "\<exists>t'. run_until (copy_element E) (\<lambda>_. False) xs t = Some (Inr t') \<and> swiss_core E t' \<and> elems t' = elems t \<union> set xs \<and>
    card {p. full_at t' p} = card {p. full_at t p} + length xs \<and> (\<forall>p < cf_capacity t'. \<not> IsDeleted (cf_control t' ! p)) \<and>
    cf_capacity t' = cf_capacity t \<and> cf_size t' = cf_size t \<and> cf_growth_left t' = cf_growth_left t"
  using assms
proof (induction xs arbitrary: t)
  case (Cons x xs)
  then have "x \<notin> elems t" "card {p. full_at t p} < g" by auto
  with copy_element_places [OF Cons.prems(1) _ Cons.prems(2,5)] obtain t1 where t1:
    "copy_element E x t = Some (Inr t1)" "swiss_core E t1" "elems t1 = insert x (elems t)"
    "card {p. full_at t1 p} = Suc (card {p. full_at t p})" "\<forall>p < cf_capacity t1. \<not> IsDeleted (cf_control t1 ! p)"
    "cf_capacity t1 = cf_capacity t" "cf_size t1 = cf_size t" "cf_growth_left t1 = cf_growth_left t" by blast
  have "set xs \<inter> elems t1 = {}" "distinct xs" "CapacityToGrowth (Group E) (cf_capacity t1) = Inr g"
    "card {p. full_at t1 p} + length xs \<le> g" using Cons.prems t1 by auto
  with Cons.IH [OF t1(2,5)] obtain t' where "run_until (copy_element E) (\<lambda>_. False) xs t1 = Some (Inr t')" "swiss_core E t'"
    "elems t' = elems t1 \<union> set xs" "card {p. full_at t' p} = card {p. full_at t1 p} + length xs"
    "\<forall>p < cf_capacity t'. \<not> IsDeleted (cf_control t' ! p)"
    "cf_capacity t' = cf_capacity t1" "cf_size t' = cf_size t1" "cf_growth_left t' = cf_growth_left t1" by blast
  then show ?case using t1 by auto
qed simp

theorem raw_hash_set_copy_correct:
  assumes inv: "swiss_inv E that" and n: "cf_size that < 2 ^ 58"
  shows "\<exists>t. raw_hash_set_copy E that = Some (Inr t) \<and> swiss_inv E t \<and> elems t = elems that \<and> cf_size t = cf_size that"
proof -
  let ?xs = "elements_from that 0" and ?n = "cf_size that"
  note xs = elements_of_table [OF inv]
  define t0 where "t0 = (CommonFields E)\<lparr>allocations := allocations that, seed_counter := seed_counter that\<rparr>"
  have t0: "swiss_empty t0" "swiss_inv E t0" "elems t0 = {}"
    by (simp_all add: t0_def swiss_inv_def swiss_empty_def CommonFields_def elems_def full_at_def)
  obtain t1 where t1: "reserve E t0 ?n = Some (Inr t1)" "swiss_inv E t1" "elems t1 = {}" "?n \<le> cf_growth_left t1" "cf_size t1 = 0"
    "0 < ?n \<longrightarrow> swiss_core E t1 \<and> CapacityToGrowth (Group E) (cf_capacity t1) = Inr (cf_growth_left t1)"
    using reserve_correct [OF t0(2) n] t0 by (auto simp: swiss_empty_def)
  show ?thesis
  proof (cases "?n = 0")
    case True
    then have "?xs = []" using xs(3) by simp
    moreover have "t1 = t0" using t1(1) True t0(1) by (simp add: reserve_def)
    ultimately have "raw_hash_set_copy E that = Some (Inr (t0\<lparr>cf_size := 0, cf_growth_left := 0\<rparr>))"
      using t1(1) True t0(1) by (simp add: raw_hash_set_copy_def iterate_correct [OF inv] swiss_empty_def sz_def flip: t0_def)
    moreover have "t0\<lparr>cf_size := 0, cf_growth_left := 0\<rparr> = t0" using t0(1) by (simp add: swiss_empty_def)
    moreover have "elems that = {}" using True xs(1) \<open>?xs = []\<close> by simp
    ultimately show ?thesis using True t0 by (auto simp: swiss_empty_def)
  next
    case False
    let ?g = "cf_growth_left t1"
    have core: "swiss_core E t1" and g: "CapacityToGrowth (Group E) (cf_capacity t1) = Inr ?g" using t1(6) False by auto
    have "swiss_counts E t1"
      using t1(2) table_shapeD(1) [OF coreD(1) [OF core]] by (auto simp: swiss_inv_def swiss_empty_def)
    then have full: "card {p. full_at t1 p} = 0" and "card {p. p < cf_capacity t1 \<and> IsDeleted (cf_control t1 ! p)} = 0"
      using g t1(5) by (auto simp: swiss_counts_def)
    then have nd: "\<forall>p < cf_capacity t1. \<not> IsDeleted (cf_control t1 ! p)" by auto
    obtain t2 where t2: "run_until (copy_element E) (\<lambda>_. False) ?xs t1 = Some (Inr t2)" "swiss_core E t2" "elems t2 = set ?xs"
      "card {p. full_at t2 p} = ?n" "\<forall>p < cf_capacity t2. \<not> IsDeleted (cf_control t2 ! p)"
      "cf_capacity t2 = cf_capacity t1" "cf_growth_left t2 = ?g"
      using copy_elements [OF core nd xs(2) _ g] t1(3,4) xs(3) full by auto
    define t where "t = t2\<lparr>cf_size := ?n, cf_growth_left := ?g - ?n\<rparr>"
    have "?g < 2 ^ 64" using size_bound [OF t1(2)] by simp
    then have "sz (?g + 2 ^ 64 - ?n) = ?g - ?n" using t1(4) by (intro sz_diff)
    then have run: "raw_hash_set_copy E that = Some (Inr t)"
      using t1(1) t2(1,7) by (simp add: raw_hash_set_copy_def iterate_correct [OF inv] t_def flip: t0_def)
    have "{p. p < cf_capacity t2 \<and> IsDeleted (cf_control t2 ! p)} = {}" using t2(5) by blast
    then have "swiss_counts E t" using g t1(4) t2(4,6) by (simp add: swiss_counts_def t_def)
    moreover have "swiss_core E t" "elems t = elems that" "cf_size t = ?n" using t2(2,3) xs(1) by (simp_all add: t_def)
    ultimately show ?thesis using run by (auto simp: swiss_inv_def)
  qed
qed

end


end
