(* ===== verification/Swiss_Refinement.thy ===== *)
theory Swiss_Refinement
  imports Swiss_Iteration
begin

text \<open>
  The Swiss table as a set: any sequence of insertions, erasures, lookups and \<open>clear\<close> on a table gives the
  answers of the same sequence on a mathematical set. The contract is the locale \<open>set_machine\<close>; the
  table meets it for each of the group implementations.
\<close>

section \<open>Operations on a set\<close>

datatype 'a set_op = Insert 'a | Erase 'a | Lookup 'a | Clear

fun set_step :: "'a set_op \<Rightarrow> 'a set \<Rightarrow> 'a set \<times> bool" where
  "set_step (Insert x) S = (insert x S, x \<notin> S)"
| "set_step (Erase x) S = (S - {x}, x \<in> S)"
| "set_step (Lookup x) S = (S, x \<in> S)"
| "set_step Clear S = ({}, False)"

fun table_step :: "'a table_env \<Rightarrow> 'a set_op \<Rightarrow> 'a common_fields \<Rightarrow> ('a common_fields \<times> bool) run" where
  "table_step E (Insert x) t = run_bind (emplace E t x) (\<lambda>(p, inserted, t'). Some (Inr (t', inserted)))"
| "table_step E (Erase x) t = run_bind (erase_key E t x) (\<lambda>(n, t'). Some (Inr (t', n \<noteq> 0)))"
| "table_step E (Lookup x) t = run_bind (contains E t x) (\<lambda>b. Some (Inr (t, b)))"
| "table_step E Clear t = run_bind (Some (clear E t)) (\<lambda>t'. Some (Inr (t', False)))"

text \<open>A sequence of operations, on a set and on a table, with the answers.\<close>

fun set_run :: "('op \<Rightarrow> 's \<Rightarrow> 's \<times> 'r) \<Rightarrow> 'op list \<Rightarrow> 's \<Rightarrow> 's \<times> 'r list" where
  "set_run step [] s = (s, [])"
| "set_run step (x # xs) s =
     (let (s', r) = step x s; (s'', rs) = set_run step xs s' in (s'', r # rs))"

fun table_run :: "('op \<Rightarrow> 't \<Rightarrow> ('t \<times> 'r) run) \<Rightarrow> 'op list \<Rightarrow> 't \<Rightarrow> ('t \<times> 'r list) run" where
  "table_run step [] t = Some (Inr (t, []))"
| "table_run step (x # xs) t =
     run_bind (step x t) (\<lambda>(t', r). run_bind (table_run step xs t') (\<lambda>(t'', rs). Some (Inr (t'', r # rs))))"

text \<open>The contract: the invariant carries the number of operations that may still come.\<close>

locale set_machine =
  fixes step :: "'op \<Rightarrow> 't \<Rightarrow> ('t \<times> 'r) run"
    and abstract_step :: "'op \<Rightarrow> 's \<Rightarrow> 's \<times> 'r"
    and abstraction :: "'t \<Rightarrow> 's"
    and budget :: "nat \<Rightarrow> 't \<Rightarrow> bool"
  assumes simulation: "budget (Suc n) t \<Longrightarrow>
    \<exists>t'. step x t = Some (Inr (t', snd (abstract_step x (abstraction t)))) \<and>
      abstraction t' = fst (abstract_step x (abstraction t)) \<and> budget n t'"
begin

theorem run_refines:
  assumes "budget (length xs + n) t"
  shows "\<exists>t'. table_run step xs t = Some (Inr (t', snd (set_run abstract_step xs (abstraction t)))) \<and>
    abstraction t' = fst (set_run abstract_step xs (abstraction t)) \<and> budget n t'"
  using assms
proof (induction xs arbitrary: t)
  case (Cons x xs)
  from Cons.prems obtain t1 where t1: "step x t = Some (Inr (t1, snd (abstract_step x (abstraction t))))"
    "abstraction t1 = fst (abstract_step x (abstraction t))" "budget (length xs + n) t1"
    using simulation by force
  from Cons.IH [OF t1(3)] t1 show ?case by (auto simp: Let_def split: prod.splits)
qed simp

end

section \<open>The table meets the contract\<close>

text \<open>The capacity never reaches \<open>2 ^ 58\<close>, whatever the remaining operations insert.\<close>

definition table_budget :: "'a table_env \<Rightarrow> nat \<Rightarrow> 'a common_fields \<Rightarrow> bool" where
  "table_budget E n t \<longleftrightarrow> swiss_inv E t \<and> cf_capacity t < 2 ^ 58 \<and> 3 * (cf_size t + n) + 33 < 2 ^ 58"

lemma table_budget_empty: "n < 2 ^ 56 \<Longrightarrow> table_budget E n (CommonFields E)"
  by (simp add: table_budget_def swiss_inv_def swiss_empty_def CommonFields_def)

context swiss
begin

lemma size_insert:
  assumes "swiss_inv E t" "swiss_inv E t'" "elems t' = insert x (elems t)"
  shows "cf_size t' \<le> Suc (cf_size t)"
  using elements_of_table(4) [OF assms(1)] elements_of_table(4) [OF assms(2)] assms(3)
  by (simp add: card_insert_if [OF finite_elems] split: if_splits)

lemma emplace_budget:
  assumes "table_budget E (Suc n) t"
  shows "\<exists>p t'. emplace E t x = Some (Inr (p, x \<notin> elems t, t')) \<and> elems t' = insert x (elems t) \<and> table_budget E n t'"
proof -
  have t: "swiss_inv E t" "cf_capacity t < 2 ^ 58" "3 * (cf_size t + Suc n) + 33 < 2 ^ 58"
    using assms by (simp_all add: table_budget_def)
  obtain p t' where t': "emplace E t x = Some (Inr (p, x \<notin> elems t, t'))" "swiss_inv E t'" "elems t' = insert x (elems t)"
    "cf_capacity t' \<le> max (cf_capacity t) (3 * cf_size t + 33)"
    using emplace_correct [OF t(1,2), of x] by blast
  have "cf_size t' \<le> Suc (cf_size t)" by (rule size_insert [OF t(1) t'(2,3)])
  then show ?thesis using t' t(2,3) by (auto simp: table_budget_def)
qed

end

sublocale swiss \<subseteq> set_machine "table_step E" set_step elems "table_budget E"
proof
  fix n t x
  assume b: "table_budget E (Suc n) t"
  then have inv: "swiss_inv E t" by (simp add: table_budget_def)
  show "\<exists>t'. table_step E x t = Some (Inr (t', snd (set_step x (elems t)))) \<and> elems t' = fst (set_step x (elems t)) \<and>
    table_budget E n t'"
  proof (cases x)
    case (Insert y)
    then show ?thesis using emplace_budget [OF b, of y] by auto
  next
    case (Erase y)
    obtain t' where t': "erase_key E t y = Some (Inr (of_bool (y \<in> elems t), t'))" "swiss_inv E t'" "elems t' = elems t - {y}"
      "cf_capacity t' = cf_capacity t" using erase_key_correct [OF inv, of y] by blast
    have "cf_size t' \<le> cf_size t"
      using elements_of_table(4) [OF inv] elements_of_table(4) [OF t'(2)] card_mono [OF finite_elems, of "elems t'" t] t'(3) by auto
    then show ?thesis using Erase t' b by (auto simp: table_budget_def)
  next
    case (Lookup y)
    then show ?thesis using contains_correct [OF inv, of y] b by (auto simp: table_budget_def)
  next
    case Clear
    then show ?thesis using clear_correct [OF inv] b by (auto simp: table_budget_def)
  qed
qed

section \<open>Construction\<close>

context swiss
begin

theorem operations_refine_set:
  "table_budget E (length ops + n) t \<Longrightarrow>
    \<exists>t'. table_run (table_step E) ops t = Some (Inr (t', snd (set_run set_step ops (elems t)))) \<and>
      elems t' = fst (set_run set_step ops (elems t)) \<and> table_budget E n t'"
  by (rule run_refines)

lemma insert_range_budget:
  assumes "table_budget E (length xs + n) t"
  shows "\<exists>t'. insert_range E xs t = Some (Inr t') \<and> elems t' = elems t \<union> set xs \<and> table_budget E n t'"
  using assms
proof (induction xs arbitrary: t)
  case (Cons x xs)
  then obtain p t1 where t1: "emplace E t x = Some (Inr (p, x \<notin> elems t, t1))" "elems t1 = insert x (elems t)"
    "table_budget E (length xs + n) t1" using emplace_budget by force
  from Cons.IH [OF t1(3)] t1 show ?case by (auto simp: insert_range_def)
qed (simp add: insert_range_def)

lemma raw_hash_set_bucket_empty:
  assumes "bucket_count < 2 ^ 57"
  shows "\<exists>t. raw_hash_set_bucket E bucket_count = Inr t \<and> swiss_inv E t \<and> elems t = {} \<and> cf_size t = 0 \<and>
    bucket_count \<le> cf_capacity t \<and> cf_capacity t < 2 ^ 58"
proof (cases "bucket_count = 0")
  case True
  then show ?thesis using CommonFields_empty elems_empty
    by (auto simp: raw_hash_set_bucket_def swiss_inv_def swiss_empty_def CommonFields_def elems_def full_at_def)
next
  case False
  have small: "bucket_count < 2 ^ 64" using assms by simp
  note N = NormalizeCapacity_least [OF small]
  let ?c = "NormalizeCapacity bucket_count" and ?t = "(CommonFields E)\<lparr>cf_capacity := NormalizeCapacity bucket_count\<rparr>"
  have c: "?c < 2 ^ 58" using N(5) False assms by simp
  obtain g where g: "CapacityToGrowth (Group E) ?c = Inr g" using growth_exists [OF N(1)] by blast
  have pre: "IsValidCapacity (cf_capacity ?t)" "cf_capacity ?t < 2 ^ 62" "CapacityToGrowth (Group E) (cf_capacity ?t) = Inr g"
    "cf_size ?t \<le> g" using N(1) c g by (simp_all add: CommonFields_def)
  obtain t where t: "InitializeSlots E ?t = Inr t" "swiss_core E t" "\<And>p. \<not> full_at t p"
    "\<And>p. p < cf_capacity ?t \<Longrightarrow> cf_control t ! p = kEmpty" "cf_capacity t = cf_capacity ?t" "cf_size t = cf_size ?t"
    "cf_growth_left t = g - cf_size ?t" by (rule InitializeSlots_fresh [OF pre]) (rule that)
  have "swiss_inv E t" "elems t = {}"
    using fresh_counts [OF t(2,3)] t(4-7) g by (simp_all add: CommonFields_def)
  then show ?thesis using t(1,5,6) False c N(2) by (simp add: raw_hash_set_bucket_def CommonFields_def)
qed

text \<open>The constructor from a range, whatever the category of its iterators and the number of buckets.\<close>

theorem raw_hash_set_range_any:
  assumes "length xs < 2 ^ 50" "bucket_count < 2 ^ 50"
  shows "\<exists>t. raw_hash_set_range E random_access xs bucket_count = Some (Inr t) \<and> swiss_inv E t \<and> elems t = set xs"
proof -
  obtain n where n: "SelectBucketCountForIterRange (Group E) random_access (length xs) bucket_count = Inr n" "n < 2 ^ 57"
  proof -
    have "length xs < 2 ^ 62" using assms(1) by simp
    from GrowthToLowerboundCapacity_small [OF this, of "Group E"]
    obtain lb where "GrowthToLowerboundCapacity (Group E) (length xs) = Inr lb" "lb < 2 ^ 57"
      using assms(1) by (auto split: if_splits)
    then show ?thesis using assms(2) by (intro that [of "if bucket_count \<noteq> 0 then bucket_count else if random_access then lb else 0"])
      (auto simp: SelectBucketCountForIterRange_def)
  qed
  obtain t0 where t0: "raw_hash_set_bucket E n = Inr t0" "swiss_inv E t0" "elems t0 = {}" "cf_size t0 = 0" "cf_capacity t0 < 2 ^ 58"
    using raw_hash_set_bucket_empty [OF n(2)] by blast
  then have "table_budget E (length xs + 0) t0" using assms(1) by (simp add: table_budget_def)
  from insert_range_budget [OF this] t0 n(1) show ?thesis by (auto simp: raw_hash_set_range_def table_budget_def)
qed

end


end
