(* ===== verification/Swiss_Transfer.thy ===== *)
theory Swiss_Transfer
  imports Swiss_Refinement
begin

text \<open>
  The operations of \<open>raw_hash_set\<close> that work on two tables or on elements outside a table: moving,
  assignment, swapping, the destructor, \<open>merge\<close>, node handles and the erasure of a range of iterators.
  The element of a node handle is the contents of the slot it owns. The static counters of
  \<open>common_fields\<close> belong to no table; a new table goes on with those of the one it is made from.
\<close>

section \<open>Definitions\<close>

text \<open>The move constructor of \<open>CommonFields\<close>: the new fields, and those left behind.\<close>

definition CommonFields_move :: "'a table_env \<Rightarrow> 'a common_fields \<Rightarrow> 'a common_fields \<times> 'a common_fields" where
  "CommonFields_move E that =
     (that, that\<lparr>cf_control := kEmptyGroup, control_addr := empty_group_address E, cf_slots := [], cf_size := 0,
                 cf_capacity := 0, cf_growth_left := 0\<rparr>)"

definition empty_like :: "'a table_env \<Rightarrow> 'a common_fields \<Rightarrow> 'a common_fields" where
  "empty_like E that = (CommonFields E)\<lparr>allocations := allocations that, seed_counter := seed_counter that\<rparr>"

text \<open>\<open>absl::exchange(that.common(), CommonFields{})\<close>.\<close>

definition raw_hash_set_move :: "'a table_env \<Rightarrow> 'a common_fields \<Rightarrow> 'a common_fields \<times> 'a common_fields" where
  "raw_hash_set_move E that = (let (old, left) = CommonFields_move E that in (old, empty_like E that))"

definition raw_hash_set_move_alloc ::
    "'a table_env \<Rightarrow> bool \<Rightarrow> 'a common_fields \<Rightarrow> ('a common_fields \<times> 'a common_fields) run" where
  "raw_hash_set_move_alloc E same_alloc that =
     (let t0 = empty_like E that
      in if same_alloc then Some (Inr (that, t0))
         else run_bind (reserve E t0 (cf_size that)) (\<lambda>t1.
              run_bind (iterate E that (\<lambda>x t. run_bind (emplace E t x) (\<lambda>(p, inserted, t'). Some (Inr t'))) (\<lambda>_. False) t1)
                (\<lambda>t2. Some (Inr (t2, that)))))"

definition table_swap :: "'a common_fields \<Rightarrow> 'a common_fields \<Rightarrow> 'a common_fields \<times> 'a common_fields" where
  "table_swap this that = (that, this)"

definition raw_hash_set_destroy :: "'a table_env \<Rightarrow> 'a common_fields \<Rightarrow> unit result" where
  "raw_hash_set_destroy E t =
     (let cap = cf_capacity t
      in if cap = 0 then Inr ()
         else rbind (destroy_slots t) (\<lambda>t1. rbind (AllocSize E cap) (\<lambda>bytes. Inr ())))"

definition copy_assign :: "'a table_env \<Rightarrow> 'a common_fields \<Rightarrow> 'a common_fields \<Rightarrow> 'a common_fields run" where
  "copy_assign E this that =
     run_bind (raw_hash_set_copy E that) (\<lambda>tmp.
       let (this', tmp') = table_swap this tmp
       in run_bind (Some (raw_hash_set_destroy E tmp')) (\<lambda>_. Some (Inr this')))"

definition move_assign ::
    "'a table_env \<Rightarrow> bool \<Rightarrow> bool \<Rightarrow> 'a common_fields \<Rightarrow> 'a common_fields \<Rightarrow> ('a common_fields \<times> 'a common_fields) run" where
  "move_assign E propagate same_alloc this that =
     run_bind (if propagate then Some (Inr (raw_hash_set_move E that)) else raw_hash_set_move_alloc E same_alloc that)
       (\<lambda>(tmp, that').
          let (this', tmp') = table_swap this tmp
          in run_bind (Some (raw_hash_set_destroy E tmp')) (\<lambda>_. Some (Inr (this', that'))))"

text \<open>\<open>InsertSlot\<close>: a constructed slot is transferred into the table unless its element is there.\<close>

definition insert_slot :: "'a table_env \<Rightarrow> 'a common_fields \<Rightarrow> 'a \<Rightarrow> (nat \<times> bool \<times> 'a common_fields) run" where
  "insert_slot E t x =
     run_bind (find_or_prepare_insert E t x) (\<lambda>(p, inserted, t1).
       if inserted then run_bind (Some (slot_write t1 p (Some x))) (\<lambda>t2. Some (Inr (p, True, t2)))
       else Some (Inr (p, False, t1)))"

text \<open>\<open>merge\<close>: the source has its own hash function, in the environment \<open>F\<close>.\<close>

definition release_slot :: "'a table_env \<Rightarrow> 'a common_fields \<Rightarrow> nat \<Rightarrow> 'a common_fields result" where
  "release_slot F src i = rbind (slot_write src i None) (\<lambda>s. EraseMetaOnly F s i)"

partial_function (option) merge_loop ::
    "'a table_env \<Rightarrow> 'a table_env \<Rightarrow> nat option \<Rightarrow> 'a common_fields \<Rightarrow> 'a common_fields \<Rightarrow>
     ('a common_fields \<times> 'a common_fields) run" where
  "merge_loop E F it src dst =
     (case it_eq F src it None of
        Inl e \<Rightarrow> Some (Inl e)
      | Inr at_end \<Rightarrow>
          if at_end then Some (Inr (src, dst))
          else (case next_it F src it of
             None \<Rightarrow> None
           | Some n \<Rightarrow>
               (case n of
                  Inl e \<Rightarrow> Some (Inl e)
                | Inr it' \<Rightarrow>
                    (case it of
                       None \<Rightarrow> Some (Inl NullDeref)
                     | Some i \<Rightarrow>
                         (case slot_read src i of
                            Inl e \<Rightarrow> Some (Inl e)
                          | Inr x \<Rightarrow>
                              (case insert_slot E dst x of
                                 None \<Rightarrow> None
                               | Some r \<Rightarrow>
                                   (case r of
                                      Inl e \<Rightarrow> Some (Inl e)
                                    | Inr ins \<Rightarrow>
                                        if fst (snd ins)
                                        then (case release_slot F src i of
                                                Inl e \<Rightarrow> Some (Inl e)
                                              | Inr src' \<Rightarrow> merge_loop E F it' src' (snd (snd ins)))
                                        else merge_loop E F it' src (snd (snd ins)))))))))"

definition merge ::
    "'a table_env \<Rightarrow> 'a table_env \<Rightarrow> 'a common_fields \<Rightarrow> 'a common_fields \<Rightarrow> ('a common_fields \<times> 'a common_fields) run" where
  "merge E F src dst = run_bind (begin_it F src) (\<lambda>it. merge_loop E F it src dst)"

text \<open>Node handles: \<open>None\<close> is the empty handle.\<close>

definition extract_at :: "'a table_env \<Rightarrow> 'a common_fields \<Rightarrow> nat option \<Rightarrow> ('a \<times> 'a common_fields) result" where
  "extract_at E t it =
     rbind (AssertIsFull E t it) (\<lambda>i.
     rbind (slot_read t i) (\<lambda>x.
     rbind (release_slot E t i) (\<lambda>t'. Inr (x, t'))))"

definition extract_key :: "'a table_env \<Rightarrow> 'a common_fields \<Rightarrow> 'a \<Rightarrow> ('a option \<times> 'a common_fields) run" where
  "extract_key E t key =
     run_bind (find_key E t key) (\<lambda>it.
     run_bind (Some (it_eq E t it None)) (\<lambda>at_end.
       if at_end then Some (Inr (None, t))
       else run_bind (Some (extract_at E t it)) (\<lambda>(x, t'). Some (Inr (Some x, t')))))"

definition insert_node ::
    "'a table_env \<Rightarrow> 'a common_fields \<Rightarrow> 'a option \<Rightarrow> (nat option \<times> bool \<times> 'a option \<times> 'a common_fields) run" where
  "insert_node E t node =
     (case node of
        None \<Rightarrow> Some (Inr (None, False, None, t))
      | Some x \<Rightarrow> run_bind (insert_slot E t x) (\<lambda>(p, inserted, t').
          Some (Inr (Some p, inserted, if inserted then None else Some x, t'))))"

partial_function (option) erase_range ::
    "'a table_env \<Rightarrow> nat option \<Rightarrow> nat option \<Rightarrow> 'a common_fields \<Rightarrow> 'a common_fields run" where
  "erase_range E lst first t =
     (case it_eq E t first lst of
        Inl e \<Rightarrow> Some (Inl e)
      | Inr at_last \<Rightarrow>
          if at_last then Some (Inr t)
          else (case next_it E t first of
             None \<Rightarrow> None
           | Some n \<Rightarrow>
               (case n of
                  Inl e \<Rightarrow> Some (Inl e)
                | Inr first' \<Rightarrow>
                    (case erase_at E t first of
                       Inl e \<Rightarrow> Some (Inl e)
                     | Inr t' \<Rightarrow> erase_range E lst first' t'))))"

section \<open>Moving and assigning\<close>

lemma empty_like_empty: "swiss_inv E (empty_like E that)" "elems (empty_like E that) = {}"
  by (simp_all add: empty_like_def swiss_inv_def swiss_empty_def CommonFields_def elems_def full_at_def)

lemma insert_slot_emplace:
  assumes "emplace E t x = Some (Inr (p, inserted, t'))"
  shows "insert_slot E t x = Some (Inr (p, inserted, t'))"
  using assms
  by (auto simp: emplace_def insert_slot_def emplace_at_def run_bind_def split: option.splits sum.splits if_splits)

lemma release_erase:
  assumes "erase_at F t (Some p) = Inr t'"
  shows "release_slot F t p = Inr t'" "\<exists>x. slot_read t p = Inr x"
  using assms
  by (auto simp: erase_at_def release_slot_def rbind_eq_Inr AssertIsFull_def split: if_splits option.splits)

context swiss
begin

lemma destroy_total:
  assumes "swiss_inv E t"
  shows "raw_hash_set_destroy E t = Inr ()"
proof (cases "swiss_empty t")
  case False
  then have core: "swiss_core E t" using assms by (simp add: swiss_inv_def)
  obtain s where "destroy_slots t = Inr (t\<lparr>cf_slots := s\<rparr>)" using destroy_slots_total [OF core] by blast
  moreover have "IsValidCapacity (cf_capacity t)" using shape_valid [OF coreD(1) [OF core]] .
  ultimately show ?thesis by (simp add: raw_hash_set_destroy_def Let_def AllocSize_def SlotOffset_def)
qed (simp add: raw_hash_set_destroy_def swiss_empty_def)

lemma move_alloc_correct:
  assumes "swiss_inv E that" and "cf_size that < 2 ^ 55"
  shows "\<exists>t that'. raw_hash_set_move_alloc E same_alloc that = Some (Inr (t, that')) \<and> swiss_inv E t \<and>
    swiss_inv E that' \<and> elems t = elems that \<and> elems that' = (if same_alloc then {} else elems that)"
proof (cases same_alloc)
  case True
  then show ?thesis using assms by (simp add: raw_hash_set_move_alloc_def empty_like_empty)
next
  case False
  define t0 where "t0 = empty_like E that"
  have t0: "swiss_inv E t0" "elems t0 = {}" "cf_capacity t0 = 0" "cf_size t0 = 0"
    using empty_like_empty by (simp_all add: t0_def empty_like_def CommonFields_def)
  obtain t1 where t1: "reserve E t0 (cf_size that) = Some (Inr t1)" "swiss_inv E t1" "elems t1 = {}" "cf_size t1 = 0"
    "cf_capacity t1 \<le> 4 * cf_size that + 16"
    using reserve_correct [OF t0(1), of "cf_size that"] assms(2) t0(2-4) by auto
  have until: "run_until body (\<lambda>_. False) xs s = run_each body xs s" for body xs and s :: "'a common_fields"
    by (induction xs arbitrary: s) (simp_all add: run_bind_def split: option.splits sum.splits)
  have "table_budget E (length (elements_from that 0) + 0) t1"
    using t1 assms(2) elements_of_table(3) [OF assms(1)] by (simp add: table_budget_def)
  from insert_range_budget [OF this] obtain t2 where
    t2: "insert_range E (elements_from that 0) t1 = Some (Inr t2)" "elems t2 = elems t1 \<union> set (elements_from that 0)"
      "table_budget E 0 t2" by blast
  have "iterate E that (\<lambda>x t. run_bind (emplace E t x) (\<lambda>(p, inserted, t'). Some (Inr t'))) (\<lambda>_. False) t1 = Some (Inr t2)"
    using t2(1) by (simp add: iterate_correct [OF assms(1)] until insert_range_def)
  moreover have "elems t2 = elems that" "swiss_inv E t2"
    using t2(2,3) t1(3) elements_of_table(1) [OF assms(1)] by (simp_all add: table_budget_def)
  ultimately show ?thesis using False t1(1) assms(1) by (simp add: raw_hash_set_move_alloc_def flip: t0_def)
qed

theorem assignments_correct:
  assumes "swiss_inv E this" "swiss_inv E that" "cf_size that < 2 ^ 55"
  shows "\<exists>t. copy_assign E this that = Some (Inr t) \<and> swiss_inv E t \<and> elems t = elems that"
    and "\<exists>t that'. move_assign E propagate same_alloc this that = Some (Inr (t, that')) \<and> swiss_inv E t \<and>
      swiss_inv E that' \<and> elems t = elems that \<and> elems that' = (if propagate \<or> same_alloc then {} else elems that)"
proof -
  have "cf_size that < 2 ^ 58" using assms(3) by simp
  from raw_hash_set_copy_correct [OF assms(2) this]
  show "\<exists>t. copy_assign E this that = Some (Inr t) \<and> swiss_inv E t \<and> elems t = elems that"
    using destroy_total [OF assms(1)] by (auto simp: copy_assign_def table_swap_def)
  show "\<exists>t that'. move_assign E propagate same_alloc this that = Some (Inr (t, that')) \<and> swiss_inv E t \<and>
      swiss_inv E that' \<and> elems t = elems that \<and> elems that' = (if propagate \<or> same_alloc then {} else elems that)"
  proof (cases propagate)
    case True
    then show ?thesis using assms(2) destroy_total [OF assms(1)]
      by (simp add: move_assign_def table_swap_def raw_hash_set_move_def CommonFields_move_def empty_like_empty)
  next
    case False
    then show ?thesis using move_alloc_correct [OF assms(2,3), of same_alloc] destroy_total [OF assms(1)]
      by (auto simp: move_assign_def table_swap_def)
  qed
qed

end

section \<open>Merging\<close>

lemma merge_loop_correct:
  assumes "swiss E" "swiss F" "swiss_inv F src" "table_budget E (length (elements_from src pos) + n) dst"
  shows "\<exists>src' dst'. merge_loop E F (next_full src pos) src dst = Some (Inr (src', dst')) \<and> swiss_inv F src' \<and>
    table_budget E n dst' \<and> elems dst' = elems dst \<union> set (elements_from src pos) \<and>
    elems src' = elems src - (set (elements_from src pos) - elems dst)"
  using assms(3,4)
proof (induction "cf_capacity src - pos" arbitrary: pos src dst rule: less_induct)
  case less
  show ?case
  proof (cases src pos rule: next_full_cases)
    case none
    then show ?thesis using less.prems swiss.it_eq_end [OF assms(2) swiss.inv_shape [OF assms(2) less.prems(1)]]
      by (subst merge_loop.simps) simp
  next
    case (some p)
    have core: "swiss_core F src" using less.prems(1) some(3) by (auto simp: swiss_inv_def swiss_empty_def full_at_def)
    obtain x where x: "cf_slots src ! p = Some x" using swiss.coreD(2) [OF assms(2) core some(3)] by blast
    have dec: "cf_capacity src - Suc p < cf_capacity src - pos" using some(2,3) unfolding full_at_def by linarith
    note it = swiss.iterator_at_full [OF assms(2) core some(3)]
    note read = swiss.slot_read_full [OF assms(2) swiss.coreD(1) [OF assms(2) core] some(3) x]
    have el: "elements_from src pos = x # elements_from src (Suc p)" using some(5) x by simp
    then have "table_budget E (Suc (length (elements_from src (Suc p)) + n)) dst" using less.prems(2) by simp
    from swiss.emplace_budget [OF assms(1) this, of x] obtain q d1 where
      d1: "emplace E dst x = Some (Inr (q, x \<notin> elems dst, d1))" "elems d1 = insert x (elems dst)"
        "table_budget E (length (elements_from src (Suc p)) + n) d1" by blast
    note ins = insert_slot_emplace [OF d1(1)]
    obtain s1 where s1: "erase_at F src (Some p) = Inr s1" "swiss_inv F s1" "elems s1 = elems src - {x}"
      "cf_capacity s1 = cf_capacity src" "\<And>q. full_at s1 q \<longleftrightarrow> full_at src q \<and> q \<noteq> p"
      "\<And>q. q \<noteq> p \<Longrightarrow> cf_slots s1 ! q = cf_slots src ! q"
      using swiss.erase_position [OF assms(2) less.prems(1) some(3) x] by blast
    have same: "next_full s1 (Suc p) = next_full src (Suc p)" "elements_from s1 (Suc p) = elements_from src (Suc p)"
      using next_full_cong [OF s1(4), of "Suc p"] s1(5,6) by auto
    show ?thesis
    proof (cases "x \<in> elems dst")
      case True
      have "\<exists>src' d2. merge_loop E F (next_full src (Suc p)) src d1 = Some (Inr (src', d2)) \<and> swiss_inv F src' \<and>
          table_budget E n d2 \<and> elems d2 = elems d1 \<union> set (elements_from src (Suc p)) \<and>
          elems src' = elems src - (set (elements_from src (Suc p)) - elems d1)"
        by (rule less.hyps [OF dec less.prems(1) d1(3)])
      moreover have "merge_loop E F (Some p) src dst = merge_loop E F (next_full src (Suc p)) src d1"
        using it(2,3) read ins True by (subst merge_loop.simps) simp
      ultimately show ?thesis using True unfolding some(1) el d1(2) by (auto simp: insert_absorb)
    next
      case False
      have "cf_capacity s1 - Suc p < cf_capacity src - pos" using dec s1(4) by simp
      from less.hyps [OF this s1(2)] d1(3)
      have "\<exists>src' d2. merge_loop E F (next_full src (Suc p)) s1 d1 = Some (Inr (src', d2)) \<and> swiss_inv F src' \<and>
          table_budget E n d2 \<and> elems d2 = elems d1 \<union> set (elements_from src (Suc p)) \<and>
          elems src' = elems s1 - (set (elements_from src (Suc p)) - elems d1)"
        unfolding same by blast
      moreover have "merge_loop E F (Some p) src dst = merge_loop E F (next_full src (Suc p)) s1 d1"
        using it(2,3) read ins False release_erase(1) [OF s1(1)] by (subst merge_loop.simps) simp
      moreover have "elems s1 - (set (elements_from src (Suc p)) - elems d1) =
          elems src - (insert x (set (elements_from src (Suc p))) - elems dst)"
        using False unfolding s1(3) d1(2) by blast
      ultimately show ?thesis unfolding some(1) el d1(2) by auto
    qed
  qed
qed

text \<open>After \<open>merge\<close> the target has the elements of both tables, and the source keeps exactly those that
  the target had already.\<close>

theorem merge_correct:
  assumes "swiss E" "swiss F" "swiss_inv F src" "table_budget E (cf_size src + n) dst"
  shows "\<exists>src' dst'. merge E F src dst = Some (Inr (src', dst')) \<and> swiss_inv F src' \<and> table_budget E n dst' \<and>
    elems dst' = elems dst \<union> elems src \<and> elems src' = elems src \<inter> elems dst"
proof -
  note el = swiss.elements_of_table [OF assms(2,3)]
  have "table_budget E (length (elements_from src 0) + n) dst" using assms(4) el(3) by simp
  from merge_loop_correct [OF assms(1-3) this] show ?thesis
    using el(1) by (auto simp: merge_def swiss.begin_it_correct [OF assms(2,3)])
qed

section \<open>Node handles and ranges\<close>

context swiss
begin

text \<open>A node handle taken out of a table holds the key; putting it back restores the elements.\<close>

theorem extract_correct:
  assumes "swiss_inv E t"
  shows "\<exists>t'. extract_key E t x = Some (Inr (if x \<in> elems t then Some x else None, t')) \<and> swiss_inv E t' \<and>
    elems t' = elems t - {x} \<and> cf_capacity t' = cf_capacity t"
proof -
  obtain r where r: "find_key E t x = Some (Inr r)" "key_pos t x r" using find_key_inv [OF assms] by blast
  note at_end = found_is_end [OF assms r(2)]
  show ?thesis
  proof (cases r)
    case None
    then have "x \<notin> elems t" using key_pos_iff [OF r(2)] by simp
    then show ?thesis using r(1) at_end assms by (simp add: extract_key_def)
  next
    case (Some p)
    then have p: "full_at t p" "cf_slots t ! p = Some x" using r(2) by (simp_all add: key_pos_def)
    then have x: "x \<in> elems t" by (auto simp: elems_def)
    have core: "swiss_core E t" using assms p(1) by (auto simp: swiss_inv_def swiss_empty_def full_at_def)
    note read = slot_read_full [OF coreD(1) [OF core] p]
    obtain t' where t': "erase_at E t (Some p) = Inr t'" "swiss_inv E t'" "elems t' = elems t - {x}" "cf_capacity t' = cf_capacity t"
      using erase_position [OF assms p] by blast
    have "AssertIsFull E t (Some p) = Inr p"
      using t'(1) by (auto simp: erase_at_def rbind_eq_Inr AssertIsFull_def split: if_splits option.splits)
    then have "extract_at E t (Some p) = Inr (x, t')"
      using read release_erase(1) [OF t'(1)] by (simp add: extract_at_def)
    then show ?thesis using r(1) at_end Some x t'(2-4) by (simp add: extract_key_def)
  qed
qed

theorem insert_node_correct:
  assumes "table_budget E (Suc n) t"
  shows "insert_node E t None = Some (Inr (None, False, None, t))"
    and "\<exists>p t'. insert_node E t (Some x) = Some (Inr (Some p, x \<notin> elems t, if x \<in> elems t then Some x else None, t')) \<and>
      elems t' = insert x (elems t) \<and> table_budget E n t'"
  using emplace_budget [OF assms, of x] insert_slot_emplace [of E t x] by (fastforce simp: insert_node_def)+

lemma element_after:
  assumes "swiss_inv E t" "full_at t p" "cf_slots t ! p = Some x" "p < q"
  shows "x \<notin> set (elements_from t q)"
proof
  assume "x \<in> set (elements_from t q)"
  then obtain r where r: "q \<le> r" "full_at t r" "the (cf_slots t ! r) = x" by (auto simp: elements_from_def)
  have core: "swiss_core E t" using assms(1,2) by (auto simp: swiss_inv_def swiss_empty_def full_at_def)
  obtain y where "cf_slots t ! r = Some y" using coreD(2) [OF core r(2)] by blast
  then have "cf_slots t ! r = cf_slots t ! p" using r(3) assms(3) by simp
  then have "r = p" using coreD(3) [OF core] r(2) assms(2) by metis
  then show False using r(1) assms(4) by simp
qed

text \<open>\<open>erase(first, last)\<close> removes the elements between the two iterators.\<close>

theorem erase_range_correct:
  assumes "swiss_inv E t" "pos \<le> q"
  shows "\<exists>t'. erase_range E (next_full t q) (next_full t pos) t = Some (Inr t') \<and> swiss_inv E t' \<and>
    elems t' = elems t - (set (elements_from t pos) - set (elements_from t q))"
  using assms
proof (induction "cf_capacity t - pos" arbitrary: pos t rule: less_induct)
  case less
  have last: "full_at t l \<and> q \<le> l" if "next_full t q = Some l" for l
    using that by (cases t q rule: next_full_cases) auto
  have stop: ?case if "next_full t pos = next_full t q" "it_eq E t (next_full t pos) (next_full t q) = Inr True"
    "elements_from t pos = elements_from t q"
    using that less.prems(1) by (subst erase_range.simps) simp
  show ?case
  proof (cases t pos rule: next_full_cases)
    case none
    then have "next_full t q = None" "elements_from t q = []"
      using less.prems(2) by (auto intro: next_full_cases [of t q])
    then show ?thesis using none it_eq_end [OF inv_shape [OF less.prems(1)]] by (intro stop) simp_all
  next
    case (some p)
    have core: "swiss_core E t" using less.prems(1) some(3) by (auto simp: swiss_inv_def swiss_empty_def full_at_def)
    note shape = coreD(1) [OF core]
    obtain x where x: "cf_slots t ! p = Some x" using coreD(2) [OF core some(3)] by blast
    have eq: "it_eq E t (Some p) (next_full t q) = Inr (next_full t q = Some p)"
      using last by (intro it_eq_full [OF shape some(3)]) blast
    show ?thesis
    proof (cases "q \<le> p")
      case True
      have "next_full t pos = next_full t q"
        by (rule next_full_skip) (use less.prems(2) True some(4) in auto)
      moreover have "elements_from t pos = elements_from t q"
        using some calculation by (cases t q rule: next_full_cases) auto
      ultimately show ?thesis using eq some(1) by (intro stop) simp_all
    next
      case False
      then have ne: "next_full t q \<noteq> Some p" using last by auto
      obtain t1 where t1: "erase_at E t (Some p) = Inr t1" "swiss_inv E t1" "elems t1 = elems t - {x}"
        "cf_capacity t1 = cf_capacity t" "\<And>r. full_at t1 r \<longleftrightarrow> full_at t r \<and> r \<noteq> p"
        "\<And>r. r \<noteq> p \<Longrightarrow> cf_slots t1 ! r = cf_slots t ! r"
        using erase_position [OF less.prems(1) some(3) x] by blast
      have same: "next_full t1 r = next_full t r" "elements_from t1 r = elements_from t r" if "p < r" for r
        using next_full_cong [OF t1(4), of r] t1(5,6) that by auto
      have "\<exists>t'. erase_range E (next_full t1 q) (next_full t1 (Suc p)) t1 = Some (Inr t') \<and> swiss_inv E t' \<and>
          elems t' = elems t1 - (set (elements_from t1 (Suc p)) - set (elements_from t1 q))"
        by (rule less.hyps) (use some(2,3) t1(2,4) False in \<open>auto simp: full_at_def\<close>)
      moreover have "erase_range E (next_full t q) (Some p) t = erase_range E (next_full t q) (next_full t (Suc p)) t1"
        using eq ne iterator_at_full(2) [OF core some(3)] t1(1) by (subst erase_range.simps) simp
      moreover have "x \<notin> set (elements_from t q)"
        using element_after [OF less.prems(1) some(3) x, of q] False by simp
      ultimately show ?thesis using some(1,5) x t1(3) same [of q] same [of "Suc p"] False by (auto simp: Diff_insert2 [symmetric] insert_Diff_if)
    qed
  qed
qed

end


end
