(* ===== verification/Swiss_Neon.thy ===== *)
theory Swiss_Neon
  imports Swiss_Groups
begin

text \<open>
  The group of eight control bytes for AArch64 (\<open>GroupAArch64Impl\<close> of
  \<open>absl/container/internal/raw_hash_set.h\<close>): the NEON instructions on a register of eight lanes, and the
  proof that the group meets the locale \<open>control_group\<close>. Its masks have all eight bits of a byte set
  where those of the portable group have the highest one only.
\<close>

section \<open>Instructions\<close>

text \<open>A register \<open>uint8x8_t\<close> is its eight lanes; read as one 64-bit lane, the first is the lowest byte.\<close>

definition vdup_n_8 :: "i8 \<Rightarrow> i8 list" where
  "vdup_n_8 c = replicate 8 c"

definition vceq_8 :: "i8 list \<Rightarrow> i8 list \<Rightarrow> i8 list" where
  "vceq_8 a b = map2 (\<lambda>x y. if x = y then - 1 else 0) a b"

definition vcgt_s8 :: "i8 list \<Rightarrow> i8 list \<Rightarrow> i8 list" where
  "vcgt_s8 a b = map2 (\<lambda>x y. if y <s x then - 1 else 0) a b"

definition vcle_s8 :: "i8 list \<Rightarrow> i8 list \<Rightarrow> i8 list" where
  "vcle_s8 a b = map2 (\<lambda>x y. if x \<le>s y then - 1 else 0) a b"

definition vget_lane_u64 :: "i8 list \<Rightarrow> u64" where
  "vget_lane_u64 a = Load64 a"

section \<open>The group\<close>

definition neon_Match :: "ctrl_t list \<Rightarrow> i8 \<Rightarrow> nat list" where
  "neon_Match ctrl hash =
     (let dup = vdup_n_8 hash; msk = vceq_8 ctrl dup in mask_iter 3 (vget_lane_u64 msk AND msbs64))"

definition neon_MaskEmpty :: "ctrl_t list \<Rightarrow> bit_mask" where
  "neon_MaskEmpty ctrl = NonIterableBitMask 8 3 (vget_lane_u64 (vceq_8 (vdup_n_8 kEmpty) ctrl))"

definition neon_MaskEmptyOrDeleted :: "ctrl_t list \<Rightarrow> bit_mask" where
  "neon_MaskEmptyOrDeleted ctrl = NonIterableBitMask 8 3 (vget_lane_u64 (vcgt_s8 (vdup_n_8 kSentinel) ctrl))"

definition neon_CountLeadingEmptyOrDeleted :: "ctrl_t list \<Rightarrow> nat" where
  "neon_CountLeadingEmptyOrDeleted ctrl =
     drop_bit 3 (countr_zero (vget_lane_u64 (vcle_s8 (vdup_n_8 kSentinel) ctrl)))"

definition slsbs64 :: u64 where "slsbs64 = 0x0202020202020202"
definition midbs64 :: u64 where "midbs64 = 0x7e7e7e7e7e7e7e7e"

definition neon_Convert :: "ctrl_t list \<Rightarrow> ctrl_t list" where
  "neon_Convert ctrl =
     (let msk = vget_lane_u64 ctrl;
          x = slsbs64 AND drop_bit 6 msk;
          res = (x + midbs64) OR msbs64
      in Store64 res)"

definition GroupAArch64Impl :: group_ops where
  "GroupAArch64Impl =
     \<lparr>kWidth = 8, Match = neon_Match, MaskEmpty = neon_MaskEmpty,
      MaskEmptyOrDeleted = neon_MaskEmptyOrDeleted,
      CountLeadingEmptyOrDeleted = neon_CountLeadingEmptyOrDeleted,
      ConvertSpecialToEmptyAndFullToDeleted = neon_Convert\<rparr>"

section \<open>Masks of whole bytes\<close>

lemma bit_lane_mask:
  assumes "length g = 8" and "\<And>i. i < 8 \<Longrightarrow> g ! i = (if P i then - 1 else 0)"
  shows "bit (vget_lane_u64 g) n \<longleftrightarrow> n < 64 \<and> P (n div 8)"
  using assms(1) assms(2) [of "n div 8"] by (auto simp: vget_lane_u64_def bit_Load64 split: if_splits)

text \<open>A mask of whole bytes is as good as the mask of their highest bits.\<close>

lemma whole_byte_mask:
  fixes m :: u64
  assumes bits: "\<And>n. bit m n \<longleftrightarrow> n < 64 \<and> P (n div 8)"
  shows "NonIterableBitMask 8 3 m = NonIterableBitMask 8 3 (m AND msbs64)"
proof (cases "m = 0")
  case False
  define A where "A = {i. i < 8 \<and> P i}"
  obtain n where "bit m n" using word_bit_exists [OF False] by blast
  then have "n div 8 \<in> A" unfolding A_def using bits [of n] by auto
  moreover have fin: "finite A" by (simp add: A_def)
  ultimately have ne: "A \<noteq> {}" by blast
  define l h where "l = Min A" and "h = Max A"
  have l: "l < 8" "P l" and h: "h < 8" "P h"
    using Min_in [OF fin ne] Max_in [OF fin ne] by (auto simp: l_def h_def A_def)
  have between: "8 * l \<le> n" "n \<le> 8 * h + 7" if "n < 64" "P (n div 8)" for n
  proof -
    have "n div 8 \<in> A" using that by (auto simp: A_def)
    then have "l \<le> n div 8" "n div 8 \<le> h" using fin by (auto simp: l_def h_def)
    then show "8 * l \<le> n" "n \<le> 8 * h + 7" by linarith+
  qed
  have high: "bit (m AND msbs64) n \<longleftrightarrow> n < 64 \<and> n mod 8 = 7 \<and> P (n div 8)" for n
    by (auto simp: bit_and_iff bit_msbs64 bits)
  have at: "bit m (8 * i + k) \<longleftrightarrow> i < 8 \<and> P i" "bit (m AND msbs64) (8 * i + 7) \<longleftrightarrow> i < 8 \<and> P i" if "k < 8" for i k
    using that by (auto simp: bits high)
  have low1: "countr_zero m = 8 * l"
  proof (rule countr_zero_unique)
    show "bit m (8 * l)" using at(1) [of 0 l] l by simp
    show "\<not> bit m i" if "i < 8 * l" for i using that between(1) [of i] unfolding bits by linarith
  qed
  have low2: "countr_zero (m AND msbs64) = 8 * l + 7"
  proof (rule countr_zero_unique)
    show "bit (m AND msbs64) (8 * l + 7)" using at(2) [of 7 l] l by simp
    show "\<not> bit (m AND msbs64) i" if "i < 8 * l + 7" for i
    proof
      assume "bit (m AND msbs64) i"
      then have "i mod 8 = 7" "8 * l \<le> i" using between(1) [of i] by (simp_all only: high)
      with that show False by presburger
    qed
  qed
  have top1: "bit_width m = Suc (8 * h + 7)" "countl_zero m = 64 - Suc (8 * h + 7)"
    using bit_width_highest [of m "8 * h + 7"] at(1) [of 7 h] h between(2) by (force simp: bits)+
  have top2: "bit_width (m AND msbs64) = Suc (8 * h + 7)" "countl_zero (m AND msbs64) = 64 - Suc (8 * h + 7)"
    using bit_width_highest [of "m AND msbs64" "8 * h + 7"] at(2) [of 7 h] h between(2) by (force simp: high)+
  have "m AND msbs64 \<noteq> 0" using at(2) [of 7 l] l by auto
  then show ?thesis using False low1 low2 top1 top2 by (simp add: NonIterableBitMask_def drop_bit_eq_div)
qed simp

lemma whole_byte_mask_of:
  assumes "\<And>n. bit (m :: u64) n \<longleftrightarrow> n < 64 \<and> P (n div 8)"
  shows "mask_of 8 P (NonIterableBitMask 8 3 m)"
  unfolding whole_byte_mask [OF assms]
  by (rule bytemask_mask_of) (auto simp: bit_and_iff bit_msbs64 assms)

lemma neon_Convert_map:
  assumes g: "length g = 8"
  shows "neon_Convert g = map (\<lambda>c. if IsFull c then kDeleted else kEmpty) g"
proof -
  define sp where "sp a b = map (\<lambda>c. if IsFull c then a else b) g" for a b :: i8
  have len: "length (sp a b) = 8" for a b using g by (simp add: sp_def)
  have nth: "i < 8 \<Longrightarrow> sp a b ! i = (if IsFull (g ! i) then a else b)" for a b i using g by (simp add: sp_def)
  have two: "slsbs64 = Load64 (replicate 8 2)" and mid: "midbs64 = Load64 (replicate 8 126)"
    using lsbs64_times [of 2] lsbs64_times [of 126] by (simp_all add: slsbs64_def midbs64_def lsbs64_def)
  have bit2: "bit (2::int) k \<longleftrightarrow> k = 1" for k using bit_exp_iff [of 1 k, where ?'a = int] by simp
  have "slsbs64 AND drop_bit 6 (Load64 g) = Load64 (sp 0 2)"
  proof (rule Load64_eqI [OF len])
    fix i k :: nat assume ik: "i < 8" "k < 8"
    have "bit (drop_bit 6 (Load64 g)) (8 * i + 1) \<longleftrightarrow> bit (g ! i) 7"
      using bit_Load64_byte [OF g ik(1), of 7] by (simp add: bit_drop_bit_eq add.commute)
    then show "bit (slsbs64 AND drop_bit 6 (Load64 g)) (8 * i + k) \<longleftrightarrow> bit (sp 0 2 ! i) k"
      using ik bit_Load64_byte [of "replicate 8 2" i k]
      by (cases "k = 1") (simp_all add: two bit_and_iff nth bit2 IsFull_bit)
  qed
  moreover have "Load64 (sp 0 2) + midbs64 = Load64 (sp 126 128)"
  proof -
    have "Load64 (sp 0 2) + midbs64 = Load64 (map2 (+) (sp 0 2) (replicate 8 126))"
      unfolding mid by (rule Load64_add) (auto simp: len nth)
    also have "map2 (+) (sp 0 2) (replicate 8 126) = sp 126 128" by (rule nth_equalityI) (auto simp: len nth)
    finally show ?thesis .
  qed
  moreover have "Load64 (sp 126 128) OR msbs64 = Load64 (sp kDeleted kEmpty)"
  proof (rule Load64_eqI [OF len])
    fix i k :: nat assume ik: "i < 8" "k < 8"
    have eq: "kDeleted = 126 OR 128" "kEmpty = 128" by (simp_all add: kDeleted_def kEmpty_def)
    have special: "bit kDeleted k \<longleftrightarrow> bit (126::i8) k \<or> bit (128::i8) k" "bit kEmpty k \<longleftrightarrow> bit (128::i8) k"
      unfolding eq(1) bit_or_iff by (rule refl) (simp only: eq(2))
    have "bit msbs64 (8 * i + k) \<longleftrightarrow> bit (128::i8) k"
      unfolding msbs64_Load64 using bit_Load64_byte [of "replicate 8 128" i k] ik by simp
    then show "bit (Load64 (sp 126 128) OR msbs64) (8 * i + k) \<longleftrightarrow> bit (sp kDeleted kEmpty ! i) k"
      unfolding bit_or_iff bit_Load64_byte [OF len ik] nth [OF ik(1)] using special by (cases "IsFull (g ! i)") (simp_all only: if_True if_False, blast)
  qed
  ultimately have "neon_Convert g = Store64 (Load64 (sp kDeleted kEmpty))"
    by (simp only: neon_Convert_def Let_def vget_lane_u64_def)
  then show ?thesis using Store64_Load64 [OF len] by (simp add: sp_def)
qed

lemma neon_CountLeading:
  assumes g: "length g = 8"
  shows "neon_CountLeadingEmptyOrDeleted g = length (takeWhile IsEmptyOrDeleted g)"
proof -
  define m where "m = vget_lane_u64 (vcle_s8 (vdup_n_8 kSentinel) g)"
  let ?k = "length (takeWhile IsEmptyOrDeleted g)"
  have bits: "bit m n \<longleftrightarrow> n < 64 \<and> \<not> IsEmptyOrDeleted (g ! (n div 8))" for n
    unfolding m_def
    by (rule bit_lane_mask) (auto simp: g vcle_s8_def vdup_n_8_def IsEmptyOrDeleted_def word_sless_alt word_sle_eq)
  have k: "?k \<le> 8" using length_takeWhile_le [of IsEmptyOrDeleted g] g by simp
  have below: "IsEmptyOrDeleted (g ! n)" if "n < ?k" for n
    using that by (metis nth_mem set_takeWhileD takeWhile_nth)
  have "drop_bit 3 (countr_zero m) = ?k"
  proof (cases "?k = 8")
    case True
    have "m = 0" by (rule bit_word_eqI) (use below True in \<open>auto simp: bits\<close>)
    then have "countr_zero m = 64" by (simp add: countr_zero_def takeWhile_eq_all_conv [THEN iffD2])
    then show ?thesis using True by simp
  next
    case False
    then have "\<not> IsEmptyOrDeleted (g ! ?k)" using nth_length_takeWhile [of IsEmptyOrDeleted g] g k by simp
    then have "countr_zero m = 8 * ?k" using False k below by (intro countr_zero_unique) (auto simp: bits)
    then show ?thesis by (simp add: drop_bit_eq_div)
  qed
  then show ?thesis by (simp add: neon_CountLeadingEmptyOrDeleted_def m_def)
qed

lemma neon_Match_set:
  assumes g: "length g = 8"
  shows "set (neon_Match g h) = {i. i < 8 \<and> g ! i = h}"
proof -
  have bits: "bit (vget_lane_u64 (vceq_8 g (vdup_n_8 h))) n \<longleftrightarrow> n < 64 \<and> g ! (n div 8) = h" for n
    by (rule bit_lane_mask) (simp_all add: g vceq_8_def vdup_n_8_def)
  have "{n. bit (vget_lane_u64 (vceq_8 g (vdup_n_8 h)) AND msbs64) n} = {n. n < 64 \<and> n mod 8 = 7 \<and> g ! (n div 8) = h}"
    unfolding bit_and_iff bit_msbs64 bits by blast
  then have "set (neon_Match g h) = (\<lambda>n. n div 8) ` {n. n < 64 \<and> n mod 8 = 7 \<and> g ! (n div 8) = h}"
    by (simp add: neon_Match_def Let_def set_mask_iter drop_bit_eq_div)
  also have "\<dots> = {i. i < 8 \<and> g ! i = h}"
  proof
    show "{i. i < 8 \<and> g ! i = h} \<subseteq> (\<lambda>n. n div 8) ` {n. n < 64 \<and> n mod 8 = 7 \<and> g ! (n div 8) = h}"
      by (rule subsetI, rule_tac x = "8 * x + 7" in image_eqI) simp_all
  qed auto
  finally show ?thesis .
qed

interpretation neon: control_group GroupAArch64Impl
proof
  fix g :: "ctrl_t list" and h :: i8 and i :: nat
  assume g: "length g = kWidth GroupAArch64Impl" "list_all valid_ctrl g"
  then have len: "length g = 8" by (simp add: GroupAArch64Impl_def)
  show "i < kWidth GroupAArch64Impl \<and> IsFull (g ! i)" if "IsFull h" "i \<in> set (Match GroupAArch64Impl g h)"
    using that neon_Match_set [OF len] by (auto simp: GroupAArch64Impl_def)
  show "i \<in> set (Match GroupAArch64Impl g h)" if "IsFull h" "i < kWidth GroupAArch64Impl" "g ! i = h"
    using that neon_Match_set [OF len] by (auto simp: GroupAArch64Impl_def)
  have "bit (vget_lane_u64 (vceq_8 (vdup_n_8 kEmpty) g)) n \<longleftrightarrow> n < 64 \<and> IsEmpty (g ! (n div 8))" for n
    by (rule bit_lane_mask) (auto simp: len vceq_8_def vdup_n_8_def IsEmpty_def)
  from whole_byte_mask_of [of _ "\<lambda>i. IsEmpty (g ! i)", OF this]
  show "mask_of (kWidth GroupAArch64Impl) (\<lambda>i. IsEmpty (g ! i)) (MaskEmpty GroupAArch64Impl g)"
    by (simp add: GroupAArch64Impl_def neon_MaskEmpty_def)
  have "bit (vget_lane_u64 (vcgt_s8 (vdup_n_8 kSentinel) g)) n \<longleftrightarrow> n < 64 \<and> IsEmptyOrDeleted (g ! (n div 8))" for n
    by (rule bit_lane_mask) (auto simp: len vcgt_s8_def vdup_n_8_def IsEmptyOrDeleted_def)
  from whole_byte_mask_of [of _ "\<lambda>i. IsEmptyOrDeleted (g ! i)", OF this]
  show "mask_of (kWidth GroupAArch64Impl) (\<lambda>i. IsEmptyOrDeleted (g ! i)) (MaskEmptyOrDeleted GroupAArch64Impl g)"
    by (simp add: GroupAArch64Impl_def neon_MaskEmptyOrDeleted_def)
  show "CountLeadingEmptyOrDeleted GroupAArch64Impl g = length (takeWhile IsEmptyOrDeleted g)"
    using neon_CountLeading [OF len] by (simp add: GroupAArch64Impl_def)
  show "ConvertSpecialToEmptyAndFullToDeleted GroupAArch64Impl g = map (\<lambda>c. if IsFull c then kDeleted else kEmpty) g"
    using neon_Convert_map [OF len] by (simp add: GroupAArch64Impl_def)
qed (simp_all add: GroupAArch64Impl_def)

end
