(* ===== verification/Swiss_Dictionary.thy ===== *)
theory Swiss_Dictionary
  imports Swiss_Transfer Swiss_Neon Word_Dictionary
begin

text \<open>
  Version 5 of the word dictionary, on \<open>absl::node_hash_set\<close>, and the properties of the Swiss table that
  hold for each of its group implementations.
\<close>

section \<open>The tables of the library\<close>

text \<open>A \<open>node_hash_set\<close> keeps a pointer to a node in each slot, of eight bytes. The hash function, the
  allocator and the addresses of the two static objects stay parameters.\<close>

definition node_hash_set ::
    "group_ops \<Rightarrow> ('a \<Rightarrow> u64) \<Rightarrow> (nat \<Rightarrow> nat \<Rightarrow> u64) \<Rightarrow> u64 \<Rightarrow> u64 \<Rightarrow> 'a table_env" where
  "node_hash_set G hash alloc counter_addr empty_addr =
     \<lparr>Group = G, hash_ref = hash, allocate = alloc, slot_size = 8, slot_align = 8,
      counter_address = counter_addr, empty_group_address = empty_addr\<rparr>"

definition group_implementations :: "group_ops list" where
  "group_implementations = [GroupSse2Impl, GroupSsse3Impl, GroupAArch64Impl, GroupPortableImpl]"

lemma group_implementations_meet:
  assumes "G \<in> set group_implementations"
  shows "control_group G"
proof -
  consider "G = GroupSse2Impl" | "G = GroupSsse3Impl" | "G = GroupAArch64Impl" | "G = GroupPortableImpl"
    using assms by (auto simp: group_implementations_def)
  then show ?thesis
  proof cases
    case 1
    show ?thesis unfolding 1 by unfold_locales
  next
    case 2
    show ?thesis unfolding 2 by unfold_locales
  next
    case 3
    show ?thesis unfolding 3 by unfold_locales
  next
    case 4
    show ?thesis unfolding 4 by unfold_locales
  qed
qed

definition table_env_ok :: "'a table_env \<Rightarrow> bool" where
  "table_env_ok E \<longleftrightarrow> Group E \<in> set group_implementations \<and> slot_align E \<in> {1, 2, 4, 8, 16}"

lemma swiss_implementation: "table_env_ok E \<Longrightarrow> swiss E"
proof (rule swiss.intro)
  assume ok: "table_env_ok E"
  then show "control_group (Group E)" by (simp add: table_env_ok_def group_implementations_meet)
  have "slot_align E = 2 ^ 0 \<or> slot_align E = 2 ^ 1 \<or> slot_align E = 2 ^ 2 \<or> slot_align E = 2 ^ 3 \<or> slot_align E = 2 ^ 4"
    using ok by (auto simp: table_env_ok_def)
  moreover have "0 \<le> (12::nat)" "1 \<le> (12::nat)" "2 \<le> (12::nat)" "3 \<le> (12::nat)" "4 \<le> (12::nat)" by simp_all
  ultimately show "\<exists>a \<le> 12. slot_align E = 2 ^ a" by blast
qed

lemma node_hash_set_ok: "G \<in> set group_implementations \<Longrightarrow> table_env_ok (node_hash_set G hash alloc counter_addr empty_addr)"
  by (simp add: table_env_ok_def node_hash_set_def)

interpretation sse2_table: swiss "node_hash_set GroupSse2Impl hash alloc counter_addr empty_addr"
  for hash alloc counter_addr empty_addr
  by (intro swiss_implementation node_hash_set_ok) (simp add: group_implementations_def)

interpretation ssse3_table: swiss "node_hash_set GroupSsse3Impl hash alloc counter_addr empty_addr"
  for hash alloc counter_addr empty_addr
  by (intro swiss_implementation node_hash_set_ok) (simp add: group_implementations_def)

interpretation neon_table: swiss "node_hash_set GroupAArch64Impl hash alloc counter_addr empty_addr"
  for hash alloc counter_addr empty_addr
  by (intro swiss_implementation node_hash_set_ok) (simp add: group_implementations_def)

interpretation portable_table: swiss "node_hash_set GroupPortableImpl hash alloc counter_addr empty_addr"
  for hash alloc counter_addr empty_addr
  by (intro swiss_implementation node_hash_set_ok) (simp add: group_implementations_def)

section \<open>Version 5 of the dictionary\<close>

text \<open>The collection of words is given by its elements and the category of its iterators.\<close>

definition v5_Dictionary :: "string table_env \<Rightarrow> bool \<Rightarrow> string list \<Rightarrow> string common_fields run" where
  "v5_Dictionary E random_access words = raw_hash_set_range E random_access words 0"

definition v5_in_dictionary :: "string table_env \<Rightarrow> string common_fields \<Rightarrow> string \<Rightarrow> bool run" where
  "v5_in_dictionary E container word =
     run_bind (find_key E container word) (\<lambda>it.
     run_bind (Some (it_eq E container it None)) (\<lambda>at_end. Some (Inr (\<not> at_end))))"

lemma v5_contains: "v5_in_dictionary E d word = contains E d word"
  by (simp add: v5_in_dictionary_def contains_def)

lemma v5_dictionary_ok:
  assumes "table_env_ok E" "length words < 2 ^ 50"
  shows "\<exists>d. v5_Dictionary E random_access words = Some (Inr d) \<and>
    (\<forall>word. v5_in_dictionary E d word = Some (Inr (word \<in> set words)))"
  using swiss.raw_hash_set_range_any [OF swiss_implementation [OF assms(1)] assms(2), of 0 random_access]
    swiss.contains_correct [OF swiss_implementation [OF assms(1)]]
  by (auto simp: v5_Dictionary_def v5_contains)

text \<open>The benchmark calls a lookup that returns; the one of version 5 does.\<close>

abbreviation v5_lookup :: "string table_env \<Rightarrow> string list \<Rightarrow> string common_fields \<Rightarrow> string \<Rightarrow> bool result" where
  "v5_lookup E words d word \<equiv> the (v5_in_dictionary E d word)"

lemma v5_meets_dictionary:
  assumes "table_env_ok E"
  shows "dictionary (v5_Dictionary E random_access) (v5_lookup E)"
proof
  fix words :: "string list"
  assume "length words < 2 ^ 50"
  then show "\<exists>d. v5_Dictionary E random_access words = Some (Inr d) \<and>
      (\<forall>word. v5_lookup E words d word = Inr (word \<in> set words))"
    using v5_dictionary_ok [OF assms, of words random_access] by auto
qed

interpretation d5: dictionary "v5_Dictionary (node_hash_set GroupSsse3Impl hash alloc counter_addr empty_addr) random_access"
    "v5_lookup (node_hash_set GroupSsse3Impl hash alloc counter_addr empty_addr)"
  for hash alloc counter_addr empty_addr random_access
  by (intro v5_meets_dictionary node_hash_set_ok) (simp add: group_implementations_def)

section \<open>Properties of the Swiss table\<close>

text \<open>A small environment for examples: every element collides.\<close>

definition example_env :: "nat table_env" where
  "example_env = node_hash_set GroupSsse3Impl (\<lambda>_. 0) (\<lambda>_ _. 4096) 0 0"

lemma example_env_ok: "table_env_ok example_env" "Group example_env = GroupSsse3Impl" "slot_align example_env = 8" "slot_size example_env = 8"
  by (auto simp: example_env_def table_env_ok_def node_hash_set_def group_implementations_def)

text \<open>C13. For every group implementation, hash function and allocator, a sequence of insertions, erasures,
  lookups and \<open>clear\<close> on a fresh table runs to its end without undefined behaviour and without a failing
  assertion, gives the answers of the same sequence on a set, and leaves a table with the elements of that
  set and the right size; growth, rehashing in place and tombstones included.\<close>

theorem swiss_table_refines_set:
  assumes "table_env_ok E" and "length ops < 2 ^ 56"
  shows "\<exists>t. table_run (table_step E) ops (CommonFields E) = Some (Inr (t, snd (set_run set_step ops {}))) \<and>
    swiss_inv E t \<and> elems t = fst (set_run set_step ops {}) \<and> cf_size t = card (fst (set_run set_step ops {}))"
proof -
  note sw = swiss_implementation [OF assms(1)]
  have "table_budget E (length ops + 0) (CommonFields E)" using table_budget_empty [OF assms(2)] by simp
  moreover have "elems (CommonFields E) = {}" by (simp add: elems_def full_at_def CommonFields_def)
  ultimately obtain t where t: "table_run (table_step E) ops (CommonFields E) = Some (Inr (t, snd (set_run set_step ops {})))"
    "elems t = fst (set_run set_step ops {})" "table_budget E 0 t"
    using swiss.operations_refine_set [OF sw, of ops 0 "CommonFields E"] by auto
  then show ?thesis using swiss.elements_of_table(4) [OF sw, of t] by (auto simp: table_budget_def)
qed

theorem swiss_table_refines_set_witness:
  "\<exists>t. table_run (table_step example_env) [Insert 1, Insert 2, Insert 1, Erase 1, Lookup 1, Lookup 2] (CommonFields example_env) =
      Some (Inr (t, [True, True, False, True, False, True])) \<and> elems t = {2} \<and> cf_size t = 1"
proof -
  have "set_run set_step [Insert 1, Insert 2, Insert 1, Erase 1, Lookup 1, Lookup 2] {} =
      ({2::nat}, [True, True, False, True, False, True])" by auto
  then show ?thesis
    using swiss_table_refines_set [OF example_env_ok(1), of "[Insert 1, Insert 2, Insert 1, Erase 1, Lookup 1, Lookup 2]"] by auto
qed

text \<open>C14. Version 5 of the dictionary, on \<open>node_hash_set\<close>: for every hash function, collection of words and group
  implementation the constructor ends without error, and \<open>in_dictionary\<close> then ends and answers exactly
  whether the word is among the words.\<close>

theorem v5_dictionary_correct:
  assumes "table_env_ok E" and "length words < 2 ^ 50"
  shows "\<exists>d. v5_Dictionary E random_access words = Some (Inr d) \<and>
    (\<forall>word. v5_in_dictionary E d word = Some (Inr (word \<in> set words)))"
  by (rule v5_dictionary_ok [OF assms])

theorem v5_dictionary_correct_witness:
  "\<exists>d. v5_Dictionary (node_hash_set GroupPortableImpl (\<lambda>w. of_nat (length w)) (\<lambda>_ _. 0) 0 0) True [''a'', ''b'', ''a''] = Some (Inr d) \<and>
    v5_in_dictionary (node_hash_set GroupPortableImpl (\<lambda>w. of_nat (length w)) (\<lambda>_ _. 0) 0 0) d ''b'' = Some (Inr True) \<and>
    v5_in_dictionary (node_hash_set GroupPortableImpl (\<lambda>w. of_nat (length w)) (\<lambda>_ _. 0) 0 0) d ''c'' = Some (Inr False)"
proof -
  have "table_env_ok (node_hash_set GroupPortableImpl (\<lambda>w. of_nat (length w)) (\<lambda>_ _. 0) 0 0 :: string table_env)"
    by (rule node_hash_set_ok) (simp add: group_implementations_def)
  from v5_dictionary_correct [OF this, of "[''a'', ''b'', ''a'']" True] show ?thesis by auto
qed

text \<open>C37. The benchmark: when the random device yields enough different strings, \<open>main\<close> obtains two
  disjoint lists of \<open>DICT_SIZE\<close> words, and neither consistency check prints its message, for any
  version of the dictionary and any number of iterations.\<close>

theorem benchmark_checks_pass:
  assumes "\<And>xs. mset (order xs) = mset xs"
    and "N * 2 \<le> card (set (drawn draw n rd))" and "0 < N" and "N < 2 ^ 31"
    and E: "E = node_hash_set GroupSsse3Impl hash alloc counter_addr empty_addr"
  shows "\<exists>wordsIn wordsNotIn. dictionary_main order draw N rd = Some (wordsIn, wordsNotIn)
    \<and> length wordsIn = N \<and> length wordsNotIn = N \<and> set wordsIn \<inter> set wordsNotIn = {}
    \<and> InDictionary v0_build v0_lookup wordsIn it = Some (Inr False)
    \<and> InDictionary v1_build v1_lookup wordsIn it = Some (Inr False)
    \<and> InDictionary v2_build v2_lookup wordsIn it = Some (Inr False)
    \<and> InDictionary (v3_Dictionary hashf) (v3_in_dictionary hashf) wordsIn it = Some (Inr False)
    \<and> InDictionary (v4_Dictionary hashf) (v4_in_dictionary hashf) wordsIn it = Some (Inr False)
    \<and> InDictionary (v5_Dictionary E random_access) (v5_lookup E) wordsIn it = Some (Inr False)
    \<and> NotInDictionary v0_build v0_lookup wordsIn wordsNotIn it = Some (Inr False)
    \<and> NotInDictionary v1_build v1_lookup wordsIn wordsNotIn it = Some (Inr False)
    \<and> NotInDictionary v2_build v2_lookup wordsIn wordsNotIn it = Some (Inr False)
    \<and> NotInDictionary (v3_Dictionary hashf) (v3_in_dictionary hashf) wordsIn wordsNotIn it = Some (Inr False)
    \<and> NotInDictionary (v4_Dictionary hashf) (v4_in_dictionary hashf) wordsIn wordsNotIn it = Some (Inr False)
    \<and> NotInDictionary (v5_Dictionary E random_access) (v5_lookup E) wordsIn wordsNotIn it = Some (Inr False)"
proof -
  obtain wi wn where w: "dictionary_main order draw N rd = Some (wi, wn)" "length wi = N" "length wn = N"
      "set wi \<inter> set wn = {}"
    using dictionary_main_words [OF assms(1,2)] by blast
  have ne: "wi \<noteq> []" "wn \<noteq> []" "length wi < 2 ^ 31" "length wn < 2 ^ 31"
    using w(2,3) assms(3,4) by auto
  note i = ne(1,3) and n = ne(2,4,3) w(4)
  show ?thesis unfolding E
    by (intro exI [of _ wi] exI [of _ wn] conjI w d0.in_check_silent [OF i] d1.in_check_silent [OF i]
        d2.in_check_silent [OF i] d3.in_check_silent [OF i] d4.in_check_silent [OF i]
        d0.not_in_check_silent [OF n] d1.not_in_check_silent [OF n] d2.not_in_check_silent [OF n]
        d3.not_in_check_silent [OF n] d4.not_in_check_silent [OF n]
        d5.in_check_silent [OF i] d5.not_in_check_silent [OF n])
qed

theorem benchmark_checks_pass_witness:
  "\<exists>wordsIn wordsNotIn.
     dictionary_main rev (CreateRandomString (\<lambda>g. (0, g)) (\<lambda>g. (48 + int g, Suc g))) 1 0 = Some (wordsIn, wordsNotIn)
     \<and> InDictionary (v4_Dictionary (\<lambda>_. 0)) (v4_in_dictionary (\<lambda>_. 0)) wordsIn 5 = Some (Inr False)"
proof -
  let ?draw = "CreateRandomString (\<lambda>g. (0, g)) (\<lambda>g. (48 + int g, Suc g))"
  have "drawn ?draw 2 0 = [''0'', ''1'']" by code_simp
  then have "1 * 2 \<le> card (set (drawn ?draw 2 0))" by simp
  from benchmark_checks_pass [where order = rev and it = 5 and hashf = "\<lambda>_. 0", OF _ this _ _ refl] show ?thesis
    by fastforce
qed



text \<open>C16. The probe sequence of a table visits every position exactly once: the groups at its first
  \<open>(capacity + 1) / kWidth\<close> offsets partition the positions, whatever the hash and the address of the table,
  for every table at least one group wide.\<close>

theorem probe_partitions_table:
  assumes "IsValidCapacity c" "c < 2 ^ 63" "Width = 8 \<or> Width = 16" "Width \<le> c + 1"
  shows "\<exists>seq. probe ctrl c hash = Inr seq \<and>
    bij_betw (\<lambda>(n, i). seq_offset ((probe_next Width ^^ n) seq) i) ({..<(c + 1) div Width} \<times> {..<Width}) {..c}"
proof -
  obtain k where k: "mask_capacity k c" using assms(1,2) IsValidCapacity_iff [of c] by auto
  have M: "Suc c = 2 ^ k" using k by (simp add: mask_capacity_def)
  have "Width = 2 ^ 3 \<or> Width = 2 ^ 4" using assms(3) by simp
  then obtain w where w: "Width = 2 ^ w" by blast
  then have "w \<le> k" using assms(4) M by (simp add: power_increasing_iff)
  let ?h = "unat (H1 hash ctrl)"
  have state: "(probe_next Width ^^ n) (probe_state c Width ?h 0) = probe_state c Width ?h n" if "n * Width \<le> c + 1" for n
    using that
  proof (induction n)
    case (Suc n)
    then have "Suc n * Width < 2 ^ 64" using assms(2) by simp
    from probe_next_state [OF k this] Suc show ?case by simp
  qed simp
  have "seq_offset ((probe_next Width ^^ n) (probe_state c Width ?h 0)) i = (?h + Width * triangle n + i) mod Suc c"
    if "n < Suc c div Width" for n i
  proof -
    have "n * Width \<le> c + 1" using that by (metis Suc_eq_plus1 div_times_less_eq_dividend le_trans less_imp_le mult_le_mono1)
    then show ?thesis using state seq_offset_state [OF k] by simp
  qed
  then have "bij_betw (\<lambda>(n, i). seq_offset ((probe_next Width ^^ n) (probe_state c Width ?h 0)) i)
      ({..<Suc c div Width} \<times> {..<Width}) {..<Suc c}"
    using probe_groups_bij [OF M w \<open>w \<le> k\<close>, of ?h] by (subst bij_betw_cong) auto
  moreover have "probe ctrl c hash = Inr (probe_state c Width ?h 0)"
    unfolding probe_def by (rule probe_seq_init_state [OF k])
  ultimately show ?thesis by (simp add: lessThan_Suc_atMost)
qed

theorem probe_partitions_table_witness:
  "\<exists>seq. probe 4096 15 77 = Inr seq \<and>
    bij_betw (\<lambda>(n, i). seq_offset ((probe_next 8 ^^ n) seq) i) ({..<2} \<times> {..<8}) {..15}"
proof -
  have "IsValidCapacity 15" by (simp add: IsValidCapacity_def)
  from probe_partitions_table [OF this, of 8 4096 77] show ?thesis by simp
qed

lemma intrinsic_match_exact:
  assumes "G \<in> set group_implementations" "G \<noteq> GroupPortableImpl" "length g = kWidth G"
  shows "set (Match G g h) = {i. i < kWidth G \<and> g ! i = h}"
proof -
  consider "G = GroupSse2Impl" | "G = GroupSsse3Impl" | "G = GroupAArch64Impl"
    using assms(1,2) by (auto simp: group_implementations_def)
  then show ?thesis
  proof cases
    case 1
    with assms(3) have "length g = 16" by (simp add: GroupSse2Impl_def)
    with 1 show ?thesis by (simp add: GroupSse2Impl_def sse2_Match_def set_mask_iter_0 sse2_compare_bits(1))
  next
    case 2
    with assms(3) have "length g = 16" by (simp add: GroupSsse3Impl_def GroupSse2Impl_def)
    with 2 show ?thesis
      by (simp add: GroupSsse3Impl_def GroupSse2Impl_def sse2_Match_def set_mask_iter_0 sse2_compare_bits(1))
  next
    case 3
    with assms(3) have "length g = 8" by (simp add: GroupAArch64Impl_def)
    with 3 show ?thesis by (simp add: GroupAArch64Impl_def neon_Match_set)
  qed
qed

text \<open>C17. The group implementations are interchangeable: on any group of control bytes each of them answers
  like the definition by cases on the bytes. \<open>Match\<close> of the SSE2, SSSE3 and AArch64 ones names exactly the
  positions that hold the wanted hash; that of the portable one may name further positions, but never one
  that is not full, and none is missed.\<close>

theorem group_implementations_agree:
  assumes "G \<in> set group_implementations" "length g = kWidth G" "list_all valid_ctrl g" "IsFull h"
  shows "(G \<noteq> GroupPortableImpl \<longrightarrow> set (Match G g h) = {i. i < kWidth G \<and> g ! i = h}) \<and>
    {i. i < kWidth G \<and> g ! i = h} \<subseteq> set (Match G g h) \<and> set (Match G g h) \<subseteq> {i. i < kWidth G \<and> IsFull (g ! i)} \<and>
    mask_of (kWidth G) (\<lambda>i. IsEmpty (g ! i)) (MaskEmpty G g) \<and>
    mask_of (kWidth G) (\<lambda>i. IsEmptyOrDeleted (g ! i)) (MaskEmptyOrDeleted G g) \<and>
    CountLeadingEmptyOrDeleted G g = length (takeWhile IsEmptyOrDeleted g) \<and>
    ConvertSpecialToEmptyAndFullToDeleted G g = map (\<lambda>c. if IsFull c then kDeleted else kEmpty) g"
proof -
  note c = group_implementations_meet [OF assms(1)]
  show ?thesis
    using intrinsic_match_exact [OF assms(1) _ assms(2)]
      control_group.match_complete [OF c assms(2-4)] control_group.match_full [OF c assms(2-4)]
      control_group.empty_mask [OF c assms(2,3)] control_group.empty_or_deleted_mask [OF c assms(2,3)]
      control_group.count_leading [OF c assms(2,3)] control_group.convert [OF c assms(2,3)]
    by blast
qed

theorem group_implementations_agree_witness:
  "3 \<in> set (Match GroupPortableImpl [kEmpty, kDeleted, 5, 7, kSentinel, 0, 127, kEmpty] 7) \<and>
    ConvertSpecialToEmptyAndFullToDeleted GroupPortableImpl [kEmpty, kDeleted, 5, 7, kSentinel, 0, 127, kEmpty] =
      [kEmpty, kEmpty, kDeleted, kDeleted, kEmpty, kDeleted, kDeleted, kEmpty]"
proof -
  let ?g = "[kEmpty, kDeleted, 5, 7, kSentinel, 0, 127, kEmpty]"
  have "GroupPortableImpl \<in> set group_implementations" by (simp add: group_implementations_def)
  moreover have "length ?g = kWidth GroupPortableImpl" "kWidth GroupPortableImpl = 8" by (simp_all add: GroupPortableImpl_def)
  moreover have full: "IsFull 5" "IsFull 7" "IsFull 0" "IsFull 127" by (simp_all add: IsFull_bit)
  moreover have "list_all valid_ctrl ?g" using full by (simp add: valid_ctrl_def)
  ultimately show ?thesis using group_implementations_agree [of GroupPortableImpl ?g 7] by (auto simp: numeral_eq_Suc)
qed

text \<open>C18. Load factor and capacity fit together: for a number of elements the lower bound, normalized, is the
  least valid capacity whose growth limit admits them.\<close>

theorem capacity_for_growth_is_least:
  assumes "G \<in> set group_implementations" "growth < 2 ^ 58"
  shows "\<exists>lb g. GrowthToLowerboundCapacity G growth = Inr lb \<and> IsValidCapacity (NormalizeCapacity lb) \<and>
    NormalizeCapacity lb < 2 ^ 62 \<and> CapacityToGrowth G (NormalizeCapacity lb) = Inr g \<and> growth \<le> g \<and>
    (\<forall>c cg. IsValidCapacity c \<longrightarrow> c < NormalizeCapacity lb \<longrightarrow> CapacityToGrowth G c = Inr cg \<longrightarrow> cg < growth)"
proof -
  define E :: "nat table_env" where "E = node_hash_set G (\<lambda>_. 0) (\<lambda>_ _. 0) 0 0"
  have G: "Group E = G" by (simp add: E_def node_hash_set_def)
  have sw: "swiss E" unfolding E_def by (intro swiss_implementation node_hash_set_ok assms(1))
  obtain lb where lb: "GrowthToLowerboundCapacity G growth = Inr lb" "lb < 2 ^ 60"
    using swiss.lowerbound_small [OF sw assms(2)] unfolding G by blast
  obtain g where g: "IsValidCapacity (NormalizeCapacity lb)" "NormalizeCapacity lb < 2 ^ 62"
    "CapacityToGrowth G (NormalizeCapacity lb) = Inr g" "growth \<le> g"
    using swiss.normalized_room [OF sw _ assms(2) order_refl] lb unfolding G by blast
  have "cg < growth" if "IsValidCapacity c" "c < NormalizeCapacity lb" "CapacityToGrowth G c = Inr cg" for c cg
  proof (rule ccontr)
    assume "\<not> cg < growth"
    then have "growth \<le> cg" by simp
    moreover have "c < 2 ^ 64" "growth < 2 ^ 62" "lb < 2 ^ 64" using that(2) g(2) assms(2) lb(2) by simp_all
    ultimately have "lb \<le> c" using growth_galois [OF that(1) _ _ that(3) lb(1)] by simp
    then have "NormalizeCapacity lb \<le> c" using NormalizeCapacity_least(4) [of lb c] that(1) \<open>c < 2 ^ 64\<close> \<open>lb < 2 ^ 64\<close> by simp
    then show False using that(2) by simp
  qed
  then show ?thesis using lb(1) g by blast
qed

theorem capacity_for_growth_is_least_witness:
  "\<exists>lb g. GrowthToLowerboundCapacity GroupPortableImpl 7 = Inr lb \<and> CapacityToGrowth GroupPortableImpl (NormalizeCapacity lb) = Inr g \<and> 7 \<le> g"
  using capacity_for_growth_is_least [of GroupPortableImpl 7] by (auto simp: group_implementations_def)



lemma example_bucket:
  assumes "n < 2 ^ 57"
  obtains t where "raw_hash_set_bucket example_env n = Inr t" "swiss_inv example_env t" "elems t = {}" "cf_size t = 0"
    "n \<le> cf_capacity t" "cf_capacity t < 2 ^ 58"
  using swiss.raw_hash_set_bucket_empty [OF swiss_implementation [OF example_env_ok(1)] assms] by blast

text \<open>C19. \<open>reserve(n)\<close> keeps its promise: it changes no element, and inserting further elements afterwards, up to
  \<open>n\<close> in all, neither fails nor changes the capacity, so that the table is not rehashed on the way.\<close>

theorem reserve_prevents_growth:
  assumes "table_env_ok E" "swiss_inv E t" "cf_capacity t < 2 ^ 58" "n < 2 ^ 55" "cf_size t + length xs \<le> n"
  shows "\<exists>t1 t2. reserve E t n = Some (Inr t1) \<and> elems t1 = elems t \<and> insert_range E xs t1 = Some (Inr t2) \<and>
    swiss_inv E t2 \<and> elems t2 = elems t \<union> set xs \<and> cf_capacity t2 = cf_capacity t1"
proof -
  note sw = swiss_implementation [OF assms(1)]
  have n: "n < 2 ^ 58" using assms(4) by simp
  obtain t1 where t1: "reserve E t n = Some (Inr t1)" "swiss_inv E t1" "elems t1 = elems t" "n \<le> cf_size t1 + cf_growth_left t1"
    "cf_size t1 = cf_size t" "cf_capacity t1 \<le> max (cf_capacity t) (4 * n + 16)"
    using swiss.reserve_correct [OF sw assms(2) n] by blast
  then have "cf_capacity t1 < 2 ^ 58" "length xs \<le> cf_growth_left t1" using assms(3,4,5) by simp_all
  from swiss.insert_range_within_growth [OF sw t1(2) this] t1 show ?thesis by auto
qed

theorem reserve_prevents_growth_witness:
  "\<exists>t1 t2. reserve example_env (CommonFields example_env) 100 = Some (Inr t1) \<and>
    insert_range example_env [1, 2, 3] t1 = Some (Inr t2) \<and> elems t2 = {1, 2, 3} \<and> cf_capacity t2 = cf_capacity t1"
proof -
  have "swiss_inv example_env (CommonFields example_env)" "elems (CommonFields example_env) = {}"
    "cf_capacity (CommonFields example_env) = 0" "cf_size (CommonFields example_env) = 0"
    by (simp_all add: swiss_inv_def swiss_empty_def CommonFields_def elems_def full_at_def)
  with reserve_prevents_growth [OF example_env_ok(1), of "CommonFields example_env" 100 "[1, 2, 3]"] show ?thesis by auto
qed

lemma fresh_table_run:
  assumes "table_env_ok E" "length ops < 2 ^ 56"
  obtains t rs where "table_run (table_step E) ops (CommonFields E) = Some (Inr (t, rs))" "swiss_inv E t"
    "elems t = fst (set_run set_step ops {})"
proof -
  have "table_budget E (length ops + 0) (CommonFields E)" using table_budget_empty [OF assms(2)] by simp
  moreover have "elems (CommonFields E) = {}" by (simp add: elems_def full_at_def CommonFields_def)
  ultimately show ?thesis
    using swiss.operations_refine_set [OF swiss_implementation [OF assms(1)], of ops 0 "CommonFields E"] that
    by (auto simp: table_budget_def)
qed

text \<open>A table with a history: twenty elements are inserted and two of them erased.\<close>

definition example_ops :: "nat set_op list" where
  "example_ops = map Insert [0..<20] @ [Erase 3, Erase 4]"

lemma set_run_append:
  "fst (set_run step (xs @ ys) s) = fst (set_run step ys (fst (set_run step xs s)))"
  by (induction xs arbitrary: s) (simp_all add: Let_def split_beta)

lemma set_run_inserts: "fst (set_run set_step (map Insert xs) s) = s \<union> set xs"
  by (induction xs arbitrary: s) (simp_all add: Let_def split_beta)

lemma example_table:
  obtains t rs where "table_run (table_step example_env) example_ops (CommonFields example_env) = Some (Inr (t, rs))"
    "swiss_inv example_env t" "elems t = {..<20} - {3, 4}" "cf_size t = 18" "\<not> is_small example_env (cf_capacity t)"
proof -
  note sw = swiss_implementation [OF example_env_ok(1)]
  have "fst (set_run set_step example_ops {}) = {..<20} - {3, 4}"
    unfolding example_ops_def set_run_append set_run_inserts by (auto simp: atLeast0LessThan)
  moreover have "length example_ops < 2 ^ 56" by (simp add: example_ops_def)
  ultimately obtain t rs where t: "table_run (table_step example_env) example_ops (CommonFields example_env) = Some (Inr (t, rs))"
    "swiss_inv example_env t" "elems t = {..<20} - {3, 4}"
    using fresh_table_run [OF example_env_ok(1)] by metis
  moreover have "cf_size t = 18" using swiss.elements_of_table(4) [OF sw t(2)] t(3) by simp
  moreover have "\<not> is_small example_env (cf_capacity t)"
    using swiss.size_le_capacity [OF sw t(2)] \<open>cf_size t = 18\<close>
    by (simp add: is_small_def example_env_ok GroupSsse3Impl_def GroupSse2Impl_def)
  ultimately show ?thesis using that by blast
qed

text \<open>C15. Squeezing out the tombstones in place ends, keeps every element where a lookup finds it, and leaves a
  table whose growth limit is used up by its elements alone.\<close>

theorem drop_deletes_keeps_elements:
  assumes "table_env_ok E" "swiss_inv E t" "\<not> is_small E (cf_capacity t)"
  shows "\<exists>t'. DropDeletesWithoutResize E t = Some (Inr t') \<and> swiss_inv E t' \<and> elems t' = elems t \<and>
    cf_capacity t' = cf_capacity t \<and> (\<forall>key. contains E t' key = Some (Inr (key \<in> elems t))) \<and>
    CapacityToGrowth (Group E) (cf_capacity t') = Inr (cf_size t' + cf_growth_left t')"
proof -
  note sw = swiss_implementation [OF assms(1)]
  have "kWidth (Group E) = 8 \<or> kWidth (Group E) = 16" using swiss.grp_width [OF sw] .
  then have "\<not> swiss_empty t" using assms(3) by (auto simp: swiss_empty_def is_small_def)
  then have core: "swiss_core E t" "swiss_counts E t" using assms(2) by (auto simp: swiss_inv_def)
  then obtain t' where t': "DropDeletesWithoutResize E t = Some (Inr t')" "swiss_inv E t'" "elems t' = elems t"
    "cf_capacity t' = cf_capacity t" "cf_size t' = cf_size t"
    "CapacityToGrowth (Group E) (cf_capacity t) = Inr (cf_size t + cf_growth_left t')"
    using swiss.DropDeletesWithoutResize_correct [OF sw core assms(3)] by (auto simp: swiss_inv_def)
  then show ?thesis using swiss.contains_correct [OF sw t'(2)] by auto
qed

theorem drop_deletes_keeps_elements_witness:
  "\<exists>t rs t'. table_run (table_step example_env) example_ops (CommonFields example_env) = Some (Inr (t, rs)) \<and>
    DropDeletesWithoutResize example_env t = Some (Inr t') \<and> elems t' = {..<20} - {3, 4} \<and>
    contains example_env t' 3 = Some (Inr False) \<and> contains example_env t' 19 = Some (Inr True)"
proof -
  obtain t rs where t: "table_run (table_step example_env) example_ops (CommonFields example_env) = Some (Inr (t, rs))"
    "swiss_inv example_env t" "elems t = {..<20} - {3, 4}" "cf_size t = 18" "\<not> is_small example_env (cf_capacity t)"
    by (rule example_table)
  with drop_deletes_keeps_elements [OF example_env_ok(1) t(2,5)] show ?thesis by auto
qed

text \<open>C21. A copy equals its original: the copy constructor ends with a good table, and \<open>operator==\<close>, which is
  equality of the sets of elements whatever the two histories, then holds in both directions.\<close>

theorem copy_equals_original:
  assumes "table_env_ok E" "swiss_inv E t" "cf_size t < 2 ^ 58"
  shows "\<exists>t'. raw_hash_set_copy E t = Some (Inr t') \<and> swiss_inv E t' \<and> table_eq E t t' = Some (Inr True) \<and>
    table_eq E t' t = Some (Inr True) \<and> (\<forall>u. swiss_inv E u \<longrightarrow> table_eq E t' u = Some (Inr (elems t = elems u)))"
proof -
  note sw = swiss_implementation [OF assms(1)]
  obtain t' where "raw_hash_set_copy E t = Some (Inr t')" "swiss_inv E t'" "elems t' = elems t"
    using swiss.raw_hash_set_copy_correct [OF sw assms(2,3)] by blast
  then show ?thesis using swiss.table_eq_correct [OF sw] assms(2) by auto
qed

theorem copy_equals_original_witness:
  "\<exists>t rs t'. table_run (table_step example_env) example_ops (CommonFields example_env) = Some (Inr (t, rs)) \<and>
    raw_hash_set_copy example_env t = Some (Inr t') \<and> table_eq example_env t' t = Some (Inr True) \<and>
    table_eq example_env t' (CommonFields example_env) = Some (Inr False)"
proof -
  obtain t rs where t: "table_run (table_step example_env) example_ops (CommonFields example_env) = Some (Inr (t, rs))"
    "swiss_inv example_env t" "elems t = {..<20} - {3, 4}" "cf_size t = 18"
    by (rule example_table)
  have e: "swiss_inv example_env (CommonFields example_env)" "elems (CommonFields example_env) = {}"
    by (simp_all add: swiss_inv_def swiss_empty_def CommonFields_def elems_def full_at_def)
  have "0 \<in> elems t" using t(3) by simp
  then have "elems t \<noteq> elems (CommonFields example_env)" using e(2) by auto
  with copy_equals_original [OF example_env_ok(1) t(2)] t(1,4) e(1) show ?thesis by auto
qed

text \<open>C22. A range-based loop visits every element of the table exactly once, and \<open>EraseIf\<close>, which erases while
  it iterates, ends, removes exactly the elements that satisfy the predicate and returns their number.\<close>

theorem iteration_and_erase_if:
  assumes "table_env_ok E" "swiss_inv E t"
  shows "(\<exists>xs. iterate E t (\<lambda>x acc. Some (Inr (acc @ [x]))) (\<lambda>_. False) [] = Some (Inr xs) \<and> distinct xs \<and>
      set xs = elems t \<and> length xs = cf_size t) \<and>
    (\<exists>t'. EraseIf E pred t = Some (Inr (card {x \<in> elems t. pred x}, t')) \<and> swiss_inv E t' \<and>
      elems t' = {x \<in> elems t. \<not> pred x})"
proof -
  note sw = swiss_implementation [OF assms(1)]
  have "run_until (\<lambda>x acc. Some (Inr (acc @ [x]))) (\<lambda>_. False) xs acc = Some (Inr (acc @ xs))" for xs acc :: "'a list"
    by (induction xs arbitrary: acc) simp_all
  then have "iterate E t (\<lambda>x acc. Some (Inr (acc @ [x]))) (\<lambda>_. False) [] = Some (Inr (elements_from t 0))"
    by (simp add: swiss.iterate_correct [OF sw assms(2)])
  then show ?thesis
    using swiss.elements_of_table [OF sw assms(2)] swiss.EraseIf_correct [OF sw assms(2), of pred] by auto
qed

theorem iteration_and_erase_if_witness:
  "\<exists>t rs t'. table_run (table_step example_env) example_ops (CommonFields example_env) = Some (Inr (t, rs)) \<and>
    EraseIf example_env (\<lambda>x. 17 < x) t = Some (Inr (2, t')) \<and> elems t' = {..17} - {3, 4}"
proof -
  obtain t rs where t: "table_run (table_step example_env) example_ops (CommonFields example_env) = Some (Inr (t, rs))"
    "swiss_inv example_env t" "elems t = {..<20} - {3, 4}" "cf_size t = 18"
    by (rule example_table)
  have "{x \<in> {..<20} - {3, 4}. 17 < x} = {18, 19::nat}" "{x \<in> {..<20} - {3, 4}. \<not> 17 < x} = {..17} - {3, 4::nat}" by auto
  with iteration_and_erase_if [OF example_env_ok(1) t(2), of "\<lambda>x. 17 < x"] t(1,3) show ?thesis by auto
qed

text \<open>The backing array: behind the control bytes the slots begin at an aligned offset, with less than one
  alignment of padding, and the size that is allocated holds all slots; nothing wraps around.\<close>

theorem backing_array_layout:
  assumes "table_env_ok E" "IsValidCapacity c" "c < 2 ^ 58" "c * slot_size E < 2 ^ 62"
  shows "\<exists>offset. SlotOffset E c = Inr offset \<and> c + kWidth (Group E) \<le> offset \<and> offset < c + kWidth (Group E) + slot_align E \<and>
    slot_align E dvd offset \<and> AllocSize E c = Inr (offset + c * slot_size E)"
proof -
  note sw = swiss_implementation [OF assms(1)]
  obtain a where a: "slot_align E = 2 ^ a" "a \<le> 12" using swiss.alignment [OF sw] by blast
  have W: "kWidth (Group E) = 8 \<or> kWidth (Group E) = 16" using swiss.grp_width [OF sw] .
  then have w: "kWidth (Group E) \<le> 16" "c + 1 + NumClonedBytes E = c + kWidth (Group E)" by (auto simp: NumClonedBytes_def)
  have c: "c < 2 ^ 62" using assms(3) by simp
  obtain off where off: "SlotOffset E c = Inr off" "c + kWidth (Group E) \<le> off" "off < c + kWidth (Group E) + 2 ^ a" "2 ^ a dvd off"
    using SlotOffset_value [OF assms(2) c a w(1)] unfolding w(2) by blast
  have "(2::nat) ^ a \<le> 2 ^ 12" using a(2) by (rule power_increasing) simp
  then have "off + c * slot_size E < 2 ^ 64" using off(3) assms(3,4) w(1) by simp
  then have "AllocSize E c = Inr (off + c * slot_size E)" using off(1) by (simp add: AllocSize_def)
  then show ?thesis using off a(1) by auto
qed

text \<open>C23. \<open>SetCtrl\<close> keeps the control bytes well formed: it writes exactly one position and its clone, so that
  afterwards a group loaded at any offset shows the bytes of the table, wrapped around its end.\<close>

theorem SetCtrl_keeps_shape:
  assumes "table_env_ok E" "table_shape E t" "i < cf_capacity t" "valid_ctrl h" "h \<noteq> kSentinel"
  shows "\<exists>t'. SetCtrl E t i h = Inr t' \<and> table_shape E t' \<and>
    (\<forall>p \<le> cf_capacity t. cf_control t' ! p = (if p = i then h else cf_control t ! p)) \<and>
    (\<forall>pos \<le> cf_capacity t. load_group E t' pos = Inr (map (window t' pos) [0..<kWidth (Group E)]))"
proof -
  note sw = swiss_implementation [OF assms(1)]
  obtain c where c: "SetCtrl E t i h = Inr (t\<lparr>cf_control := c\<rparr>)" "table_shape E (t\<lparr>cf_control := c\<rparr>)"
    "\<And>p. p \<le> cf_capacity t \<Longrightarrow> c ! p = (if p = i then h else cf_control t ! p)"
    using swiss.SetCtrl_shape [OF sw assms(2-5)] by blast
  then show ?thesis using swiss.load_group_window [OF sw c(2)] by auto
qed

theorem SetCtrl_keeps_shape_witness:
  "\<exists>t t'. raw_hash_set_bucket example_env 20 = Inr t \<and> SetCtrl example_env t 3 kDeleted = Inr t' \<and>
    cf_control t' ! 3 = kDeleted \<and> table_shape example_env t'"
proof -
  obtain t where t: "raw_hash_set_bucket example_env 20 = Inr t" "swiss_inv example_env t" "20 \<le> cf_capacity t"
    by (rule example_bucket [of 20]) simp_all
  then have "table_shape example_env t" by (auto simp: swiss_inv_def swiss_empty_def swiss_core_def)
  with SetCtrl_keeps_shape [OF example_env_ok(1), of t 3 kDeleted] t show ?thesis by auto
qed


lemma table_after:
  assumes "table_env_ok E" and "length ops + n < 2 ^ 56"
  shows "\<exists>t. swiss_inv E t \<and> table_budget E n t \<and> elems t = fst (set_run set_step ops {})"
proof -
  have "elems (CommonFields E) = {}" by (simp add: elems_def full_at_def CommonFields_def)
  then show ?thesis
    using swiss.operations_refine_set [OF swiss_implementation [OF assms(1)] table_budget_empty [OF assms(2)]]
    by (auto simp: table_budget_def)
qed

text \<open>C20. \<open>merge\<close> moves elements between two tables, which may use different hash functions and even different
  group implementations: it ends without a failing assertion, the target holds the elements of both, the
  source keeps exactly the elements the target had already, and both are good tables with the right sizes.
  The source is modified while it is iterated over, the target may grow at every step.\<close>

theorem merge_moves_elements:
  assumes "table_env_ok E" "table_env_ok F" "swiss_inv F src" "table_budget E (cf_size src) dst"
  shows "\<exists>src' dst'. merge E F src dst = Some (Inr (src', dst')) \<and> swiss_inv F src' \<and> swiss_inv E dst' \<and>
    elems dst' = elems dst \<union> elems src \<and> elems src' = elems src \<inter> elems dst \<and>
    cf_size dst' = card (elems dst \<union> elems src) \<and> cf_size src' = card (elems src \<inter> elems dst)"
proof -
  note E = swiss_implementation [OF assms(1)] and F = swiss_implementation [OF assms(2)]
  have "table_budget E (cf_size src + 0) dst" using assms(4) by simp
  from merge_correct [OF E F assms(3) this] obtain src' dst' where
    t: "merge E F src dst = Some (Inr (src', dst'))" "swiss_inv F src'" "table_budget E 0 dst'"
      "elems dst' = elems dst \<union> elems src" "elems src' = elems src \<inter> elems dst" by blast
  moreover have "swiss_inv E dst'" using t(3) by (simp add: table_budget_def)
  ultimately show ?thesis
    using swiss.elements_of_table(4) [OF E, of dst'] swiss.elements_of_table(4) [OF F, of src'] by auto
qed

theorem merge_moves_elements_witness:
  "\<exists>src dst src' dst'. elems src = {1, 2} \<and> elems dst = {2, 3} \<and>
    merge example_env example_env src dst = Some (Inr (src', dst')) \<and> elems dst' = {1, 2, 3} \<and> elems src' = {2}"
proof -
  obtain src where src: "swiss_inv example_env src" "elems src = {1, 2}"
    using table_after [OF example_env_ok(1), of "[Insert 1, Insert 2]" 0] by auto
  then have "cf_size src = 2" using swiss.elements_of_table(4) [OF swiss_implementation [OF example_env_ok(1)], of src] by simp
  moreover obtain dst where dst: "table_budget example_env 2 dst" "elems dst = {2, 3}"
    using table_after [OF example_env_ok(1), of "[Insert 2, Insert 3]" 2] by auto
  moreover have "{2, 3} \<union> {1, 2} = {1, 2, 3::nat}" "{1, 2} \<inter> {2, 3} = {2::nat}" by auto
  ultimately show ?thesis
    using merge_moves_elements [OF example_env_ok(1,1) src(1), of dst] src(2) by auto
qed

text \<open>A node handle taken out of a table and put back restores the set of its elements.\<close>

theorem node_handle_round_trip:
  assumes "table_env_ok E" "table_budget E 1 t"
  shows "\<exists>node t1 p inserted t2. extract_key E t x = Some (Inr (node, t1)) \<and> elems t1 = elems t - {x} \<and>
    insert_node E t1 node = Some (Inr (p, inserted, None, t2)) \<and> elems t2 = elems t \<and> swiss_inv E t2"
proof -
  note sw = swiss_implementation [OF assms(1)]
  have inv: "swiss_inv E t" using assms(2) by (simp add: table_budget_def)
  obtain t1 where t1: "extract_key E t x = Some (Inr (if x \<in> elems t then Some x else None, t1))" "swiss_inv E t1"
    "elems t1 = elems t - {x}" "cf_capacity t1 = cf_capacity t" using swiss.extract_correct [OF sw inv, of x] by blast
  have "cf_size t1 \<le> cf_size t"
    using swiss.elements_of_table(4) [OF sw inv] swiss.elements_of_table(4) [OF sw t1(2)] t1(3)
      card_mono [OF finite_elems, of "elems t1" t] by auto
  then have b: "table_budget E (Suc 0) t1" using assms(2) t1(2,4) by (simp add: table_budget_def)
  show ?thesis
  proof (cases "x \<in> elems t")
    case True
    from swiss.insert_node_correct(2) [OF sw b, of x] t1 True show ?thesis
      by (auto simp: table_budget_def insert_absorb)
  next
    case False
    from swiss.insert_node_correct(1) [OF sw b] t1 False show ?thesis by auto
  qed
qed


end
