(* ===== verification/Swiss_Interface.thy ===== *)
theory Swiss_Interface
  imports Swiss_Dictionary
begin

text \<open>
  The rest of the interface of \<open>raw_hash_set\<close>: the insertions that take a hint, an initializer list, the
  arguments of a constructor or a function that constructs the element, \<open>equal_range\<close>, the functions
  of \<open>HashtableDebugAccess\<close>, and the generation counter that builds with sanitizers use to find
  iterators that have become invalid. How the elements are constructed and how much memory an
  element owns are arguments.
\<close>

section \<open>Insertion\<close>

text \<open>\<open>insert(hint, value)\<close> and \<open>emplace_hint\<close>: the hint is ignored.\<close>

definition insert_hint :: "'a table_env \<Rightarrow> 'a common_fields \<Rightarrow> nat option \<Rightarrow> 'a \<Rightarrow> (nat \<times> 'a common_fields) run" where
  "insert_hint E t hint value = run_bind (emplace E t value) (\<lambda>(p, inserted, t'). Some (Inr (p, t')))"

definition insert_ilist :: "'a table_env \<Rightarrow> 'a common_fields \<Rightarrow> 'a list \<Rightarrow> 'a common_fields run" where
  "insert_ilist E t ilist = insert_range E ilist t"

definition insert_node_hint ::
    "'a table_env \<Rightarrow> 'a common_fields \<Rightarrow> nat option \<Rightarrow> 'a option \<Rightarrow> (nat option \<times> 'a option \<times> 'a common_fields) run" where
  "insert_node_hint E t hint node =
     run_bind (insert_node E t node) (\<lambda>(position, inserted, node', t'). Some (Inr (position, node', t')))"

text \<open>\<open>emplace\<close> when the key cannot be read off the arguments: the element is constructed outside the table
  and moved in, or destroyed.\<close>

definition emplace_args ::
    "'a table_env \<Rightarrow> ('args \<Rightarrow> 'a) \<Rightarrow> 'a common_fields \<Rightarrow> 'args \<Rightarrow> (nat \<times> bool \<times> 'a common_fields) run" where
  "emplace_args E construct t args = (let elem = construct args in insert_slot E t elem)"

definition emplace_hint ::
    "'a table_env \<Rightarrow> ('args \<Rightarrow> 'a) \<Rightarrow> 'a common_fields \<Rightarrow> nat option \<Rightarrow> 'args \<Rightarrow> (nat \<times> 'a common_fields) run" where
  "emplace_hint E construct t hint args =
     run_bind (emplace_args E construct t args) (\<lambda>(p, inserted, t'). Some (Inr (p, t')))"

text \<open>\<open>raw_hash_set::constructor\<close>: the slot to construct in, null once it has been used. A call with the slot
  null fails the assertion.\<close>

definition constructor_call :: "'a \<Rightarrow> 'a common_fields \<times> nat option \<Rightarrow> ('a common_fields \<times> nat option) result" where
  "constructor_call x = (\<lambda>(t, slot).
     case slot of None \<Rightarrow> Inl AssertionFailure | Some p \<Rightarrow> rbind (slot_write t p (Some x)) (\<lambda>t'. Inr (t', None)))"

text \<open>\<open>calls\<close> are the elements that the function \<open>f\<close> given to \<open>lazy_emplace\<close> asks the constructor for, in order.\<close>

definition lazy_emplace :: "'a table_env \<Rightarrow> 'a common_fields \<Rightarrow> 'a \<Rightarrow> 'a list \<Rightarrow> (nat \<times> 'a common_fields) run" where
  "lazy_emplace E t key calls =
     run_bind (find_or_prepare_insert E t key) (\<lambda>(p, inserted, t1).
       if inserted
       then run_bind (Some (for_each constructor_call calls (t1, Some p))) (\<lambda>(t2, slot).
              if slot = None then Some (Inr (p, t2)) else Some (Inl AssertionFailure))
       else Some (Inr (p, t1)))"

section \<open>Lookup\<close>

definition equal_range :: "'a table_env \<Rightarrow> 'a common_fields \<Rightarrow> 'a \<Rightarrow> (nat option \<times> nat option) run" where
  "equal_range E t key =
     run_bind (find_key E t key) (\<lambda>it.
     run_bind (Some (it_eq E t it None)) (\<lambda>at_end.
       if \<not> at_end then run_bind (next_it E t it) (\<lambda>it'. Some (Inr (it, it'))) else Some (Inr (it, it))))"

definition table_empty :: "'a common_fields \<Rightarrow> bool" where
  "table_empty t \<longleftrightarrow> cf_size t = 0"

definition table_neq :: "'a table_env \<Rightarrow> 'a common_fields \<Rightarrow> 'a common_fields \<Rightarrow> bool run" where
  "table_neq E a b = run_bind (table_eq E a b) (\<lambda>e. Some (Inr (\<not> e)))"

section \<open>Debug access\<close>

text \<open>The loop over the candidates of a group; the answer carries whether the key was found.\<close>

fun probes_in_group :: "'a common_fields \<Rightarrow> 'a \<Rightarrow> probe_seq \<Rightarrow> nat list \<Rightarrow> nat \<Rightarrow> (nat \<times> bool) result" where
  "probes_in_group t key seq [] num_probes = Inr (num_probes, False)"
| "probes_in_group t key seq (i # is) num_probes =
     rbind (slot_read t (seq_offset seq i)) (\<lambda>x.
       if x = key then Inr (num_probes, True) else probes_in_group t key seq is (num_probes + 1))"

partial_function (option) num_probes_loop ::
    "'a table_env \<Rightarrow> 'a common_fields \<Rightarrow> 'a \<Rightarrow> u64 \<Rightarrow> probe_seq \<Rightarrow> nat \<Rightarrow> nat run" where
  "num_probes_loop E t key hash seq num_probes =
     (case load_group E t (ps_offset seq) of
        Inl e \<Rightarrow> Some (Inl e)
      | Inr g \<Rightarrow>
          (case probes_in_group t key seq (Match (Group E) g (H2 hash)) num_probes of
             Inl e \<Rightarrow> Some (Inl e)
           | Inr r \<Rightarrow>
               if snd r then Some (Inr (fst r))
               else if mask_nonzero (MaskEmpty (Group E) g) then Some (Inr (fst r))
               else num_probes_loop E t key hash (probe_next (kWidth (Group E)) seq) (fst r + 1)))"

definition GetNumProbes :: "'a table_env \<Rightarrow> 'a common_fields \<Rightarrow> 'a \<Rightarrow> nat run" where
  "GetNumProbes E t key =
     run_bind (Some (probe_table t (hash_ref E key))) (\<lambda>seq. num_probes_loop E t key (hash_ref E key) seq 0)"

text \<open>\<open>space_used\<close> of the policy on a slot; \<open>per_slot\<close> is its value on the null pointer, the largest
  \<open>size_t\<close> if the elements differ in what they own.\<close>

definition add_space :: "('a \<Rightarrow> nat) \<Rightarrow> 'a common_fields \<Rightarrow> nat \<Rightarrow> nat \<Rightarrow> nat result" where
  "add_space space_used t i m =
     rbind (array_get (cf_control t) i) (\<lambda>c.
       if IsFull c then rbind (slot_read t i) (\<lambda>x. Inr (sz (m + space_used x))) else Inr m)"

definition AllocatedByteSize :: "'a table_env \<Rightarrow> nat \<Rightarrow> ('a \<Rightarrow> nat) \<Rightarrow> 'a common_fields \<Rightarrow> nat result" where
  "AllocatedByteSize E per_slot space_used t =
     (if cf_capacity t = 0 then Inr 0
      else rbind (AllocSize E (cf_capacity t)) (\<lambda>m.
        if per_slot \<noteq> 2 ^ 64 - 1 then Inr (sz (m + per_slot * cf_size t))
        else for_each (add_space space_used t) [0..<cf_capacity t] m))"

definition LowerBoundAllocatedByteSize :: "'a table_env \<Rightarrow> nat \<Rightarrow> nat \<Rightarrow> nat result" where
  "LowerBoundAllocatedByteSize E per_slot n =
     rbind (GrowthToLowerboundCapacity (Group E) n) (\<lambda>capacity.
       if capacity = 0 then Inr 0
       else rbind (AllocSize E (NormalizeCapacity capacity)) (\<lambda>m.
         if per_slot \<noteq> 2 ^ 64 - 1 then Inr (sz (m + per_slot * n)) else Inr m))"

section \<open>Generations\<close>

text \<open>\<open>CommonFieldsGenerationInfoEnabled\<close>, with the counter its pointer refers to.\<close>

record generation_info =
  reserved_growth :: u64
  generation :: "8 word"

definition kReservedGrowthJustRanOut :: u64 where
  "kReservedGrowthJustRanOut = - 1"

definition NextGeneration :: "8 word \<Rightarrow> 8 word" where
  "NextGeneration g = (let g = g + 1 in if g = 0 then g + 1 else g)"

definition maybe_increment_generation_on_insert :: "generation_info \<Rightarrow> generation_info" where
  "maybe_increment_generation_on_insert i =
     (let i = (if reserved_growth i = kReservedGrowthJustRanOut then i\<lparr>reserved_growth := 0\<rparr> else i)
      in if reserved_growth i > 0
         then let r = reserved_growth i - 1
              in i\<lparr>reserved_growth := (if r = 0 then kReservedGrowthJustRanOut else r)\<rparr>
         else i\<lparr>generation := NextGeneration (generation i)\<rparr>)"

definition reset_reserved_growth :: "u64 \<Rightarrow> u64 \<Rightarrow> generation_info \<Rightarrow> generation_info" where
  "reset_reserved_growth reservation n i = i\<lparr>reserved_growth := reservation - n\<rparr>"

definition RehashProbabilityConstant :: nat where
  "RehashProbabilityConstant = 16"

text \<open>\<open>hash_of\<close> is \<open>absl::HashOf\<close> on the random seed.\<close>

definition should_rehash_for_bug_detection_on_insert ::
    "'a table_env \<Rightarrow> (u64 \<Rightarrow> u64) \<Rightarrow> generation_info \<Rightarrow> 'a common_fields \<Rightarrow> ('a common_fields \<times> bool) result" where
  "should_rehash_for_bug_detection_on_insert E hash_of i t =
     (if reserved_growth i = kReservedGrowthJustRanOut then Inr (t, True)
      else if reserved_growth i > 0 then Inr (t, False)
      else let (t', seed) = RandomSeed E t
           in rbind (probe_table t' (hash_of seed)) (\<lambda>seq. Inr (t', ps_offset seq < RehashProbabilityConstant)))"


section \<open>Constructing insertions\<close>

lemma emplace_prepares:
  assumes "emplace E t x = Some (Inr (p, True, t'))"
  obtains t1 where "find_or_prepare_insert E t x = Some (Inr (p, True, t1))" "slot_write t1 p (Some x) = Inr t'"
  using assms
  by (auto simp: emplace_def emplace_at_def run_bind_def split: option.splits sum.splits if_splits)

lemma emplace_present:
  assumes "emplace E t x = Some (Inr (p, False, t'))"
  shows "find_or_prepare_insert E t x = Some (Inr (p, False, t'))"
  using assms
  by (auto simp: emplace_def emplace_at_def run_bind_def split: option.splits sum.splits if_splits)

lemma slot_write_any: "slot_write t p v = Inr t' \<Longrightarrow> \<exists>t''. slot_write t p w = Inr t''"
  by (auto simp: slot_write_def array_set_def split: if_splits)

text \<open>Of the calls of the constructor exactly one succeeds.\<close>

lemma constructor_calls:
  assumes "slot_write t p v = Inr t'"
  shows "for_each constructor_call calls (t, Some p) =
    (case calls of [] \<Rightarrow> Inr (t, Some p)
     | [x] \<Rightarrow> rbind (slot_write t p (Some x)) (\<lambda>t''. Inr (t'', None))
     | _ \<Rightarrow> Inl AssertionFailure)"
proof (cases calls)
  case (Cons x xs)
  obtain t'' where "slot_write t p (Some x) = Inr t''" using slot_write_any [OF assms] by blast
  then show ?thesis using Cons by (cases xs) (simp_all add: constructor_call_def)
qed simp

context swiss
begin

lemma lazy_emplace_present:
  assumes "swiss_inv E t" "cf_capacity t < 2 ^ 58" "x \<in> elems t"
  shows "\<exists>p. lazy_emplace E t x calls = Some (Inr (p, t)) \<and> full_at t p \<and> cf_slots t ! p = Some x"
proof -
  obtain p where p: "emplace E t x = Some (Inr (p, False, t))" "full_at t p" "cf_slots t ! p = Some x"
    using emplace_correct [OF assms(1,2), of x] assms(3) by auto
  then show ?thesis using emplace_present [OF p(1)] by (simp add: lazy_emplace_def)
qed

lemma lazy_emplace_absent:
  assumes "swiss_inv E t" "cf_capacity t < 2 ^ 58" "x \<notin> elems t"
  obtains p t' where "emplace E t x = Some (Inr (p, True, t'))"
    "\<And>calls. length calls \<noteq> 1 \<Longrightarrow> lazy_emplace E t x calls = Some (Inl AssertionFailure)"
    "lazy_emplace E t x [x] = Some (Inr (p, t'))"
proof -
  obtain p t' where p: "emplace E t x = Some (Inr (p, True, t'))"
    using emplace_correct [OF assms(1,2), of x] assms(3) by auto
  obtain t1 where t1: "find_or_prepare_insert E t x = Some (Inr (p, True, t1))" "slot_write t1 p (Some x) = Inr t'"
    by (rule emplace_prepares [OF p])
  have "lazy_emplace E t x calls = Some (Inl AssertionFailure)" if "length calls \<noteq> 1" for calls
    using t1(1) constructor_calls [OF t1(2), of calls] that by (auto simp: lazy_emplace_def split: list.splits)
  moreover have "lazy_emplace E t x [x] = Some (Inr (p, t'))"
    using t1 constructor_calls [OF t1(2), of "[x]"] by (simp add: lazy_emplace_def)
  ultimately show ?thesis using that p by blast
qed

lemma equal_range_correct:
  assumes "swiss_inv E t"
  shows "\<exists>r. equal_range E t key = Some (Inr r) \<and>
    (case r of (None, b) \<Rightarrow> key \<notin> elems t \<and> b = None
     | (Some p, b) \<Rightarrow> full_at t p \<and> cf_slots t ! p = Some key \<and> b = next_full t (Suc p))"
proof -
  obtain r where r: "find_key E t key = Some (Inr r)" "key_pos t key r" using find_key_inv [OF assms] by blast
  note e = found_is_end [OF assms r(2)]
  show ?thesis
  proof (cases r)
    case None
    then show ?thesis using r e by (auto simp: equal_range_def key_pos_def)
  next
    case (Some p)
    then have p: "full_at t p" "cf_slots t ! p = Some key" "key \<in> elems t" using r(2) by (auto simp: key_pos_def elems_def)
    then have "swiss_core E t" using assms by (auto simp: swiss_inv_def swiss_empty_def full_at_def)
    from iterator_at_full(2) [OF this p(1)] show ?thesis using r(1) e Some p by (simp add: equal_range_def)
  qed
qed

end

section \<open>Counting probes\<close>

lemma probes_match:
  assumes "match_loop t key seq is = Inr r"
  shows "\<exists>m. probes_in_group t key seq is n = Inr (m, r \<noteq> None) \<and> n \<le> m"
  using assms
proof (induction "is" arbitrary: n)
  case (Cons i "is")
  then obtain x where x: "slot_read t (seq_offset seq i) = Inr x" by (cases "slot_read t (seq_offset seq i)") auto
  show ?case
  proof (cases "x = key")
    case False
    then obtain m where "probes_in_group t key seq is (n + 1) = Inr (m, r \<noteq> None)" "n + 1 \<le> m"
      using Cons x by (auto dest: Cons.IH [of "n + 1"])
    then show ?thesis using False x by (intro exI [of _ m]) simp
  qed (use Cons.prems x in auto)
qed simp

text \<open>Counting ends where the lookup ends: it needs no bound of its own.\<close>

lemma num_probes_follow:
  assumes "probe_loop E t key hash seq = Some y"
  shows "y = Inr r \<Longrightarrow> \<exists>m. num_probes_loop E t key hash seq n = Some (Inr m)"
proof (induction arbitrary: n rule: probe_loop.raw_induct [OF _ assms])
  case (1 loop E t key hash seq y)
  note body = 1(2) and y = 1(3)
  obtain g where g: "load_group E t (ps_offset seq) = Inr g" using body y by (auto split: sum.splits)
  obtain q where q: "match_loop t key seq (Match (Group E) g (H2 hash)) = Inr q"
    using body y g by (auto split: sum.splits)
  obtain m where m: "probes_in_group t key seq (Match (Group E) g (H2 hash)) n = Inr (m, q \<noteq> None)"
    using probes_match [OF q] by blast
  show ?case
  proof (cases "q = None \<and> \<not> mask_nonzero (MaskEmpty (Group E) g)")
    case True
    then have "loop E t key hash (probe_next (kWidth (Group E)) seq) = Some y"
      using body g q y by (auto simp: Let_def split: if_splits)
    from 1(1) [OF this y] obtain k where
      "num_probes_loop E t key hash (probe_next (kWidth (Group E)) seq) (m + 1) = Some (Inr k)" by blast
    then show ?thesis using True g m by (subst num_probes_loop.simps) simp
  next
    case False
    then show ?thesis using g m by (subst num_probes_loop.simps) auto
  qed
qed

context swiss
begin

lemma GetNumProbes_ends:
  assumes "swiss_inv E t"
  shows "\<exists>n. GetNumProbes E t key = Some (Inr n)"
proof -
  obtain r where "find_key E t key = Some (Inr r)" using find_key_inv [OF assms] by blast
  then obtain seq where "probe_table t (hash_ref E key) = Inr seq" "probe_loop E t key (hash_ref E key) seq = Some (Inr r)"
    by (auto simp: find_key_def find_hash_def run_bind_def split: sum.splits)
  then show ?thesis using num_probes_follow by (fastforce simp: GetNumProbes_def)
qed

end

section \<open>Memory\<close>

text \<open>The size of the backing array, and that it grows with the capacity.\<close>

lemma least_multiple_mono:
  fixes n1 n2 d a b :: nat
  assumes "n1 \<le> n2" "d dvd a" "d dvd b" "a < n1 + d" "n2 \<le> b"
  shows "a \<le> b"
proof (rule ccontr)
  assume gt: "\<not> a \<le> b"
  moreover have "d dvd a - b" using assms(2,3) by (rule dvd_diff_nat)
  ultimately have "d \<le> a - b" by (intro dvd_imp_le) simp_all
  then show False using assms(1,4,5) gt by linarith
qed

context swiss
begin

lemma AllocSize_value:
  assumes "IsValidCapacity c" "c < 2 ^ 58" "c * slot_size E < 2 ^ 62"
  obtains off where "AllocSize E c = Inr (off + c * slot_size E)" "c + W \<le> off" "off < c + W + slot_align E" "slot_align E dvd off"
proof -
  obtain a where a: "slot_align E = 2 ^ a" "a \<le> 12" using alignment by blast
  have w: "W \<le> 16" "c + 1 + NumClonedBytes E = c + W" using grp_width by (auto simp: NumClonedBytes_def)
  have "c < 2 ^ 62" using assms(2) by simp
  then obtain off where off: "SlotOffset E c = Inr off" "c + W \<le> off" "off < c + W + 2 ^ a" "2 ^ a dvd off"
    using SlotOffset_value [OF assms(1) _ a w(1)] unfolding w(2) by blast
  have "(2::nat) ^ a \<le> 2 ^ 12" using a(2) by (rule power_increasing) simp
  then have "off + c * slot_size E < 2 ^ 64" using off(3) assms(2,3) w(1) by simp
  then have "AllocSize E c = Inr (off + c * slot_size E)" using off(1) by (simp add: AllocSize_def)
  then show ?thesis using that off a(1) by auto
qed

lemma AllocSize_mono:
  assumes "IsValidCapacity c" "IsValidCapacity d" "c \<le> d" "d < 2 ^ 58" "d * slot_size E < 2 ^ 62"
  obtains m n where "AllocSize E c = Inr m" "AllocSize E d = Inr n" "m \<le> n" "n < 2 ^ 63"
proof -
  have cs: "c * slot_size E \<le> d * slot_size E" using assms(3) by simp
  have c: "c < 2 ^ 58" "c * slot_size E < 2 ^ 62" using assms(3-5) cs by linarith+
  obtain x where x: "AllocSize E c = Inr (x + c * slot_size E)" "x < c + W + slot_align E" "slot_align E dvd x"
    by (rule AllocSize_value [OF assms(1) c])
  obtain y where y: "AllocSize E d = Inr (y + d * slot_size E)" "d + W \<le> y" "y < d + W + slot_align E" "slot_align E dvd y"
    by (rule AllocSize_value [OF assms(2,4,5)])
  have "x \<le> y" using least_multiple_mono [of "c + W" "d + W" "slot_align E" x y] x(2,3) y(2,4) assms(3) by simp
  moreover obtain a where a: "slot_align E = 2 ^ a" "a \<le> 12" using alignment by blast
  moreover have "(2::nat) ^ a \<le> 2 ^ 12" using a(2) by (rule power_increasing) simp
  ultimately have "y + d * slot_size E < 2 ^ 63" using y(3) assms(4,5) grp_width by auto
  then show ?thesis using that [OF x(1) y(1)] \<open>x \<le> y\<close> cs by simp
qed

end

context swiss
begin

text \<open>The sum over the full slots, as long as it does not wrap around.\<close>

lemma add_space_sum:
  assumes core: "swiss_core E t" and "pos \<le> cf_capacity t"
    and "m + sum_list (map space_used (elements_from t pos)) < 2 ^ 64"
  shows "for_each (add_space space_used t) [pos..<cf_capacity t] m = Inr (m + sum_list (map space_used (elements_from t pos)))"
  using assms(2,3)
proof (induction "cf_capacity t - pos" arbitrary: pos m)
  case 0
  then show ?case by (simp add: elements_from_def)
next
  case (Suc n)
  then have lt: "pos < cf_capacity t" "n = cf_capacity t - Suc pos" "Suc pos \<le> cf_capacity t" by simp_all
  note s = coreD(1) [OF core]
  have ctrl: "array_get (cf_control t) pos = Inr (cf_control t ! pos)" using lt(1) table_shapeD(3) [OF s] by simp
  show ?case
  proof (cases "full_at t pos")
    case True
    then obtain x where x: "cf_slots t ! pos = Some x" using coreD(2) [OF core] by blast
    have el: "elements_from t pos = x # elements_from t (Suc pos)"
      using True x lt(1) by (simp add: elements_from_def upt_conv_Cons)
    have "add_space space_used t pos m = Inr (sz (m + space_used x))"
      using True ctrl slot_read_full [OF s True x] by (simp add: add_space_def full_at_def)
    moreover have "sz (m + space_used x) = m + space_used x" using Suc.prems(2) el by simp
    ultimately show ?thesis using Suc.hyps(1) [OF lt(2,3), of "m + space_used x"] Suc.prems(2) lt(1) el
      by (simp add: upt_conv_Cons add.assoc)
  next
    case False
    then have "add_space space_used t pos m = Inr m" "elements_from t pos = elements_from t (Suc pos)"
      using ctrl lt(1) by (simp_all add: add_space_def full_at_def elements_from_def upt_conv_Cons)
    then show ?thesis using Suc.hyps(1) [OF lt(2,3)] Suc.prems(2) lt(1) by (simp add: upt_conv_Cons)
  qed
qed

lemma least_capacity_fits:
  assumes "swiss_core E t" "swiss_counts E t"
  obtains lb where "GrowthToLowerboundCapacity (Group E) (cf_size t) = Inr lb" "NormalizeCapacity lb \<le> cf_capacity t"
    "IsValidCapacity (NormalizeCapacity lb)" "IsValidCapacity (cf_capacity t)"
proof -
  note s = coreD(1) [OF assms(1)]
  have v: "IsValidCapacity (cf_capacity t)" "cf_capacity t < 2 ^ 62" using shape_valid [OF s] table_shapeD(2) [OF s] by simp_all
  obtain g where g: "CapacityToGrowth (Group E) (cf_capacity t) = Inr g" "cf_size t \<le> g"
    using assms(2) by (auto simp: swiss_counts_def)
  have n: "cf_size t < 2 ^ 62" using g growth_value(1) [OF s g(1)] v(2) by simp
  obtain lb where lb: "GrowthToLowerboundCapacity (Group E) (cf_size t) = Inr lb"
    using GrowthToLowerboundCapacity_small [OF n] by blast
  have "lb \<le> cf_capacity t" using growth_galois [OF v(1) _ n g(1) lb] v(2) g(2) by simp
  then show ?thesis using that [OF lb] NormalizeCapacity_least(1,4) [of lb] v by simp
qed

end

section \<open>Generations\<close>

text \<open>A new generation differs from the one before and from the generation of empty tables.\<close>

lemma NextGeneration_fresh: "NextGeneration g \<noteq> 0 \<and> NextGeneration g \<noteq> g"
proof -
  have "g + 1 + 1 = g \<longleftrightarrow> (2 :: 8 word) = 0" by (simp add: add.assoc)
  then show ?thesis by (auto simp: NextGeneration_def Let_def)
qed

lemma reserved_not_run_out:
  assumes "k < unat (reserved_growth i)" "reserved_growth i \<noteq> kReservedGrowthJustRanOut"
  shows "unat (reserved_growth i - of_nat k) = unat (reserved_growth i) - k"
    "reserved_growth i - of_nat k \<noteq> kReservedGrowthJustRanOut" "0 < reserved_growth i - of_nat k"
proof -
  have r: "unat (reserved_growth i) < 2 ^ 64" by (rule order_less_le_trans [OF unsigned_less]) simp
  then have lt: "unat (of_nat k :: u64) = k" using assms(1) by (simp add: unat_of_nat take_bit_nat_eq_self)
  then have "of_nat k \<le> reserved_growth i" using assms(1) by (simp add: word_le_nat_alt)
  then show u: "unat (reserved_growth i - of_nat k) = unat (reserved_growth i) - k" by (simp add: unat_sub lt)
  then show "0 < reserved_growth i - of_nat k" using assms(1) by (simp add: word_less_nat_alt)
  show "reserved_growth i - of_nat k \<noteq> kReservedGrowthJustRanOut"
  proof (cases "k = 0")
    case False
    then have "unat (reserved_growth i - of_nat k) < 2 ^ 64 - 1" using u assms(1) r by simp
    moreover have "unat kReservedGrowthJustRanOut = 2 ^ 64 - 1" by (simp add: kReservedGrowthJustRanOut_def unsigned_minus_1_eq_mask mask_eq_exp_minus_1)
    ultimately show ?thesis by auto
  qed (use assms(2) in simp)
qed

lemma reserved_insertions:
  assumes "k < unat (reserved_growth i)" "reserved_growth i \<noteq> kReservedGrowthJustRanOut"
  shows "(maybe_increment_generation_on_insert ^^ k) i = i\<lparr>reserved_growth := reserved_growth i - of_nat k\<rparr>"
  using assms
proof (induction k)
  case (Suc k)
  then have k: "k < unat (reserved_growth i)" by simp
  note r = reserved_not_run_out [OF k Suc.prems(2)]
  have "reserved_growth i - of_nat k - 1 \<noteq> 0" using r(1) Suc.prems(1) by auto
  then show ?case using Suc.IH [OF k Suc.prems(2)] r(2,3)
    by (simp add: maybe_increment_generation_on_insert_def Let_def diff_diff_eq add.commute)
qed simp

lemma just_ran_out:
  assumes "reserved_growth i = 1"
  shows "maybe_increment_generation_on_insert i = i\<lparr>reserved_growth := kReservedGrowthJustRanOut\<rparr>"
proof -
  have "(1 :: u64) \<noteq> kReservedGrowthJustRanOut" by (simp add: kReservedGrowthJustRanOut_def)
  then show ?thesis using assms by (simp add: maybe_increment_generation_on_insert_def Let_def)
qed

lemma first_unreserved_insertion:
  assumes "reserved_growth i = kReservedGrowthJustRanOut"
  shows "maybe_increment_generation_on_insert i = i\<lparr>reserved_growth := 0, generation := NextGeneration (generation i)\<rparr>"
  using assms by (simp add: maybe_increment_generation_on_insert_def Let_def)

section \<open>What the operations promise\<close>

text \<open>The insertions with a hint or with the arguments of a constructor do what \<open>emplace\<close> does.\<close>

theorem constructing_insertions:
  assumes "table_env_ok E" "swiss_inv E t" "cf_capacity t < 2 ^ 58"
  shows "\<exists>p t'. emplace_args E construct t args = Some (Inr (p, construct args \<notin> elems t, t')) \<and>
    emplace_hint E construct t hint args = Some (Inr (p, t')) \<and> insert_hint E t hint (construct args) = Some (Inr (p, t')) \<and>
    swiss_inv E t' \<and> elems t' = insert (construct args) (elems t) \<and> full_at t' p \<and> cf_slots t' ! p = Some (construct args)"
proof -
  note sw = swiss_implementation [OF assms(1)]
  obtain p t' where "emplace E t (construct args) = Some (Inr (p, construct args \<notin> elems t, t'))"
    "swiss_inv E t'" "elems t' = insert (construct args) (elems t)" "full_at t' p" "cf_slots t' ! p = Some (construct args)"
    using swiss.emplace_correct [OF sw assms(2,3), of "construct args"] by blast
  with insert_slot_emplace show ?thesis
    by (fastforce simp: emplace_args_def emplace_hint_def insert_hint_def)
qed

text \<open>\<open>lazy_emplace\<close> asks for an element only if its key is missing, and stops with an assertion unless exactly one
  element is constructed.\<close>

theorem lazy_emplace_correct:
  assumes "table_env_ok E" "swiss_inv E t" "cf_capacity t < 2 ^ 58"
  shows "(x \<in> elems t \<longrightarrow> (\<exists>p. lazy_emplace E t x calls = Some (Inr (p, t)) \<and> full_at t p \<and> cf_slots t ! p = Some x)) \<and>
    (x \<notin> elems t \<longrightarrow> length calls \<noteq> 1 \<longrightarrow> lazy_emplace E t x calls = Some (Inl AssertionFailure)) \<and>
    (x \<notin> elems t \<longrightarrow> (\<exists>p t'. lazy_emplace E t x [x] = Some (Inr (p, t')) \<and> swiss_inv E t' \<and>
      elems t' = insert x (elems t) \<and> full_at t' p \<and> cf_slots t' ! p = Some x))"
proof -
  note sw = swiss_implementation [OF assms(1)]
  show ?thesis
  proof (cases "x \<in> elems t")
    case True
    then show ?thesis using swiss.lazy_emplace_present [OF sw assms(2,3) True] by blast
  next
    case False
    obtain p t' where l: "emplace E t x = Some (Inr (p, True, t'))"
      "\<And>calls. length calls \<noteq> 1 \<Longrightarrow> lazy_emplace E t x calls = Some (Inl AssertionFailure)"
      "lazy_emplace E t x [x] = Some (Inr (p, t'))"
      by (rule swiss.lazy_emplace_absent [OF sw assms(2,3) False]) (rule that)
    then show ?thesis using swiss.emplace_correct [OF sw assms(2,3), of x] False by auto
  qed
qed

text \<open>The memory a table has allocated, with what its elements own, is its backing array and the sum over its
  elements; it is never less than the lower bound for its size.\<close>

theorem allocated_at_least_lower_bound:
  assumes "table_env_ok E" "swiss_inv E t" "cf_capacity t < 2 ^ 58" "cf_capacity t * slot_size E < 2 ^ 62"
    and "per_slot \<noteq> 2 ^ 64 - 1 \<longrightarrow> per_slot * cf_size t < 2 ^ 62"
    and "sum_list (map space_used (elements_from t 0)) < 2 ^ 62"
  shows "\<exists>low bytes. LowerBoundAllocatedByteSize E per_slot (cf_size t) = Inr low \<and>
    AllocatedByteSize E per_slot space_used t = Inr bytes \<and> low \<le> bytes"
proof (cases "swiss_empty t")
  case True
  then show ?thesis
    by (simp add: swiss_empty_def AllocatedByteSize_def LowerBoundAllocatedByteSize_def GrowthToLowerboundCapacity_small)
next
  case False
  note sw = swiss_implementation [OF assms(1)]
  have core: "swiss_core E t" and counts: "swiss_counts E t" using False assms(2) by (simp_all add: swiss_inv_def)
  have pos: "cf_capacity t \<noteq> 0" using table_shapeD(1) [OF swiss.coreD(1) [OF sw core]] by simp
  obtain lb where lb: "GrowthToLowerboundCapacity (Group E) (cf_size t) = Inr lb" "NormalizeCapacity lb \<le> cf_capacity t"
    "IsValidCapacity (NormalizeCapacity lb)" "IsValidCapacity (cf_capacity t)"
    by (rule swiss.least_capacity_fits [OF sw core counts])
  obtain m n where mn: "AllocSize E (NormalizeCapacity lb) = Inr m" "AllocSize E (cf_capacity t) = Inr n" "m \<le> n" "n < 2 ^ 63"
    by (rule swiss.AllocSize_mono [OF sw lb(3,4,2) assms(3,4)])
  show ?thesis
  proof (cases "per_slot = 2 ^ 64 - 1")
    case True
    have "n + sum_list (map space_used (elements_from t 0)) < 2 ^ 64" using assms(6) mn(4) by simp
    then have "AllocatedByteSize E per_slot space_used t = Inr (n + sum_list (map space_used (elements_from t 0)))"
      using swiss.add_space_sum [OF sw core, of 0 n space_used] True mn(2) pos by (simp add: AllocatedByteSize_def)
    then show ?thesis using True lb(1) mn(1,3) by (cases "lb = 0") (simp_all add: LowerBoundAllocatedByteSize_def)
  next
    case False
    have "n + per_slot * cf_size t < 2 ^ 64" "m + per_slot * cf_size t < 2 ^ 64" using False assms(5) mn(3,4) by simp_all
    then show ?thesis using False lb(1) mn pos
      by (cases "lb = 0") (simp_all add: AllocatedByteSize_def LowerBoundAllocatedByteSize_def)
  qed
qed

text \<open>C27. In builds with generations, a reservation is kept: after \<open>reserve(n)\<close> on a table of smaller size, the
  next \<open>n - size\<close> insertions neither rehash for bug detection nor start a new generation, so iterators stay
  valid; the insertion after them rehashes, and it starts a generation that differs from the old one
  and from the generation of empty tables.\<close>

theorem reserved_growth_protects:
  fixes n s :: u64
  assumes "s < n" "n - s \<noteq> kReservedGrowthJustRanOut" "k \<le> unat (n - s)"
  shows "let j = (maybe_increment_generation_on_insert ^^ k) (reset_reserved_growth n s i) in
    generation j = generation i \<and>
    should_rehash_for_bug_detection_on_insert E hash_of j t = Inr (t, k = unat (n - s)) \<and>
    (k = unat (n - s) \<longrightarrow> generation (maybe_increment_generation_on_insert j) \<notin> {0, generation i})"
proof -
  define j where "j = (maybe_increment_generation_on_insert ^^ k) (reset_reserved_growth n s i)"
  define i0 where "i0 = reset_reserved_growth n s i"
  have i0: "reserved_growth i0 = n - s" "generation i0 = generation i" by (simp_all add: i0_def reset_reserved_growth_def)
  have pos: "0 < unat (n - s)" using assms(1) by (simp add: unat_gt_0)
  have "generation j = generation i \<and>
    should_rehash_for_bug_detection_on_insert E hash_of j t = Inr (t, k = unat (n - s)) \<and>
    (k = unat (n - s) \<longrightarrow> generation (maybe_increment_generation_on_insert j) \<notin> {0, generation i})"
  proof (cases "k = unat (n - s)")
    case False
    then have k: "k < unat (reserved_growth i0)" using assms(3) i0 by simp
    have j: "j = i0\<lparr>reserved_growth := n - s - of_nat k\<rparr>"
      using reserved_insertions [OF k] assms(2) i0 by (simp add: j_def i0_def [symmetric])
    have "reserved_growth j \<noteq> kReservedGrowthJustRanOut \<and> 0 < reserved_growth j"
      using reserved_not_run_out [OF k] assms(2) i0 j by simp
    then show ?thesis using False j i0 by (simp add: should_rehash_for_bug_detection_on_insert_def)
  next
    case True
    define m where "m = k - 1"
    have m: "k = Suc m" "m < unat (reserved_growth i0)" using True pos i0 by (simp_all add: m_def)
    have "unat (n - s - of_nat m) = 1"
      using reserved_not_run_out(1) [OF m(2)] assms(2) i0 m(1) True by simp
    then have one: "n - s - of_nat m = 1" by (metis unat_1 word_unat_eq_iff)
    have "j = maybe_increment_generation_on_insert (i0\<lparr>reserved_growth := 1\<rparr>)"
      using reserved_insertions [OF m(2)] assms(2) i0 one by (simp add: j_def i0_def [symmetric] m(1))
    then have j: "j = i0\<lparr>reserved_growth := kReservedGrowthJustRanOut\<rparr>" by (simp add: just_ran_out)
    then show ?thesis using True i0 NextGeneration_fresh
      by (simp add: should_rehash_for_bug_detection_on_insert_def first_unreserved_insertion)
  qed
  then show ?thesis unfolding Let_def j_def .
qed

theorem reserved_growth_protects_witness:
  "(let j = (maybe_increment_generation_on_insert ^^ 3) (reset_reserved_growth 10 7 \<lparr>reserved_growth = 0, generation = 255\<rparr>)
    in generation j = 255 \<and> should_rehash_for_bug_detection_on_insert example_env id j (CommonFields example_env)
         = Inr (CommonFields example_env, True) \<and> generation (maybe_increment_generation_on_insert j) \<notin> {0, 255})"
proof -
  have "(7 :: u64) < 10" "(10 - 7 :: u64) \<noteq> kReservedGrowthJustRanOut" "3 \<le> unat (10 - 7 :: u64)"
    by (simp_all add: kReservedGrowthJustRanOut_def)
  from reserved_growth_protects [OF this, of "\<lparr>reserved_growth = 0, generation = 255\<rparr>" example_env id "CommonFields example_env"]
  show ?thesis by (simp add: Let_def)
qed

text \<open>A reservation below the size wraps around: one below it makes the next insertion rehash, and any other turns
  the bug detection off.\<close>

theorem reserve_below_size:
  "reserved_growth (reset_reserved_growth (s - 1) s i) = kReservedGrowthJustRanOut \<and>
   unat (reserved_growth (reset_reserved_growth (s - 2) s i)) = 2 ^ 64 - 2"
proof -
  have "(- 2 :: u64) = 18446744073709551614" by simp
  then have "unat (- 2 :: u64) = 2 ^ 64 - 2" by (simp only:) simp
  then show ?thesis by (simp add: reset_reserved_growth_def kReservedGrowthJustRanOut_def)
qed

end
