(* ===== verification/Absl_Hash.thy ===== *)
theory Absl_Hash
  imports City_Hash Swiss_Interface
begin

text \<open>
  \<open>absl::Hash\<close> (\<open>absl/hash/internal/hash.h\<close> and \<open>hash.cc\<close>), the default hash function of the string table behind version 5 of
  the dictionary, in little-endian builds: mixing, reading short inputs, hashing long ones in one piece and in several, hashing integers,
  strings, and containers without regard to the order of their elements. The address of \<open>kSeed\<close>, on which the values
  depend, is the argument \<open>seed\<close>; the hash of long inputs, which the 64-bit builds choose, is the argument \<open>hash64\<close>.
\<close>

section \<open>The mixing state\<close>

definition kMul :: u64 where
  "kMul = 0x9ddfea08eb382d69"

definition Mix :: "u64 \<Rightarrow> u64 \<Rightarrow> u64" where
  "Mix state v = (let m = (ucast (state + v) :: 128 word) * ucast kMul in ucast (m XOR drop_bit 64 m))"

definition kHashSalt :: "u64 list" where
  "kHashSalt = [0x243F6A8885A308D3, 0x13198A2E03707344, 0xA4093822299F31D0, 0x082EFA98EC4E6C89, 0x452821E638D01377]"

definition Hash64 :: "u64 \<Rightarrow> i8 list \<Rightarrow> u64 result" where
  "Hash64 seed data = LowLevelHash data seed kHashSalt"

definition Read9To16 :: "i8 list \<Rightarrow> (u64 \<times> u64) result" where
  "Read9To16 bs =
     rbind (UnalignedLoad64 bs 0) (\<lambda>low_mem.
     rbind (UnalignedLoad64 bs (length bs - 8)) (\<lambda>high_mem. Inr (low_mem, high_mem)))"

definition Read4To8 :: "i8 list \<Rightarrow> u64 result" where
  "Read4To8 bs =
     rbind (UnalignedLoad32 bs 0) (\<lambda>low_mem.
     rbind (UnalignedLoad32 bs (length bs - 4)) (\<lambda>high_mem.
       Inr (push_bit ((length bs - 4) * 8) (ucast high_mem) OR ucast low_mem)))"

definition Read1To3 :: "i8 list \<Rightarrow> 32 word result" where
  "Read1To3 bs =
     rbind (array_get bs 0) (\<lambda>mem0.
     rbind (array_get bs (length bs div 2)) (\<lambda>mem1.
     rbind (array_get bs (length bs - 1)) (\<lambda>mem2.
       Inr (ucast mem0 OR push_bit (length bs div 2 * 8) (ucast mem1) OR push_bit ((length bs - 1) * 8) (ucast mem2)))))"

definition PiecewiseChunkSize :: nat where
  "PiecewiseChunkSize = 1024"

text \<open>The branch for 9 to 16 bytes; the rotation by 53 cannot fail.\<close>

definition mix_9_to_16 :: "u64 \<Rightarrow> i8 list \<Rightarrow> u64 result" where
  "mix_9_to_16 state first =
     rbind (Read9To16 first) (\<lambda>(lo, hi).
     rbind (rotr lo 53) (\<lambda>lo.
     let state = state + kMul;
         lo = lo + state;
         state = state XOR hi;
         m = (ucast state :: 128 word) * ucast lo
     in Inr (ucast (m XOR drop_bit 64 m))))"

function CombineContiguousImpl :: "(i8 list \<Rightarrow> u64 result) \<Rightarrow> u64 \<Rightarrow> i8 list \<Rightarrow> u64 result"
  and CombineLargeContiguousImpl64 :: "(i8 list \<Rightarrow> u64 result) \<Rightarrow> u64 \<Rightarrow> i8 list \<Rightarrow> u64 result" where
  "CombineContiguousImpl hash64 state first =
     (let len = length first
      in if len > 16
         then if len > PiecewiseChunkSize then CombineLargeContiguousImpl64 hash64 state first
              else rbind (hash64 first) (\<lambda>v. Inr (Mix state v))
         else if len > 8 then mix_9_to_16 state first
         else if len \<ge> 4 then rbind (Read4To8 first) (\<lambda>v. Inr (Mix state v))
         else if len > 0 then rbind (Read1To3 first) (\<lambda>v. Inr (Mix state (ucast v)))
         else Inr state)"
| "CombineLargeContiguousImpl64 hash64 state first =
     (if length first \<ge> PiecewiseChunkSize
      then (case hash64 (take PiecewiseChunkSize first) of
              Inl e \<Rightarrow> Inl e
            | Inr h \<Rightarrow> CombineLargeContiguousImpl64 hash64 (Mix state h) (drop PiecewiseChunkSize first))
      else CombineContiguousImpl hash64 state first)"
  by pat_completeness auto
termination
  by (relation "measure (\<lambda>x. case x of
        Inl (hash64, state, first) \<Rightarrow> if length first > PiecewiseChunkSize then 2 * length first + 2 else 0
      | Inr (hash64, state, first) \<Rightarrow> 2 * length first + 1)")
    (auto simp: PiecewiseChunkSize_def)

text \<open>The 32-bit build: \<open>Mix\<close> multiplies in 64 bits, and the hash of long inputs is \<open>CityHash32\<close>.\<close>

definition kMul32 :: u64 where
  "kMul32 = 0xcc9e2d51"

definition Mix32 :: "u64 \<Rightarrow> u64 \<Rightarrow> u64" where
  "Mix32 state v = (let m = (state + v) * kMul32 in m XOR drop_bit 32 m)"

function CombineContiguousImpl32 :: "u64 \<Rightarrow> i8 list \<Rightarrow> u64 result"
  and CombineLargeContiguousImpl32 :: "u64 \<Rightarrow> i8 list \<Rightarrow> u64 result" where
  "CombineContiguousImpl32 state first =
     (let len = length first
      in if len > 8
         then if len > PiecewiseChunkSize then CombineLargeContiguousImpl32 state first
              else rbind (CityHash32 first) (\<lambda>v. Inr (Mix32 state (ucast v)))
         else if len \<ge> 4 then rbind (Read4To8 first) (\<lambda>v. Inr (Mix32 state v))
         else if len > 0 then rbind (Read1To3 first) (\<lambda>v. Inr (Mix32 state (ucast v)))
         else Inr state)"
| "CombineLargeContiguousImpl32 state first =
     (if length first \<ge> PiecewiseChunkSize
      then (case CityHash32 (take PiecewiseChunkSize first) of
              Inl e \<Rightarrow> Inl e
            | Inr h \<Rightarrow> CombineLargeContiguousImpl32 (Mix32 state (ucast h)) (drop PiecewiseChunkSize first))
      else CombineContiguousImpl32 state first)"
  by pat_completeness auto
termination
  by (relation "measure (\<lambda>x. case x of
        Inl (state, first) \<Rightarrow> if length first > PiecewiseChunkSize then 2 * length first + 2 else 0
      | Inr (state, first) \<Rightarrow> 2 * length first + 1)")
    (auto simp: PiecewiseChunkSize_def)

section \<open>Hashing in pieces\<close>

text \<open>\<open>PiecewiseCombiner\<close>: the buffer \<open>buf_\<close>, whose bytes are not initialised, and \<open>position_\<close>. The size of a piece
  is that of an object in memory, so that \<open>position_ + size\<close> does not wrap. The member \<open>combine_contiguous\<close> of the hash state, a
  template argument, works on whole byte sequences by \<open>impl\<close>.\<close>

type_synonym hash_impl = "u64 \<Rightarrow> i8 list \<Rightarrow> u64 result"

record piecewise =
  buf :: "i8 list"
  position :: nat

definition PiecewiseCombiner :: "i8 list \<Rightarrow> piecewise" where
  "PiecewiseCombiner uninitialised = \<lparr>buf = uninitialised, position = 0\<rparr>"

definition memcpy_bytes :: "i8 list \<Rightarrow> nat \<Rightarrow> i8 list \<Rightarrow> nat \<Rightarrow> i8 list result" where
  "memcpy_bytes dst at_pos src n =
     (if at_pos + n \<le> length dst \<and> n \<le> length src
      then Inr (take at_pos dst @ take n src @ drop (at_pos + n) dst) else Inl OutOfBounds)"

definition combine_contiguous :: "hash_impl \<Rightarrow> u64 \<Rightarrow> i8 list \<Rightarrow> nat \<Rightarrow> u64 result" where
  "combine_contiguous impl state first n =
     (if n \<le> length first then impl state (take n first) else Inl OutOfBounds)"

text \<open>The loop over whole chunks of the piece, without copying.\<close>

function hash_chunks :: "hash_impl \<Rightarrow> u64 \<Rightarrow> i8 list \<Rightarrow> (u64 \<times> i8 list) result" where
  "hash_chunks impl state data =
     (if length data \<ge> PiecewiseChunkSize
      then (case combine_contiguous impl state data PiecewiseChunkSize of
              Inl e \<Rightarrow> Inl e
            | Inr h \<Rightarrow> hash_chunks impl h (drop PiecewiseChunkSize data))
      else Inr (state, data))"
  by pat_completeness auto
termination by (relation "measure (\<lambda>(impl, state, data). length data)") (auto simp: PiecewiseChunkSize_def)

definition add_buffer :: "hash_impl \<Rightarrow> i8 list \<Rightarrow> u64 \<times> piecewise \<Rightarrow> (u64 \<times> piecewise) result" where
  "add_buffer impl data = (\<lambda>(state, c).
     if position c + length data < PiecewiseChunkSize
     then rbind (memcpy_bytes (buf c) (position c) data (length data)) (\<lambda>b.
            Inr (state, c\<lparr>buf := b, position := position c + length data\<rparr>))
     else rbind (if position c \<noteq> 0
                 then let bytes_needed = PiecewiseChunkSize - position c
                      in rbind (memcpy_bytes (buf c) (position c) data bytes_needed) (\<lambda>b.
                         rbind (combine_contiguous impl state b PiecewiseChunkSize) (\<lambda>h.
                           Inr (h, b, drop bytes_needed data)))
                 else Inr (state, buf c, data)) (\<lambda>(state, b, data).
          rbind (hash_chunks impl state data) (\<lambda>(state, data).
          rbind (memcpy_bytes b 0 data (length data)) (\<lambda>b.
            Inr (state, c\<lparr>buf := b, position := length data\<rparr>)))))"

definition finalize :: "hash_impl \<Rightarrow> u64 \<times> piecewise \<Rightarrow> u64 result" where
  "finalize impl = (\<lambda>(state, c). combine_contiguous impl state (buf c) (position c))"

declare CombineContiguousImpl.simps [simp del] CombineLargeContiguousImpl64.simps [simp del]
  CombineContiguousImpl32.simps [simp del] CombineLargeContiguousImpl32.simps [simp del] hash_chunks.simps [simp del]

definition piecewise_inv :: "piecewise \<Rightarrow> bool" where
  "piecewise_inv c \<longleftrightarrow> length (buf c) = PiecewiseChunkSize \<and> position c < PiecewiseChunkSize"

definition buffered :: "piecewise \<Rightarrow> i8 list" where
  "buffered c = take (position c) (buf c)"

text \<open>What the combiner relies on: the hash state accepts every byte sequence, and a sequence of at least one chunk is
  hashed as its first chunk and then the rest.\<close>

locale chunked_state =
  fixes impl :: hash_impl
  assumes returns: "\<exists>h. impl state first = Inr h"
    and chunk: "PiecewiseChunkSize \<le> length first \<Longrightarrow>
      impl state first = rbind (impl state (take PiecewiseChunkSize first)) (\<lambda>h. impl h (drop PiecewiseChunkSize first))"
begin

lemma combine_whole_chunk:
  assumes "PiecewiseChunkSize \<le> length data"
  obtains h where "combine_contiguous impl state data PiecewiseChunkSize = Inr h"
    "\<And>more. impl state (data @ more) = impl h (drop PiecewiseChunkSize data @ more)"
proof -
  obtain h where h: "impl state (take PiecewiseChunkSize data) = Inr h" using returns by blast
  show ?thesis
  proof (rule that)
    show "combine_contiguous impl state data PiecewiseChunkSize = Inr h" using h assms by (simp add: combine_contiguous_def)
    fix more
    show "impl state (data @ more) = impl h (drop PiecewiseChunkSize data @ more)"
      using h assms chunk [of "data @ more" state] by simp
  qed
qed

lemma hash_chunks_correct:
  "\<exists>state' rest. hash_chunks impl state data = Inr (state', rest) \<and> length rest < PiecewiseChunkSize \<and>
     (\<forall>more. impl state (data @ more) = impl state' (rest @ more))"
proof (induction "length data" arbitrary: state data rule: less_induct)
  case less
  show ?case
  proof (cases "PiecewiseChunkSize \<le> length data")
    case True
    obtain h where h: "combine_contiguous impl state data PiecewiseChunkSize = Inr h"
      "\<And>more. impl state (data @ more) = impl h (drop PiecewiseChunkSize data @ more)"
      by (rule combine_whole_chunk [OF True]) (rule that)
    have "length (drop PiecewiseChunkSize data) < length data" using True by (simp add: PiecewiseChunkSize_def)
    from less [OF this, of h] show ?thesis using True h by (subst hash_chunks.simps) simp
  next
    case False
    then show ?thesis by (subst hash_chunks.simps) simp
  qed
qed

lemma add_buffer_correct:
  assumes "piecewise_inv c"
  shows "\<exists>state' c'. add_buffer impl data (state, c) = Inr (state', c') \<and> piecewise_inv c' \<and>
    (\<forall>more. impl state (buffered c @ data @ more) = impl state' (buffered c' @ more))"
proof (cases "position c + length data < PiecewiseChunkSize")
  case True
  then show ?thesis using assms by (simp add: add_buffer_def memcpy_bytes_def piecewise_inv_def buffered_def)
next
  case False
  let ?k = "if position c = 0 then 0 else PiecewiseChunkSize - position c"
  obtain h b where hb: "(if position c \<noteq> 0
      then let bytes_needed = PiecewiseChunkSize - position c
           in rbind (memcpy_bytes (buf c) (position c) data bytes_needed) (\<lambda>b.
              rbind (combine_contiguous impl state b PiecewiseChunkSize) (\<lambda>h. Inr (h, b, drop bytes_needed data)))
      else Inr (state, buf c, data)) = Inr (h, b, drop ?k data)" "length b = PiecewiseChunkSize"
    "\<And>more. impl state (buffered c @ data @ more) = impl h (drop ?k data @ more)"
  proof (cases "position c = 0")
    case True
    then show ?thesis using assms by (intro that [of state "buf c"]) (simp_all add: piecewise_inv_def buffered_def)
  next
    case pos: False
    let ?b = "buffered c @ take ?k data"
    have b: "memcpy_bytes (buf c) (position c) data ?k = Inr ?b" "length ?b = PiecewiseChunkSize"
      using assms False pos by (simp_all add: memcpy_bytes_def piecewise_inv_def buffered_def)
    have whole: "PiecewiseChunkSize \<le> length ?b" using b(2) by simp
    obtain h where h: "combine_contiguous impl state ?b PiecewiseChunkSize = Inr h"
      "\<And>more. impl state (?b @ more) = impl h (drop PiecewiseChunkSize ?b @ more)"
      by (rule combine_whole_chunk [OF whole]) (rule that)
    show ?thesis
    proof (rule that)
      show "length ?b = PiecewiseChunkSize" by (rule b(2))
      fix more
      have "drop PiecewiseChunkSize ?b = []" using b(2) by (intro drop_all) linarith
      moreover have "?b @ drop ?k data @ more = buffered c @ data @ more" by (metis append_assoc append_take_drop_id)
      ultimately show "impl state (buffered c @ data @ more) = impl h (drop ?k data @ more)"
        using h(2) [of "drop ?k data @ more"] by (simp only: append_Nil)
    qed (use b(1) h(1) pos in \<open>simp add: Let_def\<close>)
  qed
  obtain state' rest where rest: "hash_chunks impl h (drop ?k data) = Inr (state', rest)" "length rest < PiecewiseChunkSize"
    "\<And>more. impl h (drop ?k data @ more) = impl state' (rest @ more)"
    using hash_chunks_correct [of h "drop ?k data"] by blast
  show ?thesis
    using False hb rest by (simp add: add_buffer_def memcpy_bytes_def piecewise_inv_def buffered_def del: Let_def)
qed

lemma add_buffers_correct:
  "piecewise_inv c \<Longrightarrow> \<exists>state' c'. for_each (add_buffer impl) pieces (state, c) = Inr (state', c') \<and> piecewise_inv c' \<and>
     (\<forall>more. impl state (buffered c @ concat pieces @ more) = impl state' (buffered c' @ more))"
proof (induction pieces arbitrary: state c)
  case (Cons data pieces)
  obtain state1 c1 where c1: "add_buffer impl data (state, c) = Inr (state1, c1)" "piecewise_inv c1"
    "\<And>more. impl state (buffered c @ data @ more) = impl state1 (buffered c1 @ more)"
    using add_buffer_correct [OF Cons.prems, of data state] by blast
  then show ?case using Cons.IH [OF c1(2), of state1] by simp
qed simp

lemma pieces_hash_like_whole:
  assumes "length uninitialised = PiecewiseChunkSize"
  shows "rbind (for_each (add_buffer impl) pieces (state, PiecewiseCombiner uninitialised)) (finalize impl) = impl state (concat pieces)"
proof -
  have "piecewise_inv (PiecewiseCombiner uninitialised)" "buffered (PiecewiseCombiner uninitialised) = []"
    using assms by (simp_all add: piecewise_inv_def PiecewiseCombiner_def buffered_def PiecewiseChunkSize_def)
  from add_buffers_correct [OF this(1), of pieces state] this(2) obtain state' c' where
    run: "for_each (add_buffer impl) pieces (state, PiecewiseCombiner uninitialised) = Inr (state', c')" "piecewise_inv c'"
      "\<And>more. impl state (concat pieces @ more) = impl state' (buffered c' @ more)" by auto
  then show ?thesis
    using run(3) [of "[]"] by (simp add: finalize_def combine_contiguous_def buffered_def piecewise_inv_def)
qed

end

section \<open>The builds\<close>

lemma Hash64_returns: "\<exists>h. Hash64 seed data = Inr h"
  by (simp add: Hash64_def LowLevelHash_returns)

lemma mix_9_to_16_returns: "8 < length first \<Longrightarrow> \<exists>h. mix_9_to_16 state first = Inr h"
  using Rotate_eq(2) [of 53 "Load64 (take 8 first)"]
  by (simp add: mix_9_to_16_def Read9To16_def rotr_def unsigned_type_def int_range_def Let_def)

lemma Read4To8_returns: "4 \<le> length bs \<Longrightarrow> \<exists>v. Read4To8 bs = Inr v"
  by (simp add: Read4To8_def)

lemma Read1To3_returns: "0 < length bs \<Longrightarrow> \<exists>v. Read1To3 bs = Inr v"
  by (simp add: Read1To3_def)

text \<open>The slow path of either width has the same effect as the fast one on every length.\<close>

lemma Large64_step:
  "PiecewiseChunkSize \<le> length first \<Longrightarrow> CombineLargeContiguousImpl64 hash64 state first =
     rbind (hash64 (take PiecewiseChunkSize first)) (\<lambda>h. CombineLargeContiguousImpl64 hash64 (Mix state h) (drop PiecewiseChunkSize first))"
  by (subst CombineLargeContiguousImpl64.simps) (simp add: rbind_def)

lemma whole64:
  "length first = PiecewiseChunkSize \<Longrightarrow> CombineContiguousImpl hash64 state first = rbind (hash64 first) (\<lambda>h. Inr (Mix state h))"
  by (subst CombineContiguousImpl.simps) (simp add: PiecewiseChunkSize_def)

lemma Large64_eq: "CombineLargeContiguousImpl64 hash64 state first = CombineContiguousImpl hash64 state first"
proof -
  have short: "CombineLargeContiguousImpl64 hash64 state first = CombineContiguousImpl hash64 state first" if "length first < PiecewiseChunkSize" for state first
    using that by (subst CombineLargeContiguousImpl64.simps) simp
  have empty: "CombineContiguousImpl hash64 state [] = Inr state" for state by (subst CombineContiguousImpl.simps) simp
  consider "length first < PiecewiseChunkSize" | "length first = PiecewiseChunkSize" | "length first > PiecewiseChunkSize"
    by linarith
  then show ?thesis
  proof cases
    case 2
    moreover have "CombineLargeContiguousImpl64 hash64 state' [] = Inr state'" for state' by (simp add: short empty PiecewiseChunkSize_def)
    ultimately show ?thesis by (simp add: Large64_step whole64)
  next
    case 3
    then show ?thesis by (subst CombineContiguousImpl.simps) (simp add: PiecewiseChunkSize_def)
  qed (rule short)
qed

lemma chunk64:
  "PiecewiseChunkSize \<le> length first \<Longrightarrow> CombineContiguousImpl hash64 state first =
    rbind (CombineContiguousImpl hash64 state (take PiecewiseChunkSize first)) (\<lambda>h. CombineContiguousImpl hash64 h (drop PiecewiseChunkSize first))"
  using Large64_step [of first hash64 state] by (simp add: Large64_eq whole64 rbind_assoc)

lemma Large32_step:
  "PiecewiseChunkSize \<le> length first \<Longrightarrow> CombineLargeContiguousImpl32 state first =
     rbind (CityHash32 (take PiecewiseChunkSize first)) (\<lambda>h. CombineLargeContiguousImpl32 (Mix32 state (ucast h)) (drop PiecewiseChunkSize first))"
  by (subst CombineLargeContiguousImpl32.simps) (simp add: rbind_def)

lemma whole32:
  "length first = PiecewiseChunkSize \<Longrightarrow> CombineContiguousImpl32 state first = rbind (CityHash32 first) (\<lambda>h. Inr (Mix32 state (ucast h)))"
  by (subst CombineContiguousImpl32.simps) (simp add: PiecewiseChunkSize_def)

lemma Large32_eq: "CombineLargeContiguousImpl32 state first = CombineContiguousImpl32 state first"
proof -
  have short: "CombineLargeContiguousImpl32 state first = CombineContiguousImpl32 state first" if "length first < PiecewiseChunkSize" for state first
    using that by (subst CombineLargeContiguousImpl32.simps) simp
  have empty: "CombineContiguousImpl32 state [] = Inr state" for state by (subst CombineContiguousImpl32.simps) simp
  consider "length first < PiecewiseChunkSize" | "length first = PiecewiseChunkSize" | "length first > PiecewiseChunkSize"
    by linarith
  then show ?thesis
  proof cases
    case 2
    moreover have "CombineLargeContiguousImpl32 state' [] = Inr state'" for state' by (simp add: short empty PiecewiseChunkSize_def)
    ultimately show ?thesis by (simp add: Large32_step whole32)
  next
    case 3
    then show ?thesis by (subst CombineContiguousImpl32.simps) (simp add: PiecewiseChunkSize_def)
  qed (rule short)
qed

lemma chunk32:
  "PiecewiseChunkSize \<le> length first \<Longrightarrow> CombineContiguousImpl32 state first =
    rbind (CombineContiguousImpl32 state (take PiecewiseChunkSize first)) (\<lambda>h. CombineContiguousImpl32 h (drop PiecewiseChunkSize first))"
  using Large32_step [of first state] by (simp add: Large32_eq whole32 rbind_assoc)

text \<open>A state that hashes whole chunks one after the other returns on every input if it does on inputs of up to one chunk.\<close>

lemma chunked_returns:
  assumes "\<And>state first. PiecewiseChunkSize \<le> length first \<Longrightarrow>
      impl state first = rbind (impl state (take PiecewiseChunkSize first)) (\<lambda>h. impl h (drop PiecewiseChunkSize first))"
    and "\<And>state first. length first \<le> PiecewiseChunkSize \<Longrightarrow> \<exists>h. impl state first = Inr h"
  shows "\<exists>h. (impl :: hash_impl) state first = Inr h"
proof (induction "length first" arbitrary: state first rule: less_induct)
  case less
  show ?case
  proof (cases "PiecewiseChunkSize \<le> length first")
    case True
    obtain h where "impl state (take PiecewiseChunkSize first) = Inr h" using assms(2) by fastforce
    then show ?thesis
      using assms(1) [OF True, of state] less [of "drop PiecewiseChunkSize first" h] True by (simp add: PiecewiseChunkSize_def)
  qed (use assms(2) in simp)
qed

lemma chunked_state64:
  assumes "\<And>first. \<exists>h. hash64 first = Inr h"
  shows "chunked_state (CombineContiguousImpl hash64)"
proof
  fix state and first :: "i8 list"
  have short: "\<exists>h. CombineContiguousImpl hash64 state first = Inr h" if "length first \<le> PiecewiseChunkSize" for state first
  proof -
    obtain h where "hash64 first = Inr h" using assms by blast
    then show ?thesis
      using that mix_9_to_16_returns [of first state] Read4To8_returns [of first] Read1To3_returns [of first]
      by (subst CombineContiguousImpl.simps) (auto simp: Let_def)
  qed
  show "\<exists>h. CombineContiguousImpl hash64 state first = Inr h" by (rule chunked_returns [OF chunk64 short])
qed (rule chunk64)

interpretation low_level: chunked_state "CombineContiguousImpl (Hash64 seed)" for seed
  by (intro chunked_state64 Hash64_returns)

interpretation city: chunked_state "CombineContiguousImpl CityHash64"
  by (intro chunked_state64 CityHash64_returns)

interpretation city32: chunked_state CombineContiguousImpl32
proof
  fix state and first :: "i8 list"
  have short: "\<exists>h. CombineContiguousImpl32 state first = Inr h" if "length first \<le> PiecewiseChunkSize" for state first
  proof -
    obtain h where "CityHash32 first = Inr h" using CityHash32_returns by blast
    then show ?thesis
      using that Read4To8_returns [of first] Read1To3_returns [of first]
      by (subst CombineContiguousImpl32.simps) (auto simp: Let_def)
  qed
  show "\<exists>h. CombineContiguousImpl32 state first = Inr h" by (rule chunked_returns [OF chunk32 short])
qed (rule chunk32)

text \<open>The hash of long inputs in the two kinds of 64-bit builds, and the hash states of all builds.\<close>

definition hash64_builds :: "u64 \<Rightarrow> (i8 list \<Rightarrow> u64 result) list" where
  "hash64_builds seed = [Hash64 seed, CityHash64]"

definition hash_builds :: "u64 \<Rightarrow> hash_impl list" where
  "hash_builds seed = CombineContiguousImpl32 # map CombineContiguousImpl (hash64_builds seed)"

lemma hash_builds_chunked: "impl \<in> set (hash_builds seed) \<Longrightarrow> chunked_state impl"
  using low_level.chunked_state_axioms city.chunked_state_axioms city32.chunked_state_axioms
  by (auto simp: hash_builds_def hash64_builds_def)

text \<open>C25. Hashing a sequence of bytes in pieces (\<open>PiecewiseCombiner\<close>), in 32-bit builds and in 64-bit builds with and without 128-bit
  integers: for every list of pieces, empty ones included, and whatever the uninitialised buffer holds, adding the
  pieces one after the other and finalising gives the hash state that \<open>combine_contiguous\<close> gives on the
  concatenation of the pieces; no copy and no read leaves its buffer, and the result exists.\<close>

theorem piecewise_hash:
  assumes "impl \<in> set (hash_builds seed)" "length uninitialised = PiecewiseChunkSize"
  shows "rbind (for_each (add_buffer impl) pieces (state, PiecewiseCombiner uninitialised)) (finalize impl) = impl state (concat pieces) \<and>
    (\<exists>h. impl state (concat pieces) = Inr h)"
  using chunked_state.pieces_hash_like_whole [OF hash_builds_chunked [OF assms(1)] assms(2)]
    chunked_state.returns [OF hash_builds_chunked [OF assms(1)]] by simp

theorem piecewise_hash_witness:
  "rbind (for_each (add_buffer CombineContiguousImpl32) [replicate 1000 1, [], replicate 30 2] (5, PiecewiseCombiner (replicate PiecewiseChunkSize 0)))
      (finalize CombineContiguousImpl32) = CombineContiguousImpl32 5 (replicate 1000 1 @ replicate 30 2) \<and>
    (\<exists>h. CombineContiguousImpl32 5 (replicate 1000 1 @ replicate 30 2) = Inr h)"
proof -
  have "CombineContiguousImpl32 \<in> set (hash_builds 0)" by (simp add: hash_builds_def)
  from piecewise_hash [OF this, of "replicate PiecewiseChunkSize 0" "[replicate 1000 1, [], replicate 30 2]" 5] show ?thesis by simp
qed

section \<open>Integers\<close>

text \<open>\<open>hash_bytes\<close> of an integer is what \<open>combine\<close> of a uniquely represented value runs. \<open>hash_integral\<close> is the overload of \<open>hash\<close> for integers, given
  the value already converted to the unsigned type.\<close>

definition hash_bytes :: "hash_impl \<Rightarrow> u64 \<Rightarrow> 'a::len word \<Rightarrow> u64 result" where
  "hash_bytes impl state w = combine_contiguous impl state (value_bytes w) (LENGTH('a) div 8)"

definition hash_integral :: "u64 \<Rightarrow> 'a::len word \<Rightarrow> u64" where
  "hash_integral seed w = Mix seed (ucast w)"

lemma Load64_value_bytes:
  fixes w :: "'a::len word"
  assumes "8 dvd LENGTH('a)"
  shows "Load64 (value_bytes w) = ucast w"
proof (rule bit_word_eqI)
  fix n assume n: "n < LENGTH(64)"
  obtain k where k: "LENGTH('a) = 8 * k" using assms by (elim dvdE)
  have "n div 8 < k \<longleftrightarrow> n < LENGTH('a)" unfolding k by (simp add: div_less_iff_less_mult mult.commute)
  moreover have "8 * (n div 8) + n mod 8 = n" by simp
  ultimately show "bit (Load64 (value_bytes w)) n \<longleftrightarrow> bit (ucast w :: u64) n"
    using n bit_imp_le_length [of w n] by (auto simp: bit_Load64 value_bytes_def k bit_simps)
qed

text \<open>The readers of short inputs give the bytes as a number, padded with zeros.\<close>

lemma Read4To8_value:
  assumes "4 \<le> length bs" "length bs \<le> 8"
  shows "Read4To8 bs = Inr (Load64 bs)"
proof -
  let ?k = "length bs - 4"
  let ?hi = "ucast (ucast (Load64 (take 4 (drop ?k bs))) :: 32 word) :: u64"
  let ?lo = "ucast (ucast (Load64 (take 4 bs)) :: 32 word) :: u64"
  have "push_bit (?k * 8) ?hi OR ?lo = Load64 bs"
  proof (rule bit_word_eqI)
    fix n assume n: "n < LENGTH(64)"
    show "bit (push_bit (?k * 8) ?hi OR ?lo) n \<longleftrightarrow> bit (Load64 bs) n"
    proof (cases "n < ?k * 8")
      case True
      then have "n < 32" "n div 8 < 4" using assms(2) by auto
      then show ?thesis using True n assms by (auto simp: bit_simps bit_Load64)
    next
      case False
      then obtain m where m: "n = ?k * 8 + m" using le_Suc_ex not_less by blast
      then have "n div 8 = ?k + m div 8" "n mod 8 = m mod 8" by simp_all
      then show ?thesis using m n assms by (auto simp: bit_simps bit_Load64)
    qed
  qed
  then show ?thesis using assms by (simp add: Read4To8_def)
qed

lemma Read1To3_value:
  assumes "0 < length bs" "length bs < 4"
  shows "Read1To3 bs = Inr (ucast (Load64 bs))"
proof -
  have ors: "(ucast (v OR w) :: 32 word) = ucast v OR ucast (w::u64)" "(ucast (push_bit m w) :: 32 word) = push_bit m (ucast w)"
    "(ucast (ucast (a::i8) :: u64) :: 32 word) = ucast a"
    for a v w m by (rule bit_word_eqI; auto simp: bit_simps)+
  consider a where "bs = [a]" | a b where "bs = [a, b]" | a b c where "bs = [a, b, c]"
    using assms by (auto simp: Suc_le_eq numeral_eq_Suc less_Suc_eq length_Suc_conv)
  then show ?thesis
  proof cases
    case 1
    then show ?thesis by (simp add: Read1To3_def ors)
  next
    case 2
    then show ?thesis by (simp add: Read1To3_def Load64_Cons_or ors)
  next
    case 3
    then show ?thesis by (simp add: Read1To3_def Load64_Cons_or ors bit_simps push_bit_or or.assoc)
  qed
qed

text \<open>Hashing integers of 8, 16, 32 and 64 bits: the shortcut of \<open>MixingHashState::hash\<close>, a single call of \<open>Mix\<close>,
  gives what the whole algorithm gives on the bytes of the value; the readers of short inputs put the bytes
  together in the right order, with zeros above.\<close>

theorem integral_fast_path:
  fixes w :: "'a::len word"
  assumes "unsigned_type LENGTH('a)"
  shows "hash_bytes (CombineContiguousImpl hash64) seed w = Inr (hash_integral seed w)"
proof -
  have n: "LENGTH('a) = 8 \<or> LENGTH('a) = 16 \<or> LENGTH('a) = 32 \<or> LENGTH('a) = 64"
    using assms by (simp add: unsigned_type_def)
  then have load: "Load64 (value_bytes w) = ucast w" by (intro Load64_value_bytes) auto
  have "(ucast (ucast (ucast w :: u64) :: 32 word) :: u64) = ucast w" if "LENGTH('a) \<le> 32"
    by (rule bit_word_eqI) (use that bit_imp_le_length [of w] in \<open>force simp: bit_simps\<close>)
  then show ?thesis
    using n Read4To8_value [of "value_bytes w"] Read1To3_value [of "value_bytes w"]
    by (auto simp: hash_bytes_def combine_contiguous_def hash_integral_def CombineContiguousImpl.simps load)
qed

text \<open>A 128-bit integer, which \<open>std::is_integral\<close> admits in the GNU mode of the compilers, takes the same shortcut, but there the
  result is not that of the whole algorithm, which mixes 16 bytes in another way.\<close>

theorem integral_fast_path_128:
  "hash_bytes (CombineContiguousImpl hash64) 0 (0 :: 128 word) \<noteq> Inr (hash_integral 0 (0 :: 128 word))"
proof -
  have bytes: "value_bytes (0 :: 128 word) = replicate 16 0" by (simp add: value_bytes_def map_replicate_trivial)
  have "Load64 (replicate 8 0) = 0" by (simp add: eval_nat_numeral)
  then have "hash_bytes (CombineContiguousImpl hash64) 0 (0 :: 128 word) = Inr 4956372649467909365"
    by (simp add: hash_bytes_def bytes combine_contiguous_def CombineContiguousImpl.simps mix_9_to_16_def Read9To16_def
        rotr_def Rotate_eq(2) unsigned_type_def int_range_def kMul_def Let_def)
  then show ?thesis by (simp add: hash_integral_def Mix_def kMul_def)
qed

section \<open>Strings\<close>

text \<open>A character as the byte that holds it, the hash expansion of a string, and the default hash function of tables of
  strings (\<open>StringHash\<close>, through \<open>Hash\<close> and \<open>MixingHashState::hash\<close>).\<close>

definition string_bytes :: "string \<Rightarrow> i8 list" where
  "string_bytes s = map (\<lambda>c. of_nat (of_char c)) s"

definition AbslHashValue_string :: "hash_impl \<Rightarrow> u64 \<Rightarrow> string \<Rightarrow> u64 result" where
  "AbslHashValue_string impl state str =
     rbind (combine_contiguous impl state (string_bytes str) (length str)) (\<lambda>h.
       hash_bytes impl h (of_nat (length str) :: u64))"

definition StringHash :: "hash_impl \<Rightarrow> u64 \<Rightarrow> string \<Rightarrow> u64 result" where
  "StringHash impl seed v = AbslHashValue_string impl seed v"

lemma hash_bytes_returns: "chunked_state impl \<Longrightarrow> \<exists>h. hash_bytes impl state (w :: 'a::len word) = Inr h"
  by (simp add: hash_bytes_def combine_contiguous_def chunked_state.returns)

lemma AbslHashValue_string_returns:
  assumes "chunked_state impl"
  shows "\<exists>h. AbslHashValue_string impl state str = Inr h"
proof -
  obtain h where "impl state (string_bytes str) = Inr h" using chunked_state.returns [OF assms] by blast
  then show ?thesis
    by (simp add: AbslHashValue_string_def combine_contiguous_def string_bytes_def hash_bytes_returns [OF assms])
qed

section \<open>Containers without an order\<close>

text \<open>The consumer of \<open>RunCombineUnordered\<close>: the state of the element, hashed from a fresh state, is added to the running total
  and the carry goes back into the low bit. The hash expansion of the elements is \<open>hash_elem\<close>.\<close>

definition add_with_carry :: "u64 \<Rightarrow> u64 \<Rightarrow> u64" where
  "add_with_carry element_state unordered_state =
     (let u = unordered_state + element_state in if u < element_state then u + 1 else u)"

definition unordered_step :: "u64 \<Rightarrow> (u64 \<Rightarrow> 'a \<Rightarrow> u64 result) \<Rightarrow> 'a \<Rightarrow> u64 \<Rightarrow> u64 result" where
  "unordered_step seed hash_elem x unordered_state =
     rbind (hash_elem seed x) (\<lambda>element_state. Inr (add_with_carry element_state unordered_state))"

definition combine_unordered ::
    "hash_impl \<Rightarrow> u64 \<Rightarrow> (u64 \<Rightarrow> 'a \<Rightarrow> u64 result) \<Rightarrow> 'a table_env \<Rightarrow> u64 \<Rightarrow> 'a common_fields \<Rightarrow> u64 run" where
  "combine_unordered impl seed hash_elem E state t =
     run_bind (iterate E t (\<lambda>x u. Some (unordered_step seed hash_elem x u)) (\<lambda>_. False) 0)
       (\<lambda>unordered_state. Some (hash_bytes impl state unordered_state))"

definition AbslHashValue_table ::
    "hash_impl \<Rightarrow> u64 \<Rightarrow> (u64 \<Rightarrow> 'a \<Rightarrow> u64 result) \<Rightarrow> 'a table_env \<Rightarrow> u64 \<Rightarrow> 'a common_fields \<Rightarrow> u64 run" where
  "AbslHashValue_table impl seed hash_elem E state s =
     run_bind (combine_unordered impl seed hash_elem E state s) (\<lambda>h. Some (hash_bytes impl h (of_nat (cf_size s) :: u64)))"

text \<open>Adding with the carry is addition modulo \<open>2 ^ 64 - 1\<close> in which zero is kept apart; the order does not matter.\<close>

lemma unat_add_with_carry:
  "unat (add_with_carry e u) =
     (if unat u + unat e < 2 ^ 64 then unat u + unat e else unat u + unat e - (2 ^ 64 - 1))"
proof -
  have less: "unat u < 2 ^ 64" "unat e < 2 ^ 64" by (rule order_less_le_trans [OF unsigned_less], simp)+
  show ?thesis
  proof (cases "unat u + unat e < 2 ^ 64")
    case True
    then have "unat (u + e) = unat u + unat e" by (simp add: unat_word_ariths)
    then show ?thesis using True by (simp add: add_with_carry_def Let_def word_less_nat_alt)
  next
    case False
    then have s: "unat (u + e) = unat u + unat e - 2 ^ 64" using less by (simp add: unat_word_ariths le_mod_geq)
    then have "u + e < e" using less False by (simp add: word_less_nat_alt)
    moreover have "unat (u + e + 1) = unat u + unat e - 2 ^ 64 + 1" using s less False by (simp add: unat_word_ariths)
    ultimately show ?thesis using False less by (simp add: add_with_carry_def)
  qed
qed

lemma add_with_carry_swap: "add_with_carry a (add_with_carry b u) = add_with_carry b (add_with_carry a u)"
proof -
  have less: "unat a < 2 ^ 64" "unat b < 2 ^ 64" "unat u < 2 ^ 64" by (rule order_less_le_trans [OF unsigned_less], simp)+
  have "unat (add_with_carry a (add_with_carry b u)) = unat (add_with_carry b (add_with_carry a u))"
    using less by (simp add: unat_add_with_carry ac_simps)
  then show ?thesis by (simp only: word_unat_eq_iff)
qed

lemma run_until_pure:
  assumes "\<And>x s. x \<in> set xs \<Longrightarrow> body x s = Some (Inr (f x s))"
  shows "run_until body (\<lambda>_. False) xs s = Some (Inr (fold f xs s))"
  using assms by (induction xs arbitrary: s) simp_all

text \<open>C26. Hash tables as values, in both kinds of 64-bit builds: two tables that \<open>operator==\<close> finds equal have equal hashes, whatever the histories that made them
  (capacity, positions, tombstones) and whatever the order in which their iterators meet the elements; the
  hashing ends without error when that of the elements does.\<close>

theorem equal_tables_hash_equal:
  assumes "table_env_ok E" "swiss_inv E a" "swiss_inv E b" "table_eq E a b = Some (Inr True)"
    and "\<And>x. \<exists>h. hash_elem seed x = Inr h" and "hash64 \<in> set (hash64_builds seed)"
  shows "\<exists>h. AbslHashValue_table (CombineContiguousImpl hash64) seed hash_elem E state a = Some (Inr h) \<and>
    AbslHashValue_table (CombineContiguousImpl hash64) seed hash_elem E state b = Some (Inr h)"
proof -
  let ?impl = "CombineContiguousImpl hash64"
  have "?impl \<in> set (hash_builds seed)" using assms(6) by (simp add: hash_builds_def)
  note impl = hash_builds_chunked [OF this]
  note sw = swiss_implementation [OF assms(1)]
  obtain g where g: "\<And>x. hash_elem seed x = Inr (g x)" using assms(5) by metis
  let ?f = "\<lambda>x. add_with_carry (g x)"
  have eq: "elems a = elems b" using swiss.table_eq_correct [OF sw assms(2,3)] assms(4) by simp
  have "mset (elements_from a 0) = mset (elements_from b 0)"
    using swiss.elements_of_table(1,2) [OF sw assms(2)] swiss.elements_of_table(1,2) [OF sw assms(3)] eq
    by (simp flip: set_eq_iff_mset_eq_distinct)
  then have total: "fold ?f (elements_from a 0) = fold ?f (elements_from b 0)"
    by (intro fold_multiset_equiv) (auto simp: add_with_carry_swap)
  have run: "iterate E t (\<lambda>x u. Some (unordered_step seed hash_elem x u)) (\<lambda>_. False) 0 = Some (Inr (fold ?f (elements_from t 0) 0))"
    if "swiss_inv E t" for t
    by (simp add: swiss.iterate_correct [OF sw that] unordered_step_def g run_until_pure [where f = ?f])
  obtain h where h: "hash_bytes ?impl state (fold ?f (elements_from b 0) 0) = Inr h" using hash_bytes_returns [OF impl] by blast
  have "cf_size a = cf_size b" using swiss.elements_of_table(4) [OF sw assms(2)] swiss.elements_of_table(4) [OF sw assms(3)] eq by simp
  then show ?thesis
    using hash_bytes_returns [OF impl, of h "of_nat (cf_size b) :: u64"]
    by (simp add: AbslHashValue_table_def combine_unordered_def run assms(2,3) total h)
qed

definition string_table :: "string table_env" where
  "string_table = node_hash_set GroupPortableImpl (\<lambda>v. projr (StringHash (CombineContiguousImpl CityHash64) 0x1000 v)) (\<lambda>_ _. 4096) 0 0"

theorem equal_tables_hash_equal_witness:
  "\<exists>a b rs rs' h. table_run (table_step string_table) [Insert ''x'', Insert ''y''] (CommonFields string_table) = Some (Inr (a, rs)) \<and>
    table_run (table_step string_table) [Insert ''y'', Insert ''z'', Insert ''x'', Erase ''z''] (CommonFields string_table) =
      Some (Inr (b, rs')) \<and>
    AbslHashValue_table (CombineContiguousImpl CityHash64) 0x1000 (AbslHashValue_string (CombineContiguousImpl CityHash64)) string_table 5 a = Some (Inr h) \<and>
    AbslHashValue_table (CombineContiguousImpl CityHash64) 0x1000 (AbslHashValue_string (CombineContiguousImpl CityHash64)) string_table 5 b = Some (Inr h)"
proof -
  have ok: "table_env_ok string_table" unfolding string_table_def by (rule node_hash_set_ok) (simp add: group_implementations_def)
  obtain a rs where a: "table_run (table_step string_table) [Insert ''x'', Insert ''y''] (CommonFields string_table) = Some (Inr (a, rs))"
    "swiss_inv string_table a" "elems a = {''x'', ''y''}"
    by (rule fresh_table_run [OF ok, of "[Insert ''x'', Insert ''y'']"]) auto
  obtain b rs' where b: "table_run (table_step string_table) [Insert ''y'', Insert ''z'', Insert ''x'', Erase ''z''] (CommonFields string_table) =
      Some (Inr (b, rs'))" "swiss_inv string_table b" "elems b = {''x'', ''y''}"
    by (rule fresh_table_run [OF ok, of "[Insert ''y'', Insert ''z'', Insert ''x'', Erase ''z'']"]) auto
  have "table_eq string_table a b = Some (Inr True)"
    using swiss.table_eq_correct [OF swiss_implementation [OF ok] a(2) b(2)] a(3) b(3) by simp
  from equal_tables_hash_equal [where seed = "0x1000" and state = 5 and ?hash64.0 = CityHash64, OF ok a(2) b(2) this
      AbslHashValue_string_returns [OF city.chunked_state_axioms]] a(1) b(1)
  show ?thesis by (simp add: hash64_builds_def)
qed

end
