(* ===== verification/Array_Kernels.thy ===== *)
theory Array_Kernels
  imports Workshop_Prelude
begin

text \<open>
  \<open>design_patterns/simd/simd.cc\<close> and \<open>design_patterns/loop_unrolling/loop_unrolling.cc\<close>: array
  addition one element and one vector register at a time, summation with an unrolled loop, and the
  fused and split versions of the loops of the fission benchmark. Floating point numbers are an
  arbitrary type with arbitrary operations: nothing depends on rounding, only on which operations
  are applied to which elements in which order. Every subscript is checked.
\<close>

section \<open>SIMD\<close>

definition GenerateTestData :: "'f \<Rightarrow> 'f \<Rightarrow> 'f list \<Rightarrow> 'f list \<Rightarrow> nat \<Rightarrow> ('f list \<times> 'f list) result" where
  "GenerateTestData one two a b n =
     for_each (\<lambda>i (a, b). rbind (array_set a i one) (\<lambda>a'. rbind (array_set b i two) (\<lambda>b'. Inr (a', b'))))
       [0..<n] (a, b)"

text \<open>The three arrays are separate allocations, as in all benchmarks of the file.\<close>

definition AddArrays :: "('f \<Rightarrow> 'f \<Rightarrow> 'f) \<Rightarrow> 'f list \<Rightarrow> 'f list \<Rightarrow> 'f list \<Rightarrow> nat \<Rightarrow> 'f list result" where
  "AddArrays fadd a b c n =
     for_each (\<lambda>i c. rbind (array_get a i) (\<lambda>x. rbind (array_get b i) (\<lambda>y. array_set c i (fadd x y))))
       [0..<n] c"

text \<open>Loading and storing a register of \<open>w\<close> floats.\<close>

definition load_ps :: "nat \<Rightarrow> 'f list \<Rightarrow> nat \<Rightarrow> 'f list result" where
  "load_ps w a i = (if i + w \<le> length a then Inr (take w (drop i a)) else Inl OutOfBounds)"

definition store_ps :: "'f list \<Rightarrow> nat \<Rightarrow> 'f list \<Rightarrow> 'f list result" where
  "store_ps c i xs =
     (if i + length xs \<le> length c then Inr (take i c @ xs @ drop (i + length xs) c) else Inl OutOfBounds)"

definition add_ps :: "('f \<Rightarrow> 'f \<Rightarrow> 'f) \<Rightarrow> 'f list \<Rightarrow> 'f list \<Rightarrow> 'f list" where
  "add_ps fadd x y = map2 fadd x y"

definition AddArraysSSE :: "('f \<Rightarrow> 'f \<Rightarrow> 'f) \<Rightarrow> 'f list \<Rightarrow> 'f list \<Rightarrow> 'f list \<Rightarrow> nat \<Rightarrow> 'f list result" where
  "AddArraysSSE fadd a b c n =
     for_each (\<lambda>i c. rbind (load_ps 4 a i) (\<lambda>a_chunk. rbind (load_ps 4 b i) (\<lambda>b_chunk.
        store_ps c i (add_ps fadd a_chunk b_chunk)))) (upto_by 4 0 n) c"

definition AddArraysAVX2 :: "('f \<Rightarrow> 'f \<Rightarrow> 'f) \<Rightarrow> 'f list \<Rightarrow> 'f list \<Rightarrow> 'f list \<Rightarrow> nat \<Rightarrow> 'f list result" where
  "AddArraysAVX2 fadd a b c n =
     for_each (\<lambda>i c. rbind (load_ps 8 a i) (\<lambda>a_chunk. rbind (load_ps 8 b i) (\<lambda>b_chunk.
        store_ps c i (add_ps fadd a_chunk b_chunk)))) (upto_by 8 0 n) c"

text \<open>The aligned load and store fault unless the address, in bytes, is a multiple of 32.\<close>

definition check_aligned :: "nat \<Rightarrow> nat \<Rightarrow> unit result" where
  "check_aligned address i = (if (address + 4 * i) mod 32 = 0 then Inr () else Inl Misaligned)"

definition AddArraysAVX2Aligned ::
    "('f \<Rightarrow> 'f \<Rightarrow> 'f) \<Rightarrow> nat \<times> nat \<times> nat \<Rightarrow> 'f list \<Rightarrow> 'f list \<Rightarrow> 'f list \<Rightarrow> nat \<Rightarrow> 'f list result" where
  "AddArraysAVX2Aligned fadd = (\<lambda>(pa, pb, pc) a b c n.
     for_each (\<lambda>i c. rbind (check_aligned pa i) (\<lambda>_. rbind (load_ps 8 a i) (\<lambda>a_chunk.
        rbind (check_aligned pb i) (\<lambda>_. rbind (load_ps 8 b i) (\<lambda>b_chunk.
        rbind (check_aligned pc i) (\<lambda>_. store_ps c i (add_ps fadd a_chunk b_chunk)))))))
       (upto_by 8 0 n) c)"

text \<open>The benchmarks: arrays of 10000 uninitialised floats, the test data, then the kernel as often as
  the benchmark iterates. The result is the array \<open>c\<close>.\<close>

definition run_addition ::
    "('f list \<Rightarrow> 'f list \<Rightarrow> 'f list \<Rightarrow> nat \<Rightarrow> 'f list result) \<Rightarrow> 'f \<Rightarrow> 'f \<Rightarrow> (nat \<Rightarrow> 'f) \<Rightarrow> nat \<Rightarrow> 'f list result" where
  "run_addition add_kernel one two garbage iterations =
     (let n = 10000; fresh = map garbage [0..<n]
      in rbind (GenerateTestData one two fresh fresh n) (\<lambda>(a, b).
           for_each (\<lambda>_ c. add_kernel a b c n) [0..<iterations] fresh))"

definition BM_ArrayAddition :: "('f \<Rightarrow> 'f \<Rightarrow> 'f) \<Rightarrow> 'f \<Rightarrow> 'f \<Rightarrow> (nat \<Rightarrow> 'f) \<Rightarrow> nat \<Rightarrow> 'f list result" where
  "BM_ArrayAddition fadd = run_addition (AddArrays fadd)"

definition BM_AddArraysSSE :: "('f \<Rightarrow> 'f \<Rightarrow> 'f) \<Rightarrow> 'f \<Rightarrow> 'f \<Rightarrow> (nat \<Rightarrow> 'f) \<Rightarrow> nat \<Rightarrow> 'f list result" where
  "BM_AddArraysSSE fadd = run_addition (AddArraysSSE fadd)"

definition BM_AddArraysAVX2 :: "('f \<Rightarrow> 'f \<Rightarrow> 'f) \<Rightarrow> 'f \<Rightarrow> 'f \<Rightarrow> (nat \<Rightarrow> 'f) \<Rightarrow> nat \<Rightarrow> 'f list result" where
  "BM_AddArraysAVX2 fadd = run_addition (AddArraysAVX2 fadd)"

text \<open>\<open>_mm_malloc\<close> returns null or an aligned address; null ends the benchmark with an error
  (\<open>None\<close>).\<close>

definition BM_AddArraysAVX2Aligned ::
    "('f \<Rightarrow> 'f \<Rightarrow> 'f) \<Rightarrow> nat option \<times> nat option \<times> nat option \<Rightarrow> 'f \<Rightarrow> 'f \<Rightarrow> (nat \<Rightarrow> 'f) \<Rightarrow> nat \<Rightarrow>
     'f list result option" where
  "BM_AddArraysAVX2Aligned fadd addresses one two garbage iterations =
     (case addresses of
        (Some pa, Some pb, Some pc) \<Rightarrow>
          Some (run_addition (AddArraysAVX2Aligned fadd (pa, pb, pc)) one two garbage iterations)
      | _ \<Rightarrow> None)"

section \<open>Loop unrolling\<close>

text \<open>\<open>int\<close> accumulators; \<open>n\<close> is \<open>state.range(0)\<close>.\<close>

definition LoopWithoutUnrolling :: "nat \<Rightarrow> int result" where
  "LoopWithoutUnrolling n = for_each (\<lambda>i result. to_int (result + int i)) [0..<n] 0"

definition LoopWithUnrolling :: "nat \<Rightarrow> int result" where
  "LoopWithUnrolling n =
     for_each (\<lambda>i result. rbind
        (for_each (\<lambda>k s. rbind (to_int (int i + int k)) (\<lambda>t. to_int (s + t))) [1..<8] (int i))
        (\<lambda>s. to_int (result + s))) (upto_by 8 0 n) 0"

section \<open>Loop fission\<close>

text \<open>The functions of \<open>cmath\<close>, the arithmetic and the constants the loops use.\<close>

record 'f fmath =
  fadd :: "'f \<Rightarrow> 'f \<Rightarrow> 'f"
  fmul :: "'f \<Rightarrow> 'f \<Rightarrow> 'f"
  fsin :: "'f \<Rightarrow> 'f"
  fcos :: "'f \<Rightarrow> 'f"
  flog :: "'f \<Rightarrow> 'f"
  fsqrt :: "'f \<Rightarrow> 'f"
  fexp :: "'f \<Rightarrow> 'f"
  fgreater :: "'f \<Rightarrow> 'f \<Rightarrow> bool"
  c0 :: 'f
  c_half :: 'f
  c1 :: 'f
  c2 :: 'f
  c50 :: 'f
  c_tenth :: 'f
  fof_int :: "nat \<Rightarrow> 'f"

record 'f fission =
  fn :: nat
  fa :: "'f list"
  fb :: "'f list"
  fc :: "'f list"
  fd :: "'f list"
  result1 :: "'f list"
  result2 :: "'f list"

text \<open>\<open>SetUp\<close>: \<open>dist k\<close> is the k-th sample of the distribution. \<open>TearDown\<close> clears the vectors.\<close>

definition fission_SetUp :: "'f \<Rightarrow> (nat \<Rightarrow> 'f) \<Rightarrow> nat \<Rightarrow> 'f fission result" where
  "fission_SetUp zero dist n =
     (let z = replicate n zero
      in for_each (\<lambda>i s. rbind (array_set (fa s) i (dist (4 * i))) (\<lambda>a.
           rbind (array_set (fb s) i (dist (4 * i + 1))) (\<lambda>b.
           rbind (array_set (fc s) i (dist (4 * i + 2))) (\<lambda>c.
           rbind (array_set (fd s) i (dist (4 * i + 3))) (\<lambda>d.
             Inr (s\<lparr>fa := a, fb := b, fc := c, fd := d\<rparr>))))))
         [0..<n] \<lparr>fn = n, fa = z, fb = z, fc = z, fd = z, result1 = z, result2 = z\<rparr>)"

definition fission_TearDown :: "'f fission \<Rightarrow> 'f fission" where
  "fission_TearDown s = s\<lparr>fa := [], fb := [], fc := [], fd := [], result1 := [], result2 := []\<rparr>"

text \<open>The statements of the loop bodies.\<close>

definition trig_statement :: "'f fmath \<Rightarrow> nat \<Rightarrow> 'f fission \<Rightarrow> 'f fission result" where
  "trig_statement F i s =
     rbind (array_get (fa s) i) (\<lambda>x. rbind (array_get (fb s) i) (\<lambda>y.
     rbind (array_set (result1 s) i (fadd F (fsin F x) (fcos F y))) (\<lambda>r. Inr (s\<lparr>result1 := r\<rparr>))))"

definition log_statement :: "'f fmath \<Rightarrow> nat \<Rightarrow> 'f fission \<Rightarrow> 'f fission result" where
  "log_statement F i s =
     rbind (array_get (fc s) i) (\<lambda>x. rbind (array_get (fd s) i) (\<lambda>y.
     rbind (array_set (result2 s) i (fmul F (flog F (fadd F x (c1 F))) (fsqrt F y))) (\<lambda>r.
       Inr (s\<lparr>result2 := r\<rparr>))))"

definition a_statement :: "'f fmath \<Rightarrow> nat \<Rightarrow> 'f fission \<Rightarrow> 'f fission result" where
  "a_statement F i s =
     rbind (array_get (fb s) i) (\<lambda>x. rbind (array_get (fc s) i) (\<lambda>y.
     rbind (array_set (fa s) i (fadd F (fmul F x (c2 F)) y)) (\<lambda>r. Inr (s\<lparr>fa := r\<rparr>))))"

definition d_statement :: "'f fmath \<Rightarrow> nat \<Rightarrow> 'f fission \<Rightarrow> 'f fission result" where
  "d_statement F i s =
     rbind (array_get (fa s) i) (\<lambda>x. rbind (array_get (fb s) i) (\<lambda>y.
     rbind (array_set (fd s) i (fadd F x (fmul F y (c_half F)))) (\<lambda>r. Inr (s\<lparr>fd := r\<rparr>))))"

definition add_statement :: "'f fmath \<Rightarrow> nat \<Rightarrow> 'f fission \<Rightarrow> 'f fission result" where
  "add_statement F i s =
     rbind (array_get (fa s) i) (\<lambda>x. rbind (array_get (fb s) i) (\<lambda>y.
     rbind (array_set (result1 s) i (fadd F x y)) (\<lambda>r. Inr (s\<lparr>result1 := r\<rparr>))))"

definition exp_statement :: "'f fmath \<Rightarrow> nat \<Rightarrow> 'f fission \<Rightarrow> 'f fission result" where
  "exp_statement F i s =
     rbind (array_get (fc s) i) (\<lambda>x.
     rbind (array_set (result2 s) i (fexp F (fsin F x))) (\<lambda>r. Inr (s\<lparr>result2 := r\<rparr>)))"

definition compute_statement :: "'f fmath \<Rightarrow> bool \<Rightarrow> nat \<Rightarrow> 'f fission \<Rightarrow> 'f fission result" where
  "compute_statement F b i s =
     (if b then rbind (array_get (fa s) i) (\<lambda>x. rbind (array_get (fb s) i) (\<lambda>y.
             rbind (array_set (result1 s) i (fmul F (fsqrt F x) (flog F y))) (\<lambda>r. Inr (s\<lparr>result1 := r\<rparr>))))
      else rbind (array_set (result1 s) i (c0 F)) (\<lambda>r. Inr (s\<lparr>result1 := r\<rparr>)))"

text \<open>Fused: both statements in one loop. Split: one loop each.\<close>

definition fused :: "(nat \<Rightarrow> 's \<Rightarrow> 's result) \<Rightarrow> (nat \<Rightarrow> 's \<Rightarrow> 's result) \<Rightarrow> nat \<Rightarrow> 's \<Rightarrow> 's result" where
  "fused f g n s = for_each (\<lambda>i s. rbind (f i s) (g i)) [0..<n] s"

definition split_loops :: "(nat \<Rightarrow> 's \<Rightarrow> 's result) \<Rightarrow> (nat \<Rightarrow> 's \<Rightarrow> 's result) \<Rightarrow> nat \<Rightarrow> 's \<Rightarrow> 's result" where
  "split_loops f g n s = rbind (for_each f [0..<n] s) (for_each g [0..<n])"

definition MathOperations_Fused :: "'f fmath \<Rightarrow> 'f fission \<Rightarrow> 'f fission result" where
  "MathOperations_Fused F s = fused (trig_statement F) (log_statement F) (fn s) s"

definition MathOperations_Fission :: "'f fmath \<Rightarrow> 'f fission \<Rightarrow> 'f fission result" where
  "MathOperations_Fission F s = split_loops (trig_statement F) (log_statement F) (fn s) s"

definition MemoryAccess_Fused :: "'f fmath \<Rightarrow> 'f fission \<Rightarrow> 'f fission result" where
  "MemoryAccess_Fused F s = fused (a_statement F) (d_statement F) (fn s) s"

definition MemoryAccess_Fission :: "'f fmath \<Rightarrow> 'f fission \<Rightarrow> 'f fission result" where
  "MemoryAccess_Fission F s = split_loops (a_statement F) (d_statement F) (fn s) s"

definition MixedComplexity_Fused :: "'f fmath \<Rightarrow> 'f fission \<Rightarrow> 'f fission result" where
  "MixedComplexity_Fused F s = fused (add_statement F) (exp_statement F) (fn s) s"

definition MixedComplexity_Fission :: "'f fmath \<Rightarrow> 'f fission \<Rightarrow> 'f fission result" where
  "MixedComplexity_Fission F s = split_loops (add_statement F) (exp_statement F) (fn s) s"

definition ConditionCheck_Fused :: "'f fmath \<Rightarrow> 'f fission \<Rightarrow> 'f fission result" where
  "ConditionCheck_Fused F s =
     for_each (\<lambda>i s. rbind (array_get (fa s) i) (\<lambda>x. compute_statement F (fgreater F x (c50 F)) i s))
       [0..<fn s] s"

definition ConditionCheck_Fission :: "'f fmath \<Rightarrow> 'f fission \<Rightarrow> 'f fission result" where
  "ConditionCheck_Fission F s =
     rbind (for_each (\<lambda>i should_compute. rbind (array_get (fa s) i) (\<lambda>x.
              array_set should_compute i (fgreater F x (c50 F)))) [0..<fn s] (replicate (fn s) False))
       (\<lambda>should_compute. for_each (\<lambda>i s. rbind (array_get should_compute i) (\<lambda>b. compute_statement F b i s))
          [0..<fn s] s)"

text \<open>The version without the fixture: \<open>mode\<close> is \<open>state.range(1)\<close>; the state is the two outputs.\<close>

definition SimpleLoopFission :: "'f fmath \<Rightarrow> nat \<Rightarrow> int \<Rightarrow> ('f list \<times> 'f list) result" where
  "SimpleLoopFission F n mode =
     rbind (for_each (\<lambda>i xs. array_set xs i (fmul F (fof_int F i) (c_tenth F))) [0..<n] (replicate n (c0 F)))
       (\<lambda>input. let out1 = (\<lambda>i (o1, o2). rbind (array_get input i) (\<lambda>x.
                        rbind (array_set o1 i (fsin F x)) (\<lambda>o1'. Inr (o1', o2))));
                     out2 = (\<lambda>i (o1, o2). rbind (array_get input i) (\<lambda>x.
                        rbind (array_set o2 i (fcos F x)) (\<lambda>o2'. Inr (o1, o2'))));
                     start = (replicate n (c0 F), replicate n (c0 F))
                 in if mode = 0 then fused out1 out2 n start else split_loops out1 out2 n start)"

section \<open>Vector addition\<close>

lemma fold_update_all:
  "n \<le> length c \<Longrightarrow> fold (\<lambda>i c. c[i := h i]) [0..<n] c = map h [0..<n] @ drop n c"
proof (induction n)
  case (Suc n)
  then have "drop n c = c ! n # drop (Suc n) c" by (simp add: Cons_nth_drop_Suc)
  with Suc show ?case by (simp add: list_update_append)
qed simp

lemma AddArrays_sum:
  assumes "n \<le> length a" and "n \<le> length b" and "n \<le> length c"
  shows "AddArrays plusf a b c n = Inr (map (\<lambda>i. plusf (a ! i) (b ! i)) [0..<n] @ drop n c)"
proof -
  have "AddArrays plusf a b c n = Inr (fold (\<lambda>i c. c[i := plusf (a ! i) (b ! i)]) [0..<n] c)
      \<and> length (fold (\<lambda>i c. c[i := plusf (a ! i) (b ! i)]) [0..<n] c) = length c"
    unfolding AddArrays_def by (rule for_each_invariant) (use assms in auto)
  then show ?thesis using fold_update_all [OF assms(3)] by simp
qed

definition add_chunk :: "nat \<Rightarrow> ('f \<Rightarrow> 'f \<Rightarrow> 'f) \<Rightarrow> 'f list \<Rightarrow> 'f list \<Rightarrow> nat \<Rightarrow> 'f list \<Rightarrow> 'f list result" where
  "add_chunk w plusf a b i c =
     rbind (load_ps w a i) (\<lambda>x. rbind (load_ps w b i) (\<lambda>y. store_ps c i (add_ps plusf x y)))"

lemma SSE_chunks: "AddArraysSSE plusf a b c n = for_each (add_chunk 4 plusf a b) (upto_by 4 0 n) c"
  by (simp add: AddArraysSSE_def add_chunk_def [abs_def])

lemma AVX2_chunks: "AddArraysAVX2 plusf a b c n = for_each (add_chunk 8 plusf a b) (upto_by 8 0 n) c"
  by (simp add: AddArraysAVX2_def add_chunk_def [abs_def])

lemma map2_take_drop:
  assumes "i + w \<le> length a" and "i + w \<le> length b"
  shows "map2 f (take w (drop i a)) (take w (drop i b)) = map (\<lambda>k. f (a ! k) (b ! k)) [i..<i + w]"
  using assms by (intro nth_equalityI) auto

lemma add_chunks_sum:
  assumes "m * w \<le> length a" and "m * w \<le> length b" and "m * w \<le> length c"
  shows "for_each (add_chunk w plusf a b) (map (\<lambda>i. i * w) [0..<m]) c =
    Inr (map (\<lambda>i. plusf (a ! i) (b ! i)) [0..<m * w] @ drop (m * w) c)"
  using assms
proof (induction m)
  case (Suc m)
  let ?h = "\<lambda>i. plusf (a ! i) (b ! i)"
  have "add_chunk w plusf a b (m * w) (map ?h [0..<m * w] @ drop (m * w) c) =
      Inr (map ?h [0..<m * w] @ map ?h [m * w..<m * w + w] @ drop (m * w + w) c)"
    using Suc.prems
    by (simp add: add_chunk_def load_ps_def store_ps_def add_ps_def map2_take_drop add.commute)
  moreover have "map ?h [0..<Suc m * w] = map ?h [0..<m * w] @ map ?h [m * w..<m * w + w]"
    using upt_add_eq_append [of 0 "m * w" w] by (simp add: add.commute flip: map_append)
  moreover have "map (\<lambda>i. i * w) [0..<Suc m] = map (\<lambda>i. i * w) [0..<m] @ [m * w]" by simp
  ultimately show ?case
    using Suc by (simp only: for_each_append) (simp add: add.commute)
qed simp

lemma add_chunks_multiple:
  assumes "0 < w" and "w dvd n" and "n \<le> length a" and "n \<le> length b" and "n \<le> length c"
  shows "for_each (add_chunk w plusf a b) (upto_by w 0 n) c = AddArrays plusf a b c n"
proof -
  obtain m where m: "n = m * w" using assms(2) by (metis dvd_div_mult_self)
  have "(n + w - 1) div w = m" using assms(1) unfolding m by (intro div_nat_eqI) (simp_all add: mult.commute)
  then show ?thesis
    using add_chunks_sum [of m w a b c plusf] assms m by (simp add: upto_by_round AddArrays_sum)
qed

lemma add_chunks_overrun:
  assumes "0 < w" and "\<not> w dvd n" and "length a = n" and "length b = n" and "length c = n"
  shows "for_each (add_chunk w plusf a b) (upto_by w 0 n) c = Inl OutOfBounds"
proof -
  define m where "m = n div w"
  have "n mod w \<noteq> 0" using assms(2) by (simp add: dvd_eq_mod_eq_0)
  moreover have "n = m * w + n mod w" by (simp add: m_def)
  moreover have "n mod w < w" using assms(1) by simp
  ultimately have lt: "m * w < n" "n < m * w + w" by linarith+
  have "(n + w - 1) div w = Suc m"
    using lt assms(1) by (intro div_nat_eqI) (simp_all add: algebra_simps)
  moreover have "add_chunk w plusf a b (m * w) t = Inl OutOfBounds" for t
    using lt assms(3) by (simp add: add_chunk_def load_ps_def)
  moreover have "for_each (add_chunk w plusf a b) (map (\<lambda>i. i * w) [0..<m]) c =
      Inr (map (\<lambda>i. plusf (a ! i) (b ! i)) [0..<m * w] @ drop (m * w) c)"
    by (rule add_chunks_sum) (use lt assms in auto)
  ultimately show ?thesis using assms(1) by (simp add: upto_by_round for_each_append)
qed

lemma aligned_chunks:
  assumes "32 dvd pa" and "32 dvd pb" and "32 dvd pc"
  shows "AddArraysAVX2Aligned plusf (pa, pb, pc) a b c n = AddArraysAVX2 plusf a b c n"
proof -
  have "check_aligned p i = Inr ()" if p: "32 dvd p" and i: "i \<in> set (upto_by 8 0 n)" for p i
  proof -
    obtain k where "i = k * 8" using i by (auto simp: upto_by_round)
    then have "32 dvd p + 4 * i" using p by (simp add: dvd_add)
    then show ?thesis by (simp add: check_aligned_def)
  qed
  then show ?thesis
    unfolding AddArraysAVX2Aligned_def AddArraysAVX2_def prod.case
    by (intro for_each_cong) (use assms in simp)
qed

lemma GenerateTestData_ok:
  assumes "length a = n" and "length b = n"
  shows "GenerateTestData one two a b n = Inr (replicate n one, replicate n two)"
proof -
  let ?f = "\<lambda>i (a, b). (a[i := one], b[i := two])"
  have "GenerateTestData one two a b n = Inr (fold ?f [0..<n] (a, b))
      \<and> (\<lambda>(a, b). length a = n \<and> length b = n) (fold ?f [0..<n] (a, b))"
    unfolding GenerateTestData_def by (rule for_each_invariant) (use assms in auto)
  moreover have "fold ?f [0..<k] (a, b) =
      (fold (\<lambda>i c. c[i := one]) [0..<k] a, fold (\<lambda>i c. c[i := two]) [0..<k] b)" for k
    by (induction k) simp_all
  ultimately show ?thesis
    using fold_update_all [of n a "\<lambda>_. one"] fold_update_all [of n b "\<lambda>_. two"] assms
    by (simp add: map_replicate_const)
qed

lemma run_addition_ok:
  assumes "\<And>c. length c = 10000 \<Longrightarrow>
      add_kernel (replicate 10000 one) (replicate 10000 two) c 10000 = Inr (replicate 10000 (plusf one two))"
    and "0 < k"
  shows "run_addition add_kernel one two garbage k = Inr (replicate 10000 (plusf one two))"
proof -
  let ?K = "\<lambda>_ c. add_kernel (replicate 10000 one) (replicate 10000 two) c 10000"
  have loop: "length c = 10000 \<Longrightarrow>
      for_each ?K xs c = Inr (if xs = [] then c else replicate 10000 (plusf one two))" for xs :: "nat list" and c
    by (induction xs arbitrary: c) (simp_all add: assms(1))
  have len: "length (map garbage [0..<10000]) = 10000" by simp
  have "for_each ?K [0..<k] (map garbage [0..<10000]) = Inr (replicate 10000 (plusf one two))"
    using loop [OF len, of "[0..<k]"] assms(2) by simp
  then show ?thesis
    using GenerateTestData_ok [OF len len, of one two] by (simp add: run_addition_def Let_def)
qed

section \<open>Sums\<close>

lemma gauss: "int (n * (n - 1) div 2) + int n = int (Suc n * n div 2)"
proof -
  have "Suc n * n = n * (n - 1) + 2 * n" by (cases n) (simp_all add: algebra_simps)
  then show ?thesis by simp
qed

lemma small_square:
  fixes n :: nat
  assumes "n \<le> 65536"
  shows "n * (n - 1) div 2 < 2 ^ 31"
proof -
  have "n * (n - 1) \<le> 65536 * 65535" using assms by (intro mult_le_mono) simp_all
  then show ?thesis by simp
qed

lemma LoopWithoutUnrolling_sum:
  "n \<le> 65536 \<Longrightarrow> LoopWithoutUnrolling n = Inr (int (n * (n - 1) div 2))"
proof (induction n)
  case (Suc n)
  have "to_int (int (n * (n - 1) div 2) + int n) = Inr (int (Suc n * n div 2))"
    unfolding gauss using small_square [OF Suc.prems] by (intro to_int_ok) simp_all
  then show ?case using Suc by (simp add: LoopWithoutUnrolling_def for_each_append)
qed (simp add: LoopWithoutUnrolling_def)

lemma eight_terms:
  assumes "i < 2 ^ 20"
  shows "for_each (\<lambda>k s. rbind (to_int (int i + int k)) (\<lambda>t. to_int (s + t))) [1..<8] (int i) =
    Inr (8 * int i + 28)"
proof -
  have "[1..<8] = [1, 2, 3, 4, 5, 6, 7 :: nat]" by code_simp
  then show ?thesis using assms by simp
qed

lemma LoopWithUnrolling_sum:
  assumes "0 < n" and "n \<le> 65536"
  shows "LoopWithUnrolling n =
    (let m = (n + 7) div 8 * 8 in Inr (int (m * (m - 1) div 2)))"
proof -
  let ?body = "\<lambda>i result. rbind
      (for_each (\<lambda>k s. rbind (to_int (int i + int k)) (\<lambda>t. to_int (s + t))) [1..<8] (int i))
      (\<lambda>s. to_int (result + s))"
  have "for_each ?body (map (\<lambda>i. i * 8) [0..<k]) 0 = Inr (int (k * 8 * (k * 8 - 1) div 2))" if "k \<le> 8192" for k
    using that
  proof (induction k)
    case (Suc k)
    have "Suc k * 8 * (Suc k * 8 - 1) = k * 8 * (k * 8 - 1) + 2 * (8 * (k * 8) + 28)"
      by (cases k) (simp_all add: algebra_simps)
    then have next_sum: "int (k * 8 * (k * 8 - 1) div 2) + (8 * int (k * 8) + 28) = int (Suc k * 8 * (Suc k * 8 - 1) div 2)"
      by simp
    have "to_int (int (Suc k * 8 * (Suc k * 8 - 1) div 2)) = Inr (int (Suc k * 8 * (Suc k * 8 - 1) div 2))"
      using small_square [of "Suc k * 8"] Suc.prems by (intro to_int_ok) simp_all
    then have "?body (k * 8) (int (k * 8 * (k * 8 - 1) div 2)) = Inr (int (Suc k * 8 * (Suc k * 8 - 1) div 2))"
      using eight_terms [of "k * 8"] Suc.prems next_sum by simp
    then show ?case using Suc.IH Suc.prems by (simp only: upt_Suc_append map_append for_each_append) simp
  qed simp
  from this [of "(n + 7) div 8"] assms(2) show ?thesis
    by (simp add: LoopWithUnrolling_def upto_by_round Let_def add.commute)
qed

section \<open>Fission\<close>

text \<open>Splitting a loop is correct for bodies that are defined under an invariant and of which a later
  first half commutes with an earlier second half.\<close>

lemma fission_ok:
  assumes "I s"
    and f: "\<And>i t. i < n \<Longrightarrow> I t \<Longrightarrow> f i t = Inr (f' i t) \<and> I (f' i t)"
    and g: "\<And>i t. i < n \<Longrightarrow> I t \<Longrightarrow> g i t = Inr (g' i t) \<and> I (g' i t)"
    and comm: "\<And>i j t. i < j \<Longrightarrow> j < n \<Longrightarrow> f' j (g' i t) = g' i (f' j t)"
  shows "fused f g n s = split_loops f g n s" and "\<exists>t. fused f g n s = Inr t \<and> I t"
proof -
  have fu: "fused f g n s = Inr (fold (\<lambda>i s. g' i (f' i s)) [0..<n] s) \<and> I (fold (\<lambda>i s. g' i (f' i s)) [0..<n] s)"
    unfolding fused_def by (rule for_each_invariant) (use assms in auto)
  have "for_each f [0..<n] s = Inr (fold f' [0..<n] s) \<and> I (fold f' [0..<n] s)"
    by (rule for_each_invariant) (use assms in auto)
  moreover from this have "for_each g [0..<n] (fold f' [0..<n] s) = Inr (fold g' [0..<n] (fold f' [0..<n] s))
      \<and> I (fold g' [0..<n] (fold f' [0..<n] s))"
    by (intro for_each_invariant) (use assms in auto)
  ultimately show "fused f g n s = split_loops f g n s"
    using fu fold_fission [of n f' g' s, OF comm] by (simp add: split_loops_def)
  show "\<exists>t. fused f g n s = Inr t \<and> I t" using fu by blast
qed

definition sized :: "nat \<Rightarrow> 'f fission \<Rightarrow> bool" where
  "sized n s \<longleftrightarrow> fn s = n \<and> length (fa s) = n \<and> length (fb s) = n \<and> length (fc s) = n \<and> length (fd s) = n
     \<and> length (result1 s) = n \<and> length (result2 s) = n"

lemma MathOperations_fission:
  assumes "sized n s"
  shows "MathOperations_Fused F s = MathOperations_Fission F s" and "\<exists>t. MathOperations_Fused F s = Inr t \<and> sized n t"
proof -
  have n: "fn s = n" using assms by (simp add: sized_def)
  note r = fission_ok [where I = "sized n" and s = s and n = n and f = "trig_statement F" and g = "log_statement F"
      and f' = "\<lambda>i t. t\<lparr>result1 := (result1 t)[i := fadd F (fsin F (fa t ! i)) (fcos F (fb t ! i))]\<rparr>"
      and g' = "\<lambda>i t. t\<lparr>result2 := (result2 t)[i := fmul F (flog F (fadd F (fc t ! i) (c1 F))) (fsqrt F (fd t ! i))]\<rparr>"]
  show "MathOperations_Fused F s = MathOperations_Fission F s"
    unfolding MathOperations_Fused_def MathOperations_Fission_def n
    by (rule r(1)) (use assms in \<open>simp_all add: sized_def trig_statement_def log_statement_def\<close>)
  show "\<exists>t. MathOperations_Fused F s = Inr t \<and> sized n t"
    unfolding MathOperations_Fused_def n
    by (rule r(2)) (use assms in \<open>simp_all add: sized_def trig_statement_def log_statement_def\<close>)
qed

lemma MemoryAccess_fission:
  assumes "sized n s"
  shows "MemoryAccess_Fused F s = MemoryAccess_Fission F s" and "\<exists>t. MemoryAccess_Fused F s = Inr t \<and> sized n t"
proof -
  have n: "fn s = n" using assms by (simp add: sized_def)
  note r = fission_ok [where I = "sized n" and s = s and n = n and f = "a_statement F" and g = "d_statement F"
      and f' = "\<lambda>i t. t\<lparr>fa := (fa t)[i := fadd F (fmul F (fb t ! i) (c2 F)) (fc t ! i)]\<rparr>"
      and g' = "\<lambda>i t. t\<lparr>fd := (fd t)[i := fadd F (fa t ! i) (fmul F (fb t ! i) (c_half F))]\<rparr>"]
  show "MemoryAccess_Fused F s = MemoryAccess_Fission F s"
    unfolding MemoryAccess_Fused_def MemoryAccess_Fission_def n
    by (rule r(1)) (use assms in \<open>simp_all add: sized_def a_statement_def d_statement_def\<close>)
  show "\<exists>t. MemoryAccess_Fused F s = Inr t \<and> sized n t"
    unfolding MemoryAccess_Fused_def n
    by (rule r(2)) (use assms in \<open>simp_all add: sized_def a_statement_def d_statement_def\<close>)
qed

lemma MixedComplexity_fission:
  assumes "sized n s"
  shows "MixedComplexity_Fused F s = MixedComplexity_Fission F s" and "\<exists>t. MixedComplexity_Fused F s = Inr t \<and> sized n t"
proof -
  have n: "fn s = n" using assms by (simp add: sized_def)
  note r = fission_ok [where I = "sized n" and s = s and n = n and f = "add_statement F" and g = "exp_statement F"
      and f' = "\<lambda>i t. t\<lparr>result1 := (result1 t)[i := fadd F (fa t ! i) (fb t ! i)]\<rparr>"
      and g' = "\<lambda>i t. t\<lparr>result2 := (result2 t)[i := fexp F (fsin F (fc t ! i))]\<rparr>"]
  show "MixedComplexity_Fused F s = MixedComplexity_Fission F s"
    unfolding MixedComplexity_Fused_def MixedComplexity_Fission_def n
    by (rule r(1)) (use assms in \<open>simp_all add: sized_def add_statement_def exp_statement_def\<close>)
  show "\<exists>t. MixedComplexity_Fused F s = Inr t \<and> sized n t"
    unfolding MixedComplexity_Fused_def n
    by (rule r(2)) (use assms in \<open>simp_all add: sized_def add_statement_def exp_statement_def\<close>)
qed

lemma compute_statement_ok:
  "sized n t \<Longrightarrow> i < n \<Longrightarrow> compute_statement F b i t =
     Inr (t\<lparr>result1 := (result1 t)[i := if b then fmul F (fsqrt F (fa t ! i)) (flog F (fb t ! i)) else c0 F]\<rparr>)"
  by (simp add: compute_statement_def sized_def)

lemma ConditionCheck_fission:
  assumes "sized n s"
  shows "ConditionCheck_Fused F s = ConditionCheck_Fission F s" and "\<exists>t. ConditionCheck_Fused F s = Inr t \<and> sized n t"
proof -
  let ?b = "\<lambda>i. fgreater F (fa s ! i) (c50 F)"
  let ?f = "\<lambda>i t. t\<lparr>result1 := (result1 t)[i := if ?b i then fmul F (fsqrt F (fa t ! i)) (flog F (fb t ! i)) else c0 F]\<rparr>"
  let ?I = "\<lambda>t. sized n t \<and> fa t = fa s"
  have n: "fn s = n" "length (fa s) = n" using assms by (auto simp: sized_def)
  have fused: "ConditionCheck_Fused F s = Inr (fold ?f [0..<n] s) \<and> ?I (fold ?f [0..<n] s)"
    unfolding ConditionCheck_Fused_def n
    by (rule for_each_invariant) (use assms n in \<open>auto simp: compute_statement_ok\<close>, auto simp: sized_def)
  have "for_each (\<lambda>i sc. rbind (array_get (fa s) i) (\<lambda>x. array_set sc i (fgreater F x (c50 F))))
      [0..<n] (replicate n False) = Inr (fold (\<lambda>i sc. sc[i := ?b i]) [0..<n] (replicate n False))
      \<and> length (fold (\<lambda>i sc. sc[i := ?b i]) [0..<n] (replicate n False)) = n"
    by (rule for_each_invariant) (use n in auto)
  then have sc: "for_each (\<lambda>i sc. rbind (array_get (fa s) i) (\<lambda>x. array_set sc i (fgreater F x (c50 F))))
      [0..<n] (replicate n False) = Inr (map ?b [0..<n])"
    by (simp add: fold_update_all)
  have "for_each (\<lambda>i s. rbind (array_get (map ?b [0..<n]) i) (\<lambda>b. compute_statement F b i s)) [0..<n] s =
      Inr (fold ?f [0..<n] s) \<and> ?I (fold ?f [0..<n] s)"
    by (rule for_each_invariant) (use assms n in \<open>auto simp: compute_statement_ok\<close>, auto simp: sized_def)
  then show "ConditionCheck_Fused F s = ConditionCheck_Fission F s"
    using fused sc n by (simp add: ConditionCheck_Fission_def)
  show "\<exists>t. ConditionCheck_Fused F s = Inr t \<and> sized n t" using fused by blast
qed

lemma SimpleLoopFission_modes:
  "SimpleLoopFission F n m = SimpleLoopFission F n 0"
proof -
  let ?z = "replicate n (c0 F)"
  let ?in = "\<lambda>i xs. xs[i := fmul F (fof_int F i) (c_tenth F)]"
  have "for_each (\<lambda>i xs. array_set xs i (fmul F (fof_int F i) (c_tenth F))) [0..<n] ?z =
      Inr (fold ?in [0..<n] ?z) \<and> length (fold ?in [0..<n] ?z) = n"
    by (rule for_each_invariant) auto
  then obtain inp where inp: "length inp = n"
      "for_each (\<lambda>i xs. array_set xs i (fmul F (fof_int F i) (c_tenth F))) [0..<n] ?z = Inr inp" by blast
  define o1 where "o1 = (\<lambda>i (o1, o2). rbind (array_get inp i) (\<lambda>x. rbind (array_set o1 i (fsin F x)) (\<lambda>o1'. Inr (o1', o2 :: 'a list))))"
  define o2 where "o2 = (\<lambda>i (o1, o2). rbind (array_get inp i) (\<lambda>x. rbind (array_set o2 i (fcos F x)) (\<lambda>o2'. Inr (o1 :: 'a list, o2'))))"
  have "fused o1 o2 n (?z, ?z) = split_loops o1 o2 n (?z, ?z)"
    by (rule fission_ok(1) [where I = "\<lambda>(a, b). length a = n \<and> length b = n"
          and f' = "\<lambda>i (a, b). (a[i := fsin F (inp ! i)], b)" and g' = "\<lambda>i (a, b). (a, b[i := fcos F (inp ! i)])"])
      (auto simp: o1_def o2_def inp(1))
  then show ?thesis by (simp add: SimpleLoopFission_def inp(2) Let_def flip: o1_def o2_def)
qed

lemma fission_SetUp_sized: "\<exists>s. fission_SetUp z dist n = Inr s \<and> sized n s"
proof -
  let ?f = "\<lambda>i s. s\<lparr>fa := (fa s)[i := dist (4 * i)], fb := (fb s)[i := dist (4 * i + 1)],
      fc := (fc s)[i := dist (4 * i + 2)], fd := (fd s)[i := dist (4 * i + 3)]\<rparr>"
  let ?z = "replicate n z"
  let ?s = "\<lparr>fn = n, fa = ?z, fb = ?z, fc = ?z, fd = ?z, result1 = ?z, result2 = ?z\<rparr>"
  have "fission_SetUp z dist n = Inr (fold ?f [0..<n] ?s) \<and> sized n (fold ?f [0..<n] ?s)"
    unfolding fission_SetUp_def Let_def by (rule for_each_invariant) (auto simp: sized_def)
  then show ?thesis by blast
qed

section \<open>Properties\<close>

text \<open>C40. The vector kernels compute what the scalar loop does when the number of elements is a
  multiple of the width of a register; on arrays of exactly that many elements, any other number
  makes them read beyond the end. The size of the benchmarks, 10000, is a multiple of both widths:
  all four end with the sum in every element, whatever was in \<open>c\<close> before.\<close>

theorem simd_kernels:
  assumes "n \<le> length a" and "n \<le> length b" and "n \<le> length c"
    and "32 dvd pa" and "32 dvd pb" and "32 dvd pc" and "0 < k"
  shows "AddArrays plusf a b c n = Inr (map (\<lambda>i. plusf (a ! i) (b ! i)) [0..<n] @ drop n c)
    \<and> (4 dvd n \<longrightarrow> AddArraysSSE plusf a b c n = AddArrays plusf a b c n)
    \<and> (8 dvd n \<longrightarrow> AddArraysAVX2 plusf a b c n = AddArrays plusf a b c n)
    \<and> AddArraysAVX2Aligned plusf (pa, pb, pc) a b c n = AddArraysAVX2 plusf a b c n
    \<and> (length a = n \<and> length b = n \<and> length c = n \<longrightarrow>
         (\<not> 4 dvd n \<longrightarrow> AddArraysSSE plusf a b c n = Inl OutOfBounds)
         \<and> (\<not> 8 dvd n \<longrightarrow> AddArraysAVX2 plusf a b c n = Inl OutOfBounds))
    \<and> BM_ArrayAddition plusf one two garbage k = Inr (replicate 10000 (plusf one two))
    \<and> BM_AddArraysSSE plusf one two garbage k = BM_ArrayAddition plusf one two garbage k
    \<and> BM_AddArraysAVX2 plusf one two garbage k = BM_ArrayAddition plusf one two garbage k
    \<and> BM_AddArraysAVX2Aligned plusf (Some pa, Some pb, Some pc) one two garbage k =
        Some (BM_ArrayAddition plusf one two garbage k)"
proof -
  have d: "4 dvd (10000 :: nat)" "8 dvd (10000 :: nat)" by (simp_all add: dvd_eq_mod_eq_0)
  have scalar: "AddArrays plusf (replicate 10000 one) (replicate 10000 two) c 10000 =
      Inr (replicate 10000 (plusf one two))" if "length c = 10000" for c
  proof -
    have "map (\<lambda>i. plusf (replicate 10000 one ! i) (replicate 10000 two ! i)) [0..<10000] =
        replicate 10000 (plusf one two)"
      by (intro nth_equalityI) simp_all
    then show ?thesis
      using AddArrays_sum [of 10000 "replicate 10000 one" "replicate 10000 two" c plusf] that by simp
  qed
  have sse: "AddArraysSSE plusf (replicate 10000 one) (replicate 10000 two) c 10000 =
      Inr (replicate 10000 (plusf one two))" if "length c = 10000" for c
    unfolding SSE_chunks
    using scalar [OF that] add_chunks_multiple [OF _ d(1), of "replicate 10000 one" "replicate 10000 two" c plusf] that
    by simp
  have avx: "AddArraysAVX2 plusf (replicate 10000 one) (replicate 10000 two) c 10000 =
      Inr (replicate 10000 (plusf one two))" if "length c = 10000" for c
    unfolding AVX2_chunks
    using scalar [OF that] add_chunks_multiple [OF _ d(2), of "replicate 10000 one" "replicate 10000 two" c plusf] that
    by simp
  have runs: "run_addition f one two garbage k = Inr (replicate 10000 (plusf one two))"
    if "f = AddArrays plusf \<or> f = AddArraysSSE plusf \<or> f = AddArraysAVX2 plusf
      \<or> f = AddArraysAVX2Aligned plusf (pa, pb, pc)" for f
    by (rule run_addition_ok) (use that assms(7) in \<open>auto simp: scalar sse avx aligned_chunks [OF assms(4-6)]\<close>)
  show ?thesis
    using assms add_chunks_multiple [of 4 n a b c plusf] add_chunks_multiple [of 8 n a b c plusf]
      add_chunks_overrun [of 4 n a b c plusf] add_chunks_overrun [of 8 n a b c plusf]
      aligned_chunks [OF assms(4-6)] AddArrays_sum [OF assms(1-3)]
    by (simp add: runs SSE_chunks AVX2_chunks BM_ArrayAddition_def BM_AddArraysSSE_def BM_AddArraysAVX2_def
        BM_AddArraysAVX2Aligned_def)
qed

theorem simd_kernels_witness:
  "AddArraysSSE (+) [1, 2, 3, 4] [5, 6, 7, 8 :: nat] [0, 0, 0, 0] 4 = Inr [6, 8, 10, 12]
    \<and> AddArraysAVX2 (+) [1, 2, 3, 4] [5, 6, 7, 8 :: nat] [0, 0, 0, 0] 4 = Inl OutOfBounds"
proof -
  have "[0..<4] = [0, 1, 2, 3 :: nat]" "\<not> 8 dvd (4 :: nat)" by code_simp+
  then show ?thesis
    using simd_kernels [of 4 "[1, 2, 3, 4]" "[5, 6, 7, 8]" "[0, 0, 0, 0]" 0 0 0 1 "(+) :: nat \<Rightarrow> nat \<Rightarrow> nat"]
    by simp
qed

text \<open>Up to 65536 numbers no sum overflows an \<open>int\<close>: the plain loop computes \<open>n (n - 1) / 2\<close>, and
  the loop unrolled eight times computes the same sum for \<open>n\<close> rounded up to a multiple of eight,
  so the two agree exactly on multiples of eight.\<close>

theorem unrolled_sum:
  assumes "0 < n" and "n \<le> 65536"
  shows "LoopWithoutUnrolling n = Inr (int (n * (n - 1) div 2))
    \<and> LoopWithUnrolling n = LoopWithoutUnrolling ((n + 7) div 8 * 8)
    \<and> (LoopWithUnrolling n = LoopWithoutUnrolling n \<longleftrightarrow> 8 dvd n)"
proof -
  let ?m = "(n + 7) div 8 * 8"
  have m: "n \<le> ?m" "?m \<le> 65536" "8 dvd n \<Longrightarrow> ?m = n" "8 dvd ?m" using assms(2) by auto
  have mono: "n * (n - 1) div 2 < m * (m - 1) div 2" if "n < m" for m
  proof -
    have "n * (n - 1) + 2 * n \<le> m * (m - 1)"
    proof -
      have "n * (n - 1) + 2 * n = Suc n * n" using assms(1) by (cases n) (simp_all add: algebra_simps)
      also have "\<dots> \<le> m * (m - 1)" using that by (intro mult_le_mono) simp_all
      finally show ?thesis .
    qed
    then have "(n * (n - 1) + 2 * n) div 2 \<le> m * (m - 1) div 2" by (rule div_le_mono)
    then show ?thesis using assms(1) by simp
  qed
  have u: "LoopWithUnrolling n = LoopWithoutUnrolling ?m"
    using LoopWithUnrolling_sum [OF assms] LoopWithoutUnrolling_sum [OF m(2)] by (simp add: Let_def)
  moreover have "LoopWithUnrolling n = LoopWithoutUnrolling n \<longleftrightarrow> 8 dvd n"
  proof
    assume "LoopWithUnrolling n = LoopWithoutUnrolling n"
    then have "\<not> n < ?m"
      using mono [of ?m] u LoopWithoutUnrolling_sum [OF m(2)] LoopWithoutUnrolling_sum [OF assms(2)]
      by (metis less_irrefl of_nat_eq_iff sum.inject(2))
    then show "8 dvd n" using m(1,4) by simp
  qed (use u m(3) in simp)
  ultimately show ?thesis using LoopWithoutUnrolling_sum [OF assms(2)] by blast
qed

text \<open>Loop fission: on the arrays that \<open>SetUp\<close> prepares, every split version of a loop succeeds and
  leaves exactly the state that the fused version leaves, in all four examples and in the version
  without a fixture, for any meaning of the floating point operations.\<close>

theorem loop_fission:
  "\<exists>s. fission_SetUp z dist n = Inr s
    \<and> MathOperations_Fission F s = MathOperations_Fused F s
    \<and> MemoryAccess_Fission F s = MemoryAccess_Fused F s
    \<and> MixedComplexity_Fission F s = MixedComplexity_Fused F s
    \<and> ConditionCheck_Fission F s = ConditionCheck_Fused F s
    \<and> (\<exists>t1 t2 t3 t4. MathOperations_Fused F s = Inr t1 \<and> MemoryAccess_Fused F s = Inr t2
         \<and> MixedComplexity_Fused F s = Inr t3 \<and> ConditionCheck_Fused F s = Inr t4)
    \<and> SimpleLoopFission F n m = SimpleLoopFission F n 0"
proof -
  obtain s where s: "fission_SetUp z dist n = Inr s" "sized n s" using fission_SetUp_sized [of z dist n] by auto
  show ?thesis
    using s(1) MathOperations_fission [OF s(2), of F] MemoryAccess_fission [OF s(2), of F]
      MixedComplexity_fission [OF s(2), of F] ConditionCheck_fission [OF s(2), of F] SimpleLoopFission_modes [of F n m]
    by metis
qed

end
