(* ===== verification/Loop_Patterns.thy ===== *)
theory Loop_Patterns
  imports Array_Kernels
begin

text \<open>
  Small programs of \<open>design_patterns/\<close> that come in a plain and an optimised version:
  \<open>induction_variables\<close>, \<open>short_circuiting\<close>, \<open>branch_reduction\<close>, \<open>branch_prediction\<close> and
  \<open>cache_warming\<close>. Loops whose only effect is to take time (sums of square roots into a local
  \<open>volatile\<close>) are left out, unless they can overflow.
\<close>

section \<open>Induction variables\<close>

definition calculate :: "int \<Rightarrow> int result" where
  "calculate i = rbind (to_int (i * 10)) (\<lambda>x. to_int (x + 12))"

text \<open>The array starts uninitialised (\<open>garbage\<close>).\<close>

definition NoInductionVariables :: "int list \<Rightarrow> int list result" where
  "NoInductionVariables garbage =
     for_each (\<lambda>i a. rbind (calculate (int i)) (\<lambda>v. array_set a i v)) [0..<100] garbage"

definition WithInductionVariables :: "int list \<Rightarrow> int list result" where
  "WithInductionVariables garbage =
     rbind (for_each (\<lambda>i (a, temp). rbind (array_set a i temp) (\<lambda>a'. rbind (to_int (temp + 10)) (\<lambda>temp'.
              Inr (a', temp')))) [0..<100] (garbage, 12))
       (\<lambda>(a, temp). Inr a)"

section \<open>Short-circuit evaluation\<close>

text \<open>The loop of \<open>expensive_condition\<close> sums into an \<open>int\<close>.\<close>

definition expensive_condition :: "int \<Rightarrow> bool result" where
  "expensive_condition i =
     rbind (for_each (\<lambda>j sink. to_int (sink + int j)) [0..<100000] 0) (\<lambda>_. Inr (i mod 2 = 0))"

definition cheap_condition :: "int \<Rightarrow> bool" where
  "cheap_condition i \<longleftrightarrow> i mod 2 \<noteq> 0"

text \<open>The loops of the two benchmarks over any expensive condition; the second component counts its
  calls.\<close>

definition NoShortCircuit :: "(int \<Rightarrow> bool result) \<Rightarrow> nat \<Rightarrow> (bool \<times> nat) result" where
  "NoShortCircuit expensive n =
     for_each (\<lambda>i (_, calls). rbind (expensive (int i)) (\<lambda>e. Inr (e \<or> cheap_condition (int i), calls + 1)))
       [0..<n] (False, 0)"

definition ShortCircuit :: "(int \<Rightarrow> bool result) \<Rightarrow> nat \<Rightarrow> (bool \<times> nat) result" where
  "ShortCircuit expensive n =
     for_each (\<lambda>i (_, calls). if cheap_condition (int i) then Inr (True, calls)
        else rbind (expensive (int i)) (\<lambda>e. Inr (e, calls + 1)))
       [0..<n] (False, 0)"

section \<open>Branch reduction\<close>

text \<open>What an iteration ends up calling.\<close>

datatype handled = HandledA | HandledB | HandledC | Hotpath

definition checkForErrorA :: "int \<Rightarrow> (bool \<times> int) result" where
  "checkForErrorA errorCounterA =
     rbind (to_int (errorCounterA + 1)) (\<lambda>c. Inr (c mod 10 = 0, c))"

definition checkForErrorB :: bool where
  "checkForErrorB = False"

definition checkForErrorC :: bool where
  "checkForErrorC = False"

definition Branching :: "nat \<Rightarrow> (int \<times> handled list) result" where
  "Branching n =
     for_each (\<lambda>_ (errorCounterA, trace). rbind (checkForErrorA errorCounterA) (\<lambda>(err, c).
        Inr (c, trace @ [if err then HandledA else if checkForErrorB then HandledB
                         else if checkForErrorC then HandledC else Hotpath])))
       [0..<n] (0, [])"

definition ErrorA :: i32 where "ErrorA = push_bit 0 1"
definition ErrorB :: i32 where "ErrorB = push_bit 1 1"
definition ErrorC :: i32 where "ErrorC = push_bit 2 1"
definition NoError :: i32 where "NoError = 0"

definition checkErrors :: "int \<Rightarrow> (i32 \<times> int) result" where
  "checkErrors errorCounterFlags =
     rbind (to_int (errorCounterFlags + 1)) (\<lambda>c. Inr (if c mod 10 = 0 then ErrorA else NoError, c))"

definition HandleError :: "i32 \<Rightarrow> handled list" where
  "HandleError errorFlags = (if errorFlags AND ErrorA \<noteq> 0 then [HandledA] else [])"

definition ReducedBranching :: "nat \<Rightarrow> (int \<times> handled list) result" where
  "ReducedBranching n =
     for_each (\<lambda>_ (errorCounterFlags, trace). rbind (checkErrors errorCounterFlags) (\<lambda>(errorFlags, c).
        Inr (c, trace @ (if errorFlags = 0 then [Hotpath] else HandleError errorFlags))))
       [0..<n] (0, [])"

section \<open>Branch prediction\<close>

definition ARRAY_SIZE :: nat where
  "ARRAY_SIZE = 100000"

text \<open>\<open>dist k\<close> is the k-th sample of the generator.\<close>

definition generate_random_data :: "(nat \<Rightarrow> int) \<Rightarrow> int list" where
  "generate_random_data dist = map dist [0..<ARRAY_SIZE]"

definition array_sum :: "int list \<Rightarrow> int result" where
  "array_sum data =
     for_each (\<lambda>i sum. rbind (array_get data i) (\<lambda>x. if 128 \<le> x then to_long (sum + x) else Inr sum))
       [0..<ARRAY_SIZE] 0"

definition UnsortedArraySum :: "int list \<Rightarrow> int result" where
  "UnsortedArraySum raw_data = array_sum raw_data"

definition SortedArraySum :: "int list \<Rightarrow> int result" where
  "SortedArraySum raw_data = array_sum (sort raw_data)"

section \<open>Cache warming\<close>

definition kSize :: nat where
  "kSize = 10000000"

definition cw_data :: "int list" where
  "cw_data = replicate kSize 0"

text \<open>\<open>rand k\<close> is what the k-th call of \<open>rand()\<close> returns.\<close>

definition CacheCold :: "(nat \<Rightarrow> nat) \<Rightarrow> int list \<Rightarrow> int result" where
  "CacheCold rand data =
     (let indices = map (\<lambda>k. rand k mod kSize) [0..<kSize]
      in for_each (\<lambda>i sum. rbind (array_get indices i) (\<lambda>idx. rbind (array_get data idx) (\<lambda>x. to_int (sum + x))))
           [0..<kSize] 0)"

definition CacheWarm :: "int list \<Rightarrow> int result" where
  "CacheWarm data =
     rbind (for_each (\<lambda>i sum. rbind (array_get data i) (\<lambda>x. to_int (sum + x))) [0..<kSize] 0) (\<lambda>sum_warm.
       for_each (\<lambda>i sum. rbind (array_get data i) (\<lambda>x. to_int (sum + x))) [0..<kSize] 0)"

section \<open>Lemmas\<close>

lemma NoInductionVariables_array:
  assumes "length g = 100"
  shows "NoInductionVariables g = Inr (map (\<lambda>i. int i * 10 + 12) [0..<100])"
proof -
  let ?f = "\<lambda>i a. a[i := int i * 10 + 12]"
  have "NoInductionVariables g = Inr (fold ?f [0..<100] g) \<and> length (fold ?f [0..<100] g) = 100"
    unfolding NoInductionVariables_def by (rule for_each_invariant) (use assms in \<open>auto simp: calculate_def\<close>)
  then show ?thesis using fold_update_all [of 100 g "\<lambda>i. int i * 10 + 12"] assms by simp
qed

lemma WithInductionVariables_array:
  assumes "length g = 100"
  shows "WithInductionVariables g = Inr (map (\<lambda>i. int i * 10 + 12) [0..<100])"
proof -
  have "for_each (\<lambda>i (a, temp). rbind (array_set a i temp) (\<lambda>a'. rbind (to_int (temp + 10)) (\<lambda>temp'.
        Inr (a', temp')))) [0..<n] (g, 12) = Inr (map (\<lambda>i. int i * 10 + 12) [0..<n] @ drop n g, int n * 10 + 12)"
    if "n \<le> 100" for n
    using that
  proof (induction n)
    case (Suc n)
    then have "drop n g = g ! n # drop (Suc n) g" using assms by (simp add: Cons_nth_drop_Suc)
    with Suc show ?case using assms by (simp add: for_each_append list_update_append)
  qed simp
  from this [of 100] show ?thesis using assms by (simp add: WithInductionVariables_def)
qed

lemma upt_split: "i < n \<Longrightarrow> \<exists>rest. [0..<n] = [0..<i] @ i # rest"
  using upt_add_eq_append [of 0 i "n - i"] upt_conv_Cons [of i n] by simp

lemma expensive_overflows: "expensive_condition i = Inl SignedOverflow"
proof -
  obtain rest :: "nat list" where split: "[0..<100000] = [0..<65536] @ 65536 # rest"
    using upt_split [of 65536 100000] by auto
  have "for_each (\<lambda>j sink. to_int (sink + int j)) [0..<65536] 0 = Inr 2147450880"
    using LoopWithoutUnrolling_sum [of 65536] by (simp add: LoopWithoutUnrolling_def)
  then have "for_each (\<lambda>j sink. to_int (sink + int j)) [0..<100000] 0 = Inl SignedOverflow"
    unfolding split for_each_append by (simp add: to_int_def int_range_def)
  then show ?thesis unfolding expensive_condition_def by simp
qed

lemma circuits_agree:
  assumes "\<And>i. expensive i = Inr (i mod 2 = 0)"
  shows "NoShortCircuit expensive n = Inr (0 < n, n)" and "ShortCircuit expensive n = Inr (0 < n, (n + 1) div 2)"
proof -
  show "NoShortCircuit expensive n = Inr (0 < n, n)"
  proof (induction n)
    case (Suc n)
    have "int n mod 2 = 0 \<or> int n mod 2 = 1" by presburger
    with Suc show ?case by (simp add: NoShortCircuit_def for_each_append assms cheap_condition_def)
  qed (simp add: NoShortCircuit_def)
  show "ShortCircuit expensive n = Inr (0 < n, (n + 1) div 2)"
  proof (induction n)
    case (Suc n)
    have "int n mod 2 = 0 \<longleftrightarrow> even n" by presburger
    with Suc show ?case by (auto simp: ShortCircuit_def for_each_append assms cheap_condition_def elim!: evenE oddE)
  qed (simp add: ShortCircuit_def)
qed

lemma branching_turn:
  "rbind (checkForErrorA c) (\<lambda>(err, c). Inr (c, t @ [if err then HandledA else if checkForErrorB then HandledB
      else if checkForErrorC then HandledC else Hotpath])) =
   rbind (checkErrors c) (\<lambda>(fl, c). Inr (c, t @ (if fl = 0 then [Hotpath] else HandleError fl)))"
  by (simp add: checkForErrorA_def checkErrors_def checkForErrorB_def checkForErrorC_def HandleError_def
      ErrorA_def NoError_def to_int_def)

lemma branching_trace:
  "n < 2 ^ 31 \<Longrightarrow>
     Branching n = Inr (int n, map (\<lambda>i. if Suc i mod 10 = 0 then HandledA else Hotpath) [0..<n])"
proof (induction n)
  case (Suc n)
  have "(int n + 1) mod 10 = 0 \<longleftrightarrow> Suc n mod 10 = 0" by presburger
  with Suc show ?case
    by (simp add: Branching_def for_each_append checkForErrorA_def checkForErrorB_def checkForErrorC_def)
qed (simp add: Branching_def)

lemma count_handled: "length (filter (\<lambda>h. h = HandledA) (map (\<lambda>i. if Suc i mod 10 = 0 then HandledA else Hotpath) [0..<n])) = n div 10"
  by (induction n) (auto simp: div_Suc)

lemma array_sum_filter:
  assumes "length data = ARRAY_SIZE" and "\<forall>x \<in> set data. 0 \<le> x \<and> x \<le> 255"
  shows "array_sum data = Inr (sum_list (filter (\<lambda>x. 128 \<le> x) data))"
    and "0 \<le> sum_list (filter (\<lambda>x. 128 \<le> x) data)" and "sum_list (filter (\<lambda>x. 128 \<le> x) data) \<le> 255 * int ARRAY_SIZE"
proof -
  let ?s = "\<lambda>k. sum_list (filter (\<lambda>x. 128 \<le> x) (take k data))"
  have bound: "0 \<le> ?s k \<and> ?s k \<le> 255 * int k" if "k \<le> ARRAY_SIZE" for k
    using that
  proof (induction k)
    case (Suc k)
    have "data ! k \<in> set data" using Suc.prems assms(1) by simp
    then have "data ! k \<le> 255" using assms(2) by blast
    with Suc assms(1) show ?case by (simp add: take_Suc_conv_app_nth)
  qed simp
  have "for_each (\<lambda>i sum. rbind (array_get data i) (\<lambda>x. if 128 \<le> x then to_long (sum + x) else Inr sum)) [0..<k] 0 =
      Inr (?s k)" if "k \<le> ARRAY_SIZE" for k
    using that
  proof (induction k)
    case (Suc k)
    have k: "k < length data" "data ! k \<in> set data" using Suc.prems assms(1) by simp_all
    then have "0 \<le> data ! k" "data ! k \<le> 255" using assms(2) by auto
    moreover have "255 * int k < 2 ^ 60" using Suc.prems by (simp add: ARRAY_SIZE_def)
    ultimately have "to_long (?s k + data ! k) = Inr (?s k + data ! k)"
      using bound [of k] Suc.prems by (intro to_long_ok) auto
    with Suc k show ?case by (simp add: for_each_append take_Suc_conv_app_nth)
  qed simp
  from this [of ARRAY_SIZE] bound [of ARRAY_SIZE] assms(1)
  show "array_sum data = Inr (sum_list (filter (\<lambda>x. 128 \<le> x) data))"
    and "0 \<le> sum_list (filter (\<lambda>x. 128 \<le> x) data)" and "sum_list (filter (\<lambda>x. 128 \<le> x) data) \<le> 255 * int ARRAY_SIZE"
    by (simp_all add: array_sum_def)
qed

lemma sum_filter_sort: "sum_list (filter P (sort xs)) = sum_list (filter P (xs :: int list))"
proof -
  have "mset (filter P (sort xs)) = mset (filter P xs)" by (simp add: mset_filter)
  then show ?thesis by (metis sum_mset_sum_list)
qed

lemma for_each_idle:
  assumes "\<And>x. x \<in> set xs \<Longrightarrow> body x s = Inr s"
  shows "for_each body xs s = Inr s"
  using assms by (induction xs) simp_all

lemma cache_sums:
  "CacheCold rand cw_data = Inr 0" "CacheWarm cw_data = Inr 0"
proof -
  have pos: "0 < kSize" by (simp add: kSize_def)
  have len: "length cw_data = kSize" "\<And>i. i < kSize \<Longrightarrow> cw_data ! i = 0" by (simp_all add: cw_data_def)
  show "CacheCold rand cw_data = Inr 0"
    unfolding CacheCold_def Let_def by (rule for_each_idle) (use pos len in simp)
  have "for_each (\<lambda>i sum. rbind (array_get cw_data i) (\<lambda>x. to_int (sum + x))) [0..<kSize] 0 = Inr 0"
    by (rule for_each_idle) (use len in simp)
  then show "CacheWarm cw_data = Inr 0" by (simp add: CacheWarm_def)
qed

section \<open>Properties\<close>

text \<open>Branch reduction: with the error flags the program takes, in every iteration, the same
  handler as with the chain of checks, also when the counter overflows. Below \<open>2 ^ 31\<close> iterations
  every tenth one handles the error and all others take the hot path.\<close>

theorem branch_reduction_same_trace:
  "ReducedBranching n = Branching n
    \<and> (n < 2 ^ 31 \<longrightarrow> (\<exists>trace. Branching n = Inr (int n, trace) \<and> length trace = n
         \<and> length (filter (\<lambda>h. h = HandledA) trace) = n div 10
         \<and> (\<forall>i < n. trace ! i = (if (i + 1) mod 10 = 0 then HandledA else Hotpath))))"
proof -
  have "ReducedBranching n = Branching n"
    unfolding ReducedBranching_def Branching_def
    by (rule for_each_cong) (simp add: branching_turn split: prod.split)
  moreover have "\<exists>trace. Branching n = Inr (int n, trace) \<and> length trace = n
      \<and> length (filter (\<lambda>h. h = HandledA) trace) = n div 10
      \<and> (\<forall>i < n. trace ! i = (if (i + 1) mod 10 = 0 then HandledA else Hotpath))" if "n < 2 ^ 31"
    using branching_trace [OF that] count_handled [of n] by simp
  ultimately show ?thesis by blast
qed

text \<open>Short-circuit evaluation: with the condition the code means to compute, both loops end with
  the same result, and the short-circuit version calls it for every second index only. The
  condition as written, however, sums the numbers below 100000 into an \<open>int\<close>, which overflows.\<close>

theorem short_circuit_result:
  assumes "\<And>i. expensive i = Inr (i mod 2 = 0)"
  shows "NoShortCircuit expensive n = Inr (0 < n, n)
    \<and> ShortCircuit expensive n = Inr (0 < n, (n + 1) div 2)
    \<and> expensive_condition i = Inl SignedOverflow
    \<and> (0 < n \<longrightarrow> NoShortCircuit expensive_condition n = Inl SignedOverflow
         \<and> ShortCircuit expensive_condition n = Inl SignedOverflow)"
proof -
  have "NoShortCircuit expensive_condition n = Inl SignedOverflow
      \<and> ShortCircuit expensive_condition n = Inl SignedOverflow" if "0 < n"
    using that
    by (simp add: NoShortCircuit_def ShortCircuit_def upt_conv_Cons expensive_overflows cheap_condition_def)
  then show ?thesis using circuits_agree [where expensive = expensive, OF assms] expensive_overflows by simp
qed

text \<open>Plain and optimised versions of the remaining loops agree: the array filled through an
  induction variable is the one filled by multiplication; sorting the data does not change the sum
  of the elements from 128 on, which fits into a \<open>long long\<close>; random and sequential access to the
  zero-initialised data both sum to zero without leaving the array.\<close>

theorem plain_and_optimised_agree:
  assumes "length g = 100" and "length g' = 100" and "\<And>k. 0 \<le> dist k \<and> dist k \<le> 255"
  shows "NoInductionVariables g = Inr (map (\<lambda>i. int i * 10 + 12) [0..<100])
    \<and> WithInductionVariables g' = NoInductionVariables g
    \<and> (\<exists>s. UnsortedArraySum (generate_random_data dist) = Inr s
         \<and> SortedArraySum (generate_random_data dist) = Inr s \<and> 0 \<le> s \<and> s \<le> 25500000)
    \<and> CacheCold rand cw_data = Inr 0 \<and> CacheWarm cw_data = Inr 0"
proof -
  let ?d = "generate_random_data dist"
  have d: "length ?d = ARRAY_SIZE" "\<forall>x \<in> set ?d. 0 \<le> x \<and> x \<le> 255"
    using assms(3) by (auto simp: generate_random_data_def)
  have sd: "length (sort ?d) = ARRAY_SIZE" "\<forall>x \<in> set (sort ?d). 0 \<le> x \<and> x \<le> 255" using d by simp_all
  have "\<exists>s. UnsortedArraySum ?d = Inr s \<and> SortedArraySum ?d = Inr s \<and> 0 \<le> s \<and> s \<le> 25500000"
    using array_sum_filter [OF d] array_sum_filter(1) [OF sd]
    by (simp add: UnsortedArraySum_def SortedArraySum_def sum_filter_sort ARRAY_SIZE_def)
  then show ?thesis
    using NoInductionVariables_array [OF assms(1)] WithInductionVariables_array [OF assms(2)] cache_sums
    by simp
qed

end
