(* ===== verification/Memory_Patterns.thy ===== *)
theory Memory_Patterns
  imports Workshop_Prelude
begin

text \<open>
  \<open>design_patterns/prefetching/prefetching.cc\<close> and \<open>pointer_aliasing/pointer_aliasing.cc\<close>: sums with
  and without prefetching, the two traversals of a matrix, the linked list threaded through a pool
  of nodes, and the loop over three pointers into one memory. A pointer is an index, \<open>nullptr\<close> is
  \<open>None\<close>, and prefetching an address is an access that must be in bounds and changes nothing.
\<close>

section \<open>Prefetching\<close>

definition NoPrefetch :: "nat \<Rightarrow> int result" where
  "NoPrefetch n = for_each (\<lambda>x sum. to_long (sum + x)) (replicate n 1) 0"

definition WithPrefetch :: "nat \<Rightarrow> int result" where
  "WithPrefetch n =
     (let data = replicate n (1 :: int); prefetch_distance = 10
      in for_each (\<lambda>i sum.
           rbind (if i + prefetch_distance < length data
                  then rbind (array_get data (i + prefetch_distance)) (\<lambda>_. Inr ()) else Inr ())
             (\<lambda>_. rbind (array_get data i) (\<lambda>x. to_long (sum + x)))) [0..<n] 0)"

section \<open>Matrix traversal\<close>

definition ROWS :: nat where "ROWS = 4000"
definition COLS :: nat where "COLS = 4000"

definition GetGlobalMatrix :: "nat \<Rightarrow> nat \<Rightarrow> int list" where
  "GetGlobalMatrix rows cols = map int [0..<rows * cols]"

definition Matrix_Row_Major :: "nat \<Rightarrow> nat \<Rightarrow> int list \<Rightarrow> int result" where
  "Matrix_Row_Major rows cols matrix =
     for_each (\<lambda>i. for_each (\<lambda>j sum. rbind (array_get matrix (i * cols + j)) (\<lambda>x. to_long (sum + x)))
       [0..<cols]) [0..<rows] 0"

definition Matrix_Col_Major :: "nat \<Rightarrow> nat \<Rightarrow> int list \<Rightarrow> int result" where
  "Matrix_Col_Major rows cols matrix =
     for_each (\<lambda>j. for_each (\<lambda>i sum. rbind (array_get matrix (i * cols + j)) (\<lambda>x. to_long (sum + x)))
       [0..<rows]) [0..<cols] 0"

section \<open>The scrambled list\<close>

record node =
  ndata :: int
  nnext :: "nat option"

record pool =
  g_pool :: "node list"
  g_list_head :: "nat option"

definition fresh_pool :: "nat \<Rightarrow> pool" where
  "fresh_pool NODE_COUNT = \<lparr>g_pool = replicate NODE_COUNT \<lparr>ndata = 0, nnext = None\<rparr>, g_list_head = None\<rparr>"

text \<open>\<open>shuffle\<close> is \<open>std::shuffle\<close> with its generator.\<close>

definition link_node :: "nat \<Rightarrow> nat list \<Rightarrow> nat \<Rightarrow> node list \<times> nat \<Rightarrow> (node list \<times> nat) result" where
  "link_node NODE_COUNT random_indices i = (\<lambda>(nodes, current).
     rbind (array_get nodes current) (\<lambda>n.
       if i + 1 < NODE_COUNT
       then rbind (array_get random_indices (i + 1)) (\<lambda>next_idx.
              if next_idx < length nodes
              then Inr (nodes[current := n\<lparr>ndata := int i, nnext := Some next_idx\<rparr>], next_idx)
              else Inl OutOfBounds)
       else Inr (nodes[current := n\<lparr>ndata := int i, nnext := None\<rparr>], current)))"

definition SetupScrambledList :: "(nat list \<Rightarrow> nat list) \<Rightarrow> nat \<Rightarrow> pool \<Rightarrow> pool result" where
  "SetupScrambledList shuffle NODE_COUNT g =
     (if g_list_head g \<noteq> None then Inr g
      else (let random_indices = shuffle [0..<NODE_COUNT]
            in rbind (array_get random_indices 0) (\<lambda>first.
               rbind (array_get (g_pool g) first) (\<lambda>_.
               rbind (for_each (link_node NODE_COUNT random_indices) [0..<NODE_COUNT] (g_pool g, first))
                 (\<lambda>(nodes, current). Inr \<lparr>g_pool = nodes, g_list_head = Some first\<rparr>)))))"

text \<open>The traversals; not reaching the end of the list is \<open>None\<close>.\<close>

partial_function (option) traverse :: "node list \<Rightarrow> nat option \<Rightarrow> int \<Rightarrow> int result option" where
  "traverse nodes current acc =
     (case current of
        None \<Rightarrow> Some (Inr acc)
      | Some p \<Rightarrow>
          (case array_get nodes p of
             Inl e \<Rightarrow> Some (Inl e)
           | Inr n \<Rightarrow>
               (case to_long (acc + ndata n) of
                  Inl e \<Rightarrow> Some (Inl e)
                | Inr acc' \<Rightarrow> traverse nodes (nnext n) acc')))"

text \<open>The node two steps ahead, if there is one.\<close>

definition two_ahead :: "node list \<Rightarrow> node \<Rightarrow> unit result" where
  "two_ahead nodes n =
     (case nnext n of
        None \<Rightarrow> Inr ()
      | Some q \<Rightarrow> rbind (array_get nodes q) (\<lambda>m.
          case nnext m of None \<Rightarrow> Inr () | Some r \<Rightarrow> rbind (array_get nodes r) (\<lambda>_. Inr ())))"

partial_function (option) traverse_prefetch :: "node list \<Rightarrow> nat option \<Rightarrow> int \<Rightarrow> int result option" where
  "traverse_prefetch nodes current acc =
     (case current of
        None \<Rightarrow> Some (Inr acc)
      | Some p \<Rightarrow>
          (case array_get nodes p of
             Inl e \<Rightarrow> Some (Inl e)
           | Inr n \<Rightarrow>
               (case two_ahead nodes n of
                  Inl e \<Rightarrow> Some (Inl e)
                | Inr _ \<Rightarrow>
                    (case to_long (acc + ndata n) of
                       Inl e \<Rightarrow> Some (Inl e)
                     | Inr acc' \<Rightarrow> traverse_prefetch nodes (nnext n) acc'))))"

definition LinkedList_No_Prefetch :: "(nat list \<Rightarrow> nat list) \<Rightarrow> nat \<Rightarrow> pool \<Rightarrow> int result option" where
  "LinkedList_No_Prefetch shuffle NODE_COUNT g =
     (case SetupScrambledList shuffle NODE_COUNT g of
        Inl e \<Rightarrow> Some (Inl e) | Inr g' \<Rightarrow> traverse (g_pool g') (g_list_head g') 0)"

definition LinkedList_With_Prefetch :: "(nat list \<Rightarrow> nat list) \<Rightarrow> nat \<Rightarrow> pool \<Rightarrow> int result option" where
  "LinkedList_With_Prefetch shuffle NODE_COUNT g =
     (case SetupScrambledList shuffle NODE_COUNT g of
        Inl e \<Rightarrow> Some (Inl e) | Inr g' \<Rightarrow> traverse_prefetch (g_pool g') (g_list_head g') 0)"

section \<open>Pointer aliasing\<close>

text \<open>One memory of floats and three addresses in it; \<open>fadd\<close>, \<open>fmul\<close> and \<open>fzero\<close> are the operations
  on \<open>float\<close>. The source has \<open>n = 1024\<close>.\<close>

definition example2_inner ::
    "('f \<Rightarrow> 'f \<Rightarrow> 'f) \<Rightarrow> ('f \<Rightarrow> 'f \<Rightarrow> 'f) \<Rightarrow> nat \<Rightarrow> nat \<Rightarrow> nat \<Rightarrow> nat \<Rightarrow> nat \<Rightarrow> nat \<Rightarrow> 'f list \<Rightarrow> 'f list result" where
  "example2_inner fadd fmul n a b c i j mem =
     rbind (array_get mem (a + i)) (\<lambda>ai. rbind (array_get mem (c + i * n + j)) (\<lambda>x.
     rbind (array_set mem (a + i) (fadd ai x)) (\<lambda>mem1.
     rbind (array_get mem1 (b + i)) (\<lambda>bi. rbind (array_get mem1 (c + i * n + j)) (\<lambda>y.
       array_set mem1 (b + i) (fadd bi (fmul y y)))))))"

definition example2_outer ::
    "('f \<Rightarrow> 'f \<Rightarrow> 'f) \<Rightarrow> ('f \<Rightarrow> 'f \<Rightarrow> 'f) \<Rightarrow> 'f \<Rightarrow> nat \<Rightarrow> nat \<Rightarrow> nat \<Rightarrow> nat \<Rightarrow> nat \<Rightarrow> 'f list \<Rightarrow> 'f list result" where
  "example2_outer fadd fmul fzero n a b c i mem =
     rbind (array_set mem (a + i) fzero) (\<lambda>mem1. rbind (array_set mem1 (b + i) fzero) (\<lambda>mem2.
       for_each (example2_inner fadd fmul n a b c i) [0..<n] mem2))"

definition example2a ::
    "('f \<Rightarrow> 'f \<Rightarrow> 'f) \<Rightarrow> ('f \<Rightarrow> 'f \<Rightarrow> 'f) \<Rightarrow> 'f \<Rightarrow> nat \<Rightarrow> nat \<Rightarrow> nat \<Rightarrow> nat \<Rightarrow> 'f list \<Rightarrow> 'f list result" where
  "example2a fadd fmul fzero n a b c mem = for_each (example2_outer fadd fmul fzero n a b c) [0..<n] mem"

text \<open>With \<open>__restrict__\<close> the behaviour is defined only if no element written through one pointer is
  accessed through another.\<close>

definition separate :: "nat \<Rightarrow> nat \<Rightarrow> nat \<Rightarrow> nat \<Rightarrow> bool" where
  "separate n a b c \<longleftrightarrow> (a + n \<le> b \<or> b + n \<le> a) \<and> (a + n \<le> c \<or> c + n * n \<le> a) \<and> (b + n \<le> c \<or> c + n * n \<le> b)"

definition example2b ::
    "('f \<Rightarrow> 'f \<Rightarrow> 'f) \<Rightarrow> ('f \<Rightarrow> 'f \<Rightarrow> 'f) \<Rightarrow> 'f \<Rightarrow> nat \<Rightarrow> nat \<Rightarrow> nat \<Rightarrow> nat \<Rightarrow> 'f list \<Rightarrow> 'f list result" where
  "example2b fadd fmul fzero n a b c mem =
     (if separate n a b c then for_each (example2_outer fadd fmul fzero n a b c) [0..<n] mem
      else Inl RestrictViolation)"

text \<open>The fixture: two vectors of \<open>n\<close> zeros and the matrix of samples, in separate memory.\<close>

definition alias_SetUp :: "'f \<Rightarrow> (nat \<Rightarrow> 'f) \<Rightarrow> nat \<Rightarrow> 'f list" where
  "alias_SetUp fzero dis n = replicate n fzero @ replicate n fzero @ map dis [0..<n * n]"

definition Example2a_NoRestrict ::
    "('f \<Rightarrow> 'f \<Rightarrow> 'f) \<Rightarrow> ('f \<Rightarrow> 'f \<Rightarrow> 'f) \<Rightarrow> 'f \<Rightarrow> nat \<Rightarrow> nat \<Rightarrow> 'f list \<Rightarrow> 'f list result" where
  "Example2a_NoRestrict fadd fmul fzero n iterations mem =
     for_each (\<lambda>_. example2a fadd fmul fzero n 0 n (2 * n)) [0..<iterations] mem"

definition Example2b_WithRestrict ::
    "('f \<Rightarrow> 'f \<Rightarrow> 'f) \<Rightarrow> ('f \<Rightarrow> 'f \<Rightarrow> 'f) \<Rightarrow> 'f \<Rightarrow> nat \<Rightarrow> nat \<Rightarrow> 'f list \<Rightarrow> 'f list result" where
  "Example2b_WithRestrict fadd fmul fzero n iterations mem =
     for_each (\<lambda>_. example2b fadd fmul fzero n 0 n (2 * n)) [0..<iterations] mem"

section \<open>Sums\<close>

text \<open>A sum of a sequence of small non-negative elements does not overflow.\<close>

lemma for_each_sum:
  assumes "\<forall>k \<in> set ks. k < length m \<and> 0 \<le> m ! k \<and> m ! k < 2 ^ 31"
    and "0 \<le> s" and "s + int (length ks) * 2 ^ 31 < 2 ^ 63"
  shows "for_each (\<lambda>k sum. rbind (array_get m k) (\<lambda>x. to_long (sum + x))) ks s = Inr (s + sum_list (map ((!) m) ks))"
  using assms
proof (induction ks arbitrary: s)
  case (Cons k ks)
  have k: "k < length m" "0 \<le> m ! k" "m ! k < 2 ^ 31" using Cons.prems(1) by auto
  have lt: "s + m ! k + int (length ks) * 2 ^ 31 < 2 ^ 63" using Cons.prems(3) k(3) by (simp add: algebra_simps)
  have "to_long (s + m ! k) = Inr (s + m ! k)"
    using k lt Cons.prems(2) by (intro to_long_ok) (auto intro: order_le_less_trans [rotated])
  moreover have "for_each (\<lambda>k sum. rbind (array_get m k) (\<lambda>x. to_long (sum + x))) ks (s + m ! k) =
      Inr (s + m ! k + sum_list (map ((!) m) ks))"
    using Cons.IH [of "s + m ! k"] Cons.prems k lt by auto
  ultimately show ?case using k by simp
qed simp

lemma for_each_reindex: "for_each (\<lambda>j. body (f j)) js s = for_each body (map f js) s"
proof (induction js arbitrary: s)
  case (Cons j js)
  then show ?case by (cases "body (f j) s") simp_all
qed simp

definition row_indices :: "nat \<Rightarrow> nat \<Rightarrow> nat list" where
  "row_indices rows cols = concat (map (\<lambda>i. map (\<lambda>j. i * cols + j) [0..<cols]) [0..<rows])"

definition col_indices :: "nat \<Rightarrow> nat \<Rightarrow> nat list" where
  "col_indices rows cols = concat (map (\<lambda>j. map (\<lambda>i. i * cols + j) [0..<rows]) [0..<cols])"

lemma row_major_flat:
  "Matrix_Row_Major rows cols m =
     for_each (\<lambda>k sum. rbind (array_get m k) (\<lambda>x. to_long (sum + x))) (row_indices rows cols) 0"
  unfolding Matrix_Row_Major_def row_indices_def for_each_concat [symmetric]
  by (rule for_each_cong, rule for_each_reindex [where body = "\<lambda>k sum. rbind (array_get m k) (\<lambda>x. to_long (sum + x))"])

lemma col_major_flat:
  "Matrix_Col_Major rows cols m =
     for_each (\<lambda>k sum. rbind (array_get m k) (\<lambda>x. to_long (sum + x))) (col_indices rows cols) 0"
  unfolding Matrix_Col_Major_def col_indices_def for_each_concat [symmetric]
  by (rule for_each_cong, rule for_each_reindex [where body = "\<lambda>k sum. rbind (array_get m k) (\<lambda>x. to_long (sum + x))"])

lemma matrix_index_less: "i < rows \<Longrightarrow> j < cols \<Longrightarrow> i * cols + j < rows * (cols :: nat)"
proof -
  assume ij: "i < rows" "j < cols"
  have "i * cols + j < Suc i * cols" using ij(2) by simp
  also have "\<dots> \<le> rows * cols" using ij(1) by (intro mult_le_mono1) simp
  finally show ?thesis .
qed

lemma row_indices_upt: "row_indices rows cols = [0..<rows * cols]"
proof (induction rows)
  case (Suc r)
  have "map (\<lambda>j. r * cols + j) [0..<cols] = [r * cols..<r * cols + cols]"
    by (intro nth_equalityI) simp_all
  then show ?case
    using Suc upt_add_eq_append [of 0 "r * cols" cols] by (simp add: row_indices_def add.commute)
qed (simp add: row_indices_def)

lemma sum_list_concat: "sum_list (concat xss) = sum_list (map sum_list xss)" for xss :: "int list list"
  by (induction xss) simp_all

lemma sum_indices:
  "sum_list (map f (row_indices rows cols)) = sum_list (map f (col_indices rows cols))" for f :: "nat \<Rightarrow> int"
proof -
  have "sum_list (map f (row_indices rows cols)) = (\<Sum>i<rows. \<Sum>j<cols. f (i * cols + j))"
    by (simp add: row_indices_def sum_list_concat map_concat comp_def interv_sum_list_conv_sum_set_nat atLeast0LessThan)
  also have "\<dots> = (\<Sum>j<cols. \<Sum>i<rows. f (i * cols + j))" by (rule sum.swap)
  also have "\<dots> = sum_list (map f (col_indices rows cols))"
    by (simp add: col_indices_def sum_list_concat map_concat comp_def interv_sum_list_conv_sum_set_nat atLeast0LessThan)
  finally show ?thesis .
qed

lemma col_indices_less: "k \<in> set (col_indices rows cols) \<Longrightarrow> k < rows * cols"
  by (auto simp: col_indices_def intro: matrix_index_less)

lemma length_col_indices: "length (col_indices rows cols) = rows * cols"
  by (simp add: col_indices_def length_concat comp_def sum_list_triv mult.commute)

section \<open>The list\<close>

text \<open>The nodes at the positions \<open>ps\<close> form a list that holds their ranks.\<close>

definition linked :: "nat list \<Rightarrow> nat \<Rightarrow> node list \<Rightarrow> bool" where
  "linked ps k nodes \<longleftrightarrow> (\<forall>i < k. ps ! i < length nodes
     \<and> nodes ! (ps ! i) = \<lparr>ndata = int i, nnext = (if Suc i < length ps then Some (ps ! Suc i) else None)\<rparr>)"

lemma node_update: "(n :: node)\<lparr>ndata := d, nnext := p\<rparr> = \<lparr>ndata = d, nnext = p\<rparr>"
  by (cases n) simp

lemma link_nodes:
  assumes "distinct ps" and "\<forall>p \<in> set ps. p < length nodes" and "ps \<noteq> []" and "k \<le> length ps"
  shows "\<exists>nodes'. for_each (link_node (length ps) ps) [0..<k] (nodes, ps ! 0) =
      Inr (nodes', ps ! (if k < length ps then k else length ps - 1))
    \<and> length nodes' = length nodes \<and> linked ps k nodes'"
  using assms(4)
proof (induction k)
  case 0
  then show ?case using assms(3) by (simp add: linked_def)
next
  case (Suc k)
  then obtain t where t: "for_each (link_node (length ps) ps) [0..<k] (nodes, ps ! 0) = Inr (t, ps ! k)"
      "length t = length nodes" "linked ps k t" by auto
  have k: "ps ! k < length t" using assms(2) Suc.prems t(2) by simp
  let ?n = "\<lparr>ndata = int k, nnext = (if Suc k < length ps then Some (ps ! Suc k) else None)\<rparr>"
  have step: "link_node (length ps) ps k (t, ps ! k) =
      Inr (t[ps ! k := ?n], ps ! (if Suc k < length ps then Suc k else length ps - 1))"
  proof (cases "Suc k < length ps")
    case True
    moreover from True have "ps ! Suc k < length t" using assms(2) t(2) by simp
    ultimately show ?thesis using k by (simp add: link_node_def node_update)
  next
    case False
    then have "length ps - 1 = k" using Suc.prems by simp
    then show ?thesis using k False by (simp add: link_node_def node_update)
  qed
  have "linked ps (Suc k) (t[ps ! k := ?n])"
    using t(3) k Suc.prems assms(1) by (auto simp: linked_def less_Suc_eq nth_list_update_any nth_eq_iff_index_eq)
  then show ?case using t(1,2) step by (simp add: for_each_append)
qed

definition node_at :: "nat list \<Rightarrow> nat \<Rightarrow> nat option" where
  "node_at ps i = (if i < length ps then Some (ps ! i) else None)"

lemma triangle: "int (i * (i - 1) div 2) + int i = int (Suc i * i div 2)"
proof -
  have "Suc i * i = i * (i - 1) + 2 * i" by (cases i) (simp_all add: algebra_simps)
  then show ?thesis by simp
qed

lemma triangle_small: "i \<le> 2 ^ 31 \<Longrightarrow> i * (i - 1) div 2 < (2 ^ 63 :: nat)"
proof -
  assume "i \<le> 2 ^ 31"
  then have "i * (i - 1) \<le> 2 ^ 31 * 2 ^ 31" by (intro mult_le_mono) simp_all
  then show ?thesis by simp
qed

lemma linked_nth:
  assumes "linked ps (length ps) nodes" and "i < length ps"
  shows "array_get nodes (ps ! i) = Inr \<lparr>ndata = int i, nnext = node_at ps (Suc i)\<rparr>"
  using assms by (auto simp: linked_def node_at_def)

lemma two_ahead_ok:
  assumes "linked ps (length ps) nodes" and "i < length ps"
  shows "two_ahead nodes \<lparr>ndata = int i, nnext = node_at ps (Suc i)\<rparr> = Inr ()"
  using linked_nth [OF assms(1), of "Suc i"] linked_nth [OF assms(1), of "Suc (Suc i)"]
  by (auto simp: two_ahead_def node_at_def split: option.splits)

lemma traverse_linked:
  assumes "linked ps (length ps) nodes" and "length ps \<le> 2 ^ 31" and "i \<le> length ps"
  shows "traverse nodes (node_at ps i) (int (i * (i - 1) div 2)) = Some (Inr (int (length ps * (length ps - 1) div 2)))"
    and "traverse_prefetch nodes (node_at ps i) (int (i * (i - 1) div 2)) =
      Some (Inr (int (length ps * (length ps - 1) div 2)))"
proof -
  have "traverse nodes (node_at ps i) (int (i * (i - 1) div 2)) = Some (Inr (int (length ps * (length ps - 1) div 2)))
      \<and> traverse_prefetch nodes (node_at ps i) (int (i * (i - 1) div 2)) =
        Some (Inr (int (length ps * (length ps - 1) div 2)))"
    using assms(3)
  proof (induction "length ps - i" arbitrary: i)
    case 0
    then have "i = length ps" by simp
    then show ?case by (simp add: node_at_def traverse.simps traverse_prefetch.simps)
  next
    case (Suc r)
    then have i: "i < length ps" by simp
    have "to_long (int (i * (i - 1) div 2) + int i) = Inr (int (Suc i * (Suc i - 1) div 2))"
      unfolding triangle using triangle_small [of "Suc i"] i assms(2) by (simp add: to_long_ok)
    moreover have "r = length ps - Suc i" "Suc i \<le> length ps" using Suc.hyps(2) by simp_all
    ultimately show ?case
      using Suc.hyps(1) [of "Suc i"] linked_nth [OF assms(1) i] two_ahead_ok [OF assms(1) i] i
      unfolding traverse.simps [of nodes "node_at ps i"] traverse_prefetch.simps [of nodes "node_at ps i"]
      by (simp add: node_at_def [of ps i])
  qed
  then show "traverse nodes (node_at ps i) (int (i * (i - 1) div 2)) = Some (Inr (int (length ps * (length ps - 1) div 2)))"
    and "traverse_prefetch nodes (node_at ps i) (int (i * (i - 1) div 2)) =
      Some (Inr (int (length ps * (length ps - 1) div 2)))"
    by blast+
qed

lemma setup_links:
  assumes "\<And>xs. mset (shuffle xs) = mset xs" and "0 < n"
  shows "\<exists>g ps. SetupScrambledList shuffle n (fresh_pool n) = Inr g \<and> length ps = n \<and> linked ps n (g_pool g)
    \<and> g_list_head g = node_at ps 0"
proof -
  let ?ps = "shuffle [0..<n]"
  have ms: "mset ?ps = mset [0..<n]" by (rule assms(1))
  have len: "length ?ps = n" using mset_eq_length [OF ms] by simp
  have dist: "distinct ?ps" using mset_eq_imp_distinct_iff [OF ms] by simp
  have lt: "\<forall>p \<in> set ?ps. p < length (g_pool (fresh_pool n))"
    using mset_eq_setD [OF ms] by (simp add: fresh_pool_def)
  have ne: "?ps \<noteq> []" using len assms(2) by auto
  obtain nodes' where l: "for_each (link_node n ?ps) [0..<n] (g_pool (fresh_pool n), ?ps ! 0) = Inr (nodes', ?ps ! (n - 1))"
      "linked ?ps n nodes'"
    using link_nodes [OF dist lt ne, of n] len by auto
  have "?ps ! 0 < length (g_pool (fresh_pool n))" using lt ne by (simp add: len assms(2))
  then have "SetupScrambledList shuffle n (fresh_pool n) = Inr \<lparr>g_pool = nodes', g_list_head = Some (?ps ! 0)\<rparr>"
    using l(1) assms(2) len by (simp add: SetupScrambledList_def Let_def) (simp add: fresh_pool_def)
  then show ?thesis using l(2) len assms(2) by (intro exI conjI) (auto simp: node_at_def)
qed

section \<open>Separate memory\<close>

text \<open>The sum and the sum of squares of the first \<open>j\<close> elements of row \<open>i\<close>.\<close>

definition row_sum :: "('f \<Rightarrow> 'f \<Rightarrow> 'f) \<Rightarrow> 'f \<Rightarrow> nat \<Rightarrow> nat \<Rightarrow> 'f list \<Rightarrow> nat \<Rightarrow> nat \<Rightarrow> 'f" where
  "row_sum plusf z n c mem i j = fold (\<lambda>k s. plusf s (mem ! (c + i * n + k))) [0..<j] z"

definition row_squares :: "('f \<Rightarrow> 'f \<Rightarrow> 'f) \<Rightarrow> ('f \<Rightarrow> 'f \<Rightarrow> 'f) \<Rightarrow> 'f \<Rightarrow> nat \<Rightarrow> nat \<Rightarrow> 'f list \<Rightarrow> nat \<Rightarrow> nat \<Rightarrow> 'f" where
  "row_squares plusf timesf z n c mem i j =
     fold (\<lambda>k s. plusf s (timesf (mem ! (c + i * n + k)) (mem ! (c + i * n + k)))) [0..<j] z"

definition fits :: "nat \<Rightarrow> nat \<Rightarrow> nat \<Rightarrow> nat \<Rightarrow> 'f list \<Rightarrow> bool" where
  "fits n a b c mem \<longleftrightarrow> a + n \<le> length mem \<and> b + n \<le> length mem \<and> c + n * n \<le> length mem"

definition row_update :: "('f \<Rightarrow> 'f \<Rightarrow> 'f) \<Rightarrow> ('f \<Rightarrow> 'f \<Rightarrow> 'f) \<Rightarrow> 'f \<Rightarrow> nat \<Rightarrow> nat \<Rightarrow> nat \<Rightarrow> nat \<Rightarrow> nat \<Rightarrow> 'f list \<Rightarrow> 'f list" where
  "row_update plusf timesf z n a b c i mem =
     mem[a + i := row_sum plusf z n c mem i n, b + i := row_squares plusf timesf z n c mem i n]"

lemma element_bounds:
  assumes "fits n a b c mem" and "i < n" and "j < n"
  shows "a + i < length mem" and "b + i < length mem" and "c + i * n + j < length mem"
    and "separate n a b c \<Longrightarrow> c + i * n + j \<noteq> a + i \<and> c + i * n + j \<noteq> b + i"
proof -
  have idx: "i * n + j < n * n"
  proof -
    have "i * n + j < Suc i * n" using assms(3) by simp
    also have "\<dots> \<le> n * n" using assms(2) by (intro mult_le_mono1) simp
    finally show ?thesis .
  qed
  show "a + i < length mem" "b + i < length mem" using assms(1,2) by (auto simp: fits_def)
  show "c + i * n + j < length mem" using assms(1) idx by (simp add: fits_def)
  show "separate n a b c \<Longrightarrow> c + i * n + j \<noteq> a + i \<and> c + i * n + j \<noteq> b + i"
    using assms(2) idx by (auto simp: separate_def)
qed

lemma inner_loop:
  assumes sep: "separate n a b c" and fit: "fits n a b c mem" and i: "i < n" and "j \<le> n"
  shows "for_each (example2_inner plusf timesf n a b c i) [0..<j] (mem[a + i := z, b + i := z]) =
    Inr (mem[a + i := row_sum plusf z n c mem i j, b + i := row_squares plusf timesf z n c mem i j])"
  using assms(4)
proof (induction j)
  case (Suc j)
  have ab: "a + i \<noteq> b + i" using sep i by (auto simp: separate_def)
  note e = element_bounds [OF fit i, of j]
  have x: "c + i * n + j < length mem" "c + i * n + j \<noteq> a + i" "c + i * n + j \<noteq> b + i"
    using e(3,4) sep Suc.prems by auto
  have "a + i < length mem" "b + i < length mem" using e(1,2) Suc.prems by auto
  then have "example2_inner plusf timesf n a b c i j
      (mem[a + i := row_sum plusf z n c mem i j, b + i := row_squares plusf timesf z n c mem i j]) =
      Inr (mem[a + i := row_sum plusf z n c mem i (Suc j), b + i := row_squares plusf timesf z n c mem i (Suc j)])"
    using x ab by (simp add: example2_inner_def row_sum_def row_squares_def list_update_swap)
  then show ?case using Suc by (simp add: for_each_append)
qed (simp add: row_sum_def row_squares_def)

lemma outer_turn:
  assumes "separate n a b c" and "fits n a b c mem" and "i < n"
  shows "example2_outer plusf timesf z n a b c i mem = Inr (row_update plusf timesf z n a b c i mem)"
  using inner_loop [OF assms, of n] element_bounds(1,2) [OF assms(2,3,3)]
  by (simp add: example2_outer_def row_update_def)

lemma fits_row_update: "fits n a b c mem \<Longrightarrow> fits n a b c (row_update plusf timesf z n a b c i mem)"
  by (simp add: fits_def row_update_def)

lemma example2_rows:
  assumes "separate n a b c" and "fits n a b c mem"
  shows "example2a plusf timesf z n a b c mem = Inr (fold (row_update plusf timesf z n a b c) [0..<n] mem)"
proof -
  have "example2a plusf timesf z n a b c mem = Inr (fold (row_update plusf timesf z n a b c) [0..<n] mem)
      \<and> fits n a b c (fold (row_update plusf timesf z n a b c) [0..<n] mem)"
    unfolding example2a_def
    by (rule for_each_invariant) (use assms in \<open>auto simp: outer_turn fits_row_update\<close>)
  then show ?thesis by blast
qed

text \<open>What the memory holds afterwards.\<close>

definition rows_done :: "('f \<Rightarrow> 'f \<Rightarrow> 'f) \<Rightarrow> ('f \<Rightarrow> 'f \<Rightarrow> 'f) \<Rightarrow> 'f \<Rightarrow> nat \<Rightarrow> nat \<Rightarrow> nat \<Rightarrow> nat \<Rightarrow> 'f list \<Rightarrow> nat \<Rightarrow> 'f list \<Rightarrow> bool" where
  "rows_done plusf timesf z n a b c mem k mem' \<longleftrightarrow> length mem' = length mem \<and> (\<forall>p < length mem. mem' ! p =
     (if a \<le> p \<and> p < a + k then row_sum plusf z n c mem (p - a) n
      else if b \<le> p \<and> p < b + k then row_squares plusf timesf z n c mem (p - b) n
      else mem ! p))"

lemma rows_of_done:
  assumes sep: "separate n a b c" and fit: "fits n a b c mem" and i: "i < n" "k \<le> n"
    and dn: "rows_done plusf timesf z n a b c mem k mem'"
  shows "row_sum plusf z n c mem' i n = row_sum plusf z n c mem i n"
    and "row_squares plusf timesf z n c mem' i n = row_squares plusf timesf z n c mem i n"
proof -
  have "mem' ! (c + i * n + j) = mem ! (c + i * n + j)" if "j < n" for j
  proof -
    have idx: "i * n + j < n * n"
    proof -
      have "i * n + j < Suc i * n" using that by simp
      also have "\<dots> \<le> n * n" using i(1) by (intro mult_le_mono1) simp
      finally show ?thesis .
    qed
    have "c + i * n + j < length mem" by (rule element_bounds(3) [OF fit i(1) that])
    then show ?thesis using dn sep idx i(2) by (auto simp: rows_done_def separate_def)
  qed
  then show "row_sum plusf z n c mem' i n = row_sum plusf z n c mem i n"
    and "row_squares plusf timesf z n c mem' i n = row_squares plusf timesf z n c mem i n"
    by (auto simp: row_sum_def row_squares_def intro!: fold_cong)
qed

lemma rows_done_fold:
  assumes "separate n a b c" and "fits n a b c mem" and "k \<le> n"
  shows "rows_done plusf timesf z n a b c mem k (fold (row_update plusf timesf z n a b c) [0..<k] mem)"
  using assms(3)
proof (induction k)
  case 0
  then show ?case by (auto simp: rows_done_def)
next
  case (Suc k)
  let ?m = "fold (row_update plusf timesf z n a b c) [0..<k] mem"
  have d: "rows_done plusf timesf z n a b c mem k ?m" using Suc by simp
  have k: "k < n" "k \<le> n" using Suc.prems by auto
  note r = rows_of_done [OF assms(1,2) k d]
  have ab: "a + n \<le> b \<or> b + n \<le> a" using assms(1) by (simp add: separate_def)
  have "rows_done plusf timesf z n a b c mem (Suc k) (row_update plusf timesf z n a b c k ?m)"
    using d r ab k unfolding rows_done_def row_update_def
    by (auto simp: nth_list_update_any le_less_Suc_eq)
  then show ?case by simp
qed

lemma separate_halves: "separate n 0 n (2 * n)"
  by (simp add: separate_def)

lemma fits_setup: "fits n 0 n (2 * n) (alias_SetUp z dis n)"
  by (simp add: fits_def alias_SetUp_def)

section \<open>Properties\<close>

text \<open>Prefetching and the order of traversal do not change a sum: the two vector sums are the
  number of elements, and the row-wise and column-wise sums of the matrix are equal; all accesses,
  the prefetched ones included, are in bounds, and no sum overflows.\<close>

theorem traversal_sums:
  assumes "n < 2 ^ 31" and "rows * cols \<le> 2 ^ 31"
  shows "NoPrefetch n = Inr (int n) \<and> WithPrefetch n = Inr (int n)
    \<and> Matrix_Row_Major rows cols (GetGlobalMatrix rows cols) =
        Inr (int (rows * cols * (rows * cols - 1) div 2))
    \<and> Matrix_Col_Major rows cols (GetGlobalMatrix rows cols) =
        Matrix_Row_Major rows cols (GetGlobalMatrix rows cols)
    \<and> ROWS * COLS \<le> 2 ^ 31"
proof -
  have no: "NoPrefetch n = Inr (int n)"
  proof -
    have "k < 2 ^ 31 \<Longrightarrow> for_each (\<lambda>x sum. to_long (sum + x)) (replicate k 1) 0 = Inr (int k)" for k
    proof (induction k)
      case (Suc k)
      have "replicate (Suc k) (1 :: int) = replicate k 1 @ [1]" by (simp add: replicate_append_same)
      with Suc show ?case by (simp only: for_each_append) simp
    qed simp
    then show ?thesis using assms(1) by (simp add: NoPrefetch_def)
  qed
  have wi: "WithPrefetch n = Inr (int n)"
  proof -
    have "k \<le> n \<Longrightarrow> for_each (\<lambda>i sum. rbind (if i + 10 < length (replicate n (1 :: int))
          then rbind (array_get (replicate n (1 :: int)) (i + 10)) (\<lambda>_. Inr ()) else Inr ())
        (\<lambda>_. rbind (array_get (replicate n 1) i) (\<lambda>x. to_long (sum + x)))) [0..<k] 0 = Inr (int k)" for k
      using assms(1) by (induction k) (simp_all add: for_each_append)
    then show ?thesis by (simp add: WithPrefetch_def Let_def)
  qed
  let ?m = "GetGlobalMatrix rows cols"
  have el: "k < length ?m \<and> 0 \<le> ?m ! k \<and> ?m ! k < 2 ^ 31" if "k < rows * cols" for k
    using that assms(2) by (simp add: GetGlobalMatrix_def)
  have fit: "int (rows * cols) * 2 ^ 31 < 2 ^ 63"
  proof -
    have "int (rows * cols) \<le> 2 ^ 31" using assms(2) by (metis of_nat_le_iff of_nat_numeral of_nat_power)
    then have "int (rows * cols) * 2 ^ 31 \<le> 2 ^ 31 * 2 ^ 31" by (intro mult_right_mono) simp_all
    then show ?thesis by simp
  qed
  have row: "Matrix_Row_Major rows cols ?m = Inr (sum_list (map ((!) ?m) (row_indices rows cols)))"
    using for_each_sum [of "row_indices rows cols" ?m 0] el fit by (simp add: row_major_flat row_indices_upt)
  have col: "Matrix_Col_Major rows cols ?m = Inr (sum_list (map ((!) ?m) (col_indices rows cols)))"
    using for_each_sum [of "col_indices rows cols" ?m 0] el fit col_indices_less
    by (simp add: col_major_flat length_col_indices)
  have "sum_list (map int [0..<k]) = int (k * (k - 1) div 2)" for k
  proof (induction k)
    case (Suc k)
    then show ?case using triangle [of k] by simp
  qed simp
  moreover have "map ((!) ?m) (row_indices rows cols) = map int [0..<rows * cols]"
    unfolding row_indices_upt GetGlobalMatrix_def by (intro nth_equalityI) simp_all
  ultimately have "sum_list (map ((!) ?m) (row_indices rows cols)) = int (rows * cols * (rows * cols - 1) div 2)"
    by simp
  then show ?thesis using no wi row col sum_indices [of "(!) ?m" rows cols] by (simp add: ROWS_def COLS_def)
qed

text \<open>The scrambled list: for every shuffle, \<open>SetupScrambledList\<close> threads one list through all nodes
  of the pool; both traversals, the one that prefetches two nodes ahead and the one that does not,
  reach its end after visiting every node once and return the sum of the ranks. A second call of
  \<open>SetupScrambledList\<close> changes nothing.\<close>

theorem scrambled_list_traversal:
  assumes "\<And>xs. mset (shuffle xs) = mset xs" and "0 < n" and "n \<le> 2 ^ 31"
  shows "LinkedList_No_Prefetch shuffle n (fresh_pool n) = Some (Inr (int (n * (n - 1) div 2)))
    \<and> LinkedList_With_Prefetch shuffle n (fresh_pool n) = Some (Inr (int (n * (n - 1) div 2)))
    \<and> (\<exists>g. SetupScrambledList shuffle n (fresh_pool n) = Inr g \<and> SetupScrambledList shuffle n g = Inr g)"
proof -
  obtain g ps where g: "SetupScrambledList shuffle n (fresh_pool n) = Inr g" "length ps = n"
      "linked ps n (g_pool g)" "g_list_head g = node_at ps 0"
    using setup_links [where shuffle = shuffle, OF assms(1,2)] by blast
  have "SetupScrambledList shuffle n g = Inr g"
    using g(2,4) assms(2) by (simp add: SetupScrambledList_def node_at_def)
  then show ?thesis
    using g traverse_linked [of ps "g_pool g" 0] assms(3)
    by (simp add: LinkedList_No_Prefetch_def LinkedList_With_Prefetch_def)
qed

text \<open>Pointer aliasing: when the three regions are separate, both functions compute the row sums and
  the sums of squares and change nothing else; the benchmark's vectors are separate, so that its two
  versions leave the same memory.\<close>

lemma aliasing_rows:
  assumes "separate n a b c" and "a + n \<le> length mem" and "b + n \<le> length mem" and "c + n * n \<le> length mem"
  shows "(\<exists>mem'. example2a plusf timesf z n a b c mem = Inr mem'
      \<and> example2b plusf timesf z n a b c mem = Inr mem'
      \<and> length mem' = length mem
      \<and> (\<forall>i < n. mem' ! (a + i) = row_sum plusf z n c mem i n \<and> mem' ! (b + i) = row_squares plusf timesf z n c mem i n)
      \<and> (\<forall>p < length mem. \<not> (a \<le> p \<and> p < a + n) \<and> \<not> (b \<le> p \<and> p < b + n) \<longrightarrow> mem' ! p = mem ! p))
    \<and> Example2b_WithRestrict plusf timesf z n 1 (alias_SetUp z dis n) =
        Example2a_NoRestrict plusf timesf z n 1 (alias_SetUp z dis n)
    \<and> (\<exists>mem'. Example2a_NoRestrict plusf timesf z n 1 (alias_SetUp z dis n) = Inr mem')"
proof -
  have fit: "fits n a b c mem" using assms(2-4) by (simp add: fits_def)
  let ?m = "fold (row_update plusf timesf z n a b c) [0..<n] mem"
  have d: "rows_done plusf timesf z n a b c mem n ?m" by (rule rows_done_fold [OF assms(1) fit order_refl])
  have ab: "a + n \<le> b \<or> b + n \<le> a" using assms(1) by (simp add: separate_def)
  have res: "length ?m = length mem"
      "\<forall>i < n. ?m ! (a + i) = row_sum plusf z n c mem i n \<and> ?m ! (b + i) = row_squares plusf timesf z n c mem i n"
      "\<forall>p < length mem. \<not> (a \<le> p \<and> p < a + n) \<and> \<not> (b \<le> p \<and> p < b + n) \<longrightarrow> ?m ! p = mem ! p"
    using d ab assms(2,3) by (auto simp: rows_done_def)
  have e: "example2a plusf timesf z n a b c mem = Inr ?m" "example2b plusf timesf z n a b c mem = Inr ?m"
    using example2_rows [OF assms(1) fit, of plusf timesf z] assms(1)
    by (simp_all add: example2b_def flip: example2a_def)
  have b: "example2b plusf timesf z n 0 n (2 * n) m = example2a plusf timesf z n 0 n (2 * n) m" for m
    using separate_halves [of n] by (simp add: example2b_def example2a_def)
  have r: "\<exists>mem'. Example2a_NoRestrict plusf timesf z n 1 (alias_SetUp z dis n) = Inr mem'"
    using example2_rows [OF separate_halves fits_setup, of plusf timesf z n z dis]
    by (simp add: Example2a_NoRestrict_def)
  have w: "Example2b_WithRestrict plusf timesf z n 1 (alias_SetUp z dis n) =
      Example2a_NoRestrict plusf timesf z n 1 (alias_SetUp z dis n)"
    unfolding Example2b_WithRestrict_def Example2a_NoRestrict_def by (rule for_each_cong) (rule b)
  show ?thesis
    by (intro conjI exI [of _ ?m] e res w r)
qed

end
