(* ===== verification/Object_Patterns.thy ===== *)
theory Object_Patterns
  imports Complex_Main Array_Kernels
begin

text \<open>
  \<open>design_patterns/lto_wpo/\<close> (vector arithmetic and the data processor), \<open>crtp/crtp.cc\<close> (dynamic and
  static dispatch), \<open>union_vs_variant/union_vs_variant.cc\<close> and \<open>sso/sso.cc\<close> (strings, vectors and
  maps of strings).
\<close>

section \<open>Vector arithmetic\<close>

text \<open>The operations on \<open>double\<close> are a parameter; \<open>real_ops\<close> is the exact arithmetic they
  approximate.\<close>

record 'f dops =
  dadd :: "'f \<Rightarrow> 'f \<Rightarrow> 'f"
  dsub :: "'f \<Rightarrow> 'f \<Rightarrow> 'f"
  dmul :: "'f \<Rightarrow> 'f \<Rightarrow> 'f"
  ddiv :: "'f \<Rightarrow> 'f \<Rightarrow> 'f"
  dsqrt :: "'f \<Rightarrow> 'f"
  dsin :: "'f \<Rightarrow> 'f"
  dcos :: "'f \<Rightarrow> 'f"
  dzero :: 'f

definition real_ops :: "real dops" where
  "real_ops = \<lparr>dadd = (+), dsub = (-), dmul = (*), ddiv = (/), dsqrt = sqrt, dsin = sin, dcos = cos, dzero = 0\<rparr>"

definition calculate_vector_magnitude :: "'f dops \<Rightarrow> 'f list \<Rightarrow> nat \<Rightarrow> 'f result" where
  "calculate_vector_magnitude D data n =
     rbind (for_each (\<lambda>i s. rbind (array_get data i) (\<lambda>x. Inr (dadd D s (dmul D x x)))) [0..<n] (dzero D))
       (\<lambda>s. Inr (dsqrt D s))"

definition square :: "'f dops \<Rightarrow> 'f \<Rightarrow> 'f" where
  "square D x = dmul D x x"

definition dot_product :: "'f dops \<Rightarrow> 'f list \<Rightarrow> 'f list \<Rightarrow> nat \<Rightarrow> 'f result" where
  "dot_product D a b n =
     for_each (\<lambda>i s. rbind (array_get a i) (\<lambda>x. rbind (array_get b i) (\<lambda>y. Inr (dadd D s (dmul D x y)))))
       [0..<n] (dzero D)"

definition normalize_vector :: "'f dops \<Rightarrow> 'f list \<Rightarrow> nat \<Rightarrow> 'f list result" where
  "normalize_vector D data n =
     rbind (calculate_vector_magnitude D data n) (\<lambda>mag.
       if mag \<noteq> dzero D
       then for_each (\<lambda>i d. rbind (array_get d i) (\<lambda>x. array_set d i (ddiv D x mag))) [0..<n] data
       else Inr data)"

definition calculate_distance :: "'f dops \<Rightarrow> 'f list \<Rightarrow> 'f list \<Rightarrow> nat \<Rightarrow> 'f result" where
  "calculate_distance D a b n =
     rbind (for_each (\<lambda>i s. rbind (array_get a i) (\<lambda>x. rbind (array_get b i) (\<lambda>y.
              Inr (dadd D s (square D (dsub D x y)))))) [0..<n] (dzero D))
       (\<lambda>s. Inr (dsqrt D s))"

section \<open>The data processor\<close>

record 'f processor =
  buffer :: "'f list"
  psize :: nat
  presult :: 'f

text \<open>The buffer is allocated uninitialised (\<open>garbage\<close>).\<close>

definition DataProcessor :: "'f dops \<Rightarrow> (nat \<Rightarrow> 'f) \<Rightarrow> nat \<Rightarrow> 'f processor" where
  "DataProcessor D garbage data_size = \<lparr>buffer = map garbage [0..<data_size], psize = data_size, presult = dzero D\<rparr>"

definition apply_transform :: "'f dops \<Rightarrow> 'f list \<Rightarrow> nat \<Rightarrow> 'f list result" where
  "apply_transform D data n =
     for_each (\<lambda>i d. rbind (array_get d i) (\<lambda>x. array_set d i (dadd D (dsin D x) (dcos D x)))) [0..<n] data"

definition process_data :: "'f dops \<Rightarrow> 'f list \<Rightarrow> 'f processor \<Rightarrow> 'f processor result" where
  "process_data D input p =
     rbind (for_each (\<lambda>i buf. rbind (array_get input i) (\<lambda>x. array_set buf i x)) [0..<psize p] (buffer p)) (\<lambda>buf.
     rbind (apply_transform D buf (psize p)) (\<lambda>buf'.
     rbind (calculate_vector_magnitude D buf' (psize p)) (\<lambda>r.
       Inr (p\<lparr>buffer := buf', presult := r\<rparr>))))"

definition get_result :: "'f processor \<Rightarrow> 'f" where
  "get_result p = presult p"

definition generate_test_data :: "(nat \<Rightarrow> 'f) \<Rightarrow> nat \<Rightarrow> 'f list" where
  "generate_test_data sample n = map sample [0..<n]"

text \<open>The three benchmark functions (\<open>run_benchmark\<close>, \<open>benchmark_without_lto\<close> and
  \<open>benchmark_with_lto\<close>) differ in the message they print only; the result is that of the last
  \<open>get_result\<close>.\<close>

definition run_benchmark :: "'f dops \<Rightarrow> (nat \<Rightarrow> 'f) \<Rightarrow> (nat \<Rightarrow> 'f) \<Rightarrow> 'f result" where
  "run_benchmark D sample garbage =
     (let data_size = 100000; iterations = 1000; test_data = generate_test_data sample data_size
      in rbind (for_each (\<lambda>_. process_data D test_data) [0..<iterations] (DataProcessor D garbage data_size))
           (\<lambda>p. Inr (get_result p)))"

definition benchmark_without_lto :: "'f dops \<Rightarrow> (nat \<Rightarrow> 'f) \<Rightarrow> (nat \<Rightarrow> 'f) \<Rightarrow> 'f result" where
  "benchmark_without_lto D sample garbage =
     (let data_size = 100000; iterations = 1000; test_data = generate_test_data sample data_size
      in rbind (for_each (\<lambda>_. process_data D test_data) [0..<iterations] (DataProcessor D garbage data_size))
           (\<lambda>p. Inr (get_result p)))"

definition benchmark_with_lto :: "'f dops \<Rightarrow> (nat \<Rightarrow> 'f) \<Rightarrow> (nat \<Rightarrow> 'f) \<Rightarrow> 'f result" where
  "benchmark_with_lto D sample garbage =
     (let data_size = 100000; iterations = 1000; test_data = generate_test_data sample data_size
      in rbind (for_each (\<lambda>_. process_data D test_data) [0..<iterations] (DataProcessor D garbage data_size))
           (\<lambda>p. Inr (get_result p)))"

text \<open>The end of \<open>main\<close>: dot product and distance of two vectors of three elements.\<close>

definition lto_main :: "'f dops \<Rightarrow> (nat \<Rightarrow> 'f) \<Rightarrow> ('f \<times> 'f) result" where
  "lto_main D lit =
     (let vec1 = map lit [1, 2, 3]; vec2 = map lit [4, 5, 6]
      in rbind (dot_product D vec1 vec2 3) (\<lambda>dot. rbind (calculate_distance D vec1 vec2 3) (\<lambda>dst. Inr (dot, dst))))"

section \<open>Dynamic and static dispatch\<close>

record config =
  use_a :: bool

definition UseOrderSenderA :: "config \<Rightarrow> bool" where
  "UseOrderSenderA c = use_a c"

text \<open>The calls each class has received.\<close>

record calls =
  calls_a :: nat
  calls_b :: nat

text \<open>Dynamic dispatch: the object knows its class.\<close>

datatype virtual_base = VirtualDerivedA | VirtualDerivedB

fun virtual_execute :: "virtual_base \<Rightarrow> calls \<Rightarrow> calls" where
  "virtual_execute VirtualDerivedA k = k\<lparr>calls_a := calls_a k + 1\<rparr>"
| "virtual_execute VirtualDerivedB k = k\<lparr>calls_b := calls_b k + 1\<rparr>"

text \<open>\<open>dummy_result += i\<close> adds in \<open>long long\<close> and converts back to \<open>int\<close>, modulo \<open>2 ^ 32\<close>.\<close>

definition MainLoop :: "(calls \<Rightarrow> calls) \<Rightarrow> nat \<Rightarrow> calls \<Rightarrow> i32 \<times> calls" where
  "MainLoop execute N k = fold (\<lambda>i (dummy_result, k). (dummy_result + of_nat i, execute k)) [0..<N] (0, k)"

definition MakeExecuteManagerVirtual :: "config \<Rightarrow> virtual_base" where
  "MakeExecuteManagerVirtual c = (if UseOrderSenderA c then VirtualDerivedA else VirtualDerivedB)"

definition BM_VirtualFunction :: "config \<Rightarrow> nat \<Rightarrow> calls \<Rightarrow> i32 \<times> calls" where
  "BM_VirtualFunction cfg N k = MainLoop (virtual_execute (MakeExecuteManagerVirtual cfg)) N k"

text \<open>Static dispatch: \<open>execute\<close> of the base calls \<open>execute_impl\<close> of the class it was instantiated
  with.\<close>

definition CrtpDerivedA_execute_impl :: "calls \<Rightarrow> calls" where
  "CrtpDerivedA_execute_impl k = k\<lparr>calls_a := calls_a k + 1\<rparr>"

definition CrtpDerivedB_execute_impl :: "calls \<Rightarrow> calls" where
  "CrtpDerivedB_execute_impl k = k\<lparr>calls_b := calls_b k + 1\<rparr>"

definition crtp_execute :: "(calls \<Rightarrow> calls) \<Rightarrow> calls \<Rightarrow> calls" where
  "crtp_execute execute_impl = execute_impl"

datatype crtp_manager = ManagerOfA | ManagerOfB

fun crtp_MainLoop :: "crtp_manager \<Rightarrow> nat \<Rightarrow> calls \<Rightarrow> i32 \<times> calls" where
  "crtp_MainLoop ManagerOfA = MainLoop (crtp_execute CrtpDerivedA_execute_impl)"
| "crtp_MainLoop ManagerOfB = MainLoop (crtp_execute CrtpDerivedB_execute_impl)"

definition MakeExecuteManagerCrtp :: "config \<Rightarrow> crtp_manager" where
  "MakeExecuteManagerCrtp c = (if UseOrderSenderA c then ManagerOfA else ManagerOfB)"

definition BM_CRTPFunction :: "config \<Rightarrow> nat \<Rightarrow> calls \<Rightarrow> i32 \<times> calls" where
  "BM_CRTPFunction cfg N k = crtp_MainLoop (MakeExecuteManagerCrtp cfg) N k"

section \<open>Union and variant\<close>

text \<open>Both are a tagged value; reading a member of the union that is not the active one is undefined,
  \<open>std::get\<close> throws (\<open>None\<close>).\<close>

datatype 'f trading = IntVal int | DoubleVal 'f | LongVal int

fun union_double :: "'f trading \<Rightarrow> 'f option" where
  "union_double (DoubleVal d) = Some d"
| "union_double _ = None"

fun union_int :: "'f trading \<Rightarrow> int option" where
  "union_int (IntVal i) = Some i"
| "union_int _ = None"

definition UnionAccess :: "'f \<Rightarrow> 'f trading \<Rightarrow> ('f option \<times> int option) \<times> 'f trading" where
  "UnionAccess c150_25 data =
     (let data1 = DoubleVal c150_25; d = union_double data1; data2 = IntVal 1000; i = union_int data2
      in ((d, i), data2))"

definition VariantAccess :: "'f \<Rightarrow> 'f trading \<Rightarrow> ('f option \<times> int option) \<times> 'f trading" where
  "VariantAccess c150_25 var =
     (let var1 = DoubleVal c150_25; d = (case var1 of DoubleVal d \<Rightarrow> Some d | _ \<Rightarrow> None);
          var2 = IntVal 1000; i = (case var2 of IntVal i \<Rightarrow> Some i | _ \<Rightarrow> None)
      in ((d, i), var2))"

section \<open>Strings\<close>

abbreviation long_string :: string where
  "long_string \<equiv> ''this is a very long string that definitely exceeds SSO buffer size''"

definition StringCopy :: "string \<Rightarrow> string" where
  "StringCopy str = (let copy = str in copy)"

definition StringCreation_VariousLengths :: "nat \<Rightarrow> string" where
  "StringCreation_VariousLengths len = (let pattern = replicate len (CHR ''x''); s = pattern in s)"

definition StringAssignment_VariousLengths :: "nat \<Rightarrow> nat \<Rightarrow> string" where
  "StringAssignment_VariousLengths len iterations =
     (let source = replicate len (CHR ''x'') in fold (\<lambda>_ target. source) [0..<iterations] [])"

definition VectorPushBack :: "string \<Rightarrow> nat \<Rightarrow> nat \<Rightarrow> string list" where
  "VectorPushBack str num_strings iterations =
     fold (\<lambda>_ vec. fold (\<lambda>_ vec. vec @ [str]) [0..<num_strings] []) [0..<iterations] []"

definition StringConcatenation :: "string \<Rightarrow> nat \<Rightarrow> string" where
  "StringConcatenation fragment n = fold (\<lambda>_ result. result @ fragment) [0..<n] []"

text \<open>\<open>capacity\<close> is how the string library chooses the capacity for a length.\<close>

definition likely_uses_sso :: "(nat \<Rightarrow> nat) \<Rightarrow> string \<Rightarrow> bool" where
  "likely_uses_sso capacity str \<longleftrightarrow> capacity (length str) \<le> 15"

definition SSOThresholdDetection :: "(nat \<Rightarrow> nat) \<Rightarrow> nat \<Rightarrow> bool \<times> nat" where
  "SSOThresholdDetection capacity len =
     (let s = replicate len (CHR ''x'') in (likely_uses_sso capacity s, capacity (length s)))"

definition demonstrate_sso_threshold :: "(nat \<Rightarrow> nat) \<Rightarrow> (nat \<times> nat \<times> bool) list" where
  "demonstrate_sso_threshold capacity =
     map (\<lambda>len. let s = replicate len (CHR ''x'') in (len, capacity (length s), capacity (length s) \<le> 23))
       [10, 15, 16, 22, 23, 30]"

text \<open>\<open>std::to_string\<close> on a non-negative \<open>int\<close>.\<close>

fun to_string :: "nat \<Rightarrow> string" where
  "to_string n = (if n < 10 then [char_of (48 + n)] else to_string (n div 10) @ [char_of (48 + n mod 10)])"

declare to_string.simps [simp del]

definition map_insert :: "string \<Rightarrow> nat \<Rightarrow> (string \<rightharpoonup> nat)" where
  "map_insert prefix num_elements = fold (\<lambda>i m. m(prefix @ to_string i \<mapsto> i)) [0..<num_elements] Map.empty"

text \<open>The lookups of one iteration: what \<open>find\<close> finds for the keys \<open>i % num_elements\<close>.\<close>

definition MapStringKeys :: "string \<Rightarrow> nat \<Rightarrow> nat option list result" where
  "MapStringKeys prefix num_elements =
     for_each (\<lambda>i found. if num_elements = 0 then Inl DivByZero
        else Inr (found @ [map_insert prefix num_elements (prefix @ to_string (i mod num_elements))]))
       [0..<1000] []"

definition MapShortStringKeys :: "nat \<Rightarrow> nat option list result" where
  "MapShortStringKeys = MapStringKeys ''key''"

definition MapLongStringKeys :: "nat \<Rightarrow> nat option list result" where
  "MapLongStringKeys = MapStringKeys ''this_is_a_very_long_string_key_''"

section \<open>Lemmas on vectors\<close>

lemma fold_sum_reals: "fold (\<lambda>i s. s + f i) [0..<n] (0 :: real) = (\<Sum>i<n. f i)"
  by (induction n) simp_all

lemma for_each_fold_get:
  assumes "n \<le> length a"
  shows "for_each (\<lambda>i s. rbind (array_get a i) (\<lambda>x. Inr (f x s))) [0..<n] s = Inr (fold (\<lambda>i s. f (a ! i) s) [0..<n] s)"
  using assms by (induction n) (simp_all add: for_each_append)

lemma for_each_fold_get2:
  assumes "n \<le> length a" and "n \<le> length b"
  shows "for_each (\<lambda>i s. rbind (array_get a i) (\<lambda>x. rbind (array_get b i) (\<lambda>y. Inr (f x y s)))) [0..<n] s =
    Inr (fold (\<lambda>i s. f (a ! i) (b ! i) s) [0..<n] s)"
  using assms by (induction n) (simp_all add: for_each_append)

lemma magnitude_real:
  assumes "n \<le> length v"
  shows "calculate_vector_magnitude real_ops v n = Inr (sqrt (\<Sum>i<n. (v ! i)\<^sup>2))"
  using for_each_fold_get [OF assms, of "\<lambda>x s. s + x * x" 0]
  by (simp add: calculate_vector_magnitude_def real_ops_def fold_sum_reals power2_eq_square)

lemma map_in_place:
  assumes "n \<le> length v"
  shows "for_each (\<lambda>i d. rbind (array_get d i) (\<lambda>x. array_set d i (f x))) [0..<n] v =
    Inr (map (\<lambda>i. f (v ! i)) [0..<n] @ drop n v)"
  using assms
proof (induction n)
  case (Suc n)
  then have "drop n v = v ! n # drop (Suc n) v" by (simp add: Cons_nth_drop_Suc)
  with Suc show ?case by (simp add: for_each_append nth_append list_update_append)
qed simp

lemma normalize_real:
  assumes "n \<le> length v" and "(\<Sum>i<n. (v ! i)\<^sup>2) \<noteq> 0"
  shows "normalize_vector real_ops v n =
    Inr (map (\<lambda>i. v ! i / sqrt (\<Sum>i<n. (v ! i)\<^sup>2)) [0..<n] @ drop n v)"
  using magnitude_real [OF assms(1)] assms(2) map_in_place [OF assms(1), of "\<lambda>x. x / sqrt (\<Sum>i<n. (v ! i)\<^sup>2)"]
  by (simp add: normalize_vector_def real_ops_def)

section \<open>Lemmas on the processor\<close>

definition transformed :: "'f dops \<Rightarrow> 'f list \<Rightarrow> nat \<Rightarrow> 'f list" where
  "transformed D input n = map (\<lambda>i. dadd D (dsin D (input ! i)) (dcos D (input ! i))) [0..<n]"

definition magnitude_of :: "'f dops \<Rightarrow> 'f list \<Rightarrow> nat \<Rightarrow> 'f" where
  "magnitude_of D v n = dsqrt D (fold (\<lambda>i s. dadd D s (dmul D (v ! i) (v ! i))) [0..<n] (dzero D))"

lemma magnitude_ok: "n \<le> length v \<Longrightarrow> calculate_vector_magnitude D v n = Inr (magnitude_of D v n)"
  using for_each_fold_get [of n v "\<lambda>x s. dadd D s (dmul D x x)"]
  by (simp add: calculate_vector_magnitude_def magnitude_of_def)

lemma copy_buffer:
  assumes "n \<le> length input" and "length buf = n"
  shows "for_each (\<lambda>i buf. rbind (array_get input i) (\<lambda>x. array_set buf i x)) [0..<n] buf = Inr (take n input)"
proof -
  have "for_each (\<lambda>i buf. rbind (array_get input i) (\<lambda>x. array_set buf i x)) [0..<n] buf =
      Inr (fold (\<lambda>i buf. buf[i := input ! i]) [0..<n] buf) \<and> length (fold (\<lambda>i buf. buf[i := input ! i]) [0..<n] buf) = n"
    by (rule for_each_invariant) (use assms in auto)
  moreover have "map ((!) input) [0..<n] = take n input" using assms(1) by (intro nth_equalityI) simp_all
  ultimately show ?thesis using fold_update_all [of n buf "(!) input"] assms(2) by simp
qed

text \<open>What \<open>process_data\<close> leaves does not depend on what the buffer held.\<close>

lemma process_data_ok:
  assumes "psize p \<le> length input" and "length (buffer p) = psize p"
  shows "process_data D input p =
    Inr (p\<lparr>buffer := transformed D input (psize p), presult := magnitude_of D (transformed D input (psize p)) (psize p)\<rparr>)"
proof -
  let ?n = "psize p"
  have "apply_transform D (take ?n input) ?n = Inr (transformed D input ?n)"
    using map_in_place [of ?n "take ?n input" "\<lambda>x. dadd D (dsin D x) (dcos D x)"] assms(1)
    by (simp add: apply_transform_def transformed_def cong: map_cong)
  moreover have "length (transformed D input ?n) = ?n" by (simp add: transformed_def)
  ultimately show ?thesis
    using copy_buffer [OF assms] magnitude_ok [of ?n "transformed D input ?n" D] by (simp add: process_data_def)
qed

lemma process_repeatedly:
  assumes "n = length input" and "0 < k"
  shows "\<exists>p. for_each (\<lambda>_. process_data D input) [0..<k] (DataProcessor D garbage n) = Inr p
    \<and> get_result p = magnitude_of D (transformed D input n) n"
proof -
  have "\<exists>p. for_each (\<lambda>_. process_data D input) xs q = Inr p
      \<and> get_result p = magnitude_of D (transformed D input n) n" if "xs \<noteq> []" "psize q = n" "length (buffer q) = n"
    for xs :: "nat list" and q
    using that
  proof (induction xs arbitrary: q)
    case (Cons x xs)
    let ?q = "q\<lparr>buffer := transformed D input n, presult := magnitude_of D (transformed D input n) n\<rparr>"
    have "process_data D input q = Inr ?q" using process_data_ok [of q input D] Cons.prems assms(1) by simp
    then show ?case
      using Cons.IH [of ?q] Cons.prems by (cases "xs = []") (simp_all add: get_result_def transformed_def)
  qed simp
  then show ?thesis using assms(2) by (simp add: DataProcessor_def)
qed

section \<open>Lemmas on dispatch\<close>

lemma MainLoop_result:
  "MainLoop execute N k = (of_nat (\<Sum>i<N. i), (execute ^^ N) k)"
  by (induction N) (simp_all add: MainLoop_def add.commute)

lemma managers_agree: "BM_CRTPFunction cfg N k = BM_VirtualFunction cfg N k"
proof -
  have "crtp_execute CrtpDerivedA_execute_impl = virtual_execute VirtualDerivedA"
    "crtp_execute CrtpDerivedB_execute_impl = virtual_execute VirtualDerivedB"
    by (simp_all add: crtp_execute_def CrtpDerivedA_execute_impl_def CrtpDerivedB_execute_impl_def fun_eq_iff)
  then show ?thesis
    by (simp add: BM_CRTPFunction_def BM_VirtualFunction_def MakeExecuteManagerCrtp_def MakeExecuteManagerVirtual_def)
qed

lemma virtual_calls:
  "(virtual_execute VirtualDerivedA ^^ N) k = k\<lparr>calls_a := calls_a k + N\<rparr>"
  "(virtual_execute VirtualDerivedB ^^ N) k = k\<lparr>calls_b := calls_b k + N\<rparr>"
  by (induction N) simp_all

section \<open>Lemmas on keys\<close>

definition digits_value :: "string \<Rightarrow> nat" where
  "digits_value s = foldl (\<lambda>v c. 10 * v + (of_char c - 48)) 0 s"

lemma to_string_value: "digits_value (to_string n) = n"
proof (induction n rule: to_string.induct)
  case (1 n)
  show ?case
  proof (cases "n < 10")
    case True
    then show ?thesis by (subst to_string.simps) (simp add: digits_value_def)
  next
    case False
    have "of_char (char_of (48 + n mod 10) :: char) = 48 + n mod 10" by simp
    then show ?thesis using 1 False by (subst to_string.simps) (simp add: digits_value_def)
  qed
qed

lemma to_string_inj: "to_string i = to_string j \<longleftrightarrow> i = j"
  using to_string_value by metis

lemma map_insert_finds: "map_insert prefix n (prefix @ to_string i) = (if i < n then Some i else None)"
  by (induction n) (auto simp: map_insert_def to_string_inj)

lemma fold_snoc_const: "fold (\<lambda>_ vec. vec @ [str]) [0..<n] vec = vec @ replicate n str"
  by (induction n) (simp_all add: replicate_append_same)

lemma fold_overwrite: "0 < n \<Longrightarrow> fold (\<lambda>_ t. c) [0..<n] t0 = c"
  by (cases n) simp_all

section \<open>Properties\<close>

text \<open>Vector arithmetic in exact arithmetic: a vector with a non-zero element is normalised to
  magnitude one; the dot product of a vector with itself is the square of its magnitude; the
  distance is symmetric. In any arithmetic, the result of the processor is the magnitude of the
  transformed input: it depends neither on the initial contents of the buffer nor on the number of
  runs, so the benchmarks with and without link-time optimisation compute the same.\<close>

theorem vector_arithmetic:
  fixes v w :: "real list"
  assumes "n \<le> length v" and "n \<le> length w" and "i < n" and "v ! i \<noteq> 0"
    and "psz = length input" and "0 < k"
  shows "(\<exists>u. normalize_vector real_ops v n = Inr u \<and> calculate_vector_magnitude real_ops u n = Inr 1)
    \<and> (\<exists>m. calculate_vector_magnitude real_ops v n = Inr m \<and> dot_product real_ops v v n = Inr (m\<^sup>2))
    \<and> calculate_distance real_ops v w n = calculate_distance real_ops w v n
    \<and> (\<exists>p. for_each (\<lambda>_. process_data D input) [0..<k] (DataProcessor D garbage psz) = Inr p
         \<and> get_result p = magnitude_of D (transformed D input psz) psz)
    \<and> run_benchmark D dst garbage = benchmark_without_lto D dst garbage'
    \<and> benchmark_with_lto D dst garbage = benchmark_without_lto D dst garbage'"
proof -
  let ?s = "\<Sum>i<n. (v ! i)\<^sup>2"
  have pos: "0 < ?s" by (rule sum_pos2 [of _ i]) (use assms(3,4) in auto)
  let ?u = "map (\<lambda>i. v ! i / sqrt ?s) [0..<n] @ drop n v"
  have "(\<Sum>i<n. (?u ! i)\<^sup>2) = (\<Sum>i<n. (v ! i)\<^sup>2 / ?s)"
    using pos by (intro sum.cong) (simp_all add: nth_append power_divide)
  also have "\<dots> = 1" using pos by (simp flip: sum_divide_distrib)
  finally have one: "calculate_vector_magnitude real_ops ?u n = Inr 1"
    using magnitude_real [of n ?u] assms(1) by simp
  have dot: "dot_product real_ops v v n = Inr ((sqrt ?s)\<^sup>2)"
    using for_each_fold_get2 [OF assms(1,1), of "\<lambda>x y s. s + x * y" 0] pos
    by (simp add: dot_product_def real_ops_def fold_sum_reals power2_eq_square sum_nonneg)
  have dist_sum: "calculate_distance real_ops a b n = Inr (sqrt (\<Sum>i<n. (a ! i - b ! i) * (a ! i - b ! i)))"
    if "n \<le> length a" "n \<le> length b" for a b
    using for_each_fold_get2 [OF that, of "\<lambda>x y s. s + (x - y) * (x - y)" 0]
    by (simp add: calculate_distance_def real_ops_def square_def fold_sum_reals)
  have swap: "(v ! i - w ! i) * (v ! i - w ! i) = (w ! i - v ! i) * (w ! i - v ! i)" for i
    by (simp add: algebra_simps)
  have sym: "calculate_distance real_ops v w n = calculate_distance real_ops w v n"
    unfolding dist_sum [OF assms(1,2)] dist_sum [OF assms(2,1)] swap ..
  have bench: "benchmark_without_lto D dst g =
      Inr (magnitude_of D (transformed D (generate_test_data dst 100000) 100000) 100000)" for g
    using process_repeatedly [of 100000 "generate_test_data dst 100000" 1000 D g]
    by (auto simp: benchmark_without_lto_def Let_def generate_test_data_def)
  have same: "run_benchmark D dst garbage = benchmark_without_lto D dst garbage"
      "benchmark_with_lto D dst garbage = benchmark_without_lto D dst garbage"
    by (simp_all add: run_benchmark_def benchmark_with_lto_def benchmark_without_lto_def)
  show ?thesis
    using one normalize_real [OF assms(1)] pos magnitude_real [OF assms(1)] dot sym
      process_repeatedly [OF assms(5,6), of D garbage] same bench
    by (intro conjI) auto
qed

text \<open>Static dispatch does what dynamic dispatch does: for every configuration the loop calls the
  selected class, and no other, \<open>N\<close> times and accumulates the same \<open>int\<close>. Reading back what was just
  written to the union and to the variant gives the value written.\<close>

theorem dispatch_equivalence:
  "BM_CRTPFunction cfg N k = BM_VirtualFunction cfg N k
    \<and> BM_VirtualFunction cfg N k =
        (of_nat (\<Sum>i<N. i), if use_a cfg then k\<lparr>calls_a := calls_a k + N\<rparr> else k\<lparr>calls_b := calls_b k + N\<rparr>)
    \<and> UnionAccess d x = VariantAccess d y \<and> UnionAccess d x = ((Some d, Some 1000), IntVal 1000)"
  using managers_agree [of cfg N k]
  by (simp add: BM_VirtualFunction_def MakeExecuteManagerVirtual_def UseOrderSenderA_def MainLoop_result virtual_calls
      UnionAccess_def VariantAccess_def)

text \<open>Map lookups: different numbers have different decimal representations, so after the
  insertions every one of the thousand lookups finds the number its key was made from, with short
  and with long keys; without elements the remainder divides by zero. The vectors and strings that
  are built have the expected contents.\<close>

theorem string_map_lookups:
  assumes "0 < n" and "0 < its"
  shows "MapShortStringKeys n = Inr (map (\<lambda>i. Some (i mod n)) [0..<1000])
    \<and> MapLongStringKeys n = MapShortStringKeys n
    \<and> MapShortStringKeys 0 = Inl DivByZero
    \<and> VectorPushBack str m its = replicate m str
    \<and> StringConcatenation str m = concat (replicate m str)
    \<and> StringAssignment_VariousLengths m its = StringCreation_VariousLengths m"
proof -
  have keys: "MapStringKeys prefix n = Inr (map (\<lambda>i. Some (i mod n)) [0..<1000])" for prefix
  proof -
    have "for_each (\<lambda>i found. if n = 0 then Inl DivByZero
        else Inr (found @ [map_insert prefix n (prefix @ to_string (i mod n))])) [0..<k] [] =
        Inr (map (\<lambda>i. Some (i mod n)) [0..<k])" for k
      by (induction k) (use assms in \<open>simp_all add: for_each_append map_insert_finds\<close>)
    then show ?thesis by (simp only: MapStringKeys_def)
  qed
  have zero: "MapStringKeys prefix 0 = Inl DivByZero" for prefix
  proof -
    have "[0..<1000] = 0 # [Suc 0..<1000]" by (rule upt_conv_Cons) simp
    then show ?thesis unfolding MapStringKeys_def by (simp only: for_each.simps) simp
  qed
  have "fold (\<lambda>_ r. r @ str) [0..<m] [] = concat (replicate m str)"
  proof (induction m)
    case (Suc m)
    have "concat (replicate m str) @ str = str @ concat (replicate m str)" by (induction m) simp_all
    with Suc show ?case by simp
  qed simp
  then show ?thesis
    using keys zero assms(2)
    by (simp add: fold_overwrite MapShortStringKeys_def MapLongStringKeys_def VectorPushBack_def fold_snoc_const
        StringConcatenation_def StringAssignment_VariousLengths_def StringCreation_VariousLengths_def)
qed

end
