(* ===== verification/Micro_Benchmarks.thy ===== *)
theory Micro_Benchmarks
  imports Object_Patterns "HOL-Library.Signed_Division"
begin

text \<open>
  \<open>design_patterns/test/test.cc\<close>: the micro benchmarks. Arithmetic of \<open>int\<close> is checked at 32 bits,
  reads of variables without a value and subscripts are checked, and the random source, the
  shuffles, \<open>state.iterations()\<close> and the floating point operations are parameters. The number of
  turns of the benchmark loop is an argument of every benchmark: the framework chooses it.
\<close>

section \<open>Arithmetic\<close>

text \<open>A local variable is \<open>None\<close> until it has been assigned.\<close>

definition read_local :: "'a option \<Rightarrow> 'a result" where
  "read_local v = (case v of None \<Rightarrow> Inl Uninitialised | Some x \<Rightarrow> Inr x)"

definition i32_addition :: "nat \<Rightarrow> (int option \<times> int option \<times> int option) result" where
  "i32_addition n =
     for_each (\<lambda>_ (a, b, c). rbind (read_local a) (\<lambda>x. rbind (read_local b) (\<lambda>y.
        rbind (to_int (x + y)) (\<lambda>z. Inr (a, b, Some z))))) [0..<n] (None, None, None)"

text \<open>\<open>rand k\<close> is the value of the k-th call of \<open>std::rand\<close>.\<close>

definition i32_addition_random :: "(nat \<Rightarrow> int) \<Rightarrow> nat \<Rightarrow> int result" where
  "i32_addition_random rand n = for_each (\<lambda>k c. to_int (rand (2 * k) + rand (2 * k + 1))) [0..<n] 0"

definition i32_addition_semi_random :: "(nat \<Rightarrow> int) \<Rightarrow> nat \<Rightarrow> (int \<times> int \<times> int) result" where
  "i32_addition_semi_random rand n =
     for_each (\<lambda>_ (a, b, c). rbind (to_int (a + 1)) (\<lambda>a'. rbind (to_int (b + 1)) (\<lambda>b'.
        rbind (to_int (a' + b')) (\<lambda>c'. Inr (a', b', c'))))) [0..<n] (rand 0, rand 1, 0)"

definition upper_cost_of_pausing :: "(nat \<Rightarrow> int) \<Rightarrow> nat \<Rightarrow> (int \<times> int) result" where
  "upper_cost_of_pausing rand n =
     for_each (\<lambda>_ (a, c). rbind (to_int (a + 1)) (\<lambda>a'. rbind (to_int (c + a')) (\<lambda>c'. Inr (a', c'))))
       [0..<n] (rand 0, 0)"

definition i64_division_by_const :: "(nat \<Rightarrow> int) \<Rightarrow> nat \<Rightarrow> (int \<times> int option) result" where
  "i64_division_by_const rand n =
     (let money = 2147483647
      in for_each (\<lambda>_ (a, c). rbind (to_long (a + 1)) (\<lambda>a'.
           if money = 0 then Inl DivByZero else Inr (a', Some (a' sdiv money)))) [0..<n] (rand 0, None))"

definition i64_division_by_constexpr :: "(nat \<Rightarrow> int) \<Rightarrow> nat \<Rightarrow> (int \<times> int option) result" where
  "i64_division_by_constexpr rand n =
     for_each (\<lambda>_ (a, c). rbind (to_long (a + 1)) (\<lambda>a'. Inr (a', Some (a' sdiv 2147483647))))
       [0..<n] (rand 0, None)"

text \<open>\<open>__builtin_popcount\<close> takes an \<open>unsigned int\<close>: the argument is truncated to 32 bits.\<close>

definition builtin_popcount :: "i32 \<Rightarrow> nat" where
  "builtin_popcount w = bit_count w"

definition u64_population_count :: "(nat \<Rightarrow> int) \<Rightarrow> nat \<Rightarrow> u64 \<times> nat" where
  "u64_population_count rand n =
     fold (\<lambda>_ (a, c). (a + 1, builtin_popcount (ucast (a + 1)))) [0..<n] (of_int (rand 0), 0)"

definition u64_population_count_x86 :: "(nat \<Rightarrow> int) \<Rightarrow> nat \<Rightarrow> u64 \<times> nat" where
  "u64_population_count_x86 rand n =
     fold (\<lambda>_ (a, c). (a + 1, builtin_popcount (ucast (a + 1)))) [0..<n] (of_int (rand 0), 0)"

text \<open>The three versions of the sine: \<open>lit\<close> converts the literals, \<open>pow\<close> is \<open>std::pow\<close>.\<close>

definition f64_sin :: "'f dops \<Rightarrow> (nat \<Rightarrow> 'f) \<Rightarrow> 'f \<Rightarrow> nat \<Rightarrow> 'f \<times> 'f" where
  "f64_sin D lit start n =
     fold (\<lambda>_ (argument, result). let argument' = dadd D argument (lit 1) in (argument', dsin D argument'))
       [0..<n] (start, lit 0)"

definition f64_sin_maclaurin ::
    "'f dops \<Rightarrow> (nat \<Rightarrow> 'f) \<Rightarrow> ('f \<Rightarrow> nat \<Rightarrow> 'f) \<Rightarrow> 'f \<Rightarrow> nat \<Rightarrow> 'f \<times> 'f" where
  "f64_sin_maclaurin D lit pow start n =
     fold (\<lambda>_ (argument, result). let x = dadd D argument (lit 1)
        in (x, dadd D (dsub D x (ddiv D (pow x 3) (lit 6))) (ddiv D (pow x 5) (lit 120))))
       [0..<n] (start, lit 0)"

definition f64_sin_maclaurin_powless :: "'f dops \<Rightarrow> (nat \<Rightarrow> 'f) \<Rightarrow> 'f \<Rightarrow> nat \<Rightarrow> 'f \<times> 'f" where
  "f64_sin_maclaurin_powless D lit start n =
     fold (\<lambda>_ (argument, result). let x = dadd D argument (lit 1)
        in (x, dadd D (dsub D x (ddiv D (dmul D (dmul D x x) x) (lit 6)))
                 (ddiv D (dmul D (dmul D (dmul D (dmul D x x) x) x) x) (lit 120))))
       [0..<n] (start, lit 0)"

definition BM_Superscalar_Bottleneck :: "'f dops \<Rightarrow> 'f \<Rightarrow> 'f" where
  "BM_Superscalar_Bottleneck D q = fold (\<lambda>_ a. dmul D a q) [0..<10000] q"

definition BM_Superscalar_Parallel :: "'f dops \<Rightarrow> 'f \<Rightarrow> 'f" where
  "BM_Superscalar_Parallel D q =
     (let (a, b, c, d) = fold (\<lambda>_ (a, b, c, d). (dmul D a q, dmul D b q, dmul D c q, dmul D d q))
            [0..<2500] (q, q, q, q)
      in dadd D (dadd D (dadd D a b) c) d)"

text \<open>\<open>BM_PureComputation\<close> computes the same value on every turn.\<close>

definition pure_computation :: "int \<Rightarrow> int result" where
  "pure_computation x =
     rbind (to_int (x * x)) (\<lambda>a. rbind (to_int (2 * x)) (\<lambda>b. rbind (to_int (a + b)) (\<lambda>s. to_int (s + 1))))"

definition BM_PureComputation :: "nat \<Rightarrow> int result" where
  "BM_PureComputation n = for_each (\<lambda>_ result. pure_computation 42) [0..<n] 0"

definition BM_StringCopy :: "nat \<Rightarrow> string list" where
  "BM_StringCopy n = (let x = ''hello'' in map (\<lambda>_. let copy = x in copy) [0..<n])"

section \<open>Arrays\<close>

definition f32s_in_cache_line_k :: nat where "f32s_in_cache_line_k = 64 div 4"
definition f32s_in_cache_line_half_k :: nat where "f32s_in_cache_line_half_k = f32s_in_cache_line_k div 2"

text \<open>\<open>f32_array_t\<close>: 32 floats without a value.\<close>

definition f32_array_t :: "'f option list" where
  "f32_array_t = replicate (f32s_in_cache_line_k * 2) None"

definition pairwise_accumulation :: "('f \<Rightarrow> 'f \<Rightarrow> 'f) \<Rightarrow> nat \<Rightarrow> nat \<Rightarrow> nat \<Rightarrow> 'f option list result" where
  "pairwise_accumulation plusf lo hi n =
     for_each (\<lambda>_. for_each (\<lambda>i c. rbind (array_get f32_array_t i) (\<lambda>va. rbind (read_local va) (\<lambda>x.
        rbind (array_get f32_array_t i) (\<lambda>vb. rbind (read_local vb) (\<lambda>y.
        array_set c i (Some (plusf x y))))))) [lo..<hi]) [0..<n] f32_array_t"

definition f32_pairwise_accumulation :: "('f \<Rightarrow> 'f \<Rightarrow> 'f) \<Rightarrow> nat \<Rightarrow> 'f option list result" where
  "f32_pairwise_accumulation plusf n =
     pairwise_accumulation plusf f32s_in_cache_line_half_k (f32s_in_cache_line_half_k * 2) n"

definition f32_pairwise_accumulation_aligned :: "('f \<Rightarrow> 'f \<Rightarrow> 'f) \<Rightarrow> nat \<Rightarrow> 'f option list result" where
  "f32_pairwise_accumulation_aligned plusf n = pairwise_accumulation plusf 0 f32s_in_cache_line_half_k n"

definition branch_update :: "int \<Rightarrow> int \<Rightarrow> int result" where
  "branch_update random variable =
     (if random AND 1 \<noteq> 0 then to_int (variable + random) else to_int (variable * random))"

definition cost_of_branching_for_different_depth :: "(nat \<Rightarrow> int) \<Rightarrow> nat \<Rightarrow> nat \<Rightarrow> int result" where
  "cost_of_branching_for_different_depth rand cnt n =
     (let random_values = map rand [0..<cnt]
      in for_each (\<lambda>k variable. rbind
           (array_get random_values (unat ((of_nat (k + 1) :: u64) AND (of_nat cnt - 1))))
           (\<lambda>random. branch_update random variable)) [0..<n] 0)"

text \<open>\<open>std::iota\<close> on \<open>int32_t\<close>: the value is incremented after the last element as well.\<close>

definition iota_i32 :: "nat \<Rightarrow> (int list \<times> int) result" where
  "iota_i32 cnt =
     for_each (\<lambda>i (xs, value). rbind (array_set xs i value) (\<lambda>xs'. rbind (to_int (value + 1)) (\<lambda>v. Inr (xs', v))))
       [0..<cnt] (replicate cnt 0, 1)"

definition super_sort :: "nat \<Rightarrow> nat \<Rightarrow> int list result" where
  "super_sort cnt n = rbind (iota_i32 cnt) (\<lambda>(xs, _). Inr (fold (\<lambda>_ xs. sort (rev xs)) [0..<n] xs))"

section \<open>Calls through a base class\<close>

datatype base_virtual = DerivedVirtual

fun virtual_compute :: "base_virtual \<Rightarrow> int \<Rightarrow> int result" where
  "virtual_compute DerivedVirtual x = rbind (to_int (x * 2)) (\<lambda>y. to_int (y + 1))"

definition Regular_compute :: "int \<Rightarrow> int result" where
  "Regular_compute x = rbind (to_int (x * 2)) (\<lambda>y. to_int (y + 1))"

definition TemplateClass_compute :: "int \<Rightarrow> int result" where
  "TemplateClass_compute x = rbind (to_int (x * 2)) (\<lambda>y. to_int (y + 1))"

definition LocalRegular_compute :: "int \<Rightarrow> int result" where
  "LocalRegular_compute x = rbind (to_int (x * 2)) (\<lambda>y. to_int (y + 1))"

text \<open>One object: its argument is \<open>state.iterations()\<close>, \<open>iterations k\<close> on the k-th turn, converted to
  \<open>int\<close>.\<close>

definition call_loop :: "(int \<Rightarrow> int result) \<Rightarrow> (nat \<Rightarrow> i64) \<Rightarrow> nat \<Rightarrow> int result" where
  "call_loop compute iterations n =
     for_each (\<lambda>k result. rbind (compute (sint (ucast (iterations k) :: i32))) (\<lambda>y. to_int (result + y)))
       [0..<n] 0"

definition BM_RegularFunction :: "(nat \<Rightarrow> i64) \<Rightarrow> nat \<Rightarrow> int result" where
  "BM_RegularFunction iterations n = call_loop Regular_compute iterations n"

definition BM_VirtualFunction_test :: "(nat \<Rightarrow> i64) \<Rightarrow> nat \<Rightarrow> int result" where
  "BM_VirtualFunction_test iterations n = (let obj = DerivedVirtual in call_loop (virtual_compute obj) iterations n)"

definition BM_TemplateFunction :: "(nat \<Rightarrow> i64) \<Rightarrow> nat \<Rightarrow> int result" where
  "BM_TemplateFunction iterations n = call_loop TemplateClass_compute iterations n"

definition BM_RegularInlined :: "(nat \<Rightarrow> i64) \<Rightarrow> nat \<Rightarrow> int result" where
  "BM_RegularInlined iterations n = call_loop LocalRegular_compute iterations n"

text \<open>A vector of 1000 objects, each called with its index.\<close>

definition array_loop :: "('o \<Rightarrow> int \<Rightarrow> int result) \<Rightarrow> 'o list \<Rightarrow> nat \<Rightarrow> int result" where
  "array_loop compute objects n =
     for_each (\<lambda>_. for_each (\<lambda>i result. rbind (array_get objects i) (\<lambda>obj.
        rbind (compute obj (int i)) (\<lambda>y. to_int (result + y)))) [0..<1000]) [0..<n] 0"

definition BM_VirtualArray :: "nat \<Rightarrow> int result" where
  "BM_VirtualArray n =
     (let objects = fold (\<lambda>_ objs. objs @ [DerivedVirtual]) [0..<1000] [] in array_loop virtual_compute objects n)"

definition BM_RegularArray :: "nat \<Rightarrow> int result" where
  "BM_RegularArray n = (let objects = replicate 1000 () in array_loop (\<lambda>_. Regular_compute) objects n)"

definition BM_MixedVirtualCalls :: "(base_virtual list \<Rightarrow> base_virtual list) \<Rightarrow> nat \<Rightarrow> int result" where
  "BM_MixedVirtualCalls shuffle n =
     (let objects = shuffle (fold (\<lambda>_ objs. objs @ [DerivedVirtual]) [0..<1000] [])
      in array_loop virtual_compute objects n)"

section \<open>Smart pointers\<close>

text \<open>The heap is the list of the objects allocated so far; an object is \<open>None\<close> once it has been
  freed, and otherwise comes with the number of its owners. \<open>Foo\<close> is its array of 16 integers.\<close>

type_synonym heap = "(int list \<times> nat) option list"

definition Foo :: "int list result" where
  "Foo = for_each (\<lambda>i data. array_set data i (int i)) [0..<16] (replicate 16 0)"

definition new_foo :: "heap \<Rightarrow> (nat \<times> heap) result" where
  "new_foo h = rbind Foo (\<lambda>foo. Inr (length h, h @ [Some (foo, 1)]))"

definition add_owner :: "nat \<Rightarrow> heap \<Rightarrow> heap result" where
  "add_owner p h =
     rbind (array_get h p) (\<lambda>b. case b of None \<Rightarrow> Inl NullDeref | Some (foo, k) \<Rightarrow> Inr (h[p := Some (foo, k + 1)]))"

definition drop_owner :: "nat \<Rightarrow> heap \<Rightarrow> heap result" where
  "drop_owner p h =
     rbind (array_get h p) (\<lambda>b. case b of
         None \<Rightarrow> Inl NullDeref
       | Some (foo, k) \<Rightarrow> Inr (h[p := if k \<le> 1 then None else Some (foo, k - 1)]))"

text \<open>A smart pointer is null or the address of an object; the destructor of a null pointer does
  nothing, and moving leaves null behind.\<close>

definition destroy :: "nat option \<Rightarrow> heap \<Rightarrow> heap result" where
  "destroy p h = (case p of None \<Rightarrow> Inr h | Some a \<Rightarrow> drop_owner a h)"

definition move_pointer :: "nat option \<Rightarrow> nat option \<times> nat option" where
  "move_pointer p = (p, None)"

definition copy_pointer :: "nat option \<Rightarrow> heap \<Rightarrow> (nat option \<times> heap) result" where
  "copy_pointer p h = (case p of None \<Rightarrow> Inr (None, h) | Some a \<Rightarrow> rbind (add_owner a h) (\<lambda>h'. Inr (p, h')))"

definition BM_UniquePtr_CreateDestroy :: "nat \<Rightarrow> heap \<Rightarrow> heap result" where
  "BM_UniquePtr_CreateDestroy n h =
     for_each (\<lambda>_ h. rbind (new_foo h) (\<lambda>(p, h1). destroy (Some p) h1)) [0..<n] h"

definition BM_UniquePtr_Move :: "nat \<Rightarrow> heap \<Rightarrow> heap result" where
  "BM_UniquePtr_Move n h =
     for_each (\<lambda>_ h. rbind (new_foo h) (\<lambda>(a, h1).
        let (q, p) = move_pointer (Some a) in rbind (destroy q h1) (destroy p))) [0..<n] h"

definition BM_SharedPtr_CreateDestroy_New :: "nat \<Rightarrow> heap \<Rightarrow> heap result" where
  "BM_SharedPtr_CreateDestroy_New n h =
     for_each (\<lambda>_ h. rbind (new_foo h) (\<lambda>(p, h1). destroy (Some p) h1)) [0..<n] h"

definition BM_SharedPtr_CreateDestroy_MakeShared :: "nat \<Rightarrow> heap \<Rightarrow> heap result" where
  "BM_SharedPtr_CreateDestroy_MakeShared n h =
     for_each (\<lambda>_ h. rbind (new_foo h) (\<lambda>(p, h1). destroy (Some p) h1)) [0..<n] h"

definition BM_SharedPtr_Copy :: "nat \<Rightarrow> heap \<Rightarrow> heap result" where
  "BM_SharedPtr_Copy n h =
     rbind (new_foo h) (\<lambda>(p, h1).
     rbind (for_each (\<lambda>_ h. rbind (copy_pointer (Some p) h) (\<lambda>(p2, h2). destroy p2 h2)) [0..<n] h1)
       (destroy (Some p)))"

text \<open>A parameter passed by value is a copy that ends with the call; a reference is no owner.\<close>

definition consume_shared_by_value :: "nat option \<Rightarrow> heap \<Rightarrow> heap result" where
  "consume_shared_by_value p h = rbind (copy_pointer p h) (\<lambda>(param, h1). destroy param h1)"

definition consume_shared_by_ref :: "nat option \<Rightarrow> heap \<Rightarrow> heap result" where
  "consume_shared_by_ref p h = Inr h"

definition BM_SharedPtr_PassByValue :: "nat \<Rightarrow> heap \<Rightarrow> heap result" where
  "BM_SharedPtr_PassByValue n h =
     rbind (new_foo h) (\<lambda>(p, h1).
     rbind (for_each (\<lambda>_. consume_shared_by_value (Some p)) [0..<n] h1) (destroy (Some p)))"

definition BM_SharedPtr_PassByRef :: "nat \<Rightarrow> heap \<Rightarrow> heap result" where
  "BM_SharedPtr_PassByRef n h =
     rbind (new_foo h) (\<lambda>(p, h1).
     rbind (for_each (\<lambda>_. consume_shared_by_ref (Some p)) [0..<n] h1) (destroy (Some p)))"

section \<open>Vectorised and unrolled loops\<close>

text \<open>\<open>sample k\<close> is the k-th value of the distribution; the generator starts from the same seed in
  every call.\<close>

definition setup_data :: "'f \<Rightarrow> (nat \<Rightarrow> 'f) \<Rightarrow> nat \<Rightarrow> 'f list result" where
  "setup_data zero sample n = for_each (\<lambda>i data. array_set data i (sample i)) [0..<n] (replicate n zero)"

definition scale_add :: "('f \<Rightarrow> 'f \<Rightarrow> 'f) \<Rightarrow> ('f \<Rightarrow> 'f \<Rightarrow> 'f) \<Rightarrow> 'f \<Rightarrow> 'f list \<Rightarrow> 'f list \<Rightarrow> nat \<Rightarrow> 'f list \<Rightarrow> 'f list result" where
  "scale_add plusf timesf two src1 src2 i dest =
     rbind (array_get src1 i) (\<lambda>x. rbind (array_get src2 i) (\<lambda>y. array_set dest i (plusf (timesf x two) y)))"

definition BM_SimdLoop ::
    "('f \<Rightarrow> 'f \<Rightarrow> 'f) \<Rightarrow> ('f \<Rightarrow> 'f \<Rightarrow> 'f) \<Rightarrow> 'f \<Rightarrow> 'f \<Rightarrow> (nat \<Rightarrow> 'f) \<Rightarrow> nat \<Rightarrow> nat \<Rightarrow> 'f list result" where
  "BM_SimdLoop plusf timesf zero two sample N n =
     rbind (setup_data zero sample N) (\<lambda>src1. rbind (setup_data zero sample N) (\<lambda>src2.
     for_each (\<lambda>_. for_each (scale_add plusf timesf two src1 src2) [0..<N]) [0..<n] (replicate N zero)))"

definition fmadd_ps :: "('f \<Rightarrow> 'f \<Rightarrow> 'f \<Rightarrow> 'f) \<Rightarrow> 'f list \<Rightarrow> 'f list \<Rightarrow> 'f list \<Rightarrow> 'f list" where
  "fmadd_ps fma x y z = map2 (\<lambda>(a, b) c. fma a b c) (zip x y) z"

definition fma_group ::
    "('f \<Rightarrow> 'f \<Rightarrow> 'f \<Rightarrow> 'f) \<Rightarrow> 'f list \<Rightarrow> 'f list \<Rightarrow> 'f list \<Rightarrow> nat \<Rightarrow> 'f list \<Rightarrow> 'f list result" where
  "fma_group fma vec_two src1 src2 i dest =
     rbind (load_ps 8 src1 i) (\<lambda>v1. rbind (load_ps 8 src2 i) (\<lambda>v2. store_ps dest i (fmadd_ps fma v1 vec_two v2)))"

function fma_blocks ::
    "('f \<Rightarrow> 'f \<Rightarrow> 'f \<Rightarrow> 'f) \<Rightarrow> 'f list \<Rightarrow> 'f list \<Rightarrow> 'f list \<Rightarrow> nat \<Rightarrow> nat \<Rightarrow> 'f list \<Rightarrow> (nat \<times> 'f list) result" where
  "fma_blocks fma vec_two src1 src2 N i dest =
     (if i + 31 < N
      then (case for_each (fma_group fma vec_two src1 src2) [i, i + 8, i + 16, i + 24] dest of
              Inl e \<Rightarrow> Inl e
            | Inr dest' \<Rightarrow> fma_blocks fma vec_two src1 src2 N (i + 32) dest')
      else Inr (i, dest))"
  by pat_completeness auto
termination
  by (relation "measure (\<lambda>(_, _, _, _, N, i, _). N - i)") auto

declare fma_blocks.simps [simp del]

definition BM_SimdLoop_Intrinsic_Unrolled ::
    "('f \<Rightarrow> 'f \<Rightarrow> 'f) \<Rightarrow> ('f \<Rightarrow> 'f \<Rightarrow> 'f) \<Rightarrow> ('f \<Rightarrow> 'f \<Rightarrow> 'f \<Rightarrow> 'f) \<Rightarrow> 'f \<Rightarrow> 'f \<Rightarrow> (nat \<Rightarrow> 'f) \<Rightarrow> nat \<Rightarrow> nat \<Rightarrow> 'f list result" where
  "BM_SimdLoop_Intrinsic_Unrolled plusf timesf fma zero two sample N n =
     rbind (setup_data zero sample N) (\<lambda>src1. rbind (setup_data zero sample N) (\<lambda>src2.
     for_each (\<lambda>_ dest. rbind (fma_blocks fma (replicate 8 two) src1 src2 N 0 dest) (\<lambda>(i, dest').
        for_each (scale_add plusf timesf two src1 src2) [i..<N] dest')) [0..<n] (replicate N zero)))"

section \<open>Small types\<close>

text \<open>\<open>Age<T>\<close> for \<open>int\<close>, \<open>short\<close> and \<open>uint8_t\<close>: the conversion keeps the low bits.\<close>

datatype age_type = AgeInt | AgeShort | AgeUint8

fun to_age :: "age_type \<Rightarrow> int \<Rightarrow> int" where
  "to_age AgeInt x = signed_take_bit 31 x"
| "to_age AgeShort x = signed_take_bit 15 x"
| "to_age AgeUint8 x = take_bit 8 x"

text \<open>The total is an \<open>int\<close>; dividing by \<open>ages.size()\<close> converts it to \<open>size_t\<close>.\<close>

definition average_age :: "age_type \<Rightarrow> int list \<Rightarrow> int result" where
  "average_age T ages =
     rbind (for_each (\<lambda>age acc. to_int (acc + age)) ages 0) (\<lambda>acc.
       if ages = [] then Inr (to_age T 0) else Inr (to_age T ((acc mod 2 ^ 64) div int (length ages))))"

definition generate_mock_data :: "age_type \<Rightarrow> (nat \<Rightarrow> int) \<Rightarrow> nat \<Rightarrow> int list result" where
  "generate_mock_data T sampler n = for_each (\<lambda>i data. array_set data i (to_age T (sampler i))) [0..<n] (replicate n 0)"

definition BM_AverageAge :: "age_type \<Rightarrow> (nat \<Rightarrow> int) \<Rightarrow> nat \<Rightarrow> nat \<Rightarrow> int list result" where
  "BM_AverageAge T sampler n iterations =
     rbind (generate_mock_data T sampler n) (\<lambda>data.
       for_each (\<lambda>_ results. rbind (average_age T data) (\<lambda>r. Inr (results @ [r]))) [0..<iterations] [])"

text \<open>\<open>increment\<close>: the index is an \<open>int\<close>, the bound a \<open>size_t\<close>. \<open>to_i\<close> is the conversion of the
  element type to \<open>int\<close>, \<open>sint\<close> or \<open>uint\<close>.\<close>

function increment_loop :: "(i8 \<Rightarrow> int) \<Rightarrow> i8 list \<Rightarrow> int \<Rightarrow> i8 list result" where
  "increment_loop to_i data i =
     (if 0 \<le> i \<and> i < int (length data)
      then (case to_int (i + 1) of
              Inl e \<Rightarrow> Inl e
            | Inr i' \<Rightarrow> increment_loop to_i (data[nat i := of_int (to_i (data ! nat i) + 1)]) i')
      else Inr data)"
  by pat_completeness auto
termination
  by (relation "measure (\<lambda>(_, data, i). nat (int (length data) - i))")
    (auto simp: to_int_def split: if_splits)

declare increment_loop.simps [simp del]

definition increment :: "(i8 \<Rightarrow> int) \<Rightarrow> i8 list \<Rightarrow> i8 list result" where
  "increment to_i data = increment_loop to_i data 0"

definition BM_Increment :: "(i8 \<Rightarrow> int) \<Rightarrow> nat \<Rightarrow> nat \<Rightarrow> i8 list result" where
  "BM_Increment to_i vector_size n = for_each (\<lambda>_. increment to_i) [0..<n] (replicate vector_size 0)"

section \<open>Messages\<close>

text \<open>The layout of a class: every member at the next multiple of its alignment, the size rounded
  up to the alignment of the class. A member is its size and its alignment.\<close>

definition round_to :: "nat \<Rightarrow> nat \<Rightarrow> nat" where
  "round_to a n = (n + a - 1) div a * a"

fun member_offsets :: "nat \<Rightarrow> (nat \<times> nat) list \<Rightarrow> nat list" where
  "member_offsets end [] = []"
| "member_offsets end ((s, a) # ms) = (let offset = round_to a end in offset # member_offsets (offset + s) ms)"

fun members_end :: "nat \<Rightarrow> (nat \<times> nat) list \<Rightarrow> nat" where
  "members_end end [] = end"
| "members_end end ((s, a) # ms) = members_end (round_to a end + s) ms"

definition class_size :: "nat \<Rightarrow> (nat \<times> nat) list \<Rightarrow> nat" where
  "class_size align ms = round_to (fold max (map snd ms) align) (members_end 0 ms)"

datatype message_class = Message1 | Message2 | Message1_Aligned | Message2_Aligned

text \<open>The members in declaration order: \<open>type\<close>, \<open>checksum\<close>, \<open>data\<close>, \<open>length\<close>, or the reverse.\<close>

fun message_members :: "message_class \<Rightarrow> (nat \<times> nat) list" where
  "message_members Message1 = [(1, 1), (2, 2), (8, 8), (4, 4)]"
| "message_members Message2 = [(8, 8), (4, 4), (2, 2), (1, 1)]"
| "message_members Message1_Aligned = [(1, 1), (2, 2), (8, 8), (4, 4)]"
| "message_members Message2_Aligned = [(8, 8), (4, 4), (2, 2), (1, 1)]"

fun sizeof_message :: "message_class \<Rightarrow> nat" where
  "sizeof_message Message1 = class_size 1 (message_members Message1)"
| "sizeof_message Message2 = class_size 1 (message_members Message2)"
| "sizeof_message Message1_Aligned = class_size 64 (message_members Message1_Aligned)"
| "sizeof_message Message2_Aligned = class_size 64 (message_members Message2_Aligned)"

record message =
  mtype :: "8 word"
  mchecksum :: "16 word"
  mdata :: "nat option"
  mlength :: "32 word"

definition get_sum :: "message list \<Rightarrow> i64" where
  "get_sum messages = fold (\<lambda>m acc. acc + ucast (mtype m)) messages 0"

definition BM_Message_Dynamic_Range :: "message_class \<Rightarrow> nat \<Rightarrow> nat \<Rightarrow> i64 list" where
  "BM_Message_Dynamic_Range T total_bytes n =
     (let num_elements = total_bytes div sizeof_message T;
          messages = replicate num_elements \<lparr>mtype = 0, mchecksum = 0, mdata = None, mlength = 0\<rparr>
      in map (\<lambda>_. get_sum messages) [0..<n])"

section \<open>Chunked access\<close>

text \<open>\<open>shuffle k\<close> is the k-th call of \<open>std::shuffle\<close>, \<open>sampler k lo hi\<close> the k-th sample between the bounds;
  the bounds are computed in \<open>size_t\<close>.\<close>

definition chunk_N :: nat where "chunk_N = 1000000"

definition BM_Chunk_Memory_Access ::
    "(nat \<Rightarrow> nat list \<Rightarrow> nat list) \<Rightarrow> (nat \<Rightarrow> u64 \<Rightarrow> u64 \<Rightarrow> u64) \<Rightarrow> nat \<Rightarrow> nat \<Rightarrow> (nat list \<times> int list) result" where
  "BM_Chunk_Memory_Access shuffle sampler chunk_size n =
     (let data = replicate chunk_N (0::int)
      in for_each (\<lambda>k (indices, seen).
           let indices' = shuffle k indices;
               start = sampler k 0 (of_nat chunk_N - of_nat chunk_size - 1)
           in rbind (for_each (\<lambda>i acc. rbind (array_get data (unat (start + of_nat i))) (\<lambda>x. to_long (acc + x))) indices' 0)
                (\<lambda>s. Inr (indices', seen @ [s]))) [0..<n] ([0..<chunk_size], []))"

section \<open>Arithmetic: results\<close>

lemma for_each_upt_Suc: "for_each body [0..<Suc n] s = rbind (for_each body [0..<n] s) (body n)"
proof -
  have "for_each body [n] = body n" by (rule ext) (simp add: rbind_def split: sum.splits)
  then show ?thesis by (simp add: for_each_append)
qed

lemma fill_array:
  assumes "n \<le> length xs"
  shows "for_each (\<lambda>i xs. array_set xs i (g i)) [0..<n] xs = Inr (map g [0..<n] @ drop n xs)"
proof -
  have "for_each (\<lambda>i xs. array_set xs i (g i)) [0..<n] xs = Inr (fold (\<lambda>i xs. xs[i := g i]) [0..<n] xs)
      \<and> length (fold (\<lambda>i xs. xs[i := g i]) [0..<n] xs) = length xs"
    by (rule for_each_invariant) (use assms in auto)
  then show ?thesis using fold_update_all [OF assms] by simp
qed

lemma uninitialised_reads:
  assumes "0 < n"
  shows "i32_addition n = Inl Uninitialised"
    and "f32_pairwise_accumulation plusf n = Inl Uninitialised"
    and "f32_pairwise_accumulation_aligned plusf n = Inl Uninitialised"
  using assms
  by (simp_all add: i32_addition_def f32_pairwise_accumulation_def f32_pairwise_accumulation_aligned_def
      pairwise_accumulation_def read_local_def f32_array_t_def f32s_in_cache_line_half_k_def
      f32s_in_cache_line_k_def upt_conv_Cons)

lemma semi_random_result:
  assumes "0 \<le> rand 0" and "0 \<le> rand 1"
  shows "i32_addition_semi_random rand n =
    (if n = 0 then Inr (rand 0, rand 1, 0)
     else if rand 0 + rand 1 + 2 * int n < 2 ^ 31
     then Inr (rand 0 + int n, rand 1 + int n, rand 0 + rand 1 + 2 * int n) else Inl SignedOverflow)"
  unfolding i32_addition_semi_random_def
proof (induction n)
  case (Suc n)
  show ?case unfolding for_each_upt_Suc Suc.IH using assms by (auto simp: to_int_def int_range_def)
qed simp

text \<open>The sum of a growing counter: the accumulator overflows when the triangular sum does.\<close>

lemma pausing_result:
  assumes "0 \<le> rand 0"
  shows "upper_cost_of_pausing rand n =
    (if n = 0 then Inr (rand 0, 0)
     else if int n * rand 0 + (\<Sum>k \<le> n. int k) < 2 ^ 31
     then Inr (rand 0 + int n, int n * rand 0 + (\<Sum>k \<le> n. int k)) else Inl SignedOverflow)"
  unfolding upper_cost_of_pausing_def
proof (induction n)
  case (Suc n)
  obtain p where p: "int n * rand 0 = p" "0 \<le> p" using assms by simp
  obtain s where s: "(\<Sum>k \<le> n. int k) = s" "0 \<le> s" by (simp add: sum_nonneg)
  have "int (Suc n) * rand 0 = p + rand 0" "(\<Sum>k \<le> Suc n. int k) = s + int n + 1"
    using p(1) s(1) by (simp_all add: algebra_simps)
  moreover have "s = 0 \<and> p = 0" if "n = 0" using that p(1) s(1) by simp
  ultimately show ?case unfolding for_each_upt_Suc Suc.IH p(1) s(1) using assms p(2) s(2)
    by (cases "n = 0") (auto simp: to_int_def int_range_def)
qed simp

lemma division_versions: "i64_division_by_const rand n = i64_division_by_constexpr rand n"
  by (simp add: i64_division_by_const_def i64_division_by_constexpr_def)

lemma bit_count_low:
  fixes a :: u64
  assumes "a < 2 ^ 32"
  shows "builtin_popcount (ucast a) = bit_count a"
proof -
  have high: "\<not> bit a k" if "32 \<le> k" for k
  proof -
    have "unat a < 2 ^ 32" using assms by (simp add: word_less_nat_alt)
    also have "(2::nat) ^ 32 \<le> 2 ^ k" using that by (rule power_increasing) simp
    finally show ?thesis using bit_below_power2 [of "unat a" k] by (simp add: bit_unsigned_iff)
  qed
  have "[0..<64] = [0..<32] @ [32..<64]" using upt_add_eq_append [of 0 32 32] by simp
  then have "filter (bit a) [0..<64] = filter (bit a) [0..<32] @ filter (bit a) [32..<64]"
    by (simp only: filter_append)
  moreover have "filter (bit a) [32..<64] = []" using high by (simp add: filter_empty_conv)
  moreover have "filter (bit (ucast a :: i32)) [0..<32] = filter (bit a) [0..<32]"
    by (rule filter_cong) (simp_all add: bit_ucast_iff)
  ultimately show ?thesis by (simp add: builtin_popcount_def bit_count_def)
qed

lemma popcount_truncates: "builtin_popcount (ucast (2 ^ 32 :: u64)) = 0 \<and> bit_count (2 ^ 32 :: u64) = 1"
proof -
  have "filter (bit (2 ^ 32 :: u64)) [0..<64] = filter (\<lambda>k. k = 32) [0..<64]"
    by (rule filter_cong) (simp_all only: bit_exp_iff, auto)
  also have "\<dots> = [32]" by code_simp
  finally have "bit_count (2 ^ 32 :: u64) = 1" by (simp add: bit_count_def)
  moreover have "ucast (2 ^ 32 :: u64) = (0 :: i32)" by simp
  moreover have "builtin_popcount 0 = 0" by (simp add: builtin_popcount_def bit_count_def)
  ultimately show ?thesis by (simp only: simp_thms)
qed

lemma maclaurin_versions:
  "f64_sin_maclaurin real_ops of_nat (\<lambda>x k. x ^ k) start n = f64_sin_maclaurin_powless real_ops of_nat start n"
  by (simp add: f64_sin_maclaurin_def f64_sin_maclaurin_powless_def real_ops_def power_numeral_reduce
      numeral_3_eq_3 mult.assoc)

lemma fold_mult_power: "fold (\<lambda>_ a. a * q) [0..<n] x = (x * q ^ n :: real)"
  by (induction n) simp_all

lemma fold_four:
  "fold (\<lambda>_ (a, b, c, d). (f a, f b, f c, f d)) xs (a, b, c, d) =
    (fold (\<lambda>_. f) xs a, fold (\<lambda>_. f) xs b, fold (\<lambda>_. f) xs c, fold (\<lambda>_. f) xs d)"
  by (induction xs arbitrary: a b c d) simp_all

lemma superscalar_results:
  "BM_Superscalar_Bottleneck real_ops q = q ^ 10001"
  "BM_Superscalar_Parallel real_ops q = 4 * q ^ 2501"
proof -
  have "fold (\<lambda>_ a. a * q) [0..<10000] q = q ^ 10001" for q :: real
    unfolding fold_mult_power by (simp flip: power_Suc)
  then show "BM_Superscalar_Bottleneck real_ops q = q ^ 10001"
    by (simp add: BM_Superscalar_Bottleneck_def real_ops_def)
  have "fold (\<lambda>_ a. a * q) [0..<2500] q = q ^ 2501" for q :: real
    unfolding fold_mult_power by (simp flip: power_Suc)
  then show "BM_Superscalar_Parallel real_ops q = 4 * q ^ 2501"
    using fold_four [of "\<lambda>a. a * q" "[0..<2500]" q q q q]
    by (simp add: BM_Superscalar_Parallel_def real_ops_def)
qed

lemma pure_computation_result:
  "pure_computation x = (if - 46340 \<le> x \<and> x \<le> 46339 then Inr ((x + 1)\<^sup>2) else Inl SignedOverflow)"
proof -
  obtain s where s: "x * x = s" "0 \<le> s" by simp
  have sq: "(x + 1)\<^sup>2 = s + 2 * x + 1" using s(1) by (simp add: power2_eq_square algebra_simps)
  have mono: "\<bar>a\<bar> \<le> \<bar>b\<bar> \<Longrightarrow> a * a \<le> b * b" for a b :: int
    by (metis abs_ge_zero abs_mult_self_eq mult_mono')
  consider "- 46340 \<le> x" "x \<le> 46339" | "x = 46340" | "x < - 46340 \<or> 46340 < x" by linarith
  then show ?thesis
  proof cases
    case 1
    then have "s \<le> 46340 * 46340" "(x + 1) * (x + 1) \<le> 46340 * 46340"
      using mono [of x 46340] mono [of "x + 1" 46340] s(1) by auto
    then have "s < 2 ^ 31" "s + 2 * x + 1 < 2 ^ 31" using s(1) by (simp_all add: algebra_simps)
    then show ?thesis using 1 s sq by (simp add: pure_computation_def to_int_def int_range_def)
  next
    case 2
    then show ?thesis by (simp add: pure_computation_def to_int_def int_range_def)
  next
    case 3
    then have "46341 * 46341 \<le> s" using mono [of 46341 x] s(1) by auto
    then show ?thesis using 3 s by (auto simp: pure_computation_def to_int_def int_range_def)
  qed
qed

section \<open>Arrays and calls: results\<close>

lemma masked_index_mod:
  assumes "cnt = 2 ^ j" and "j < 64" and "k < 2 ^ 64"
  shows "unat ((of_nat k :: u64) AND (of_nat cnt - 1)) = k mod cnt"
proof -
  have "(of_nat cnt - 1 :: u64) = mask j" using assms(1) by (simp add: mask_eq_exp_minus_1)
  then have "unat ((of_nat k :: u64) AND (of_nat cnt - 1)) = take_bit j (unat (of_nat k :: u64))"
    by (simp add: unsigned_take_bit_eq flip: take_bit_eq_mask)
  then show ?thesis using assms by (simp add: take_bit_eq_mod unat_of_nat)
qed

theorem branching_index:
  assumes "cnt = 2 ^ j" and "j < 64" and "n < 2 ^ 64"
  shows "cost_of_branching_for_different_depth rand cnt n =
    for_each (\<lambda>k. branch_update (rand ((k + 1) mod cnt))) [0..<n] 0"
  unfolding cost_of_branching_for_different_depth_def Let_def
proof (rule for_each_cong)
  fix k v assume "k \<in> set [0..<n]"
  then have "k + 1 < 2 ^ 64" using assms(3) by simp
  moreover have "(k + 1) mod cnt < cnt" using assms(1) by simp
  ultimately show "rbind (array_get (map rand [0..<cnt]) (unat ((of_nat (k + 1) :: u64) AND (of_nat cnt - 1))))
      (\<lambda>random. branch_update random v) = branch_update (rand ((k + 1) mod cnt)) v"
    using masked_index_mod [OF assms(1,2), of "k + 1"] by (simp del: of_nat_add of_nat_Suc)
qed

lemma iota_i32_result:
  "n \<le> cnt \<Longrightarrow> for_each (\<lambda>i (xs, value). rbind (array_set xs i value) (\<lambda>xs'. rbind (to_int (value + 1)) (\<lambda>v. Inr (xs', v))))
       [0..<n] (replicate cnt 0, 1) =
   (if n < 2 ^ 31 - 1 then Inr (map (\<lambda>i. int i + 1) [0..<n] @ replicate (cnt - n) 0, int n + 1)
    else Inl SignedOverflow)"
proof (induction n)
  case (Suc n)
  have "(map (\<lambda>i. int i + 1) [0..<n] @ replicate (cnt - n) 0)[n := int n + 1] =
      map (\<lambda>i. int i + 1) [0..<Suc n] @ replicate (cnt - Suc n) 0"
  proof -
    obtain m where "cnt - n = Suc m" "cnt - Suc n = m" using Suc.prems by (metis Suc_diff_Suc Suc_le_lessD)
    then show ?thesis by (simp add: list_update_append)
  qed
  then show ?case unfolding for_each_upt_Suc using Suc by (auto simp: to_int_def int_range_def)
qed simp

lemma sort_rev_sorted: "sorted xs \<Longrightarrow> fold (\<lambda>_ xs. sort (rev xs)) ks xs = xs"
proof (induction ks)
  case (Cons k ks)
  have "sort (rev xs) = xs" by (rule properties_for_sort) (simp_all add: Cons.prems)
  with Cons show ?case by simp
qed simp

theorem super_sort_result:
  "super_sort cnt n =
    (if cnt < 2 ^ 31 - 1 then Inr (map (\<lambda>i. int i + 1) [0..<cnt]) else Inl SignedOverflow)"
proof -
  have "sorted (map (\<lambda>i. int i + 1) [0..<cnt])" by (simp add: sorted_iff_nth_mono)
  from sort_rev_sorted [OF this, of "[0..<n]"] show ?thesis
    using iota_i32_result [of cnt cnt] by (simp add: super_sort_def iota_i32_def)
qed

lemma computes_agree: "virtual_compute obj = Regular_compute" "TemplateClass_compute = Regular_compute"
    "LocalRegular_compute = Regular_compute"
  by (cases obj, simp_all add: fun_eq_iff Regular_compute_def TemplateClass_compute_def LocalRegular_compute_def)

lemma single_object_benchmarks_agree:
  "BM_VirtualFunction_test iterations n = BM_RegularFunction iterations n"
  "BM_TemplateFunction iterations n = BM_RegularFunction iterations n"
  "BM_RegularInlined iterations n = BM_RegularFunction iterations n"
  by (simp_all add: BM_VirtualFunction_test_def BM_RegularFunction_def BM_TemplateFunction_def
      BM_RegularInlined_def computes_agree Let_def)

lemma array_pass:
  assumes "\<And>obj. compute obj = Regular_compute" and "m \<le> length objects" and "m \<le> 1000"
    and "0 \<le> r" and "r < 2 ^ 31"
  shows "for_each (\<lambda>i result. rbind (array_get objects i) (\<lambda>obj.
      rbind (compute obj (int i)) (\<lambda>y. to_int (result + y)))) [0..<m] r =
    (if r + int m * int m < 2 ^ 31 then Inr (r + int m * int m) else Inl SignedOverflow)"
  using assms(2,3)
proof (induction m)
  case (Suc m)
  have "0 \<le> int m * int m" by simp
  with Suc assms show ?case unfolding for_each_upt_Suc
    by (auto simp: Regular_compute_def to_int_def int_range_def algebra_simps)
qed (use assms in simp)

lemma array_loop_result:
  assumes "\<And>obj. compute obj = Regular_compute" and "1000 \<le> length objects"
  shows "array_loop compute objects n =
    (if n \<le> 2147 then Inr (1000000 * int n) else Inl SignedOverflow)"
  unfolding array_loop_def
proof (induction n)
  case (Suc n)
  have pass: "for_each (\<lambda>i result. rbind (array_get objects i) (\<lambda>obj.
      rbind (compute obj (int i)) (\<lambda>y. to_int (result + y)))) [0..<1000] (1000000 * int n) =
    (if n < 2147 then Inr (1000000 * int n + 1000000) else Inl SignedOverflow)" if "n \<le> 2147"
    using array_pass [of compute 1000 objects "1000000 * int n"] assms that by auto
  show ?case unfolding for_each_upt_Suc Suc.IH using pass by auto
qed simp

text \<open>The \<open>int\<close> accumulator of the three array benchmarks gains one million per turn and overflows
  in turn 2148.\<close>

theorem array_calls_overflow:
  assumes "\<And>xs. length (shuffle xs) = length xs"
  shows "BM_VirtualArray n = BM_RegularArray n \<and> BM_MixedVirtualCalls shuffle n = BM_RegularArray n
    \<and> BM_RegularArray n = (if n \<le> 2147 then Inr (1000000 * int n) else Inl SignedOverflow)"
proof -
  have objects: "length (fold (\<lambda>_ objs. objs @ [DerivedVirtual]) ks xs) = length ks + length xs" for ks :: "nat list" and xs
    by (induction ks arbitrary: xs) simp_all
  have "BM_VirtualArray n = (if n \<le> 2147 then Inr (1000000 * int n) else Inl SignedOverflow)"
    unfolding BM_VirtualArray_def Let_def by (rule array_loop_result) (simp_all add: computes_agree objects)
  moreover have "BM_MixedVirtualCalls shuffle n = (if n \<le> 2147 then Inr (1000000 * int n) else Inl SignedOverflow)"
    unfolding BM_MixedVirtualCalls_def Let_def
    by (rule array_loop_result) (simp_all add: computes_agree objects assms)
  moreover have "BM_RegularArray n = (if n \<le> 2147 then Inr (1000000 * int n) else Inl SignedOverflow)"
    unfolding BM_RegularArray_def Let_def by (rule array_loop_result) simp_all
  ultimately show ?thesis by simp
qed

section \<open>Smart pointers: results\<close>

lemma Foo_value: "Foo = Inr (map int [0..<16])"
  by (simp add: Foo_def fill_array)

lemma new_foo_value: "new_foo h = Inr (length h, h @ [Some (map int [0..<16], 1)])"
  by (simp add: new_foo_def Foo_value)

lemma owner_steps:
  "drop_owner (length h) (h @ [Some (x, Suc 0)]) = Inr (h @ [None])"
  "rbind (copy_pointer (Some (length h)) (h @ [Some (x, Suc 0)])) (\<lambda>(p, h'). destroy p h') =
     Inr (h @ [Some (x, Suc 0)])"
  by (simp_all add: drop_owner_def add_owner_def copy_pointer_def destroy_def)

lemma create_destroy: "for_each (\<lambda>_ h. Inr (h @ [None])) [0..<n] h = Inr (h @ replicate n None)"
  by (induction n) (simp_all add: for_each_upt_Suc replicate_append_same del: upt_Suc)

lemma keep_owner:
  assumes "body h = Inr h"
  shows "for_each (\<lambda>_. body) ks h = Inr h"
  using assms by (induction ks) simp_all

lemma shared_copies:
  "for_each (\<lambda>_ h2. rbind (copy_pointer (Some (length h)) h2) (\<lambda>(p2, h3). destroy p2 h3)) ks (h @ [Some (x, Suc 0)]) =
     Inr (h @ [Some (x, Suc 0)])"
  by (rule keep_owner) (rule owner_steps(2))

lemma destroy_Some: "destroy (Some a) h = drop_owner a h"
  by (simp add: destroy_def)

text \<open>No benchmark leaks an object or frees one twice: everything they allocate is freed at the end,
  and the objects that were there before are untouched.\<close>

theorem smart_pointers_release:
  "BM_UniquePtr_CreateDestroy n h = Inr (h @ replicate n None)
   \<and> BM_UniquePtr_Move n h = Inr (h @ replicate n None)
   \<and> BM_SharedPtr_CreateDestroy_New n h = Inr (h @ replicate n None)
   \<and> BM_SharedPtr_CreateDestroy_MakeShared n h = Inr (h @ replicate n None)
   \<and> BM_SharedPtr_Copy n h = Inr (h @ [None])
   \<and> BM_SharedPtr_PassByValue n h = Inr (h @ [None])
   \<and> BM_SharedPtr_PassByRef n h = Inr (h @ [None])"
proof -
  have "BM_SharedPtr_Copy n h = Inr (h @ [None])"
    by (simp add: BM_SharedPtr_Copy_def new_foo_value shared_copies destroy_Some owner_steps(1))
  moreover have "BM_SharedPtr_PassByValue n h = Inr (h @ [None])"
    by (simp add: BM_SharedPtr_PassByValue_def consume_shared_by_value_def [abs_def] new_foo_value
        shared_copies destroy_Some owner_steps(1))
  moreover have "BM_SharedPtr_PassByRef n h = Inr (h @ [None])"
    by (simp add: BM_SharedPtr_PassByRef_def consume_shared_by_ref_def [abs_def] new_foo_value
        keep_owner destroy_Some owner_steps(1))
  ultimately show ?thesis
    by (simp add: BM_UniquePtr_CreateDestroy_def BM_UniquePtr_Move_def BM_SharedPtr_CreateDestroy_New_def
        BM_SharedPtr_CreateDestroy_MakeShared_def new_foo_value destroy_def owner_steps move_pointer_def
        create_destroy)
qed


section \<open>Vectorised and unrolled loops: results\<close>

lemma setup_data_value: "setup_data zero sample n = Inr (map sample [0..<n])"
  by (simp add: setup_data_def fill_array)

lemma fmadd_lanes:
  assumes "i + 8 \<le> length a" and "i + 8 \<le> length b"
  shows "fmadd_ps fma (take 8 (drop i a)) (replicate 8 two) (take 8 (drop i b)) =
    map (\<lambda>k. fma (a ! k) two (b ! k)) [i..<i + 8]"
  using assms by (intro nth_equalityI) (auto simp: fmadd_ps_def)

lemma fma_group_step:
  fixes N :: nat
  assumes "i + 8 \<le> N" and "length a = N" and "length b = N" and "length c = N"
  shows "fma_group fma (replicate 8 two) a b i (map (\<lambda>k. fma (a ! k) two (b ! k)) [0..<i] @ drop i c) =
    Inr (map (\<lambda>k. fma (a ! k) two (b ! k)) [0..<i + 8] @ drop (i + 8) c)"
proof -
  have "[0..<i + 8] = [0..<i] @ [i..<i + 8]" using upt_add_eq_append [of 0 i 8] by simp
  then show ?thesis using assms by (simp add: fma_group_def load_ps_def fmadd_lanes store_ps_def add.commute)
qed

lemma fma_blocks_result:
  assumes "i \<le> N" and "length a = N" and "length b = N" and "length c = N"
  shows "\<exists>j. j \<le> N \<and> fma_blocks fma (replicate 8 two) a b N i (map (\<lambda>k. fma (a ! k) two (b ! k)) [0..<i] @ drop i c) =
    Inr (j, map (\<lambda>k. fma (a ! k) two (b ! k)) [0..<j] @ drop j c)"
  using assms(1)
proof (induction "N - i" arbitrary: i rule: less_induct)
  case less
  let ?d = "\<lambda>i. map (\<lambda>k. fma (a ! k) two (b ! k)) [0..<i] @ drop i c"
  show ?case
  proof (cases "i + 31 < N")
    case True
    have step: "fma_group fma (replicate 8 two) a b k (?d k) = Inr (?d (k + 8))" if "k + 8 \<le> N" for k
      using that assms(2-4) by (rule fma_group_step)
    have "for_each (fma_group fma (replicate 8 two) a b) [i, i + 8, i + 16, i + 24] (?d i) = Inr (?d (i + 32))"
      using True step [of i] step [of "i + 8"] step [of "i + 16"] step [of "i + 24"] by (simp add: add.assoc)
    then show ?thesis using less.hyps [of "i + 32"] True by (subst fma_blocks.simps) simp
  next
    case False
    then show ?thesis using less.prems by (subst fma_blocks.simps) auto
  qed
qed

lemma scale_add_loop:
  assumes "length a = N" and "length b = N" and "length c = N" and "j \<le> m" and "m \<le> N"
  shows "for_each (scale_add plusf timesf two a b) [j..<m]
      (map (\<lambda>k. plusf (timesf (a ! k) two) (b ! k)) [0..<j] @ drop j c) =
    Inr (map (\<lambda>k. plusf (timesf (a ! k) two) (b ! k)) [0..<m] @ drop m c)"
  using assms(4,5)
proof (induction m rule: dec_induct)
  case (step m)
  have "drop m c = c ! m # drop (Suc m) c" using step assms(3) by (simp add: Cons_nth_drop_Suc)
  then show ?case using step assms by (simp add: for_each_append scale_add_def list_update_append)
qed simp

lemma repeat_same:
  assumes "\<And>s. P s \<Longrightarrow> body s = Inr r" and "P r" and "P s"
  shows "for_each (\<lambda>_. body) [0..<n] s = Inr (if n = 0 then s else r)"
  using assms by (induction n) (simp_all add: for_each_upt_Suc del: upt_Suc)

text \<open>The loop with four fused multiply-add instructions per turn and a scalar remainder computes
  what the plain loop computes, for every length, whatever the arithmetic, as long as the fused
  operation with the factor two agrees with the separate multiplication and addition; no access is
  out of bounds.\<close>

theorem unrolled_fma_loop:
  assumes "\<And>x y. fma x two y = plusf (timesf x two) y"
  shows "BM_SimdLoop_Intrinsic_Unrolled plusf timesf fma zero two sample N n = BM_SimdLoop plusf timesf zero two sample N n
    \<and> BM_SimdLoop plusf timesf zero two sample N n =
        Inr (if n = 0 then replicate N zero else map (\<lambda>i. plusf (timesf (sample i) two) (sample i)) [0..<N])"
proof -
  let ?a = "map sample [0..<N]"
  let ?r = "map (\<lambda>i. plusf (timesf (sample i) two) (sample i)) [0..<N]"
  have r: "map (\<lambda>k. plusf (timesf (?a ! k) two) (?a ! k)) [0..<N] = ?r" by simp
  have plain: "for_each (scale_add plusf timesf two ?a ?a) [0..<N] c = Inr ?r" if "length c = N" for c
    using scale_add_loop [of ?a N ?a c 0 N plusf timesf two] that r by simp
  have unrolled: "rbind (fma_blocks fma (replicate 8 two) ?a ?a N 0 c) (\<lambda>(i, d).
      for_each (scale_add plusf timesf two ?a ?a) [i..<N] d) = Inr ?r" if c: "length c = N" for c
  proof -
    obtain j where "j \<le> N" "fma_blocks fma (replicate 8 two) ?a ?a N 0 c =
        Inr (j, map (\<lambda>k. plusf (timesf (?a ! k) two) (?a ! k)) [0..<j] @ drop j c)"
      using fma_blocks_result [of 0 N ?a ?a c fma two] c assms by auto
    then show ?thesis using scale_add_loop [of ?a N ?a c j N plusf timesf two] c r by simp
  qed
  have "for_each (\<lambda>_. for_each (scale_add plusf timesf two ?a ?a) [0..<N]) [0..<n] (replicate N zero) =
      Inr (if n = 0 then replicate N zero else ?r)"
    by (rule repeat_same [where P = "\<lambda>c. length c = N"]) (simp_all add: plain)
  moreover have "for_each (\<lambda>_ c. rbind (fma_blocks fma (replicate 8 two) ?a ?a N 0 c) (\<lambda>(i, d).
      for_each (scale_add plusf timesf two ?a ?a) [i..<N] d)) [0..<n] (replicate N zero) =
      Inr (if n = 0 then replicate N zero else ?r)"
    by (rule repeat_same [where P = "\<lambda>c. length c = N"]) (simp_all only: unrolled length_replicate length_map length_upt minus_nat.diff_0)
  ultimately show ?thesis
    by (simp only: BM_SimdLoop_Intrinsic_Unrolled_def BM_SimdLoop_def setup_data_value rbind_simps simp_thms)
qed

section \<open>Small types: results\<close>

lemma accumulate_ages:
  assumes "\<forall>a \<in> set ages. 0 \<le> a" and "0 \<le> s" and "s + sum_list ages < 2 ^ 31"
  shows "for_each (\<lambda>age acc. to_int (acc + age)) ages s = Inr (s + sum_list ages)"
  using assms
proof (induction ages arbitrary: s)
  case (Cons a ages)
  then have "0 \<le> sum_list ages" by (simp add: sum_list_nonneg)
  with Cons show ?case by (simp add: add.assoc)
qed simp

fun age_max :: "age_type \<Rightarrow> int" where
  "age_max AgeInt = 2 ^ 31 - 1"
| "age_max AgeShort = 2 ^ 15 - 1"
| "age_max AgeUint8 = 2 ^ 8 - 1"

lemma to_age_fits: "0 \<le> x \<Longrightarrow> x \<le> age_max T \<Longrightarrow> to_age T x = x"
  by (cases T) (simp_all add: signed_take_bit_int_eq_self take_bit_int_eq_self)

lemma sum_list_bounds:
  fixes lo hi :: int
  assumes "\<forall>a \<in> set ages. lo \<le> a \<and> a \<le> hi"
  shows "lo * int (length ages) \<le> sum_list ages \<and> sum_list ages \<le> hi * int (length ages)"
  using assms by (induction ages) (auto simp: algebra_simps)

lemma average_age_result:
  assumes "ages \<noteq> []" and "\<forall>a \<in> set ages. lo \<le> a \<and> a \<le> hi" and "0 \<le> lo" and "hi \<le> age_max T"
    and "sum_list ages < 2 ^ 31"
  shows "average_age T ages = Inr (sum_list ages div int (length ages))
    \<and> lo \<le> sum_list ages div int (length ages) \<and> sum_list ages div int (length ages) \<le> hi"
proof -
  have nonneg: "\<forall>a \<in> set ages. 0 \<le> a" using assms(2,3) by fastforce
  have len: "0 < int (length ages)" using assms(1) by simp
  have "lo * int (length ages) div int (length ages) \<le> sum_list ages div int (length ages)"
    using sum_list_bounds [OF assms(2)] len by (intro zdiv_mono1) simp_all
  then have lo: "lo \<le> sum_list ages div int (length ages)" using len by simp
  have "sum_list ages div int (length ages) \<le> hi * int (length ages) div int (length ages)"
    using sum_list_bounds [OF assms(2)] len by (intro zdiv_mono1) simp_all
  then have hi: "sum_list ages div int (length ages) \<le> hi" using len by simp
  have "sum_list ages mod 2 ^ 64 = sum_list ages"
    using nonneg assms(5) by (simp add: sum_list_nonneg)
  moreover have "to_age T (sum_list ages div int (length ages)) = sum_list ages div int (length ages)"
    using lo hi assms(3,4) by (intro to_age_fits) linarith+
  ultimately show ?thesis
    using accumulate_ages [OF nonneg, of 0] assms(1,5) lo hi by (simp add: average_age_def)
qed

text \<open>The average of ages that are not negative and whose sum fits into an \<open>int\<close> is the rounded down
  mean in every underlying type, and lies between the bounds of the ages; a negative total is
  converted to \<open>size_t\<close> before the division, and the result is not the mean.\<close>

theorem average_age_value:
  assumes "ages \<noteq> []" and "\<forall>a \<in> set ages. lo \<le> a \<and> a \<le> hi" and "0 \<le> lo" and "hi \<le> age_max T"
    and "sum_list ages < 2 ^ 31"
  shows "average_age T ages = Inr (sum_list ages div int (length ages))
    \<and> lo \<le> sum_list ages div int (length ages) \<and> sum_list ages div int (length ages) \<le> hi
    \<and> average_age AgeInt [-1, -1, -1] = Inr 1431655764"
  using average_age_result [OF assms]
  by (simp add: average_age_def signed_take_bit_def take_bit_eq_mod bit_iff_odd)

lemma mock_data_value: "generate_mock_data T sampler n = Inr (map (\<lambda>i. to_age T (sampler i)) [0..<n])"
  by (simp add: generate_mock_data_def fill_array)

theorem average_benchmark:
  assumes "\<And>i. 1 \<le> sampler i \<and> sampler i \<le> 100" and "0 < n" and "n \<le> 131072"
  shows "\<exists>r. 1 \<le> r \<and> r \<le> 100 \<and> BM_AverageAge T sampler n iterations = Inr (replicate iterations r)"
proof -
  let ?ages = "map sampler [0..<n]"
  have fits: "to_age T (sampler i) = sampler i" for i
    using assms(1) [of i] by (intro to_age_fits) (cases T; simp)+
  have bounds: "\<forall>a \<in> set ?ages. 1 \<le> a \<and> a \<le> 100" using assms(1) by auto
  have "sum_list ?ages \<le> 100 * int n" using sum_list_bounds [OF bounds] by simp
  then have "sum_list ?ages < 2 ^ 31" using assms(3) by simp
  then obtain r where r: "1 \<le> r" "r \<le> 100" "average_age T ?ages = Inr r"
    using average_age_result [OF _ bounds, of T] assms(2) by (cases T) auto
  have "for_each (\<lambda>_ results. rbind (average_age T ?ages) (\<lambda>r. Inr (results @ [r]))) [0..<iterations] [] =
      Inr (replicate iterations r)"
    by (induction iterations) (simp_all add: for_each_upt_Suc r(3) replicate_append_same del: upt_Suc)
  then show ?thesis using r by (auto simp: BM_AverageAge_def mock_data_value fits)
qed

lemma increment_loop_result:
  assumes "\<And>x. of_int (to_i x) = x" and "0 \<le> i" and "i \<le> int (length xs)" and "i < 2 ^ 31"
  shows "increment_loop to_i xs i =
    (if length xs < 2 ^ 31 then Inr (take (nat i) xs @ map (\<lambda>x. x + 1) (drop (nat i) xs)) else Inl SignedOverflow)"
  using assms(2-4)
proof (induction "nat (int (length xs) - i)" arbitrary: i xs rule: less_induct)
  case less
  show ?case
  proof (cases "i < int (length xs)")
    case True
    obtain k where k: "i = int k" using less.prems(1) by (metis nonneg_int_cases)
    then have lt: "k < length xs" using True by simp
    let ?ys = "xs[k := xs ! k + 1]"
    have split: "take (Suc k) ?ys @ map (\<lambda>x. x + 1) (drop (Suc k) ?ys) = take k xs @ map (\<lambda>x. x + 1) (drop k xs)"
      using lt by (simp add: take_Suc_conv_app_nth drop_update_cancel flip: Cons_nth_drop_Suc [of k xs])
    have "increment_loop to_i xs i =
        (if i + 1 < 2 ^ 31 then increment_loop to_i ?ys (i + 1) else Inl SignedOverflow)"
      using True less.prems assms(1) k
      by (subst increment_loop.simps) (simp add: to_int_def int_range_def)
    moreover have "increment_loop to_i ?ys (i + 1) =
      (if length ?ys < 2 ^ 31 then Inr (take (nat (i + 1)) ?ys @ map (\<lambda>x. x + 1) (drop (nat (i + 1)) ?ys))
       else Inl SignedOverflow)" if "i + 1 < 2 ^ 31"
      by (rule less.hyps) (use True less.prems that in simp_all)
    moreover have "nat (i + 1) = Suc k" "nat i = k" using k by simp_all
    ultimately show ?thesis using split True by auto
  next
    case False
    then show ?thesis using less.prems by (subst increment_loop.simps) simp
  qed
qed

text \<open>The benchmark adds its number of turns, modulo 256, to every byte, for the signed and the
  unsigned character types alike; a vector of two gigabytes overflows the \<open>int\<close> index.\<close>

theorem increment_bytes:
  assumes "to_i = sint \<or> to_i = uint"
  shows "BM_Increment to_i vector_size n =
    (if n = 0 \<or> vector_size < 2 ^ 31 then Inr (replicate vector_size (of_nat n)) else Inl SignedOverflow)"
proof -
  have "of_int (to_i x) = x" for x :: i8 using assms by auto
  then have inc: "increment to_i xs = (if length xs < 2 ^ 31 then Inr (map (\<lambda>x. x + 1) xs) else Inl SignedOverflow)" for xs
    using increment_loop_result [of to_i 0 xs] by (simp add: increment_def)
  show ?thesis unfolding BM_Increment_def
  proof (induction n)
    case (Suc n)
    show ?case unfolding for_each_upt_Suc Suc.IH by (auto simp: inc add.commute)
  qed simp
qed

section \<open>Messages and chunks: results\<close>

theorem message_layout:
  "sizeof_message Message1 = 24 \<and> sizeof_message Message2 = 16
   \<and> sizeof_message Message1_Aligned = 64 \<and> sizeof_message Message2_Aligned = 64
   \<and> member_offsets 0 (message_members Message1) = [0, 2, 8, 16]
   \<and> member_offsets 0 (message_members Message2) = [0, 8, 12, 14]"
  by (simp add: class_size_def round_to_def)

lemma get_sum_value: "get_sum messages = of_nat (sum_list (map (\<lambda>m. unat (mtype m)) messages))"
proof -
  have "fold (\<lambda>m acc. acc + ucast (mtype m)) messages s = s + of_nat (sum_list (map (\<lambda>m. unat (mtype m)) messages))"
    for s :: i64
    by (induction messages arbitrary: s) (simp_all add: add.assoc)
  from this [of 0] show ?thesis by (simp add: get_sum_def)
qed

text \<open>The chunk stays inside the array for every shuffle and every sample of the distribution.\<close>

theorem chunk_access_in_bounds:
  assumes "\<And>k xs. mset (shuffle k xs) = mset xs" and "\<And>k lo hi. lo \<le> hi \<Longrightarrow> lo \<le> sampler k lo hi \<and> sampler k lo hi \<le> hi"
    and "chunk_size < chunk_N"
  shows "\<exists>indices. mset indices = mset [0..<chunk_size]
    \<and> BM_Chunk_Memory_Access shuffle sampler chunk_size n = Inr (indices, replicate n 0)"
proof -
  let ?hi = "of_nat chunk_N - of_nat chunk_size - 1 :: u64"
  have hi: "unat ?hi = chunk_N - chunk_size - 1"
  proof -
    have "?hi = of_nat (chunk_N - chunk_size - 1)" using assms(3) by (simp add: of_nat_diff)
    then show ?thesis by (simp add: unat_of_nat chunk_N_def)
  qed
  have get: "array_get (replicate chunk_N (0::int)) (unat (sampler k 0 ?hi + of_nat i)) = Inr 0"
    if "i < chunk_size" for k i
  proof -
    have "unat (sampler k 0 ?hi) \<le> chunk_N - chunk_size - 1"
      using assms(2) [of 0 ?hi k] hi by (simp add: word_le_nat_alt)
    then have lt: "unat (sampler k 0 ?hi) + i < chunk_N" using that assms(3) by linarith
    have "unat (sampler k 0 ?hi + of_nat i) = (unat (sampler k 0 ?hi) + i) mod 2 ^ 64"
      by (simp add: unat_word_ariths unat_of_nat mod_add_right_eq)
    also have "\<dots> = unat (sampler k 0 ?hi) + i" using lt by (simp add: chunk_N_def)
    finally show ?thesis using lt by simp
  qed
  have sum0: "for_each (\<lambda>i acc. rbind (array_get (replicate chunk_N (0::int)) (unat (sampler k 0 ?hi + of_nat i)))
      (\<lambda>x. to_long (acc + x))) xs 0 = Inr 0" if "set xs \<subseteq> {..<chunk_size}" for k xs
    using that by (induction xs) (simp_all add: get)
  show ?thesis unfolding BM_Chunk_Memory_Access_def Let_def
  proof (induction n)
    case (Suc n)
    then obtain indices where ind: "mset indices = mset [0..<chunk_size]" "for_each (\<lambda>k (indices, seen).
        rbind (for_each (\<lambda>i acc. rbind (array_get (replicate chunk_N (0::int)) (unat (sampler k 0 ?hi + of_nat i)))
          (\<lambda>x. to_long (acc + x))) (shuffle k indices) 0)
          (\<lambda>s. Inr (shuffle k indices, seen @ [s]))) [0..<n] ([0..<chunk_size], []) = Inr (indices, replicate n 0)"
      by auto
    have "set (shuffle n indices) = set [0..<chunk_size]"
      using assms(1) [of n indices] ind(1) by (metis set_mset_mset)
    then have "for_each (\<lambda>i acc. rbind (array_get (replicate chunk_N (0::int)) (unat (sampler n 0 ?hi + of_nat i)))
      (\<lambda>x. to_long (acc + x))) (shuffle n indices) 0 = Inr 0"
      by (intro sum0) auto
    then show ?case unfolding for_each_upt_Suc ind(2) using assms(1) ind(1)
      by (intro exI [of _ "shuffle n indices"]) (simp add: replicate_append_same)
  qed simp
qed


end
