(* ===== verification/Instrumentation.thy ===== *)
theory Instrumentation
  imports Workshop_Prelude
begin

text \<open>
  \<open>design_patterns/dictionary/ext/\<close>: the tracer of heap calls (\<open>mtrace.h\<close>) and the wrappers of hardware
  counters (\<open>papipp.h\<close>, \<open>papipp2.h\<close>). The C library calls the hook of a heap function, if there is one,
  in place of its own code; the functions of PAPI are parameters.
\<close>

section \<open>The heap tracer\<close>

datatype request = Malloc u64 | Free nat | Realloc nat u64

datatype hook = NoHook | TracerHook

record malloc_counter =
  malloc_calls :: u64
  free_calls :: u64
  realloc_calls :: u64
  malloc_bytes :: u64
  realloc_bytes :: u64

definition no_calls :: malloc_counter where
  "no_calls = \<lparr>malloc_calls = 0, free_calls = 0, realloc_calls = 0, malloc_bytes = 0, realloc_bytes = 0\<rparr>"

text \<open>\<open>post_malloc\<close>, \<open>post_free\<close> and \<open>post_realloc\<close>.\<close>

fun post_request :: "request \<Rightarrow> malloc_counter \<Rightarrow> malloc_counter" where
  "post_request (Malloc n) c = c\<lparr>malloc_calls := malloc_calls c + 1, malloc_bytes := malloc_bytes c + n\<rparr>"
| "post_request (Free p) c = c\<lparr>free_calls := free_calls c + 1\<rparr>"
| "post_request (Realloc p n) c = c\<lparr>realloc_calls := realloc_calls c + 1, realloc_bytes := realloc_bytes c + n\<rparr>"

text \<open>The hooks of the C library, the static members of \<open>mtrace\<close>, and the requests the C library has
  carried out.\<close>

record tracing =
  hook_malloc :: hook
  hook_free :: hook
  hook_realloc :: hook
  old_malloc :: hook
  old_free :: hook
  old_realloc :: hook
  counters :: malloc_counter
  served :: "request list"

definition load_custom_hooks :: "tracing \<Rightarrow> tracing" where
  "load_custom_hooks s = s\<lparr>hook_malloc := TracerHook, hook_free := TracerHook, hook_realloc := TracerHook\<rparr>"

definition save_hooks :: "tracing \<Rightarrow> tracing" where
  "save_hooks s = s\<lparr>old_malloc := hook_malloc s, old_free := hook_free s, old_realloc := hook_realloc s\<rparr>"

definition restore_hooks :: "tracing \<Rightarrow> tracing" where
  "restore_hooks s = s\<lparr>hook_malloc := old_malloc s, hook_free := old_free s, hook_realloc := old_realloc s\<rparr>"

definition mtrace_construct :: "tracing \<Rightarrow> tracing" where
  "mtrace_construct s = load_custom_hooks (save_hooks (s\<lparr>counters := no_calls\<rparr>))"

definition mtrace_destroy :: "tracing \<Rightarrow> tracing" where
  "mtrace_destroy s = restore_hooks s"

fun hook_of :: "request \<Rightarrow> tracing \<Rightarrow> hook" where
  "hook_of (Malloc n) s = hook_malloc s"
| "hook_of (Free p) s = hook_free s"
| "hook_of (Realloc p n) s = hook_realloc s"

text \<open>A call of \<open>malloc\<close>, \<open>free\<close> or \<open>realloc\<close>; \<open>None\<close> means that it never returns. The branch of the tracer is
  the body of \<open>mtrace::malloc\<close>, \<open>mtrace::free\<close> and \<open>mtrace::realloc\<close>, which are alike.\<close>

partial_function (option) heap_call :: "request \<Rightarrow> tracing \<Rightarrow> tracing option" where
  "heap_call r s =
     (if hook_of r s = TracerHook
      then Option.bind (heap_call r (restore_hooks s)) (\<lambda>s'.
             Some (load_custom_hooks (save_hooks (s'\<lparr>counters := post_request r (counters s')\<rparr>))))
      else Some (s\<lparr>served := served s @ [r]\<rparr>))"

fun heap_calls :: "request list \<Rightarrow> tracing \<Rightarrow> tracing option" where
  "heap_calls [] s = Some s"
| "heap_calls (r # rs) s = Option.bind (heap_call r s) (heap_calls rs)"

definition untraced :: "tracing \<Rightarrow> bool" where
  "untraced s \<longleftrightarrow> hook_malloc s = NoHook \<and> hook_free s = NoHook \<and> hook_realloc s = NoHook"

definition traced :: "tracing \<Rightarrow> bool" where
  "traced s \<longleftrightarrow> hook_malloc s = TracerHook \<and> hook_free s = TracerHook \<and> hook_realloc s = TracerHook \<and>
     old_malloc s = NoHook \<and> old_free s = NoHook \<and> old_realloc s = NoHook"

lemma hook_of_untraced: "untraced s \<Longrightarrow> hook_of r s = NoHook"
  by (cases r) (simp_all add: untraced_def)

lemma hook_of_traced: "traced s \<Longrightarrow> hook_of r s = TracerHook"
  by (cases r) (simp_all add: traced_def)

lemma heap_call_untraced: "untraced s \<Longrightarrow> heap_call r s = Some (s\<lparr>served := served s @ [r]\<rparr>)"
  by (subst heap_call.simps) (simp add: hook_of_untraced)

lemma heap_call_traced:
  assumes "traced s"
  shows "heap_call r s = Some (s\<lparr>served := served s @ [r], counters := post_request r (counters s)\<rparr>)"
proof -
  have "untraced (restore_hooks s)" using assms by (simp add: traced_def untraced_def restore_hooks_def)
  from heap_call_untraced [OF this, of r] show ?thesis
    using assms hook_of_traced [OF assms, of r]
    by (subst heap_call.simps) (simp add: load_custom_hooks_def save_hooks_def restore_hooks_def traced_def)
qed

lemma heap_calls_traced:
  "traced s \<Longrightarrow> heap_calls rs s = Some (s\<lparr>served := served s @ rs, counters := fold post_request rs (counters s)\<rparr>)"
proof (induction rs arbitrary: s)
  case (Cons r rs)
  let ?s = "s\<lparr>served := served s @ [r], counters := post_request r (counters s)\<rparr>"
  have "traced ?s" using Cons.prems by (simp add: traced_def)
  from Cons.IH [OF this] show ?case using heap_call_traced [OF Cons.prems, of r] by simp
qed simp

lemma counted:
  "malloc_calls (fold post_request rs c) = malloc_calls c + of_nat (length [r \<leftarrow> rs. \<exists>n. r = Malloc n])"
  "free_calls (fold post_request rs c) = free_calls c + of_nat (length [r \<leftarrow> rs. \<exists>p. r = Free p])"
  "realloc_calls (fold post_request rs c) = realloc_calls c + of_nat (length [r \<leftarrow> rs. \<exists>p n. r = Realloc p n])"
  "malloc_bytes (fold post_request rs c) = malloc_bytes c + sum_list [n. Malloc n \<leftarrow> rs]"
  "realloc_bytes (fold post_request rs c) = realloc_bytes c + sum_list [n. Realloc p n \<leftarrow> rs]"
  by (induction rs arbitrary: c, simp_all)
    (rename_tac r rs c, case_tac r, simp_all add: algebra_simps)+

text \<open>Tracing is transparent and exact: from the constructor to the destructor of one \<open>mtrace\<close> object every heap
  call returns, is carried out once and in order, and is counted once; afterwards the hooks are
  those from before.\<close>

theorem mtrace_counts_every_call:
  assumes "untraced s"
  shows "\<exists>t. heap_calls rs (mtrace_construct s) = Some t \<and> served t = served s @ rs \<and>
    malloc_calls (counters t) = of_nat (length [r \<leftarrow> rs. \<exists>n. r = Malloc n]) \<and>
    free_calls (counters t) = of_nat (length [r \<leftarrow> rs. \<exists>p. r = Free p]) \<and>
    realloc_calls (counters t) = of_nat (length [r \<leftarrow> rs. \<exists>p n. r = Realloc p n]) \<and>
    malloc_bytes (counters t) = sum_list [n. Malloc n \<leftarrow> rs] \<and>
    realloc_bytes (counters t) = sum_list [n. Realloc p n \<leftarrow> rs] \<and> untraced (mtrace_destroy t)"
proof -
  have "traced (mtrace_construct s)"
    using assms by (simp add: mtrace_construct_def load_custom_hooks_def save_hooks_def traced_def untraced_def)
  from heap_calls_traced [OF this, of rs] show ?thesis
    using assms by (simp add: counted no_calls_def mtrace_construct_def load_custom_hooks_def save_hooks_def
        mtrace_destroy_def restore_hooks_def untraced_def)
qed

text \<open>Two \<open>mtrace\<close> objects at a time: the second one saves the hooks of the first as the original ones, so that
  the next heap call never returns.\<close>

theorem nested_mtrace_diverges: "heap_call r (mtrace_construct (mtrace_construct s)) = None"
proof -
  define t where "t = mtrace_construct (mtrace_construct s)"
  have same: "restore_hooks t = t"
    by (simp add: t_def mtrace_construct_def load_custom_hooks_def save_hooks_def restore_hooks_def)
  have hook: "hook_of r t = TracerHook"
    by (cases r) (simp_all add: t_def mtrace_construct_def load_custom_hooks_def save_hooks_def)
  have eq: "heap_call r t = Option.bind (heap_call r t)
      (\<lambda>s'. Some (load_custom_hooks (save_hooks (s'\<lparr>counters := post_request r (counters s')\<rparr>))))"
    using hook same by (subst (1) heap_call.simps) simp
  have ne: "post_request r c \<noteq> c" for c
  proof
    assume "post_request r c = c"
    then have "malloc_calls (post_request r c) = malloc_calls c" "free_calls (post_request r c) = free_calls c"
      "realloc_calls (post_request r c) = realloc_calls c" by simp_all
    then show False by (cases r) simp_all
  qed
  have "heap_call r t = None"
  proof (cases "heap_call r t")
    case (Some u)
    then have "u = load_custom_hooks (save_hooks (u\<lparr>counters := post_request r (counters u)\<rparr>))" using eq by simp
    then have "counters u = counters (load_custom_hooks (save_hooks (u\<lparr>counters := post_request r (counters u)\<rparr>)))"
      by (rule arg_cong)
    then show ?thesis using ne [of "counters u"] by (simp add: load_custom_hooks_def save_hooks_def)
  qed
  then show ?thesis by (simp add: t_def)
qed

section \<open>Hardware counters\<close>

text \<open>What the wrappers call: return codes, the counters that are read, texts of errors and events.\<close>

record papi_lib =
  PAPI_OK :: int
  PAPI_VER_CURRENT :: int
  PAPI_start_counters :: "int list \<Rightarrow> int"
  PAPI_read_counters :: "nat \<Rightarrow> int \<times> int list"
  PAPI_stop_counters :: "nat \<Rightarrow> int \<times> int list"
  PAPI_library_init :: "int \<Rightarrow> int"
  PAPI_create_eventset :: int
  PAPI_add_events :: "int list \<Rightarrow> int"
  PAPI_start :: int
  PAPI_read :: "int \<times> int list"
  PAPI_stop :: "int \<times> int list"
  PAPI_strerror :: "int \<Rightarrow> string"
  PAPI_event_code_to_name :: "int \<Rightarrow> string"

text \<open>A failed call throws an exception with a text.\<close>

definition check_code :: "papi_lib \<Rightarrow> string \<Rightarrow> int \<Rightarrow> string + unit" where
  "check_code P what ret = (if ret \<noteq> PAPI_OK P then Inl (what @ PAPI_strerror P ret) else Inr ())"

definition start_counters :: "papi_lib \<Rightarrow> int list \<Rightarrow> string + unit" where
  "start_counters P events = check_code P ''PAPI_start_counters failed with error: '' (PAPI_start_counters P events)"

definition reset_counters :: "papi_lib \<Rightarrow> int list \<Rightarrow> string + int list" where
  "reset_counters P events =
     (let (ret, cs) = PAPI_read_counters P (length events)
      in case check_code P ''PAPI_read_counters failed with error: '' ret of Inl e \<Rightarrow> Inl e | Inr _ \<Rightarrow> Inr cs)"

definition stop_counters :: "papi_lib \<Rightarrow> int list \<Rightarrow> string + int list" where
  "stop_counters P events =
     (let (ret, cs) = PAPI_stop_counters P (length events)
      in case check_code P ''PAPI_stop_counters failed with error: '' ret of Inl e \<Rightarrow> Inl e | Inr _ \<Rightarrow> Inr cs)"

text \<open>The version for newer libraries. \<open>likely_false\<close> turns its argument into a truth value; where the code
  closes its parenthesis early, the comparison is with that value, and in the last call the
  comparison is what is assigned to \<open>ret\<close>.\<close>

definition truth :: "int \<Rightarrow> int" where
  "truth x = (if x \<noteq> 0 then 1 else 0)"

definition start_counters2 :: "papi_lib \<Rightarrow> int list \<Rightarrow> string + unit" where
  "start_counters2 P events =
     (let ret = PAPI_library_init P (PAPI_VER_CURRENT P)
      in if ret \<noteq> PAPI_VER_CURRENT P
         then Inl (''PAPI_create_evPAPI_library_initntset failed with error: '' @ PAPI_strerror P ret)
         else let ret = PAPI_create_eventset P
         in if ret \<noteq> PAPI_OK P then Inl (''PAPI_create_eventset failed with error: '' @ PAPI_strerror P ret)
         else let ret = PAPI_add_events P events
         in if truth ret \<noteq> PAPI_OK P then Inl (''PAPI_add_events failed with error: '' @ PAPI_strerror P ret)
         else let ret = (if PAPI_start P \<noteq> PAPI_OK P then 1 else 0)
         in if ret \<noteq> 0 then Inl (''PAPI_start_counters failed with error: '' @ PAPI_strerror P ret)
         else Inr ())"

definition reset_counters2 :: "papi_lib \<Rightarrow> string + int list" where
  "reset_counters2 P =
     (let (ret, cs) = PAPI_read P
      in case check_code P ''PAPI_read_counters failed with error: '' ret of Inl e \<Rightarrow> Inl e | Inr _ \<Rightarrow> Inr cs)"

definition stop_counters2 :: "papi_lib \<Rightarrow> string + int list" where
  "stop_counters2 P =
     (let (ret, cs) = PAPI_stop P
      in case check_code P ''PAPI_stop_counters failed with error: '' ret of Inl e \<Rightarrow> Inl e | Inr _ \<Rightarrow> Inr cs)"

record papi_event =
  event_code :: int
  event_counter :: int

definition event_at :: "int list \<Rightarrow> int list \<Rightarrow> nat \<Rightarrow> papi_event result" where
  "event_at events cs i =
     rbind (array_get events i) (\<lambda>code. rbind (array_get cs i) (\<lambda>c. Inr \<lparr>event_code = code, event_counter = c\<rparr>))"

function find_event :: "int \<Rightarrow> int list \<Rightarrow> nat \<Rightarrow> int" where
  "find_event x ar i = (if length ar \<le> i then - 1 else if ar ! i = x then int i else find_event x ar (i + 1))"
  by pat_completeness auto
termination
  by (relation "measure (\<lambda>(x, ar, i). length ar - i)") auto

declare find_event.simps [simp del]

text \<open>\<open>get\<close>: an event that is not in the set is rejected by the compiler (\<open>None\<close>).\<close>

definition get_event :: "int list \<Rightarrow> int list \<Rightarrow> int \<Rightarrow> papi_event result option" where
  "get_event events cs code =
     (let eventIndex = find_event code events 0
      in if eventIndex = - 1 then None else Some (event_at events cs (nat eventIndex)))"

text \<open>Printing: the texts and numbers that are sent to the stream.\<close>

datatype token = Text string | Number int

definition print_event :: "papi_lib \<Rightarrow> papi_event \<Rightarrow> token list" where
  "print_event P e = [Text (PAPI_event_code_to_name P (event_code e)), Text ''='', Number (event_counter e)]"

function to_stream :: "papi_lib \<Rightarrow> int list \<Rightarrow> int list \<Rightarrow> nat \<Rightarrow> token list \<Rightarrow> token list result" where
  "to_stream P events cs n strm =
     (if length events \<le> n then Inr strm
      else (case event_at events cs n of
              Inl e \<Rightarrow> Inl e
            | Inr ev \<Rightarrow> to_stream P events cs (n + 1) (strm @ print_event P ev @ [Text '' ''])))"
  by pat_completeness auto
termination
  by (relation "measure (\<lambda>(P, events, cs, n, strm). length events - n)") auto

declare to_stream.simps [simp del]

lemma find_event_first:
  "find_event x ar i = (case filter (\<lambda>j. ar ! j = x) [i..<length ar] of [] \<Rightarrow> - 1 | j # js \<Rightarrow> int j)"
proof (induction x ar i rule: find_event.induct)
  case (1 x ar i)
  then show ?case by (subst find_event.simps) (auto simp: upt_conv_Cons)
qed

lemma find_event_value:
  "(find_event x ar 0 = - 1 \<longleftrightarrow> x \<notin> set ar)
   \<and> (x \<in> set ar \<longrightarrow> (\<exists>i. find_event x ar 0 = int i \<and> i < length ar \<and> ar ! i = x))"
proof (cases "filter (\<lambda>j. ar ! j = x) [0..<length ar]")
  case Nil
  then have "x \<notin> set ar" by (auto simp: filter_empty_conv in_set_conv_nth)
  then show ?thesis using Nil by (simp add: find_event_first)
next
  case (Cons j js)
  then have "j \<in> set (filter (\<lambda>j. ar ! j = x) [0..<length ar])" by simp
  then have "j < length ar" "ar ! j = x" by auto
  then show ?thesis using Cons by (auto simp: find_event_first)
qed

text \<open>\<open>get\<close> finds the counter of every event of the set, and the compiler rejects exactly the others.\<close>

theorem get_event_correct:
  assumes "length cs = length events"
  shows "(code \<notin> set events \<longrightarrow> get_event events cs code = None)
    \<and> (code \<in> set events \<longrightarrow> (\<exists>i < length events. events ! i = code \<and>
        get_event events cs code = Some (Inr \<lparr>event_code = code, event_counter = cs ! i\<rparr>)))"
  using find_event_value [of code events] assms by (auto simp: get_event_def event_at_def Let_def)

lemma to_stream_from:
  assumes "length cs = length events" and "n \<le> length events"
  shows "to_stream P events cs n strm = Inr (strm @ concat (map (\<lambda>i.
    print_event P \<lparr>event_code = events ! i, event_counter = cs ! i\<rparr> @ [Text '' '']) [n..<length events]))"
  using assms(2)
proof (induction "length events - n" arbitrary: n strm rule: less_induct)
  case less
  show ?case
  proof (cases "n < length events")
    case True
    then show ?thesis using less.hyps [of "n + 1"] assms(1)
      by (subst to_stream.simps) (simp add: event_at_def upt_conv_Cons)
  qed (use less.prems in \<open>subst to_stream.simps, simp\<close>)
qed

text \<open>With \<open>PAPI_OK = 0\<close> the misplaced parenthesis does no harm, but the error of \<open>PAPI_start\<close> is lost: the text is
  that of code \<open>1\<close>, whatever the code was.\<close>

theorem start_counters2_result:
  assumes "PAPI_OK P = 0" and "PAPI_library_init P (PAPI_VER_CURRENT P) = PAPI_VER_CURRENT P"
    and "PAPI_create_eventset P = 0"
  shows "start_counters2 P events =
    (if PAPI_add_events P events \<noteq> 0
     then Inl (''PAPI_add_events failed with error: '' @ PAPI_strerror P (PAPI_add_events P events))
     else if PAPI_start P \<noteq> 0 then Inl (''PAPI_start_counters failed with error: '' @ PAPI_strerror P 1)
     else Inr ())"
  using assms by (simp add: start_counters2_def truth_def)

end
