(* ===== verification/Spec2Isabelle.thy ===== *)
theory Spec2Isabelle
  imports Disruptor_Tests Bounded_Queue Lock_Benchmark Shared_Counters Spell_Checker Absl_Hash
    Loop_Patterns Memory_Patterns Micro_Benchmarks Instrumentation
begin

text \<open>
  A verification of the programs of the low latency workshop.

  \<^bold>\<open>The program.\<close> The repository has two parts. \<open>src/disruptor/\<close> is an event pipeline after the LMAX
  disruptor: a \<open>Producer\<close> claims a sequence number from the \<open>Sequencer\<close>, writes an \<open>Event\<close> into the
  \<open>RingBuffer\<close> and the \<open>EventProcessor\<close> threads that the \<open>Disruptor\<close> starts read it from there;
  \<open>naive_implementation/\<close> is the array queue it is compared with. \<open>src/design_patterns/\<close> is a collection of
  small programs, each of which does one thing in a plain and in an optimised way: locks and lock-free
  counters, cache lines, six versions of a word dictionary with a benchmark and a spell checker, vector
  kernels, loop transformations, prefetching, aliasing, dispatch, strings, and a file of micro benchmarks. The
  sixth dictionary is built on the hash table of the Abseil library in \<open>src/design_patterns/abseil-cpp/\<close>, whose table, hash
  function and bit routines are verified here too, since the dictionary is only as correct as its table.

  \<^bold>\<open>How the code is modelled.\<close> Structures are records, enumerations and tagged unions are datatypes. Fixed
  width integers are words where they wrap around or are taken apart bit by bit; elsewhere they are numbers
  with the wrap-around (\<open>sz\<close>) or the overflow check (\<open>to_int\<close>, \<open>to_long\<close>) written out. Undefined behaviour and
  failing assertions are values of the type \<open>ub\<close> (\<open>Workshop_Prelude\<close>): an operation returns \<open>Inl\<close> of one of them
  or \<open>Inr\<close> of its result, and every subscript is checked by \<open>array_get\<close> and \<open>array_set\<close>. A loop that might not end is a
  partial function with values in an option type, so that every theorem that gives a result also says that
  the loop ends. The two loops that depend on other threads take fuel: for the inner loop of a processor
  (\<open>drain\<close>) one unit more than events are waiting is enough; for the retry loop of the queue (\<open>produce\<close>) fuel \<open>1\<close> is
  enough when there is room, and no fuel when there is none. Threads are
  step relations (\<open>inductive\<close>) or schedules, one step per shared access, with sequentially consistent memory. In the
  disruptor, whose threads share objects that are not atomic, a state in which two threads are about to access
  such an object and one of them writes is a data race, which is a fault of the program like an access
  out of bounds (\<open>DataRace\<close>); what the theorems about interleavings say beyond a race is what the
  steps do, and C++ promises nothing there.
  What the code calls and does not define is an argument: \<open>std::hash\<close>, the hash function of a table (of which \<open>absl::Hash\<close> in
  \<open>Absl_Hash\<close> is one), the allocator and the
  addresses it returns, \<open>std::shuffle\<close> and \<open>std::sort\<close>, the enumeration order of unordered containers, the random
  device, files and floating point arithmetic. Theorems hold for all values of these arguments, or name
  what they need of them.

  \<^bold>\<open>The theories.\<close>

  \<^item> \<open>Workshop_Prelude\<close>: results, arrays, counting loops, powers of two.

  \<^item> \<open>Disruptor_Core\<close> (\<open>event.h\<close>, \<open>sequencer.h\<close>, \<open>ring_buffer.h\<close>, \<open>producer.h\<close>, \<open>event_processor.h\<close>, \<open>disruptor.h\<close>): the classes and
    their methods on a \<open>world\<close> of shared objects. \<open>Disruptor_Runs\<close>: runs in which one thread works at a time:
    what \<open>get\<close> selects, what a burst of \<open>on_data\<close> does, what a processor prints. \<open>Disruptor_Threads\<close>: the same methods as
    threads; invariants over all reachable states, the faults (data races on events and on \<open>running_\<close>, accesses
    out of bounds), and termination of \<open>halt\<close>.
    \<open>Disruptor_Tests\<close> (\<open>gtest_disruptor.cpp\<close>, \<open>bm_disruptor.cpp\<close>): the unit tests as scripts that run between the steps of
    the threads, and the time base of the benchmark.

  \<^item> \<open>Bounded_Queue\<close> (\<open>naive_implementation/\<close>): the array queue, shown to implement the locale \<open>bounded_fifo\<close>,
    against which producer and consumer are verified.

  \<^item> \<open>Lock_Benchmark\<close> (\<open>lock_free.cc\<close>): \<open>SpinLock\<close>, the locale \<open>lock_contract\<close>, mutual exclusion, an exact counter and the
    absence of deadlock. \<open>Shared_Counters\<close> (\<open>cache_line.cc\<close>): counters under every schedule, and cache lines.

  \<^item> \<open>Word_Dictionary\<close> (\<open>dictionary/v0\<close> to \<open>v4\<close>, \<open>dictionary.cc\<close>): the dictionaries and the benchmark. The tables of versions 3 and
    4 are instances of the locale \<open>probing\<close>, all versions of the locale \<open>dictionary\<close>. \<open>Spell_Checker\<close> (\<open>spellchecker/\<close>,
    \<open>util.hh\<close>): tokenizer, statistics and main program. \<open>Instrumentation\<close> (\<open>dictionary/ext/\<close>): the tracer of heap calls, which
    counts exactly while there is one and never returns when there are two, and the hardware counters.

  \<^item> \<open>Swiss_Groups\<close>, \<open>Swiss_Neon\<close>, \<open>Swiss_Probing\<close>, \<open>Swiss_Table\<close> (\<open>absl/container/internal/raw_hash_set.h\<close> and \<open>.cc\<close>): the
    hash table behind version 5, in the build of the repository (assertions on, no sanitizer). \<open>Swiss_Groups\<close> has the
    control bytes and the group implementations for x86 and without vector instructions, \<open>Swiss_Neon\<close> the one for
    AArch64, each shown to meet the locale \<open>control_group\<close>; \<open>Swiss_Probing\<close> the capacities
    and the probe sequence; \<open>Swiss_Table\<close> the state \<open>common_fields\<close> and the operations, with all addresses and the
    hash function in \<open>table_env\<close>. The proofs are done once for every group implementation, in the locale \<open>swiss\<close>:
    \<open>Swiss_Invariant\<close> (the invariant, lookup, placing an element, resizing), \<open>Swiss_Rehash\<close> (squeezing out
    tombstones in place), \<open>Swiss_Set\<close> (insertion and erasure), \<open>Swiss_Iteration\<close> (iteration, comparison, copy,
    \<open>clear\<close>, \<open>rehash\<close>, \<open>reserve\<close>), \<open>Swiss_Refinement\<close> (any sequence of operations refines one on a set, by the locale
    \<open>set_machine\<close>), \<open>Swiss_Transfer\<close> (moving, assignment, \<open>merge\<close> of two tables, node handles, erasure of ranges).
    \<open>Swiss_Dictionary\<close> has version 5 itself, the interpretations for the group implementations and
    the properties of the table. \<open>Swiss_Interface\<close> adds the rest of the insertion interface (hints, lists, \<open>lazy_emplace\<close>),
    \<open>equal_range\<close>, the debug access that counts probes and bytes, and the state machine of the generations.

  \<^item> \<open>Bit_Routines\<close> (\<open>absl/numeric/bits.h\<close>, \<open>internal/bits.h\<close>): the branches without compiler builtins of the routines that
    rotate, count and round to powers of two. \<open>Low_Level_Hash\<close> and \<open>City_Hash\<close> (\<open>absl/hash/internal/low_level_hash.cc\<close>, \<open>city.cc\<close>): the hashes of
    long byte sequences that the builds choose from. \<open>Absl_Hash\<close> (\<open>hash.h\<close>, \<open>hash.cc\<close>): the hash state; hashing in pieces is verified against
    the locale \<open>chunked_state\<close>, which the state of every build meets, and then hashing of integers, of strings, and of tables.

  \<^item> \<open>Array_Kernels\<close> (\<open>simd.cc\<close>, \<open>loop_unrolling.cc\<close>), \<open>Loop_Patterns\<close> (\<open>induction_variables\<close>, \<open>short_circuiting\<close>, \<open>branch_reduction\<close>,
    \<open>branch_prediction\<close>, \<open>cache_warming\<close>), \<open>Memory_Patterns\<close> (\<open>prefetching\<close>, \<open>pointer_aliasing\<close>), \<open>Object_Patterns\<close> (\<open>lto_wpo\<close>, \<open>crtp\<close>,
    \<open>union_vs_variant\<close>, \<open>sso\<close>), \<open>Micro_Benchmarks\<close> (\<open>test/test.cc\<close>): the plain and the optimised version of each program
    and what they have in common.

  \<^bold>\<open>What the theorems show.\<close> The properties are the theorems whose text begins with a number \<open>C1\<close>, \<open>C2\<close> and so on.
  Of the disruptor they show that it works for one event at a time and that the index computation of its ring
  buffer makes every event use slot 0, with an access outside the buffer at event \<open>N\<close>; that with one producer no
  interleaving loses or repeats a sequence number before that; that its undefined behaviour is that access and
  data races of two kinds, both of which occur for every size of the buffer, with the first event and at \<open>halt\<close>;
  that an event can be read before it is written, and that two producers can claim the same number. Of the queue: it is a bounded FIFO. Of the locks: mutual
  exclusion, an exact count, no deadlock. Of the hash table: every sequence of operations gives the answers of a
  set and never fails an assertion; the probe sequence covers the table; the in-place rehash ends and loses
  nothing; \<open>reserve\<close> prevents growth, and in sanitizer builds keeps the generation for as many insertions as it promised; copies compare equal; iteration sees every element once; \<open>merge\<close> moves exactly
  the elements its target lacks. Of its hash function: pieces hash like the whole, no read leaves the buffer, and tables
  that compare equal hash equal. Of the bit routines: they count what they say, for every unsigned type. Of the unit
  tests of the disruptor: their expectations hold under every schedule, and nothing but data races is undefined in them. Of the
  dictionaries: each of the six answers membership. Of the spell checker: the exact report on ASCII text, and
  the out-of-bounds access beyond. Of the kernels and patterns: optimised and plain versions agree, with the
  exact conditions under which they do.

  \<^bold>\<open>Bounds.\<close> Tables of the Swiss kind are considered up to a capacity of \<open>2 ^ 58\<close> (collections of \<open>2 ^ 50\<close> words, sequences of
  \<open>2 ^ 56\<close> operations): beyond the addressable memory of any machine, and needed because the code itself computes
  \<open>32 * size\<close> in 64 bits. Capacity grows at most to \<open>3 * size + 33\<close>, which is why the bound on the number of operations
  suffices. The tables of versions 3 and 4 are considered below \<open>2 ^ 63\<close> words.

  \<^bold>\<open>Not modelled.\<close> Timing, printing and the registration of benchmarks; \<open>wait_strategy.h\<close> and
  \<open>yield_wait_strategy.h\<close> (never called). Of the Swiss table: the sampling of \<open>hashtablez\<close>, and the generations inside the
  operations, which are modelled in the build without sanitizer. Of \<open>absl::Hash\<close>: big-endian builds
  and the overloads for types that no table of the repository holds. The rest of Abseil is a
  library that the programs do not call. Weak memory orders are not modelled: threads interleave.
\<close>

end
